(* ===== verification/Prelude.thy ===== *)
theory Prelude
  imports Main "HOL-Library.Word"
begin

text \<open>
  Shared vocabulary of the development: the machine types of the 32-bit Snitch
  cores, byte-addressed memory, the counting \<open>for\<close> loop of C as a fold, and the
  generic lemmas on words, lists and memory that the component theories use.
  The collection \<open>unat_simps\<close> holds the facts that move word arithmetic to
  \<open>nat\<close>; \<open>loop_simps\<close> the facts that unfold loops; \<open>mem_simps\<close> the frame and
  read-back facts of memory updates.
\<close>

unbundle bit_operations_syntax

named_theorems unat_simps
named_theorems loop_simps
named_theorems mem_simps

section \<open>Machine types\<close>

type_synonym u8 = "8 word"
type_synonym u16 = "16 word"
type_synonym u32 = "32 word"
type_synonym u64 = "64 word"

text \<open>
  The same bit patterns read as two's complement (\<^term>\<open>sint\<close>): C's
  \<open>int8_t\<close>, \<open>int32_t\<close> and \<open>int64_t\<close>. Pointers and \<open>size_t\<close> are 32 bits wide
  on the RV32 cores.
\<close>

type_synonym s8 = "8 word"
type_synonym s32 = "32 word"
type_synonym s64 = "64 word"
type_synonym ptr = "32 word"

text \<open>
  Physical memory, one byte per 64-bit address: the DMA engine takes 64-bit
  pointers, and a core's 32-bit pointer \<open>p\<close> denotes the address \<open>ucast p\<close>.
\<close>

type_synonym mem = "u64 \<Rightarrow> u8"

section \<open>Counting loops\<close>

text \<open>
  \<open>for_upto n body s\<close> is \<open>for (i = 0; i < n; i++) body\<close> on the state \<open>s\<close>.
\<close>

definition for_upto :: "nat \<Rightarrow> (nat \<Rightarrow> 's \<Rightarrow> 's) \<Rightarrow> 's \<Rightarrow> 's" where
  "for_upto n body s = fold body [0..<n] s"

lemma for_upto_0 [simp, loop_simps]: "for_upto 0 body s = s"
  by (simp add: for_upto_def)

lemma for_upto_Suc [loop_simps]: "for_upto (Suc n) body s = body n (for_upto n body s)"
  by (simp add: for_upto_def)

text \<open>The invariant rule of a counting loop.\<close>

lemma for_upto_invariant:
  assumes "P 0 s" and "\<And>i t. i < n \<Longrightarrow> P i t \<Longrightarrow> P (Suc i) (body i t)"
  shows "P n (for_upto n body s)"
proof -
  have "k \<le> n \<Longrightarrow> P k (for_upto k body s)" for k
    by (induction k) (use assms in \<open>auto simp: for_upto_Suc\<close>)
  then show ?thesis by simp
qed

lemma for_upto_cong:
  assumes "\<And>i t. i < n \<Longrightarrow> f i t = g i t"
  shows "for_upto n f s = for_upto n g s"
proof -
  have "k \<le> n \<Longrightarrow> for_upto k f s = for_upto k g s" for k
    by (induction k) (use assms in \<open>auto simp: for_upto_Suc\<close>)
  then show ?thesis by simp
qed

text \<open>A loop whose iteration \<open>i\<close> writes only cell \<open>addr i\<close> of a function.\<close>

lemma for_upto_writes:
  assumes inj: "inj_on addr {..<n}"
  shows "for_upto n (\<lambda>i m. m(addr i := v i)) m a =
    (if a \<in> addr ` {..<n} then v (the_inv_into {..<n} addr a) else m a)"
proof -
  have "k \<le> n \<Longrightarrow> (\<forall>i<k. for_upto k (\<lambda>i m. m(addr i := v i)) m (addr i) = v i) \<and>
      (\<forall>b. b \<notin> addr ` {..<k} \<longrightarrow> for_upto k (\<lambda>i m. m(addr i := v i)) m b = m b)" for k
  proof (induction k)
    case (Suc k)
    then have "\<forall>i<k. addr i \<noteq> addr k"
      using inj_onD [OF inj, of _ k] Suc.prems by force
    with Suc show ?case by (auto simp: for_upto_Suc less_Suc_eq lessThan_Suc)
  qed simp
  from this [of n] show ?thesis
    using inj by (auto simp: the_inv_into_f_f)
qed

lemma for_upto_writes_hit:
  assumes "inj_on addr {..<n}" and "i < n"
  shows "for_upto n (\<lambda>i m. m(addr i := v i)) m (addr i) = v i"
  using assms by (simp add: for_upto_writes the_inv_into_f_f)

lemma for_upto_writes_miss:
  assumes "\<And>i. i < n \<Longrightarrow> addr i \<noteq> a"
  shows "for_upto n (\<lambda>i m. m(addr i := v i)) m a = m a"
  by (rule for_upto_invariant [where P = "\<lambda>_ t. t a = m a"]) (use assms in auto)

text \<open>A counting loop that increments \<open>e\<close> whenever a test fails.\<close>

lemma for_upto_count:
  "for_upto n (\<lambda>i e. if p i then e + 1 else e) (e0 :: 'a::len word) =
    e0 + of_nat (card {i. i < n \<and> p i})"
proof (induction n)
  case (Suc n)
  have "{i. i < Suc n \<and> p i} = (if p n then insert n {i. i < n \<and> p i} else {i. i < n \<and> p i})"
    by (auto simp: less_Suc_eq)
  with Suc show ?case by (simp add: for_upto_Suc)
qed simp

text \<open>Nested counting loops.\<close>

lemma fold_product:
  "fold (\<lambda>(i, j). f i j) (List.product xs ys) s = fold (\<lambda>i s. fold (f i) ys s) xs s"
  by (induction xs arbitrary: s) (simp_all add: fold_map comp_def)

text \<open>The index tuples of nested counting loops, in the order of the iterations.\<close>

abbreviation upto_pairs :: "nat \<Rightarrow> nat \<Rightarrow> (nat \<times> nat) list" where
  "upto_pairs m n \<equiv> List.product [0..<m] [0..<n]"

lemma nest2: "for_upto m (\<lambda>i s. for_upto n (\<lambda>j s. f i j s) s) s = fold (\<lambda>(i, j). f i j) (upto_pairs m n) s"
  by (simp add: fold_product for_upto_def)

lemma nest3:
  "for_upto l (\<lambda>h s. for_upto m (\<lambda>i s. for_upto n (\<lambda>j s. f h i j s) s) s) s =
    fold (\<lambda>(h, i, j). f h i j) (List.product [0..<l] (upto_pairs m n)) s"
  by (simp add: fold_product for_upto_def nest2)

section \<open>Words\<close>

lemma unat_add_nowrap [unat_simps]:
  fixes a b :: "'a::len word"
  assumes "unat a + unat b < 2 ^ LENGTH('a)"
  shows "unat (a + b) = unat a + unat b"
  using assms by (simp add: unat_word_ariths)

lemma unat_mult_nowrap [unat_simps]:
  fixes a b :: "'a::len word"
  assumes "unat a * unat b < 2 ^ LENGTH('a)"
  shows "unat (a * b) = unat a * unat b"
  using assms by (simp add: unat_word_ariths)

lemma unat_of_nat_small [unat_simps]:
  assumes "n < 2 ^ LENGTH('a::len)"
  shows "unat (of_nat n :: 'a word) = n"
  using assms by (simp add: unat_of_nat)

lemma of_nat_inject_small:
  assumes "m < 2 ^ LENGTH('a::len)" "n < 2 ^ LENGTH('a)"
  shows "(of_nat m :: 'a word) = of_nat n \<longleftrightarrow> m = n"
  using assms by (metis unat_of_nat_small)

text \<open>Zero-extending a 32-bit pointer and adding a small offset never wraps.\<close>

lemma unat_bound: "unat (w :: 'a::len word) < 2 ^ LENGTH('a)"
  by (rule unsigned_less)

lemma unat_ucast_u64: "unat (ucast (p :: u32) :: u64) = unat p"
  using unat_bound [of p] by (simp add: unsigned_ucast_eq take_bit_nat_eq_self)

lemma ucast_offset_inject:
  fixes p q :: u32
  assumes "i < 2 ^ 63" "j < 2 ^ 63"
  shows "(ucast p :: u64) + of_nat i = ucast q + of_nat j \<longleftrightarrow> unat p + i = unat q + j"
proof -
  have bnd: "unat p < 2 ^ 32" "unat q < 2 ^ 32"
    using unat_bound [of p] unat_bound [of q] by simp_all
  have "unat ((ucast p :: u64) + of_nat i) = unat p + i"
       "unat ((ucast q :: u64) + of_nat j) = unat q + j"
    using assms bnd by (simp_all add: unat_simps unat_ucast_u64)
  then show ?thesis by (metis unsigned_word_eqI)
qed

text \<open>Consecutive bytes from a pointer.\<close>

lemma offset_u64_inj: "n \<le> 2 ^ 63 \<Longrightarrow> inj_on (\<lambda>i. (ucast (p :: ptr) :: u64) + of_nat i) {..<n}"
  by (rule inj_onI) (use ucast_offset_inject [of _ _ p p] in auto)

lemma unat_offset_u64: "i < 2 ^ 63 \<Longrightarrow> unat ((ucast (p :: ptr) :: u64) + of_nat i) = unat p + i"
  using unat_bound [of p] by (simp add: unat_simps unat_ucast_u64)

lemma ucast_offset_nowrap:
  assumes "unat (p :: ptr) + i < 2 ^ 32"
  shows "(ucast (p + of_nat i) :: u64) = ucast p + of_nat i"
proof -
  have "unat (p + of_nat i) = unat p + i" using assms by (simp add: unat_simps)
  then have "unat (ucast (p + of_nat i) :: u64) = unat (ucast p + of_nat i :: u64)"
    using assms by (simp add: unat_ucast_u64 unat_offset_u64)
  then show ?thesis by (rule unsigned_word_eqI)
qed

section \<open>Row-major indices\<close>

lemma row_major_inject:
  fixes r r' i i' w n :: nat
  assumes "i < n" "i' < n" "n \<le> w" "r * w + i = r' * w + i'"
  shows "r = r' \<and> i = i'"
proof -
  have "i < w" "i' < w" using assms by auto
  then have "(r * w + i) div w = r" "(r' * w + i') div w = r'" by auto
  with assms(4) have "r = r'" by simp
  with assms(4) show ?thesis by simp
qed

lemma row_major_bound:
  fixes r i w n k :: nat
  assumes "r < n" "i < k" "k \<le> w" "n * w < b"
  shows "r * w + i < b"
proof -
  have "r * w + i < (r + 1) * w" using assms by simp
  also have "\<dots> \<le> n * w" using assms by (intro mult_right_mono) auto
  finally show ?thesis using assms(4) by simp
qed

lemma row_major_less:
  fixes r i w n :: nat
  assumes "r < n" "i < w" shows "r * w + i < n * w"
proof -
  have "r * w + i < (r + 1) * w" using assms by simp
  also have "\<dots> \<le> n * w" using assms by (intro mult_right_mono) auto
  finally show ?thesis .
qed

lemma all_less_numeral:
  "(\<forall>k<2. P k) \<longleftrightarrow> P 0 \<and> P (1::nat)" "(\<forall>k<3. P k) \<longleftrightarrow> P 0 \<and> P 1 \<and> P (2::nat)"
  "(\<forall>k<4. P k) \<longleftrightarrow> P 0 \<and> P 1 \<and> P 2 \<and> P (3::nat)"
  by (auto simp: numeral_eq_Suc less_Suc_eq)

section \<open>Transition systems\<close>

text \<open>The states that a step relation reaches from an initial state.\<close>

inductive reachable :: "('s \<Rightarrow> bool) \<Rightarrow> ('s \<Rightarrow> 's \<Rightarrow> bool) \<Rightarrow> 's \<Rightarrow> bool"
  for init :: "'s \<Rightarrow> bool" and step :: "'s \<Rightarrow> 's \<Rightarrow> bool" where
  start: "init s \<Longrightarrow> reachable init step s"
| move: "reachable init step s \<Longrightarrow> step s t \<Longrightarrow> reachable init step t"

text \<open>
  The interface of a protocol proof: an invariant that holds initially and that every
  step keeps holds in every reachable state.
\<close>

locale step_invariant =
  fixes init :: "'s \<Rightarrow> bool" and step :: "'s \<Rightarrow> 's \<Rightarrow> bool" and inv :: "'s \<Rightarrow> bool"
  assumes inv_init: "init s \<Longrightarrow> inv s"
    and inv_step: "inv s \<Longrightarrow> step s t \<Longrightarrow> inv t"
begin

lemma reachable_inv: "reachable init step s \<Longrightarrow> inv s"
  by (induction rule: reachable.induct) (auto intro: inv_init inv_step)

end

end
