(* ===== verification/Team.thy ===== *)
theory Team
  imports Prelude
begin

text \<open>
  The platform description and the team queries: \<open>sw/snRuntime/src/team.h\<close>,
  \<open>target/snitch_cluster/sw/runtime/common/snitch_cluster_defs.h\<close> and
  \<open>snitch_cluster_memory.h\<close>. The numbers that the cluster generator writes into
  \<open>snitch_cluster_addrmap.h\<close>, \<open>snitch_cluster_cfg.h\<close> and
  \<open>snitch_cluster_peripheral.h\<close> are not in the repository: they are the fields of
  the record \<open>gen_cfg\<close>, an argument of every definition that uses them. A query
  runs on one hart, so it takes the value of that hart's \<open>mhartid\<close> CSR.
\<close>

section \<open>Platform parameters\<close>

record gen_cfg =
  CFG_CLUSTER_NR_CORES :: u32
  CFG_CLUSTER_BASE_HARTID :: u32
  CLUSTER_TCDM_BASE_ADDR :: u32
  CLUSTER_PERIPH_BASE_ADDR :: u32
  CLUSTER_ZERO_MEM_START_ADDR :: u32
  CL_CLINT_SET_REG_OFFSET :: u32
  CL_CLINT_CLEAR_REG_OFFSET :: u32
  HW_BARRIER_REG_OFFSET :: u32
  PERF_COUNTER_ENABLE_0_REG_OFFSET :: u32

text \<open>The hardware and software parameters the runtime is compiled with.\<close>

record snrt_defs =
  SNRT_BASE_HARTID :: u32
  SNRT_CLUSTER_CORE_NUM :: u32
  SNRT_CLUSTER_NUM :: u32
  SNRT_CLUSTER_DM_CORE_NUM :: u32
  SNRT_TCDM_START_ADDR :: u32
  SNRT_TCDM_SIZE :: u32
  SNRT_CLUSTER_OFFSET :: u32
  SNRT_CLUSTER_HW_BARRIER_ADDR :: u32
  SNRT_LOG2_STACK_SIZE :: nat

definition snitch_cluster_defs :: "gen_cfg \<Rightarrow> snrt_defs" where
  "snitch_cluster_defs g = \<lparr>
     SNRT_BASE_HARTID = CFG_CLUSTER_BASE_HARTID g,
     SNRT_CLUSTER_CORE_NUM = CFG_CLUSTER_NR_CORES g,
     SNRT_CLUSTER_NUM = 1,
     SNRT_CLUSTER_DM_CORE_NUM = 1,
     SNRT_TCDM_START_ADDR = CLUSTER_TCDM_BASE_ADDR g,
     SNRT_TCDM_SIZE = CLUSTER_PERIPH_BASE_ADDR g - CLUSTER_TCDM_BASE_ADDR g,
     SNRT_CLUSTER_OFFSET = 0x40000,
     SNRT_CLUSTER_HW_BARRIER_ADDR = CLUSTER_PERIPH_BASE_ADDR g + HW_BARRIER_REG_OFFSET g,
     SNRT_LOG2_STACK_SIZE = 10 \<rparr>"

section \<open>Memory map\<close>

definition snrt_l1_start_addr :: "gen_cfg \<Rightarrow> u32" where
  "snrt_l1_start_addr g = CLUSTER_TCDM_BASE_ADDR g"

definition snrt_l1_end_addr :: "gen_cfg \<Rightarrow> u32" where
  "snrt_l1_end_addr g = CLUSTER_PERIPH_BASE_ADDR g"

definition snrt_cluster_clint_set_ptr :: "gen_cfg \<Rightarrow> ptr" where
  "snrt_cluster_clint_set_ptr g = CLUSTER_PERIPH_BASE_ADDR g + CL_CLINT_SET_REG_OFFSET g"

definition snrt_cluster_clint_clr_ptr :: "gen_cfg \<Rightarrow> ptr" where
  "snrt_cluster_clint_clr_ptr g = CLUSTER_PERIPH_BASE_ADDR g + CL_CLINT_CLEAR_REG_OFFSET g"

definition snrt_cluster_hw_barrier_addr :: "gen_cfg \<Rightarrow> u32" where
  "snrt_cluster_hw_barrier_addr g = CLUSTER_PERIPH_BASE_ADDR g + HW_BARRIER_REG_OFFSET g"

definition snrt_cluster_perf_counters_addr :: "gen_cfg \<Rightarrow> u32" where
  "snrt_cluster_perf_counters_addr g =
     CLUSTER_PERIPH_BASE_ADDR g + PERF_COUNTER_ENABLE_0_REG_OFFSET g"

definition snrt_zero_memory_ptr :: "gen_cfg \<Rightarrow> ptr" where
  "snrt_zero_memory_ptr g = CLUSTER_ZERO_MEM_START_ADDR g"

section \<open>Team queries\<close>

definition snrt_cluster_num :: "snrt_defs \<Rightarrow> u32" where
  "snrt_cluster_num d = SNRT_CLUSTER_NUM d"

definition snrt_cluster_core_num :: "snrt_defs \<Rightarrow> u32" where
  "snrt_cluster_core_num d = SNRT_CLUSTER_CORE_NUM d"

definition snrt_global_core_base_hartid :: "snrt_defs \<Rightarrow> u32" where
  "snrt_global_core_base_hartid d = SNRT_BASE_HARTID d"

definition snrt_global_core_num :: "snrt_defs \<Rightarrow> u32" where
  "snrt_global_core_num d = snrt_cluster_num d * snrt_cluster_core_num d"

definition snrt_cluster_dm_core_num :: "snrt_defs \<Rightarrow> u32" where
  "snrt_cluster_dm_core_num d = SNRT_CLUSTER_DM_CORE_NUM d"

definition snrt_cluster_compute_core_num :: "snrt_defs \<Rightarrow> u32" where
  "snrt_cluster_compute_core_num d = snrt_cluster_core_num d - snrt_cluster_dm_core_num d"

definition snrt_global_compute_core_num :: "snrt_defs \<Rightarrow> u32" where
  "snrt_global_compute_core_num d = snrt_cluster_num d * snrt_cluster_compute_core_num d"

definition snrt_global_core_idx :: "snrt_defs \<Rightarrow> u32 \<Rightarrow> u32" where
  "snrt_global_core_idx d hartid = hartid - snrt_global_core_base_hartid d"

definition snrt_cluster_idx :: "snrt_defs \<Rightarrow> u32 \<Rightarrow> u32" where
  "snrt_cluster_idx d hartid = snrt_global_core_idx d hartid div snrt_cluster_core_num d"

definition snrt_cluster_core_idx :: "snrt_defs \<Rightarrow> u32 \<Rightarrow> u32" where
  "snrt_cluster_core_idx d hartid = snrt_global_core_idx d hartid mod snrt_cluster_core_num d"

definition snrt_global_compute_core_idx :: "snrt_defs \<Rightarrow> u32 \<Rightarrow> u32" where
  "snrt_global_compute_core_idx d hartid =
     snrt_cluster_idx d hartid * snrt_cluster_compute_core_num d + snrt_cluster_core_idx d hartid"

definition snrt_is_compute_core :: "snrt_defs \<Rightarrow> u32 \<Rightarrow> bool" where
  "snrt_is_compute_core d hartid \<longleftrightarrow>
     snrt_cluster_core_idx d hartid < snrt_cluster_compute_core_num d"

definition snrt_is_dm_core :: "snrt_defs \<Rightarrow> u32 \<Rightarrow> bool" where
  "snrt_is_dm_core d hartid \<longleftrightarrow> \<not> snrt_is_compute_core d hartid"

lemmas team_defs =
  snrt_cluster_num_def snrt_cluster_core_num_def snrt_global_core_base_hartid_def
  snrt_global_core_num_def snrt_cluster_dm_core_num_def snrt_cluster_compute_core_num_def
  snrt_global_compute_core_num_def snrt_global_core_idx_def snrt_cluster_idx_def
  snrt_cluster_core_idx_def snrt_global_compute_core_idx_def

section \<open>Well-formed platforms\<close>

text \<open>
  What the generated configuration promises: at least one core besides the DM
  cores, and core counts that fit the 32-bit arithmetic of the queries.
\<close>

definition wf_defs :: "snrt_defs \<Rightarrow> bool" where
  "wf_defs d \<longleftrightarrow>
     unat (SNRT_CLUSTER_DM_CORE_NUM d) < unat (SNRT_CLUSTER_CORE_NUM d) \<and>
     unat (SNRT_CLUSTER_NUM d) * unat (SNRT_CLUSTER_CORE_NUM d) < 2 ^ 32"

text \<open>The hart of cluster \<open>c\<close> with cluster-local index \<open>i\<close>, by the platform's numbering.\<close>

definition hart_of :: "snrt_defs \<Rightarrow> nat \<Rightarrow> nat \<Rightarrow> u32" where
  "hart_of d c i = SNRT_BASE_HARTID d + of_nat (c * unat (SNRT_CLUSTER_CORE_NUM d) + i)"

lemma unat_compute_core_num:
  assumes "wf_defs d"
  shows "unat (snrt_cluster_compute_core_num d) =
    unat (SNRT_CLUSTER_CORE_NUM d) - unat (SNRT_CLUSTER_DM_CORE_NUM d)"
  using assms by (simp add: wf_defs_def team_defs unat_sub_if')

lemma unat_global_core_idx_hart_of:
  assumes "wf_defs d" "c < unat (SNRT_CLUSTER_NUM d)" "i < unat (SNRT_CLUSTER_CORE_NUM d)"
  shows "unat (snrt_global_core_idx d (hart_of d c i)) = c * unat (SNRT_CLUSTER_CORE_NUM d) + i"
proof -
  let ?n = "unat (SNRT_CLUSTER_CORE_NUM d)"
  have "c * ?n + i < (c + 1) * ?n" using assms(3) by simp
  also have "\<dots> \<le> unat (SNRT_CLUSTER_NUM d) * ?n"
    using assms(2) by (intro mult_right_mono) auto
  also have "\<dots> < 2 ^ 32" using assms(1) by (simp add: wf_defs_def)
  finally have "unat (of_nat (c * ?n + i) :: u32) = c * ?n + i"
    by (intro unat_of_nat_small) simp
  then show ?thesis
    by (simp only: hart_of_def snrt_global_core_idx_def snrt_global_core_base_hartid_def
        add_diff_cancel_left')
qed

lemma unat_cluster_idx_hart_of:
  assumes "wf_defs d" "c < unat (SNRT_CLUSTER_NUM d)" "i < unat (SNRT_CLUSTER_CORE_NUM d)"
  shows "unat (snrt_cluster_idx d (hart_of d c i)) = c"
  using assms unat_global_core_idx_hart_of [OF assms]
  by (simp add: snrt_cluster_idx_def snrt_cluster_core_num_def unat_div)

lemma unat_cluster_core_idx_hart_of:
  assumes "wf_defs d" "c < unat (SNRT_CLUSTER_NUM d)" "i < unat (SNRT_CLUSTER_CORE_NUM d)"
  shows "unat (snrt_cluster_core_idx d (hart_of d c i)) = i"
  using assms unat_global_core_idx_hart_of [OF assms]
  by (simp add: snrt_cluster_core_idx_def snrt_cluster_core_num_def unat_mod)

lemma is_compute_core_hart_of:
  assumes "wf_defs d" "c < unat (SNRT_CLUSTER_NUM d)" "i < unat (SNRT_CLUSTER_CORE_NUM d)"
  shows "snrt_is_compute_core d (hart_of d c i) \<longleftrightarrow>
    i < unat (SNRT_CLUSTER_CORE_NUM d) - unat (SNRT_CLUSTER_DM_CORE_NUM d)"
  using assms unat_cluster_core_idx_hart_of [OF assms] unat_compute_core_num [OF assms(1)]
  by (simp add: snrt_is_compute_core_def word_less_nat_alt)

lemmas hart_of_simps =
  unat_cluster_idx_hart_of unat_cluster_core_idx_hart_of is_compute_core_hart_of

text \<open>The global compute index counts the compute cores cluster by cluster.\<close>

lemma unat_global_compute_core_idx:
  assumes "wf_defs d" "c < unat (SNRT_CLUSTER_NUM d)"
    and "i < unat (SNRT_CLUSTER_CORE_NUM d) - unat (SNRT_CLUSTER_DM_CORE_NUM d)"
  shows "unat (snrt_global_compute_core_idx d (hart_of d c i)) =
    c * (unat (SNRT_CLUSTER_CORE_NUM d) - unat (SNRT_CLUSTER_DM_CORE_NUM d)) + i"
proof -
  let ?n = "unat (SNRT_CLUSTER_CORE_NUM d)" and ?m = "unat (snrt_cluster_compute_core_num d)"
  have m: "?m = ?n - unat (SNRT_CLUSTER_DM_CORE_NUM d)"
    by (rule unat_compute_core_num [OF assms(1)])
  have i: "i < ?n" using assms(3) by simp
  have "c * ?m + i < (c + 1) * ?m" using assms(3) m by simp
  also have "\<dots> \<le> unat (SNRT_CLUSTER_NUM d) * ?n"
    using assms(2) m by (intro mult_mono) auto
  also have "\<dots> < 2 ^ 32" using assms(1) by (simp add: wf_defs_def)
  finally have "c * ?m + i < 2 ^ 32" .
  then show ?thesis
    using unat_cluster_idx_hart_of [OF assms(1,2) i]
      unat_cluster_core_idx_hart_of [OF assms(1,2) i]
    by (simp add: snrt_global_compute_core_idx_def unat_simps m)
qed

section \<open>Properties\<close>

definition harts :: "snrt_defs \<Rightarrow> u32 set" where
  "harts d = {hart_of d c i |c i. c < unat (SNRT_CLUSTER_NUM d) \<and> i < unat (SNRT_CLUSTER_CORE_NUM d)}"

definition compute_harts :: "snrt_defs \<Rightarrow> u32 set" where
  "compute_harts d = {h \<in> harts d. snrt_is_compute_core d h}"

lemma unat_global_compute_core_num:
  assumes "wf_defs d"
  shows "unat (snrt_global_compute_core_num d) =
    unat (SNRT_CLUSTER_NUM d) * (unat (SNRT_CLUSTER_CORE_NUM d) - unat (SNRT_CLUSTER_DM_CORE_NUM d))"
proof -
  have "unat (SNRT_CLUSTER_NUM d) * unat (snrt_cluster_compute_core_num d)
      \<le> unat (SNRT_CLUSTER_NUM d) * unat (SNRT_CLUSTER_CORE_NUM d)"
    unfolding unat_compute_core_num [OF assms] by (intro mult_left_mono) auto
  then have "unat (SNRT_CLUSTER_NUM d) * unat (snrt_cluster_compute_core_num d) < 2 ^ 32"
    using assms unfolding wf_defs_def by linarith
  then show ?thesis
    unfolding snrt_global_compute_core_num_def snrt_cluster_num_def
    by (simp add: unat_mult_nowrap unat_compute_core_num [OF assms])
qed

lemma compute_harts_eq:
  assumes "wf_defs d"
  shows "compute_harts d = {hart_of d c i |c i. c < unat (SNRT_CLUSTER_NUM d) \<and>
    i < unat (SNRT_CLUSTER_CORE_NUM d) - unat (SNRT_CLUSTER_DM_CORE_NUM d)}"
proof (intro equalityI subsetI)
  fix h assume "h \<in> compute_harts d"
  then show "h \<in> {hart_of d c i |c i. c < unat (SNRT_CLUSTER_NUM d) \<and>
      i < unat (SNRT_CLUSTER_CORE_NUM d) - unat (SNRT_CLUSTER_DM_CORE_NUM d)}"
    using is_compute_core_hart_of [OF assms] by (auto simp: compute_harts_def harts_def)
next
  fix h assume "h \<in> {hart_of d c i |c i. c < unat (SNRT_CLUSTER_NUM d) \<and>
      i < unat (SNRT_CLUSTER_CORE_NUM d) - unat (SNRT_CLUSTER_DM_CORE_NUM d)}"
  then obtain c i where "h = hart_of d c i" "c < unat (SNRT_CLUSTER_NUM d)"
      "i < unat (SNRT_CLUSTER_CORE_NUM d) - unat (SNRT_CLUSTER_DM_CORE_NUM d)"
      "i < unat (SNRT_CLUSTER_CORE_NUM d)" by auto
  then show "h \<in> compute_harts d"
    using is_compute_core_hart_of [OF assms] unfolding compute_harts_def harts_def by blast
qed

text \<open>
  C39. On a well-formed platform \<open>snrt_global_compute_core_idx\<close> numbers the compute cores
  of all clusters from 0 to \<open>snrt_global_compute_core_num\<close> without gap or repetition:
  work split by that index is done once.
\<close>

theorem global_compute_core_idx_bij:
  assumes "wf_defs d"
  shows "bij_betw (\<lambda>h. unat (snrt_global_compute_core_idx d h)) (compute_harts d)
    {..<unat (snrt_global_compute_core_num d)}"
proof -
  let ?m = "unat (SNRT_CLUSTER_CORE_NUM d) - unat (SNRT_CLUSTER_DM_CORE_NUM d)"
  let ?f = "\<lambda>h. unat (snrt_global_compute_core_idx d h)"
  have inj: "inj_on ?f (compute_harts d)"
  proof (rule inj_onI)
    fix h h' assume h: "h \<in> compute_harts d" and h': "h' \<in> compute_harts d" and eq: "?f h = ?f h'"
    obtain c i where ci: "h = hart_of d c i" "c < unat (SNRT_CLUSTER_NUM d)" "i < ?m"
      using h compute_harts_eq [OF assms] by auto
    obtain c' i' where ci': "h' = hart_of d c' i'" "c' < unat (SNRT_CLUSTER_NUM d)" "i' < ?m"
      using h' compute_harts_eq [OF assms] by auto
    have "c * ?m + i = c' * ?m + i'"
      using eq unat_global_compute_core_idx [OF assms] ci ci' by simp
    then have "c = c' \<and> i = i'" using row_major_inject [OF ci(3) ci'(3) order_refl] by simp
    then show "h = h'" using ci ci' by simp
  qed
  moreover have "?f ` compute_harts d = {..<unat (SNRT_CLUSTER_NUM d) * ?m}"
  proof (intro equalityI subsetI)
    fix x assume "x \<in> ?f ` compute_harts d"
    then show "x \<in> {..<unat (SNRT_CLUSTER_NUM d) * ?m}"
      using compute_harts_eq [OF assms] unat_global_compute_core_idx [OF assms]
      by (auto intro: row_major_less)
  next
    fix x assume x: "x \<in> {..<unat (SNRT_CLUSTER_NUM d) * ?m}"
    then have "0 < ?m" by (cases ?m) auto
    then have "x div ?m < unat (SNRT_CLUSTER_NUM d)" "x mod ?m < ?m"
      using x by (auto simp: less_mult_imp_div_less)
    moreover have "?f (hart_of d (x div ?m) (x mod ?m)) = x div ?m * ?m + x mod ?m"
      by (rule unat_global_compute_core_idx [OF assms]) fact+
    ultimately have "hart_of d (x div ?m) (x mod ?m) \<in> compute_harts d"
      "x = ?f (hart_of d (x div ?m) (x mod ?m))"
      using compute_harts_eq [OF assms] by (blast, simp only: div_mult_mod_eq)
    then show "x \<in> ?f ` compute_harts d" by (rule rev_image_eqI)
  qed
  ultimately show ?thesis
    by (simp add: bij_betw_def unat_global_compute_core_num [OF assms])
qed

text \<open>The platform of the default configuration: eight compute cores and one DM core.\<close>

definition example_cfg :: gen_cfg where
  "example_cfg = \<lparr>CFG_CLUSTER_NR_CORES = 9, CFG_CLUSTER_BASE_HARTID = 0,
     CLUSTER_TCDM_BASE_ADDR = 0x10000000, CLUSTER_PERIPH_BASE_ADDR = 0x10020000,
     CLUSTER_ZERO_MEM_START_ADDR = 0x10030000, CL_CLINT_SET_REG_OFFSET = 0x180,
     CL_CLINT_CLEAR_REG_OFFSET = 0x188, HW_BARRIER_REG_OFFSET = 0x190,
     PERF_COUNTER_ENABLE_0_REG_OFFSET = 0\<rparr>"

theorem global_compute_core_idx_bij_witness:
  "bij_betw (\<lambda>h. unat (snrt_global_compute_core_idx (snitch_cluster_defs example_cfg) h))
     (compute_harts (snitch_cluster_defs example_cfg)) {..<8}"
  using global_compute_core_idx_bij [of "snitch_cluster_defs example_cfg"]
  by (simp add: wf_defs_def snitch_cluster_defs_def example_cfg_def team_defs)

end
