(* ===== verification/Alloc.thy ===== *)
theory Alloc
  imports Team
begin

text \<open>
  The bump allocators of \<open>sw/snRuntime/src/alloc.h\<close>: one for the cluster's L1
  (TCDM), kept in the cluster-local storage \<open>cls_t\<close>, and one for L3. Nothing is
  ever freed. The allocator state is passed explicitly; the memory that
  \<open>snrt_memset\<close> writes is the byte map of the prelude.
\<close>

section \<open>State\<close>

record snrt_allocator_t =
  alloc_base :: u32
  alloc_size :: u32
  alloc_next :: u32

text \<open>Cluster-local storage, and the two allocators a core of the cluster reaches.\<close>

record cls_t =
  hw_barrier :: u32
  l1_allocator :: snrt_allocator_t

record alloc_state =
  cls :: cls_t
  l3_allocator :: snrt_allocator_t

definition MIN_CHUNK_SIZE :: u32 where
  "MIN_CHUNK_SIZE = 8"

definition ALIGN_UP :: "u32 \<Rightarrow> u32 \<Rightarrow> u32" where
  "ALIGN_UP addr sz = (addr + sz - 1) AND NOT (sz - 1)"

definition ALIGN_DOWN :: "u32 \<Rightarrow> u32 \<Rightarrow> u32" where
  "ALIGN_DOWN addr sz = addr AND NOT (sz - 1)"

section \<open>Operations\<close>

definition snrt_l1_allocator :: "alloc_state \<Rightarrow> snrt_allocator_t" where
  "snrt_l1_allocator s = l1_allocator (cls s)"

definition snrt_l3_allocator :: "alloc_state \<Rightarrow> snrt_allocator_t" where
  "snrt_l3_allocator s = l3_allocator s"

definition set_l1_allocator :: "snrt_allocator_t \<Rightarrow> alloc_state \<Rightarrow> alloc_state" where
  "set_l1_allocator a s = s\<lparr>cls := (cls s)\<lparr>l1_allocator := a\<rparr>\<rparr>"

definition snrt_l1_next :: "alloc_state \<Rightarrow> ptr" where
  "snrt_l1_next s = alloc_next (snrt_l1_allocator s)"

definition snrt_l3_next :: "alloc_state \<Rightarrow> ptr" where
  "snrt_l3_next s = alloc_next (snrt_l3_allocator s)"

definition snrt_l1alloc :: "u32 \<Rightarrow> alloc_state \<Rightarrow> ptr \<times> alloc_state" where
  "snrt_l1alloc sz s =
     (let alloc = snrt_l1_allocator s;
          sz = ALIGN_UP sz MIN_CHUNK_SIZE;
          ret = alloc_next alloc
      in (ret, set_l1_allocator (alloc\<lparr>alloc_next := alloc_next alloc + sz\<rparr>) s))"

definition snrt_l1_update_next :: "ptr \<Rightarrow> alloc_state \<Rightarrow> alloc_state" where
  "snrt_l1_update_next nxt s = set_l1_allocator ((snrt_l1_allocator s)\<lparr>alloc_next := nxt\<rparr>) s"

definition snrt_l3alloc :: "u32 \<Rightarrow> alloc_state \<Rightarrow> ptr \<times> alloc_state" where
  "snrt_l3alloc sz s =
     (let alloc = snrt_l3_allocator s; ret = alloc_next alloc
      in (ret, s\<lparr>l3_allocator := alloc\<lparr>alloc_next := alloc_next alloc + sz\<rparr>\<rparr>))"

text \<open>\<open>edram\<close> is the address of the linker symbol \<open>_edram\<close>.\<close>

definition snrt_alloc_init ::
  "gen_cfg \<Rightarrow> snrt_defs \<Rightarrow> u32 \<Rightarrow> u32 \<Rightarrow> alloc_state \<Rightarrow> alloc_state" where
  "snrt_alloc_init g d edram hartid s =
     (if snrt_is_dm_core d hartid then
        let b1 = ALIGN_UP (snrt_l1_start_addr g) MIN_CHUNK_SIZE;
            b3 = ALIGN_UP edram MIN_CHUNK_SIZE
        in (set_l1_allocator
              \<lparr>alloc_base = b1,
               alloc_size = snrt_l1_end_addr g - snrt_l1_start_addr g,
               alloc_next = b1\<rparr> s)
           \<lparr>l3_allocator := \<lparr>alloc_base = b3, alloc_size = 0, alloc_next = b3\<rparr>\<rparr>
      else s)"

text \<open>
  \<open>for (uint32_t i = 0; i < num; ++i) *((uint8_t *)ptr + i) = (unsigned char)value\<close>.
\<close>

definition snrt_memset :: "ptr \<Rightarrow> s32 \<Rightarrow> u32 \<Rightarrow> mem \<Rightarrow> ptr \<times> mem" where
  "snrt_memset p v num m =
     (p, for_upto (unat num) (\<lambda>i m. m(ucast (p + of_nat i) := ucast v)) m)"

section \<open>Sequences of allocations\<close>

text \<open>The chunks (start, rounded size) a sequence of \<open>snrt_l1alloc\<close> calls hands out.\<close>

fun l1alloc_seq :: "u32 list \<Rightarrow> alloc_state \<Rightarrow> (ptr \<times> u32) list \<times> alloc_state" where
  "l1alloc_seq [] s = ([], s)"
| "l1alloc_seq (sz # szs) s =
     (let (p, s1) = snrt_l1alloc sz s; (cs, s2) = l1alloc_seq szs s1
      in ((p, ALIGN_UP sz MIN_CHUNK_SIZE) # cs, s2))"

definition chunk_bytes :: "ptr \<times> u32 \<Rightarrow> nat set" where
  "chunk_bytes c = {unat (fst c) ..< unat (fst c) + unat (snd c)}"

section \<open>Alignment\<close>

lemma and_not_7_unat:
  fixes w :: u32
  shows "unat (w AND NOT 7) = unat w div 8 * 8"
proof -
  have "w AND NOT 7 = w AND NOT (mask 3)" by (simp add: mask_eq_exp_minus_1)
  also have "\<dots> = push_bit 3 (drop_bit 3 w)"
    by (simp add: bit_eq_iff bit_simps) auto
  also have "\<dots> = drop_bit 3 w * 8" by (simp add: push_bit_eq_mult)
  finally have eq: "w AND NOT 7 = drop_bit 3 w * 8" .
  have d: "unat (drop_bit 3 w) = unat w div 8"
    by (simp add: drop_bit_eq_div unat_div)
  have "unat w div 8 * 8 < 2 ^ 32"
    using unat_bound [of w] by simp
  then have "unat (drop_bit 3 w * 8) = unat w div 8 * 8"
    by (simp add: unat_mult_nowrap d)
  then show ?thesis by (simp only: eq)
qed

text \<open>\<open>ALIGN_UP(addr, 8)\<close> is the least multiple of 8 that is at least \<open>addr\<close>.\<close>

lemma unat_ALIGN_UP_8:
  assumes "unat a + 7 < 2 ^ 32"
  shows "unat (ALIGN_UP a MIN_CHUNK_SIZE) = (unat a + 7) div 8 * 8"
proof -
  have "a + 8 - 1 = a + 7" by simp
  moreover have "unat (a + 7) = unat a + 7"
    using assms by (subst unat_add_nowrap) auto
  ultimately show ?thesis
    using and_not_7_unat [of "a + 7"]
    by (simp add: ALIGN_UP_def MIN_CHUNK_SIZE_def add.commute)
qed

lemma ALIGN_UP_8_bounds:
  assumes "unat a + 7 < 2 ^ 32"
  shows "8 dvd unat (ALIGN_UP a MIN_CHUNK_SIZE)"
    and "unat a \<le> unat (ALIGN_UP a MIN_CHUNK_SIZE)"
    and "unat (ALIGN_UP a MIN_CHUNK_SIZE) < unat a + 8"
  using assms by (simp_all add: unat_ALIGN_UP_8)

section \<open>Correctness of the bump allocator\<close>

lemma snrt_l1alloc_simps [simp]:
  "fst (snrt_l1alloc sz s) = snrt_l1_next s"
  "snrt_l1_next (snd (snrt_l1alloc sz s)) = snrt_l1_next s + ALIGN_UP sz MIN_CHUNK_SIZE"
  "l3_allocator (snd (snrt_l1alloc sz s)) = l3_allocator s"
  by (simp_all add: snrt_l1alloc_def set_l1_allocator_def snrt_l1_next_def
      snrt_l1_allocator_def Let_def)

text \<open>The bytes a list of requests takes once every request is rounded up.\<close>

definition total_size :: "u32 list \<Rightarrow> nat" where
  "total_size szs = (\<Sum>sz\<leftarrow>szs. unat (ALIGN_UP sz MIN_CHUNK_SIZE))"

lemma total_size_take_Suc:
  "i < length szs \<Longrightarrow>
    total_size (take (Suc i) szs) = total_size (take i szs) + unat (ALIGN_UP (szs ! i) MIN_CHUNK_SIZE)"
  by (simp add: total_size_def take_Suc_conv_app_nth)

lemma total_size_take_mono: "i \<le> j \<Longrightarrow> total_size (take i szs) \<le> total_size (take j szs)"
proof -
  assume "i \<le> j"
  then have "take j szs = take i szs @ take (j - i) (drop i szs)"
    using take_add [of i "j - i" szs] by simp
  then show ?thesis by (simp add: total_size_def)
qed

lemma total_size_take_le: "total_size (take i szs) \<le> total_size szs"
  using total_size_take_mono [of i "max i (length szs)" szs] by simp

text \<open>Where the allocations land: request \<open>j\<close> starts after the rounded sizes before it.\<close>

lemma l1alloc_seq_length [simp]: "length (fst (l1alloc_seq szs s)) = length szs"
  by (induction szs arbitrary: s) (simp_all add: case_prod_beta Let_def)

lemma l1alloc_seq_nth:
  "j < length szs \<Longrightarrow> fst (l1alloc_seq szs s) ! j =
    (snrt_l1_next s + of_nat (total_size (take j szs)), ALIGN_UP (szs ! j) MIN_CHUNK_SIZE)"
proof (induction szs arbitrary: s j)
  case (Cons sz szs)
  then show ?case
    by (cases j) (simp_all add: case_prod_beta Let_def total_size_def algebra_simps)
qed simp

lemma l1alloc_seq_start:
  assumes "unat (snrt_l1_next s) + total_size szs < 2 ^ 32" and "j < length szs"
  shows "unat (fst (fst (l1alloc_seq szs s) ! j)) =
    unat (snrt_l1_next s) + total_size (take j szs)"
proof -
  have "total_size (take j szs) \<le> total_size szs" by (rule total_size_take_le)
  then show ?thesis
    using assms by (simp add: l1alloc_seq_nth unat_simps)
qed

lemma chunk_bytes_nth:
  assumes "unat (snrt_l1_next s) + total_size szs < 2 ^ 32" and "j < length szs"
  shows "chunk_bytes (fst (l1alloc_seq szs s) ! j) =
    {unat (snrt_l1_next s) + total_size (take j szs) ..<
     unat (snrt_l1_next s) + total_size (take (Suc j) szs)}"
  using l1alloc_seq_start [OF assms] assms(2)
  by (simp add: chunk_bytes_def total_size_take_Suc l1alloc_seq_nth add.assoc)

lemma l1alloc_seq_disjoint:
  assumes "unat (snrt_l1_next s) + total_size szs < 2 ^ 32" and "i < j" "j < length szs"
  shows "chunk_bytes (fst (l1alloc_seq szs s) ! i) \<inter> chunk_bytes (fst (l1alloc_seq szs s) ! j) = {}"
proof -
  have "total_size (take (Suc i) szs) \<le> total_size (take j szs)"
    using assms(2) by (intro total_size_take_mono) simp
  then show ?thesis using assms by (auto simp: chunk_bytes_nth)
qed

lemma total_size_dvd:
  assumes "\<forall>sz \<in> set szs. unat sz + 7 < 2 ^ 32"
  shows "8 dvd total_size szs"
  unfolding total_size_def using assms by (induction szs) (auto simp: unat_ALIGN_UP_8)

section \<open>Memset\<close>

lemma snrt_memset_byte:
  assumes "i < unat num" and "unat p + unat num \<le> 2 ^ 32"
  shows "snd (snrt_memset p v num m) (ucast p + of_nat i) = ucast v"
proof -
  have "snd (snrt_memset p v num m) =
      for_upto (unat num) (\<lambda>i m. m(ucast p + of_nat i := ucast v)) m"
    unfolding snrt_memset_def snd_conv using assms(2)
    by (intro for_upto_cong) (simp add: ucast_offset_nowrap)
  moreover have "inj_on (\<lambda>i. ucast p + of_nat i :: u64) {..<unat num}"
    using unat_bound [of num] by (intro offset_u64_inj) simp
  ultimately show ?thesis
    using for_upto_writes_hit [OF _ assms(1), of "\<lambda>i. ucast p + of_nat i" "\<lambda>_. ucast v" m] by simp
qed

section \<open>Properties\<close>

text \<open>
  C17. Every chunk that a sequence of \<open>snrt_l1alloc\<close> calls returns after
  \<open>snrt_alloc_init\<close> on the DM core starts on an 8-byte boundary, holds at least the
  requested number of bytes, and shares no byte with any other chunk of the
  sequence, as long as the rounded requests fit below the top of the address space.
\<close>

theorem l1alloc_aligned_disjoint:
  assumes dm: "snrt_is_dm_core d hartid"
    and start: "unat (snrt_l1_start_addr g) + 7 < 2 ^ 32"
    and small: "\<forall>sz \<in> set szs. unat sz + 7 < 2 ^ 32"
    and fits: "unat (ALIGN_UP (snrt_l1_start_addr g) MIN_CHUNK_SIZE) + total_size szs < 2 ^ 32"
    and cs: "cs = fst (l1alloc_seq szs (snrt_alloc_init g d edram hartid s))"
    and ij: "i < length szs" "j < length szs" "i \<noteq> j"
  shows "8 dvd unat (fst (cs ! i)) \<and> unat (szs ! i) \<le> unat (snd (cs ! i)) \<and>
    chunk_bytes (cs ! i) \<inter> chunk_bytes (cs ! j) = {}"
proof -
  let ?s = "snrt_alloc_init g d edram hartid s"
  have nxt: "snrt_l1_next ?s = ALIGN_UP (snrt_l1_start_addr g) MIN_CHUNK_SIZE"
    using dm by (simp add: snrt_alloc_init_def snrt_l1_next_def snrt_l1_allocator_def
        set_l1_allocator_def Let_def)
  have fits': "unat (snrt_l1_next ?s) + total_size szs < 2 ^ 32" using fits by (simp add: nxt)
  have "8 dvd total_size (take i szs)"
    using small by (intro total_size_dvd) (meson in_set_takeD)
  then have "8 dvd unat (fst (cs ! i))"
    using l1alloc_seq_start [OF fits' ij(1)] ALIGN_UP_8_bounds(1) [OF start]
    by (simp add: cs nxt)
  moreover have "unat (szs ! i) \<le> unat (snd (cs ! i))"
    using ALIGN_UP_8_bounds(2) small ij(1) by (simp add: cs l1alloc_seq_nth)
  moreover have "chunk_bytes (cs ! i) \<inter> chunk_bytes (cs ! j) = {}"
    using l1alloc_seq_disjoint [OF fits', of i j] l1alloc_seq_disjoint [OF fits', of j i] ij
    by (cases "i < j") (auto simp: cs)
  ultimately show ?thesis by blast
qed

definition alloc_zero :: alloc_state where
  "alloc_zero = (let z = \<lparr>alloc_base = 0, alloc_size = 0, alloc_next = 0\<rparr>
     in \<lparr>cls = \<lparr>hw_barrier = 0, l1_allocator = z\<rparr>, l3_allocator = z\<rparr>)"

theorem l1alloc_aligned_disjoint_witness:
  "let cs = fst (l1alloc_seq [3, 64, 5]
       (snrt_alloc_init example_cfg (snitch_cluster_defs example_cfg) 0x80001234 8 alloc_zero))
   in 8 dvd unat (fst (cs ! 1)) \<and> 64 \<le> unat (snd (cs ! 1)) \<and>
     chunk_bytes (cs ! 1) \<inter> chunk_bytes (cs ! 2) = {}"
  unfolding Let_def
  using l1alloc_aligned_disjoint [where d = "snitch_cluster_defs example_cfg" and hartid = 8
      and g = example_cfg and szs = "[3, 64, 5]" and edram = "0x80001234" and s = alloc_zero
      and i = 1 and j = 2, OF _ _ _ _ refl]
  by (simp add: snitch_cluster_defs_def example_cfg_def team_defs snrt_is_dm_core_def
      snrt_is_compute_core_def snrt_l1_start_addr_def ALIGN_UP_def MIN_CHUNK_SIZE_def total_size_def)

end
