(* ===== verification/Dma.thy ===== *)
theory Dma
  imports Alloc
begin

text \<open>
  The DMA front end of \<open>sw/snRuntime/src/dma.h\<close>. The runtime drives the engine by
  custom instructions that it assembles by hand (\<open>.word\<close> directives); the model
  assembles the same words, decodes them by the table of
  \<open>docs/rm/custom_instructions.md\<close>, and executes them on the front-end registers.
  A \<open>dmcpyi\<close> queues a transfer; the engine that moves the bytes is not part of the
  repository. It is the parameter \<open>exec\<close> of the definitions that wait for it,
  with the documented effect of a transfer as the laws of the locale
  \<open>dma_backend\<close>. Transfers complete in the order in which they were issued, some
  number of them between any two polls of the status: polling loops take that
  schedule as an argument.
\<close>

section \<open>State\<close>

record dma_req =
  req_id :: u32
  req_src :: u64
  req_dst :: u64
  req_size :: u32
  req_sstr :: u32
  req_dstr :: u32
  req_reps :: u32
  req_cfg :: u32

record dma_state =
  regs :: "nat \<Rightarrow> u32"
  fe_src :: u64
  fe_dst :: u64
  fe_sstr :: u32
  fe_dstr :: u32
  fe_reps :: u32
  next_id :: u32
  completed_id :: u32
  pending :: "dma_req list"
  dmem :: mem

section \<open>The Xdma instructions\<close>

datatype dm_instr =
    DMSRC nat nat       \<comment> \<open>rs2: high half, rs1: low half\<close>
  | DMDST nat nat
  | DMSTR nat nat       \<comment> \<open>rs2: destination stride, rs1: source stride\<close>
  | DMREP nat
  | DMCPYI nat nat nat  \<comment> \<open>configuration, rs1: size, rd\<close>
  | DMSTATI nat nat     \<comment> \<open>status selector, rd\<close>

definition dm_word :: "u32 \<Rightarrow> u32 \<Rightarrow> u32 \<Rightarrow> u32 \<Rightarrow> u32 \<Rightarrow> u32 \<Rightarrow> u32" where
  "dm_word funct7 rs2 rs1 funct3 rd opcode =
     push_bit 25 funct7 OR push_bit 20 rs2 OR push_bit 15 rs1 OR
     push_bit 12 funct3 OR push_bit 7 rd OR opcode"

definition bits_of :: "nat \<Rightarrow> nat \<Rightarrow> u32 \<Rightarrow> nat" where
  "bits_of lo len w = unat (take_bit len (drop_bit lo w))"

definition dm_decode :: "u32 \<Rightarrow> dm_instr option" where
  "dm_decode w =
     (let f7 = bits_of 25 7 w; rs2 = bits_of 20 5 w; rs1 = bits_of 15 5 w;
          f3 = bits_of 12 3 w; rd = bits_of 7 5 w
      in if bits_of 0 7 w \<noteq> 0b0101011 \<or> f3 \<noteq> 0 then None
         else if f7 = 0b0000000 then Some (DMSRC rs2 rs1)
         else if f7 = 0b0000001 then Some (DMDST rs2 rs1)
         else if f7 = 0b0000110 then Some (DMSTR rs2 rs1)
         else if f7 = 0b0000111 then Some (DMREP rs1)
         else if f7 = 0b0000010 then Some (DMCPYI rs2 rs1 rd)
         else if f7 = 0b0000100 then Some (DMSTATI rs2 rd)
         else None)"

definition dm_status :: "nat \<Rightarrow> dma_state \<Rightarrow> u32" where
  "dm_status sel st =
     (if sel = 0 then completed_id st
      else if sel = 1 then next_id st
      else if sel = 2 then (if pending st = [] then 0 else 1)
      else 0)"

text \<open>A write to register \<open>x0\<close> is discarded.\<close>

definition write_reg :: "nat \<Rightarrow> u32 \<Rightarrow> dma_state \<Rightarrow> dma_state" where
  "write_reg rd v st = (if rd = 0 then st else st\<lparr>regs := (regs st)(rd := v)\<rparr>)"

fun dm_exec :: "dm_instr \<Rightarrow> dma_state \<Rightarrow> dma_state" where
  "dm_exec (DMSRC hi lo) st = st\<lparr>fe_src := word_cat (regs st hi) (regs st lo)\<rparr>"
| "dm_exec (DMDST hi lo) st = st\<lparr>fe_dst := word_cat (regs st hi) (regs st lo)\<rparr>"
| "dm_exec (DMSTR rd rs) st = st\<lparr>fe_dstr := regs st rd, fe_sstr := regs st rs\<rparr>"
| "dm_exec (DMREP rs) st = st\<lparr>fe_reps := regs st rs\<rparr>"
| "dm_exec (DMCPYI cfg rs rd) st =
     (write_reg rd (next_id st) st)
       \<lparr>pending := pending st @
          [\<lparr>req_id = next_id st, req_src = fe_src st, req_dst = fe_dst st,
            req_size = regs st rs, req_sstr = fe_sstr st, req_dstr = fe_dstr st,
            req_reps = fe_reps st, req_cfg = of_nat cfg\<rparr>],
        next_id := next_id st + 1\<rparr>"
| "dm_exec (DMSTATI sel rd) st = write_reg rd (dm_status sel st) st"

definition asm_word :: "u32 \<Rightarrow> dma_state \<Rightarrow> dma_state" where
  "asm_word w st = (case dm_decode w of Some i \<Rightarrow> dm_exec i st | None \<Rightarrow> st)"

section \<open>Starting transfers\<close>

definition snrt_dma_start_1d_wideptr ::
  "u64 \<Rightarrow> u64 \<Rightarrow> u32 \<Rightarrow> dma_state \<Rightarrow> u32 \<times> dma_state" where
  "snrt_dma_start_1d_wideptr dst src sz st =
     (if sz > 0 then
        let st = st\<lparr>regs := (regs st)(10 := ucast dst, 11 := ucast (drop_bit 32 dst),
                     12 := ucast src, 13 := ucast (drop_bit 32 src), 14 := sz)\<rparr>;
            st = asm_word (dm_word 0b0000000 13 12 0b000 0 0b0101011) st;
            st = asm_word (dm_word 0b0000001 11 10 0b000 0 0b0101011) st;
            st = asm_word (dm_word 0b0000010 0b00000 14 0b000 10 0b0101011) st
        in (regs st 10, st)
      else (- 1, st))"

definition snrt_dma_start_1d :: "ptr \<Rightarrow> ptr \<Rightarrow> u32 \<Rightarrow> dma_state \<Rightarrow> u32 \<times> dma_state" where
  "snrt_dma_start_1d dst src sz st = snrt_dma_start_1d_wideptr (ucast dst) (ucast src) sz st"

definition snrt_dma_start_2d_wideptr ::
  "u64 \<Rightarrow> u64 \<Rightarrow> u32 \<Rightarrow> u32 \<Rightarrow> u32 \<Rightarrow> u32 \<Rightarrow> dma_state \<Rightarrow> u32 \<times> dma_state" where
  "snrt_dma_start_2d_wideptr dst src sz dst_stride src_stride repeat st =
     (if sz > 0 then
        let st = st\<lparr>regs := (regs st)(10 := ucast dst, 11 := ucast (drop_bit 32 dst),
                     12 := ucast src, 13 := ucast (drop_bit 32 src), 14 := sz,
                     15 := dst_stride, 16 := src_stride, 17 := repeat)\<rparr>;
            st = asm_word (dm_word 0b0000000 13 12 0b000 0 0b0101011) st;
            st = asm_word (dm_word 0b0000001 11 10 0b000 0 0b0101011) st;
            st = asm_word (dm_word 0b0000110 15 16 0b000 0 0b0101011) st;
            st = asm_word (dm_word 0b0000111 0 17 0b000 0 0b0101011) st;
            st = asm_word (dm_word 0b0000010 0b00010 14 0b000 10 0b0101011) st
        in (regs st 10, st)
      else (- 1, st))"

definition snrt_dma_start_2d ::
  "ptr \<Rightarrow> ptr \<Rightarrow> u32 \<Rightarrow> u32 \<Rightarrow> u32 \<Rightarrow> u32 \<Rightarrow> dma_state \<Rightarrow> u32 \<times> dma_state" where
  "snrt_dma_start_2d dst src sz dst_stride src_stride repeat st =
     snrt_dma_start_2d_wideptr (ucast dst) (ucast src) sz dst_stride src_stride repeat st"

section \<open>Waiting\<close>

text \<open>The engine completes the \<open>k\<close> oldest transfers.\<close>

definition dma_retire :: "(dma_req \<Rightarrow> mem \<Rightarrow> mem) \<Rightarrow> nat \<Rightarrow> dma_state \<Rightarrow> dma_state" where
  "dma_retire exec k st =
     st\<lparr>dmem := fold exec (take k (pending st)) (dmem st),
        completed_id := (if k = 0 \<or> pending st = [] then completed_id st
                         else req_id (last (take k (pending st)))),
        pending := drop k (pending st)\<rparr>"

text \<open>
  A polling loop: read the status, leave if \<open>leave\<close> holds, otherwise poll again.
  The schedule lists how many transfers complete before each next poll; when it is
  used up without an exit the loop is still running (\<open>None\<close>).
\<close>

fun poll_until ::
  "(dma_state \<Rightarrow> bool) \<Rightarrow> (dma_req \<Rightarrow> mem \<Rightarrow> mem) \<Rightarrow> nat list \<Rightarrow> dma_state \<Rightarrow> dma_state option"
where
  "poll_until leave exec [] st = (if leave st then Some st else None)"
| "poll_until leave exec (k # ks) st =
     (if leave st then Some st else poll_until leave exec ks (dma_retire exec k st))"

text \<open>\<open>dmstati t0, 0; sub t0, t0, tid; blez t0, 1b\<close>.\<close>

definition dma_wait_exit :: "u32 \<Rightarrow> dma_state \<Rightarrow> bool" where
  "dma_wait_exit tid st \<longleftrightarrow>
     (let t0 = regs (asm_word (dm_word 0b0000100 0b00000 0 0b000 5 0b0101011) st) 5
      in \<not> sint (t0 - tid) \<le> 0)"

definition snrt_dma_wait ::
  "u32 \<Rightarrow> (dma_req \<Rightarrow> mem \<Rightarrow> mem) \<Rightarrow> nat list \<Rightarrow> dma_state \<Rightarrow> dma_state option" where
  "snrt_dma_wait tid = poll_until (dma_wait_exit tid)"

text \<open>\<open>dmstati t0, 2; bne t0, zero, 1b\<close>.\<close>

definition dma_idle_exit :: "dma_state \<Rightarrow> bool" where
  "dma_idle_exit st \<longleftrightarrow>
     regs (asm_word (dm_word 0b0000100 0b00010 0 0b000 5 0b0101011) st) 5 = 0"

definition snrt_dma_wait_all ::
  "(dma_req \<Rightarrow> mem \<Rightarrow> mem) \<Rightarrow> nat list \<Rightarrow> dma_state \<Rightarrow> dma_state option" where
  "snrt_dma_wait_all = poll_until dma_idle_exit"

section \<open>Trace markers\<close>

definition snrt_dma_start_tracking :: "dma_state \<Rightarrow> dma_state" where
  "snrt_dma_start_tracking = dm_exec (DMSTATI 1 0)"

definition snrt_dma_stop_tracking :: "dma_state \<Rightarrow> dma_state" where
  "snrt_dma_stop_tracking = dm_exec (DMSTATI 3 0)"

section \<open>Memset and tiles\<close>

definition snrt_dma_memset ::
  "(dma_req \<Rightarrow> mem \<Rightarrow> mem) \<Rightarrow> nat list \<Rightarrow> ptr \<Rightarrow> u8 \<Rightarrow> u32 \<Rightarrow> dma_state \<Rightarrow> dma_state option" where
  "snrt_dma_memset exec sched p v len st =
     (let st = st\<lparr>dmem := for_upto 64 (\<lambda>i m. m(ucast (p + of_nat i) := v)) (dmem st)\<rparr>;
          (memset_txid, st) = snrt_dma_start_2d p p 64 64 0 (len div 64) st
      in snrt_dma_wait_all exec sched st)"

definition snrt_dma_load_1d_tile ::
  "ptr \<Rightarrow> ptr \<Rightarrow> u32 \<Rightarrow> u32 \<Rightarrow> u32 \<Rightarrow> dma_state \<Rightarrow> u32 \<times> dma_state" where
  "snrt_dma_load_1d_tile dst src tile_idx tile_size prec st =
     (let tile_nbytes = tile_size * prec
      in snrt_dma_start_1d dst (src + tile_idx * tile_nbytes) tile_nbytes st)"

definition snrt_dma_store_1d_tile ::
  "ptr \<Rightarrow> ptr \<Rightarrow> u32 \<Rightarrow> u32 \<Rightarrow> u32 \<Rightarrow> dma_state \<Rightarrow> u32 \<times> dma_state" where
  "snrt_dma_store_1d_tile dst src tile_idx tile_size prec st =
     (let tile_nbytes = tile_size * prec
      in snrt_dma_start_1d (dst + tile_idx * tile_nbytes) src tile_nbytes st)"

definition snrt_dma_load_2d_tile ::
  "ptr \<Rightarrow> ptr \<Rightarrow> u32 \<Rightarrow> u32 \<Rightarrow> u32 \<Rightarrow> u32 \<Rightarrow> u32 \<Rightarrow> u32 \<Rightarrow> dma_state \<Rightarrow> u32 \<times> dma_state" where
  "snrt_dma_load_2d_tile dst src tile_x1_idx tile_x0_idx tile_x1_size tile_x0_size
       full_x0_size prec st =
     (let src_offset = 0;
          src_offset = src_offset + tile_x0_idx * tile_x0_size;
          src_offset = src_offset + tile_x1_idx * tile_x1_size * full_x0_size;
          src_offset = src_offset * prec
      in snrt_dma_start_2d dst (src + src_offset) (tile_x0_size * prec)
           (tile_x0_size * prec) (full_x0_size * prec) tile_x1_size st)"

definition snrt_dma_store_2d_tile ::
  "ptr \<Rightarrow> ptr \<Rightarrow> u32 \<Rightarrow> u32 \<Rightarrow> u32 \<Rightarrow> u32 \<Rightarrow> u32 \<Rightarrow> u32 \<Rightarrow> dma_state \<Rightarrow> u32 \<times> dma_state" where
  "snrt_dma_store_2d_tile dst src tile_x1_idx tile_x0_idx tile_x1_size tile_x0_size
       full_x0_size prec st =
     (let dst_offset = 0;
          dst_offset = dst_offset + tile_x0_idx * tile_x0_size;
          dst_offset = dst_offset + tile_x1_idx * tile_x1_size * full_x0_size;
          dst_offset = dst_offset * prec
      in snrt_dma_start_2d (dst + dst_offset) src (tile_x0_size * prec)
           (full_x0_size * prec) (tile_x0_size * prec) tile_x1_size st)"

section \<open>What the assembled words do\<close>

lemma dm_decode_words [simp]:
  "dm_decode (dm_word 0b0000000 13 12 0b000 0 0b0101011) = Some (DMSRC 13 12)"
  "dm_decode (dm_word 0b0000001 11 10 0b000 0 0b0101011) = Some (DMDST 11 10)"
  "dm_decode (dm_word 0b0000110 15 16 0b000 0 0b0101011) = Some (DMSTR 15 16)"
  "dm_decode (dm_word 0b0000111 0 17 0b000 0 0b0101011) = Some (DMREP 17)"
  "dm_decode (dm_word 0b0000010 0b00000 14 0b000 10 0b0101011) = Some (DMCPYI 0 14 10)"
  "dm_decode (dm_word 0b0000010 0b00010 14 0b000 10 0b0101011) = Some (DMCPYI 2 14 10)"
  "dm_decode (dm_word 0b0000100 0b00000 0 0b000 5 0b0101011) = Some (DMSTATI 0 5)"
  "dm_decode (dm_word 0b0000100 0b00010 0 0b000 5 0b0101011) = Some (DMSTATI 2 5)"
  by (simp_all add: dm_decode_def dm_word_def bits_of_def)

lemma word_cat_halves [simp]:
  "word_cat (ucast (drop_bit 32 (a :: u64)) :: u32) (ucast a :: u32) = a"
  by (rule bit_word_eqI) (auto simp: bit_simps bit_word_cat_iff)

text \<open>The transfer that a start function queues.\<close>

definition req_1d :: "u32 \<Rightarrow> u64 \<Rightarrow> u64 \<Rightarrow> u32 \<Rightarrow> dma_state \<Rightarrow> dma_req" where
  "req_1d i dst src sz st =
     \<lparr>req_id = i, req_src = src, req_dst = dst, req_size = sz, req_sstr = fe_sstr st,
      req_dstr = fe_dstr st, req_reps = fe_reps st, req_cfg = 0\<rparr>"

definition req_2d :: "u32 \<Rightarrow> u64 \<Rightarrow> u64 \<Rightarrow> u32 \<Rightarrow> u32 \<Rightarrow> u32 \<Rightarrow> u32 \<Rightarrow> dma_req" where
  "req_2d i dst src sz dstr sstr reps =
     \<lparr>req_id = i, req_src = src, req_dst = dst, req_size = sz, req_sstr = sstr,
      req_dstr = dstr, req_reps = reps, req_cfg = 2\<rparr>"

lemma start_1d_wideptr_effect:
  assumes "sz > 0"
  shows "fst (snrt_dma_start_1d_wideptr dst src sz st) = next_id st"
    and "pending (snd (snrt_dma_start_1d_wideptr dst src sz st)) =
           pending st @ [req_1d (next_id st) dst src sz st]"
    and "dmem (snd (snrt_dma_start_1d_wideptr dst src sz st)) = dmem st"
    and "next_id (snd (snrt_dma_start_1d_wideptr dst src sz st)) = next_id st + 1"
    and "completed_id (snd (snrt_dma_start_1d_wideptr dst src sz st)) = completed_id st"
  using assms by (simp_all add: snrt_dma_start_1d_wideptr_def asm_word_def write_reg_def req_1d_def Let_def)

lemma start_2d_wideptr_effect:
  assumes "sz > 0"
  shows "fst (snrt_dma_start_2d_wideptr dst src sz ds ss r st) = next_id st"
    and "pending (snd (snrt_dma_start_2d_wideptr dst src sz ds ss r st)) =
           pending st @ [req_2d (next_id st) dst src sz ds ss r]"
    and "dmem (snd (snrt_dma_start_2d_wideptr dst src sz ds ss r st)) = dmem st"
    and "next_id (snd (snrt_dma_start_2d_wideptr dst src sz ds ss r st)) = next_id st + 1"
    and "completed_id (snd (snrt_dma_start_2d_wideptr dst src sz ds ss r st)) = completed_id st"
  using assms by (simp_all add: snrt_dma_start_2d_wideptr_def asm_word_def write_reg_def req_2d_def Let_def)

lemma start_zero_size:
  "snrt_dma_start_1d_wideptr dst src 0 st = (- 1, st)"
  "snrt_dma_start_2d_wideptr dst src 0 ds ss r st = (- 1, st)"
  by (simp_all add: snrt_dma_start_1d_wideptr_def snrt_dma_start_2d_wideptr_def)

text \<open>As their comment says, the trace markers have no effect on the hardware.\<close>

lemma tracking_no_effect:
  "snrt_dma_start_tracking st = st" "snrt_dma_stop_tracking st = st"
  by (simp_all add: snrt_dma_start_tracking_def snrt_dma_stop_tracking_def write_reg_def)

lemmas dma_start_simps =
  start_1d_wideptr_effect start_2d_wideptr_effect snrt_dma_start_1d_def snrt_dma_start_2d_def

lemma dma_idle_exit_iff [simp]: "dma_idle_exit st \<longleftrightarrow> pending st = []"
  by (simp add: dma_idle_exit_def asm_word_def write_reg_def dm_status_def)

lemma dma_wait_exit_iff: "dma_wait_exit tid st \<longleftrightarrow> 0 < sint (completed_id st - tid)"
  by (auto simp: dma_wait_exit_def asm_word_def write_reg_def dm_status_def)

section \<open>The engine\<close>

text \<open>
  The bytes a transfer moves, as (destination, source) address pairs in order: rows
  of \<open>req_size\<close> bytes, one row for a 1D transfer and \<open>req_reps\<close> rows, a stride apart,
  for a 2D one (bit 1 of the configuration). Strides are sign-extended.
\<close>

definition dma_rows :: "dma_req \<Rightarrow> nat" where
  "dma_rows q = (if bit (req_cfg q) 1 then unat (req_reps q) else 1)"

definition dma_dst_addr :: "dma_req \<Rightarrow> nat \<Rightarrow> nat \<Rightarrow> u64" where
  "dma_dst_addr q r i = req_dst q + of_nat r * scast (req_dstr q) + of_nat i"

definition dma_src_addr :: "dma_req \<Rightarrow> nat \<Rightarrow> nat \<Rightarrow> u64" where
  "dma_src_addr q r i = req_src q + of_nat r * scast (req_sstr q) + of_nat i"

definition dma_pairs :: "dma_req \<Rightarrow> (u64 \<times> u64) list" where
  "dma_pairs q = [(dma_dst_addr q r i, dma_src_addr q r i).
     r \<leftarrow> [0..<dma_rows q], i \<leftarrow> [0..<unat (req_size q)]]"

text \<open>
  No destination byte is written twice, and a source byte that the transfer also
  writes is only copied onto itself.
\<close>

definition dma_hazard_free :: "dma_req \<Rightarrow> bool" where
  "dma_hazard_free q \<longleftrightarrow> distinct (map fst (dma_pairs q)) \<and>
     (\<forall>(d, s) \<in> set (dma_pairs q). \<forall>(d', s') \<in> set (dma_pairs q). d' = s \<longrightarrow> s' = d')"

lemma set_dma_pairs:
  "set (dma_pairs q) = {(dma_dst_addr q r i, dma_src_addr q r i) |r i.
     r < dma_rows q \<and> i < unat (req_size q)}"
  by (force simp: dma_pairs_def)

locale dma_backend =
  fixes exec :: "dma_req \<Rightarrow> mem \<Rightarrow> mem"
  assumes exec_frame: "a \<notin> fst ` set (dma_pairs q) \<Longrightarrow> exec q m a = m a"
    and exec_copy: "dma_hazard_free q \<Longrightarrow> (d, s) \<in> set (dma_pairs q) \<Longrightarrow> exec q m d = m s"
begin

lemma exec_row:
  assumes "dma_hazard_free q" "r < dma_rows q" "i < unat (req_size q)"
  shows "exec q m (dma_dst_addr q r i) = m (dma_src_addr q r i)"
  using assms by (intro exec_copy) (auto simp: set_dma_pairs)

lemma exec_outside:
  assumes "\<And>r i. r < dma_rows q \<Longrightarrow> i < unat (req_size q) \<Longrightarrow> dma_dst_addr q r i \<noteq> a"
  shows "exec q m a = m a"
  using assms by (intro exec_frame) (force simp: set_dma_pairs)

end

text \<open>Copying the bytes one after the other obeys the laws.\<close>

fun copy_byte :: "u64 \<times> u64 \<Rightarrow> mem \<Rightarrow> mem" where
  "copy_byte (d, s) m = m(d := m s)"

definition copy_seq :: "dma_req \<Rightarrow> mem \<Rightarrow> mem" where
  "copy_seq q m = fold copy_byte (dma_pairs q) m"

lemma fold_copy_frame:
  "a \<notin> fst ` set ps \<Longrightarrow> fold copy_byte ps m a = m a"
  by (induction ps arbitrary: m) auto

lemma fold_copy_hit:
  assumes "distinct (map fst ps)" "(d, s) \<in> set ps"
    and "\<And>d' s'. (d', s') \<in> set ps \<Longrightarrow> d' = s \<Longrightarrow> s' = d'"
  shows "fold copy_byte ps m d = m s"
  using assms
proof (induction ps arbitrary: m)
  case (Cons p ps)
  obtain d' s' where p: "p = (d', s')" by (cases p)
  show ?case
  proof (cases "p = (d, s)")
    case True
    then show ?thesis using Cons.prems(1) p by (simp add: fold_copy_frame)
  next
    case False
    then have "(d, s) \<in> set ps" using Cons.prems(2) by simp
    moreover have "copy_byte p m s = m s" using Cons.prems(3) [of d' s'] p by auto
    moreover have "distinct (map fst ps)" using Cons.prems(1) by simp
    moreover have "\<And>d' s'. (d', s') \<in> set ps \<Longrightarrow> d' = s \<Longrightarrow> s' = d'"
      using Cons.prems(3) by simp
    ultimately show ?thesis using Cons.IH [of "copy_byte p m"] by simp
  qed
qed simp

interpretation seq_engine: dma_backend copy_seq
proof unfold_locales
  show "a \<notin> fst ` set (dma_pairs q) \<Longrightarrow> copy_seq q m a = m a" for a q m
    by (simp add: copy_seq_def fold_copy_frame)
  show "dma_hazard_free q \<Longrightarrow> (d, s) \<in> set (dma_pairs q) \<Longrightarrow> copy_seq q m d = m s" for q d s m
    unfolding copy_seq_def dma_hazard_free_def by (intro fold_copy_hit) auto
qed

section \<open>Waiting for completion\<close>

lemma dma_retire_all:
  "length (pending st) \<le> k \<Longrightarrow> dmem (dma_retire exec k st) = fold exec (pending st) (dmem st) \<and>
     pending (dma_retire exec k st) = []"
  by (simp add: dma_retire_def)

lemma dma_retire_fold:
  "fold exec (pending (dma_retire exec k st)) (dmem (dma_retire exec k st)) =
     fold exec (pending st) (dmem st)"
proof -
  have "fold exec (drop k ps) (fold exec (take k ps) m) = fold exec ps m" for ps m
    by (metis append_take_drop_id comp_apply fold_append)
  then show ?thesis by (simp add: dma_retire_def)
qed

lemma wait_all_partial:
  "snrt_dma_wait_all exec sched st = Some st' \<Longrightarrow>
     pending st' = [] \<and> dmem st' = fold exec (pending st) (dmem st)"
  unfolding snrt_dma_wait_all_def
proof (induction dma_idle_exit exec sched st rule: poll_until.induct)
  case (2 exec k ks st)
  then show ?case
    by (cases "pending st = []") (auto simp: dma_retire_fold)
qed (auto split: if_splits)

lemma wait_all_returns:
  "length (pending st) \<le> sum_list sched \<Longrightarrow> \<exists>st'. snrt_dma_wait_all exec sched st = Some st'"
  unfolding snrt_dma_wait_all_def
proof (induction sched arbitrary: st)
  case (Cons k ks)
  then have "length (pending (dma_retire exec k st)) \<le> sum_list ks"
    by (simp add: dma_retire_def)
  with Cons.IH show ?case by simp
qed simp

text \<open>Memory once the engine has performed everything queued.\<close>

definition dma_settled :: "(dma_req \<Rightarrow> mem \<Rightarrow> mem) \<Rightarrow> dma_state \<Rightarrow> mem" where
  "dma_settled exec st = fold exec (pending st) (dmem st)"

lemma wait_all_settles:
  assumes "length (pending st) \<le> sum_list sched"
  shows "\<exists>st'. snrt_dma_wait_all exec sched st = Some st' \<and> pending st' = [] \<and> dmem st' = dma_settled exec st"
  using wait_all_returns [OF assms, of exec] wait_all_partial unfolding dma_settled_def by blast

section \<open>Two-dimensional transfers between 32-bit regions\<close>

lemma scast_small:
  assumes "unat (s :: u32) < 2 ^ 31"
  shows "(scast s :: u64) = ucast s"
proof -
  have "uint s = int (unat s)" by simp
  then have "uint s < 2 ^ 31" using assms by (metis of_nat_less_iff of_nat_numeral of_nat_power)
  moreover have "- (2 ^ 31) \<le> uint s"
    by (rule order_trans [OF _ unsigned_greater_eq]) simp
  ultimately have "signed_take_bit 31 (uint s) = uint s"
    by (intro signed_take_bit_int_eq_self)
  then have "sint s = uint s" by (simp add: sint_uint)
  then show ?thesis by (simp only: scast_eq ucast_eq)
qed

lemma distinct_dma_dsts:
  assumes "inj_on (\<lambda>(r, i). dma_dst_addr q r i) ({..<dma_rows q} \<times> {..<unat (req_size q)})"
  shows "distinct (map fst (dma_pairs q))"
proof -
  have "map fst (dma_pairs q) = map (\<lambda>(r, i). dma_dst_addr q r i)
      (List.product [0..<dma_rows q] [0..<unat (req_size q)])"
    by (simp add: dma_pairs_def product_concat_map map_concat comp_def)
  moreover have "distinct (List.product [0..<dma_rows q] [0..<unat (req_size q)])"
    by (simp add: distinct_product)
  ultimately show ?thesis
    using assms by (simp add: distinct_map lessThan_atLeast0)
qed

lemma dma_addr_nat:
  assumes "unat (s :: u32) < 2 ^ 31" "r * unat s + i < 2 ^ 63"
  shows "unat (ucast (p :: u32) + of_nat r * scast s + of_nat i :: u64) = unat p + (r * unat s + i)"
proof -
  have "(ucast p + of_nat r * scast s + of_nat i :: u64) = ucast p + of_nat (r * unat s + i)"
    using assms(1) by (simp add: scast_small)
  moreover have "unat (ucast p + of_nat (r * unat s + i) :: u64) = unat p + (r * unat s + i)"
    using assms(2) unat_bound [of p]
    by (simp add: unat_simps unat_ucast_u64 del: of_nat_add of_nat_mult)
  ultimately show ?thesis by (simp only:)
qed

text \<open>Addresses of a 2D transfer between 32-bit pointers, as naturals.\<close>

lemma unat_dma_addr_2d:
  assumes "q = req_2d n (ucast (dst :: ptr)) (ucast (src :: ptr)) sz ds ss reps"
  shows "unat ds < 2 ^ 31 \<Longrightarrow> r * unat ds + i < 2 ^ 63 \<Longrightarrow>
           unat (dma_dst_addr q r i) = unat dst + (r * unat ds + i)"
    and "unat ss < 2 ^ 31 \<Longrightarrow> r * unat ss + i < 2 ^ 63 \<Longrightarrow>
           unat (dma_src_addr q r i) = unat src + (r * unat ss + i)"
  using assms dma_addr_nat by (simp_all add: dma_dst_addr_def dma_src_addr_def req_2d_def)

lemma dma_req_2d_simps [simp]:
  "dma_rows (req_2d n d s sz ds ss reps) = unat reps"
  "req_size (req_2d n d s sz ds ss reps) = sz"
  by (simp_all add: dma_rows_def req_2d_def)

text \<open>Destination rows that lie in order without overlap are written once each.\<close>

lemma rows_distinct:
  assumes q: "q = req_2d n (ucast (dst :: ptr)) (ucast (src :: ptr)) sz ds ss reps"
    and ds: "unat ds < 2 ^ 31" and le: "unat sz \<le> unat ds" and b: "unat reps * unat ds < 2 ^ 63"
  shows "distinct (map fst (dma_pairs q))"
proof (rule distinct_dma_dsts, clarsimp simp: inj_on_def)
  fix r k r' k'
  assume *: "r < dma_rows q" "k < unat (req_size q)" "r' < dma_rows q" "k' < unat (req_size q)"
    and eq: "dma_dst_addr q r k = dma_dst_addr q r' k'"
  have lt: "r < unat reps" "r' < unat reps" "k < unat sz" "k' < unat sz"
    using * by (simp_all add: q)
  have "unat (dma_dst_addr q r k) = unat (dma_dst_addr q r' k')" by (simp add: eq)
  then have "r * unat ds + k = r' * unat ds + k'"
    using unat_dma_addr_2d(1) [OF q ds] row_major_bound [OF lt(1,3) le b]
      row_major_bound [OF lt(2,4) le b] by simp
  then show "r = r' \<and> k = k'"
    using row_major_inject [OF lt(3,4) le] by simp
qed

text \<open>Such a transfer has no hazard when its source lies elsewhere.\<close>

lemma hazard_free_apart:
  assumes "distinct (map fst (dma_pairs q))"
    and "\<And>r i r' i'. r < dma_rows q \<Longrightarrow> i < unat (req_size q) \<Longrightarrow> r' < dma_rows q \<Longrightarrow>
           i' < unat (req_size q) \<Longrightarrow> dma_dst_addr q r i \<noteq> dma_src_addr q r' i'"
  shows "dma_hazard_free q"
  using assms by (fastforce simp: dma_hazard_free_def set_dma_pairs)

text \<open>Waiting for a single queued transfer.\<close>

lemma wait_single:
  assumes "pending st = [q]" and "0 < sum_list sched"
  shows "\<exists>st'. snrt_dma_wait_all exec sched st = Some st' \<and> pending st' = [] \<and>
    dmem st' = exec q (dmem st)"
  using wait_all_returns [of st sched exec] wait_all_partial [of exec sched st] assms
  by force

context dma_backend
begin

text \<open>
  A 2D transfer between 32-bit regions whose rows do not overlap and whose source
  is elsewhere, stated with addresses as naturals.
\<close>

lemma exec_2d:
  assumes q: "q = req_2d n (ucast (dst :: ptr)) (ucast (src :: ptr)) sz ds ss reps"
    and ds: "unat ds < 2 ^ 31" "unat sz \<le> unat ds" and ss: "unat ss < 2 ^ 31" "unat sz \<le> unat ss"
    and bd: "unat reps * unat ds < 2 ^ 63" and bs: "unat reps * unat ss < 2 ^ 63"
    and apart: "\<And>r i r' i'. r < unat reps \<Longrightarrow> i < unat sz \<Longrightarrow> r' < unat reps \<Longrightarrow> i' < unat sz \<Longrightarrow>
       unat dst + (r * unat ds + i) \<noteq> unat src + (r' * unat ss + i')"
    and r: "r < unat reps" and i: "i < unat sz"
  shows "exec q m (ucast dst + of_nat (r * unat ds + i)) = m (ucast src + of_nat (r * unat ss + i))"
proof -
  have D: "unat (dma_dst_addr q r i) = unat dst + (r * unat ds + i)"
    if "r < unat reps" "i < unat sz" for r i
    using unat_dma_addr_2d(1) [OF q ds(1)] row_major_bound [OF that ds(2) bd] by simp
  have S: "unat (dma_src_addr q r i) = unat src + (r * unat ss + i)"
    if "r < unat reps" "i < unat sz" for r i
    using unat_dma_addr_2d(2) [OF q ss(1)] row_major_bound [OF that ss(2) bs] by simp
  have "dma_hazard_free q"
  proof (rule hazard_free_apart)
    show "distinct (map fst (dma_pairs q))" by (rule rows_distinct [OF q ds bd])
    show "dma_dst_addr q r i \<noteq> dma_src_addr q r' i'"
      if "r < dma_rows q" "i < unat (req_size q)" "r' < dma_rows q" "i' < unat (req_size q)" for r i r' i'
      using that D S apart [of r i r' i'] by (metis dma_req_2d_simps q)
  qed
  from exec_row [OF this, of r i m] r i
  have "exec q m (dma_dst_addr q r i) = m (dma_src_addr q r i)" by (simp add: q)
  moreover have "dma_dst_addr q r i = ucast dst + of_nat (r * unat ds + i)"
    "dma_src_addr q r i = ucast src + of_nat (r * unat ss + i)"
    using ds(1) ss(1) by (simp_all add: q dma_dst_addr_def dma_src_addr_def req_2d_def scast_small)
  ultimately show ?thesis by simp
qed

end

section \<open>Memset\<close>

text \<open>
  The transfer of \<open>snrt_dma_memset\<close>: row \<open>r\<close> of the destination is the first row.
\<close>

lemma memset_dst_src:
  assumes q: "q = req_2d n (ucast (p :: ptr)) (ucast p) 64 64 0 reps" and "i < 64" "r < unat reps"
  shows "unat (dma_dst_addr q r i) = unat p + (r * 64 + i)"
    and "unat (dma_src_addr q r i) = unat p + i"
proof -
  have "r * 64 + i < 2 ^ 63" using assms unat_bound [of reps] by simp
  then show "unat (dma_dst_addr q r i) = unat p + (r * 64 + i)"
    using unat_dma_addr_2d(1) [OF q, of r i] by simp
  show "unat (dma_src_addr q r i) = unat p + i"
    using unat_dma_addr_2d(2) [OF q, of r i] assms(2) by simp
qed

lemma memset_self_copy:
  assumes q: "q = req_2d n (ucast (p :: ptr)) (ucast p) 64 64 0 reps"
    and lt: "r < unat reps" "i < 64" "r' < unat reps" "i' < 64"
    and eq: "dma_dst_addr q r' i' = dma_src_addr q r i"
  shows "dma_src_addr q r' i' = dma_dst_addr q r' i'"
proof -
  have D: "unat (dma_dst_addr q r' i') = unat p + (r' * 64 + i')"
    and S: "unat (dma_src_addr q r' i') = unat p + i'" "unat (dma_src_addr q r i) = unat p + i"
    using memset_dst_src [OF q] lt by blast+
  then have "r' * 64 + i' = i" using eq by simp
  then have "r' = 0" using lt by (cases r') auto
  then have "unat (dma_src_addr q r' i') = unat (dma_dst_addr q r' i')" using D S by simp
  then show ?thesis by (rule unsigned_word_eqI)
qed

lemma memset_hazard_free:
  assumes q: "q = req_2d n (ucast (p :: ptr)) (ucast p) 64 64 0 reps"
  shows "dma_hazard_free q"
  unfolding dma_hazard_free_def
proof (intro conjI ballI, goal_cases)
  case 1
  show ?case using unat_bound [of reps] by (intro rows_distinct [OF q]) auto
next
  case (2 x)
  then show ?case
  proof (clarsimp simp: set_dma_pairs, goal_cases)
    case (1 r i r' i')
    then show ?case using memset_self_copy [OF q, of r i r' i'] by (simp add: q)
  qed
qed

text \<open>The core writes the first row itself.\<close>

lemma memset_first_row:
  fixes m :: mem and v :: u8 and p :: ptr
  assumes "unat p + 64 \<le> 2 ^ 32"
  defines "m0 \<equiv> for_upto 64 (\<lambda>i m. m(ucast (p + of_nat i) := v)) m"
  shows "i < 64 \<Longrightarrow> m0 (ucast p + of_nat i) = v"
    and "unat a < unat p \<or> unat p + 64 \<le> unat a \<Longrightarrow> m0 a = m a"
proof -
  have m0: "m0 = for_upto 64 (\<lambda>i m. m(ucast p + of_nat i := v)) m"
    unfolding m0_def using assms(1) by (intro for_upto_cong) (simp add: ucast_offset_nowrap)
  show "i < 64 \<Longrightarrow> m0 (ucast p + of_nat i) = v"
    unfolding m0 by (rule for_upto_writes_hit [OF offset_u64_inj]) simp_all
  show "unat a < unat p \<or> unat p + 64 \<le> unat a \<Longrightarrow> m0 a = m a"
    unfolding m0 by (rule for_upto_writes_miss) (use unat_offset_u64 [of _ p] in force)
qed

context dma_backend
begin

text \<open>What the transfer makes of memory whose first row holds \<open>v\<close>.\<close>

lemma memset_exec:
  assumes q: "q = req_2d n (ucast (p :: ptr)) (ucast p) 64 64 0 (len div 64)"
    and dv: "64 dvd unat len" and row: "\<And>i. i < 64 \<Longrightarrow> m (ucast p + of_nat i) = v"
  shows "i < unat len \<Longrightarrow> exec q m (ucast p + of_nat i) = v"
    and "unat a < unat p \<or> unat p + unat len \<le> unat a \<Longrightarrow> exec q m a = m a"
proof -
  have reps: "unat (len div 64) = unat len div 64" by (simp add: unat_div)
  show "exec q m (ucast p + of_nat i) = v" if i: "i < unat len"
  proof -
    have r: "i div 64 < unat (len div 64)"
      using i dv unfolding reps by (simp add: less_mult_imp_div_less)
    have "(of_nat (i div 64) * 64 + of_nat (i mod 64) :: u64) = of_nat i"
      by (metis div_mult_mod_eq of_nat_add of_nat_mult of_nat_numeral)
    then have "dma_dst_addr q (i div 64) (i mod 64) = ucast p + of_nat i"
      by (simp add: q dma_dst_addr_def req_2d_def scast_small add.assoc)
    moreover have "dma_src_addr q (i div 64) (i mod 64) = ucast p + of_nat (i mod 64)"
      by (simp add: q dma_src_addr_def req_2d_def)
    ultimately show ?thesis
      using exec_row [OF memset_hazard_free [OF q], of "i div 64" "i mod 64" m] r row by (simp add: q)
  qed
  show "exec q m a = m a" if a: "unat a < unat p \<or> unat p + unat len \<le> unat a"
  proof (rule exec_outside)
    fix r i assume *: "r < dma_rows q" "i < unat (req_size q)"
    then have "unat (dma_dst_addr q r i) = unat p + (r * 64 + i)"
      using memset_dst_src(1) [OF q] by (simp add: q)
    moreover have "r * 64 + i < unat len" using * by (simp add: q reps)
    ultimately show "dma_dst_addr q r i \<noteq> a" using a by auto
  qed
qed

lemma memset_result:
  assumes len: "64 \<le> unat len" and dv: "64 dvd unat len" and fit: "unat p + unat len \<le> 2 ^ 32"
    and idle: "pending st = []" and sched: "0 < sum_list sched"
  shows "\<exists>st'. snrt_dma_memset exec sched p v len st = Some st' \<and> pending st' = [] \<and>
    (\<forall>i < unat len. dmem st' (ucast p + of_nat i) = v) \<and>
    (\<forall>a. unat a < unat p \<or> unat p + unat len \<le> unat a \<longrightarrow> dmem st' a = dmem st a)"
proof -
  define m0 where "m0 = for_upto 64 (\<lambda>i m. m(ucast (p + of_nat i) := v)) (dmem st)"
  define q where "q = req_2d (next_id st) (ucast p) (ucast p) 64 64 0 (len div 64)"
  have fit': "unat p + 64 \<le> 2 ^ 32" using len fit by simp
  note row = memset_first_row [OF fit', where v = v and m = "dmem st", folded m0_def]
  obtain st' where st': "snrt_dma_memset exec sched p v len st = Some st'" "pending st' = []"
      "dmem st' = exec q m0"
    using wait_single [of "snd (snrt_dma_start_2d p p 64 64 0 (len div 64) (st\<lparr>dmem := m0\<rparr>))" q sched exec]
      idle sched by (auto simp: snrt_dma_memset_def dma_start_simps case_prod_beta m0_def q_def)
  show ?thesis
    using st' memset_exec [OF q_def dv, where m = m0 and v = v, OF row(1)] row(2) len by fastforce
qed

end

section \<open>Tiles\<close>

text \<open>
  Byte \<open>b\<close> of element \<open>c\<close> of row \<open>r\<close> of the \<open>h \<times> w\<close> tile \<open>(i1, i0)\<close> of a row-major
  matrix with rows of \<open>W\<close> elements of \<open>pr\<close> bytes.
\<close>

definition tile_byte :: "nat \<Rightarrow> nat \<Rightarrow> nat \<Rightarrow> nat \<Rightarrow> nat \<Rightarrow> nat \<Rightarrow> nat \<Rightarrow> nat \<Rightarrow> nat \<Rightarrow> nat" where
  "tile_byte i1 i0 h w W pr r c b = ((i1 * h + r) * W + (i0 * w + c)) * pr + b"

definition tile_offset :: "nat \<Rightarrow> nat \<Rightarrow> nat \<Rightarrow> nat \<Rightarrow> nat \<Rightarrow> nat \<Rightarrow> nat" where
  "tile_offset i1 i0 h w W pr = (i0 * w + i1 * h * W) * pr"

text \<open>The tile lies inside a matrix of \<open>H\<close> rows that fits the 32-bit address space.\<close>

definition tile_ok :: "ptr \<Rightarrow> nat \<Rightarrow> nat \<Rightarrow> nat \<Rightarrow> nat \<Rightarrow> nat \<Rightarrow> nat \<Rightarrow> nat \<Rightarrow> bool" where
  "tile_ok p i1 i0 h w H W pr \<longleftrightarrow> 0 < h \<and> 0 < w \<and> 0 < pr \<and> (i1 + 1) * h \<le> H \<and> (i0 + 1) * w \<le> W \<and>
     W * pr < 2 ^ 31 \<and> unat p + H * W * pr < 2 ^ 32"

lemma tile_byte_split:
  "tile_byte i1 i0 h w W pr r c b = tile_offset i1 i0 h w W pr + (r * (W * pr) + (c * pr + b))"
  by (simp add: tile_byte_def tile_offset_def algebra_simps)

lemma tile_byte_bound:
  assumes "tile_ok p i1 i0 h w H W pr" "r < h" "c < w" "b < pr"
  shows "tile_byte i1 i0 h w W pr r c b < H * W * pr"
proof -
  have "i1 * h + r < H" "i0 * w + c < W"
    using assms row_major_less [of i1 "i1 + 1" r h] row_major_less [of i0 "i0 + 1" c w]
    unfolding tile_ok_def by linarith+
  then show ?thesis
    unfolding tile_byte_def by (intro row_major_less assms(4))
qed

text \<open>The pointer the code computes, and the sizes it passes, do not wrap.\<close>

lemma tile_ok_bounds:
  assumes ok: "tile_ok p i1 i0 h w H W pr"
  shows "unat p + tile_offset i1 i0 h w W pr < 2 ^ 32" "w * pr \<le> W * pr"
    "h * (W * pr) < 2 ^ 32" "h < 2 ^ 32" "W * pr < 2 ^ 31" "0 < w * pr" "w * pr < 2 ^ 31"
    "h * (w * pr) < 2 ^ 32"
proof -
  note ok' = ok [unfolded tile_ok_def]
  show wp: "W * pr < 2 ^ 31" "0 < w * pr" using ok' by auto
  have "tile_offset i1 i0 h w W pr < H * W * pr"
    using tile_byte_bound [OF ok, of 0 0 0] ok' by (simp add: tile_byte_split)
  then show "unat p + tile_offset i1 i0 h w W pr < 2 ^ 32" using ok' by linarith
  have le: "w \<le> W" "h \<le> H" "0 < W" using ok' by auto
  then show wW: "w * pr \<le> W * pr" by simp
  then show "w * pr < 2 ^ 31" using wp by linarith
  have "h * (W * pr) \<le> H * W * pr" using le(2) by (simp add: mult.assoc)
  then show hW: "h * (W * pr) < 2 ^ 32" using ok' by linarith
  have "h * (w * pr) \<le> h * (W * pr)" using wW by (rule mult_left_mono) simp
  then show hw: "h * (w * pr) < 2 ^ 32" using hW by linarith
  have "h * 1 \<le> h * (w * pr)" using wp(2) by (intro mult_left_mono) auto
  then show "h < 2 ^ 32" using hw by linarith
qed

lemma tile_ptr:
  assumes ok: "tile_ok p i1 i0 h w H W pr"
  defines "p' \<equiv> p + of_nat (tile_offset i1 i0 h w W pr)"
  shows "unat p' = unat p + tile_offset i1 i0 h w W pr"
    and "(ucast p' :: u64) + of_nat (r * (W * pr) + (c * pr + b)) =
           ucast p + of_nat (tile_byte i1 i0 h w W pr r c b)"
proof -
  note b = tile_ok_bounds(1) [OF ok]
  then have "tile_offset i1 i0 h w W pr < 2 ^ LENGTH(32)" by simp
  then have "unat (of_nat (tile_offset i1 i0 h w W pr) :: u32) = tile_offset i1 i0 h w W pr"
    by (rule unat_of_nat_small)
  then show "unat p' = unat p + tile_offset i1 i0 h w W pr"
    unfolding p'_def using b by (subst unat_add_nowrap) simp_all
  show "(ucast p' :: u64) + of_nat (r * (W * pr) + (c * pr + b)) =
           ucast p + of_nat (tile_byte i1 i0 h w W pr r c b)"
    unfolding p'_def ucast_offset_nowrap [OF b] tile_byte_split by (simp only: of_nat_add add.assoc)
qed

lemma tile_sizes:
  assumes "tile_ok p i1 i0 h w H W pr"
  shows "unat (of_nat (w * pr) :: u32) = w * pr" "unat (of_nat (W * pr) :: u32) = W * pr"
    "unat (of_nat h :: u32) = h"
  using tile_ok_bounds [OF assms] by (simp_all add: unat_of_nat_small del: of_nat_mult)

lemma tile_row_nonempty:
  assumes "tile_ok p i1 i0 h w H W pr"
  shows "0 < (of_nat w * of_nat pr :: u32)"
  using tile_sizes(1) [OF assms] tile_ok_bounds(6) [OF assms] by (simp add: word_less_nat_alt)

text \<open>The transfers that the tile functions queue.\<close>

lemma load_2d_tile_request:
  fixes dst src :: ptr
  assumes "tile_ok src i1 i0 h w H W pr" and "pending st = []"
  defines "st1 \<equiv> snd (snrt_dma_load_2d_tile dst src (of_nat i1) (of_nat i0) (of_nat h) (of_nat w)
      (of_nat W) (of_nat pr) st)"
  shows "pending st1 =
    [req_2d (next_id st) (ucast dst) (ucast (src + of_nat (tile_offset i1 i0 h w W pr)))
       (of_nat (w * pr)) (of_nat (w * pr)) (of_nat (W * pr)) (of_nat h)]"
    and "dmem st1 = dmem st"
  using assms(2) tile_row_nonempty [OF assms(1)]
  by (simp_all add: st1_def snrt_dma_load_2d_tile_def dma_start_simps tile_offset_def)

lemma store_2d_tile_request:
  fixes dst src :: ptr
  assumes "tile_ok dst i1 i0 h w H W pr" and "pending st = []"
  defines "st1 \<equiv> snd (snrt_dma_store_2d_tile dst src (of_nat i1) (of_nat i0) (of_nat h) (of_nat w)
      (of_nat W) (of_nat pr) st)"
  shows "pending st1 =
    [req_2d (next_id st) (ucast (dst + of_nat (tile_offset i1 i0 h w W pr))) (ucast src)
       (of_nat (w * pr)) (of_nat (W * pr)) (of_nat (w * pr)) (of_nat h)]"
    and "dmem st1 = dmem st"
  using assms(2) tile_row_nonempty [OF assms(1)]
  by (simp_all add: st1_def snrt_dma_store_2d_tile_def dma_start_simps tile_offset_def)

text \<open>Byte \<open>b\<close> of element \<open>(r, c)\<close> of a densely packed \<open>h \<times> w\<close> tile.\<close>

definition packed_byte :: "nat \<Rightarrow> nat \<Rightarrow> nat \<Rightarrow> nat \<Rightarrow> nat \<Rightarrow> nat" where
  "packed_byte w pr r c b = (r * w + c) * pr + b"

lemma packed_byte_split: "packed_byte w pr r c b = r * (w * pr) + (c * pr + b)"
  by (simp add: packed_byte_def algebra_simps)

definition tile_apart :: "ptr \<Rightarrow> ptr \<Rightarrow> nat \<Rightarrow> nat \<Rightarrow> nat \<Rightarrow> nat \<Rightarrow> nat \<Rightarrow> bool" where
  "tile_apart buf arr h w H W pr \<longleftrightarrow>
     unat buf + h * w * pr \<le> unat arr \<or> unat arr + H * W * pr \<le> unat buf"

text \<open>A row of \<open>w * pr\<close> bytes, as elements and bytes.\<close>

lemma row_byte_elem:
  fixes i w pr :: nat
  assumes "i < w * pr"
  shows "i div pr < w" "i mod pr < pr" "i = i div pr * pr + i mod pr"
proof -
  have "0 < pr" using assms by (cases pr) auto
  then show "i div pr < w" "i mod pr < pr" "i = i div pr * pr + i mod pr"
    using assms by (auto simp: less_mult_imp_div_less)
qed

lemma tile_apart_bytes:
  assumes ok: "tile_ok arr i1 i0 h w H W pr" and ap: "tile_apart buf arr h w H W pr"
    and lt: "r < h" "i < w * pr" "r' < h" "i' < w * pr"
  shows "unat buf + (r * (w * pr) + i) \<noteq>
    unat (arr + of_nat (tile_offset i1 i0 h w W pr)) + (r' * (W * pr) + i')"
proof -
  have "r * (w * pr) + i < h * (w * pr)" using lt by (intro row_major_less)
  moreover have "tile_offset i1 i0 h w W pr + (r' * (W * pr) + i') < H * W * pr"
    using tile_byte_bound [OF ok lt(3) row_byte_elem(1,2) [OF lt(4)]] row_byte_elem(3) [OF lt(4)]
    by (simp add: tile_byte_split)
  ultimately show ?thesis
    using ap by (auto simp: tile_ptr(1) [OF ok] tile_apart_def mult.assoc)
qed

lemma dma_dst_addr_2d:
  assumes "q = req_2d n (ucast (dst :: ptr)) src sz ds ss reps" and "unat ds < 2 ^ 31"
  shows "dma_dst_addr q r i = ucast dst + of_nat (r * unat ds + i)"
  using assms by (simp add: dma_dst_addr_def req_2d_def scast_small)

context dma_backend
begin

lemma load_2d_tile_result:
  assumes ok: "tile_ok src i1 i0 h w H W pr" and ap: "tile_apart dst src h w H W pr"
    and idle: "pending st = []" and sched: "0 < sum_list sched"
  shows "\<exists>st'. snrt_dma_wait_all exec sched (snd (snrt_dma_load_2d_tile dst src (of_nat i1) (of_nat i0)
      (of_nat h) (of_nat w) (of_nat W) (of_nat pr) st)) = Some st' \<and> pending st' = [] \<and>
    (\<forall>r<h. \<forall>c<w. \<forall>b<pr. dmem st' (ucast dst + of_nat (packed_byte w pr r c b)) =
       dmem st (ucast src + of_nat (tile_byte i1 i0 h w W pr r c b)))"
proof -
  note req = load_2d_tile_request [OF ok idle, of dst]
  note bnd = tile_ok_bounds [OF ok] and sz = tile_sizes [OF ok]
  define q where "q = req_2d (next_id st) (ucast dst) (ucast (src + of_nat (tile_offset i1 i0 h w W pr)))
       (of_nat (w * pr)) (of_nat (w * pr)) (of_nat (W * pr)) (of_nat h)"
  obtain st' where st': "snrt_dma_wait_all exec sched (snd (snrt_dma_load_2d_tile dst src (of_nat i1)
      (of_nat i0) (of_nat h) (of_nat w) (of_nat W) (of_nat pr) st)) = Some st'"
      "pending st' = []" "dmem st' = exec q (dmem st)"
    using wait_single [OF req(1) sched, of exec] req(2) q_def by metis
  have "dmem st' (ucast dst + of_nat (packed_byte w pr r c b)) =
       dmem st (ucast src + of_nat (tile_byte i1 i0 h w W pr r c b))"
    if "r < h" "c < w" "b < pr" for r c b
    using exec_2d [OF q_def, unfolded sz, where r = r and i = "c * pr + b" and m = "dmem st"]
      bnd tile_apart_bytes [OF ok ap] row_major_less [OF that(2,3)] that(1)
    by (simp add: st' packed_byte_split tile_ptr(2) [OF ok, symmetric])
  with st' show ?thesis by blast
qed

lemma store_2d_tile_result:
  assumes ok: "tile_ok dst i1 i0 h w H W pr" and ap: "tile_apart src dst h w H W pr"
    and idle: "pending st = []" and sched: "0 < sum_list sched"
  shows "\<exists>st'. snrt_dma_wait_all exec sched (snd (snrt_dma_store_2d_tile dst src (of_nat i1) (of_nat i0)
      (of_nat h) (of_nat w) (of_nat W) (of_nat pr) st)) = Some st' \<and> pending st' = [] \<and>
    (\<forall>r<h. \<forall>c<w. \<forall>b<pr. dmem st' (ucast dst + of_nat (tile_byte i1 i0 h w W pr r c b)) =
       dmem st (ucast src + of_nat (packed_byte w pr r c b))) \<and>
    (\<forall>a. (\<forall>r<h. \<forall>c<w. \<forall>b<pr. a \<noteq> ucast dst + of_nat (tile_byte i1 i0 h w W pr r c b)) \<longrightarrow>
       dmem st' a = dmem st a)"
proof -
  note req = store_2d_tile_request [OF ok idle, of src]
  note bnd = tile_ok_bounds [OF ok] and sz = tile_sizes [OF ok]
  define q where "q = req_2d (next_id st) (ucast (dst + of_nat (tile_offset i1 i0 h w W pr))) (ucast src)
       (of_nat (w * pr)) (of_nat (W * pr)) (of_nat (w * pr)) (of_nat h)"
  obtain st' where st': "snrt_dma_wait_all exec sched (snd (snrt_dma_store_2d_tile dst src (of_nat i1)
      (of_nat i0) (of_nat h) (of_nat w) (of_nat W) (of_nat pr) st)) = Some st'"
      "pending st' = []" "dmem st' = exec q (dmem st)"
    using wait_single [OF req(1) sched, of exec] req(2) q_def by metis
  have "dmem st' (ucast dst + of_nat (tile_byte i1 i0 h w W pr r c b)) =
       dmem st (ucast src + of_nat (packed_byte w pr r c b))"
    if "r < h" "c < w" "b < pr" for r c b
    using exec_2d [OF q_def, unfolded sz, where r = r and i = "c * pr + b" and m = "dmem st"]
      bnd tile_apart_bytes [OF ok ap, symmetric] row_major_less [OF that(2,3)] that(1)
    by (simp add: st' packed_byte_split tile_ptr(2) [OF ok, symmetric])
  moreover have "dmem st' a = dmem st a"
    if a: "\<forall>r<h. \<forall>c<w. \<forall>b<pr. a \<noteq> ucast dst + of_nat (tile_byte i1 i0 h w W pr r c b)" for a
  proof -
    have "dma_dst_addr q r i \<noteq> a" if "r < h" "i < w * pr" for r i
    proof -
      have "dma_dst_addr q r i = ucast (dst + of_nat (tile_offset i1 i0 h w W pr)) + of_nat (r * (W * pr) + i)"
        using dma_dst_addr_2d [OF q_def, unfolded sz] bnd(5) by simp
      then have "dma_dst_addr q r i = ucast dst + of_nat (tile_byte i1 i0 h w W pr r (i div pr) (i mod pr))"
        using tile_ptr(2) [OF ok, of r "i div pr" "i mod pr"] row_byte_elem(3) [OF that(2)] by simp
      then show ?thesis using a that(1) row_byte_elem [OF that(2)] by metis
    qed
    then show ?thesis unfolding st' by (intro exec_outside) (simp add: q_def sz del: of_nat_mult)
  qed
  ultimately show ?thesis using st' by blast
qed

end

section \<open>Properties\<close>

text \<open>An idle engine over memory that holds its own low address byte everywhere.\<close>

definition dma_reset :: dma_state where
  "dma_reset = \<lparr>regs = (\<lambda>_. 0), fe_src = 0, fe_dst = 0, fe_sstr = 0, fe_dstr = 0, fe_reps = 0,
     next_id = 0, completed_id = 0, pending = [], dmem = (\<lambda>a. ucast a)\<rparr>"

text \<open>
  C5. \<open>snrt_dma_memset\<close> on an idle engine that makes progress returns, and then every
  one of the \<open>len\<close> bytes from \<open>ptr\<close> holds the value and no other byte of memory has
  changed, for every length that is a positive multiple of the 64-byte bus width and
  every engine that obeys the transfer laws. The engine reads rows it also writes
  (source stride 0): only the first row, which it copies onto itself.
\<close>

theorem snrt_dma_memset_correct:
  assumes "dma_backend exec"
    and "64 \<le> unat len" and "64 dvd unat len" and "unat p + unat len \<le> 2 ^ 32"
    and "pending st = []" and "0 < sum_list sched"
  shows "\<exists>st'. snrt_dma_memset exec sched p v len st = Some st' \<and> pending st' = [] \<and>
    (\<forall>i < unat len. dmem st' (ucast p + of_nat i) = v) \<and>
    (\<forall>a. unat a < unat p \<or> unat p + unat len \<le> unat a \<longrightarrow> dmem st' a = dmem st a)"
  by (rule dma_backend.memset_result [OF assms])

theorem snrt_dma_memset_correct_witness:
  "\<exists>st'. snrt_dma_memset copy_seq [0, 1] 0x10000000 7 128 dma_reset = Some st' \<and> pending st' = [] \<and>
    (\<forall>i < 128. dmem st' (0x10000000 + of_nat i) = 7) \<and>
    (\<forall>a. unat a < 0x10000000 \<or> 0x10000080 \<le> unat a \<longrightarrow> dmem st' a = ucast a)"
  using snrt_dma_memset_correct [OF seq_engine.dma_backend_axioms, of 128 "0x10000000" dma_reset "[0, 1]" 7]
  by (simp add: dma_reset_def)

text \<open>
  C16. Loading the tile \<open>(i1, i0)\<close> of a row-major matrix with \<open>snrt_dma_load_2d_tile\<close> and
  waiting with \<open>snrt_dma_wait_all\<close> returns, and leaves in the buffer the densely packed
  tile: byte \<open>b\<close> of element \<open>(r, c)\<close> of the buffer is byte \<open>b\<close> of element
  \<open>(i1 * h + r, i0 * w + c)\<close> of the matrix, when tile and matrix fit the address space
  and the buffer lies outside the matrix.
\<close>

theorem snrt_dma_load_2d_tile_correct:
  assumes "dma_backend exec"
    and "tile_ok src i1 i0 h w H W pr" and "tile_apart dst src h w H W pr"
    and "pending st = []" and "0 < sum_list sched"
  shows "\<exists>st'. snrt_dma_wait_all exec sched (snd (snrt_dma_load_2d_tile dst src (of_nat i1) (of_nat i0)
      (of_nat h) (of_nat w) (of_nat W) (of_nat pr) st)) = Some st' \<and> pending st' = [] \<and>
    (\<forall>r<h. \<forall>c<w. \<forall>b<pr. dmem st' (ucast dst + of_nat (packed_byte w pr r c b)) =
       dmem st (ucast src + of_nat (tile_byte i1 i0 h w W pr r c b)))"
  by (rule dma_backend.load_2d_tile_result [OF assms])

theorem snrt_dma_load_2d_tile_correct_witness:
  "\<exists>st'. snrt_dma_wait_all copy_seq [1] (snd (snrt_dma_load_2d_tile 0x10000000 0x80000000 1 2 3 4 16 8
      dma_reset)) = Some st' \<and> pending st' = [] \<and>
    (\<forall>r<3. \<forall>c<4. \<forall>b<8. dmem st' (0x10000000 + of_nat (packed_byte 4 8 r c b)) =
       ucast (0x80000000 + of_nat (tile_byte 1 2 3 4 16 8 r c b) :: u64))"
  using snrt_dma_load_2d_tile_correct [OF seq_engine.dma_backend_axioms, of "0x80000000" 1 2 3 4 6 16 8
      "0x10000000" dma_reset "[1]"]
  by (simp add: dma_reset_def tile_ok_def tile_apart_def)

text \<open>
  C21. Storing a packed tile with \<open>snrt_dma_store_2d_tile\<close> and waiting returns, writes the
  tile into its place in the matrix, and changes no byte outside that tile: neither the
  other tiles of the matrix nor the buffer nor anything else.
\<close>

theorem snrt_dma_store_2d_tile_correct:
  assumes "dma_backend exec"
    and "tile_ok dst i1 i0 h w H W pr" and "tile_apart src dst h w H W pr"
    and "pending st = []" and "0 < sum_list sched"
  shows "\<exists>st'. snrt_dma_wait_all exec sched (snd (snrt_dma_store_2d_tile dst src (of_nat i1) (of_nat i0)
      (of_nat h) (of_nat w) (of_nat W) (of_nat pr) st)) = Some st' \<and> pending st' = [] \<and>
    (\<forall>r<h. \<forall>c<w. \<forall>b<pr. dmem st' (ucast dst + of_nat (tile_byte i1 i0 h w W pr r c b)) =
       dmem st (ucast src + of_nat (packed_byte w pr r c b))) \<and>
    (\<forall>a. (\<forall>r<h. \<forall>c<w. \<forall>b<pr. a \<noteq> ucast dst + of_nat (tile_byte i1 i0 h w W pr r c b)) \<longrightarrow>
       dmem st' a = dmem st a)"
  by (rule dma_backend.store_2d_tile_result [OF assms])

theorem snrt_dma_store_2d_tile_correct_witness:
  "\<exists>st'. snrt_dma_wait_all copy_seq [1] (snd (snrt_dma_store_2d_tile 0x80000000 0x10000000 1 2 3 4 16 8
      dma_reset)) = Some st' \<and>
    (\<forall>r<3. \<forall>c<4. \<forall>b<8. dmem st' (0x80000000 + of_nat (tile_byte 1 2 3 4 16 8 r c b)) =
       ucast (0x10000000 + of_nat (packed_byte 4 8 r c b) :: u64)) \<and>
    (\<forall>a. (\<forall>r<3. \<forall>c<4. \<forall>b<8. a \<noteq> 0x80000000 + of_nat (tile_byte 1 2 3 4 16 8 r c b)) \<longrightarrow>
       dmem st' a = ucast a)"
  using snrt_dma_store_2d_tile_correct [OF seq_engine.dma_backend_axioms, of "0x80000000" 1 2 3 4 6 16 8
      "0x10000000" dma_reset "[1]"]
  by (simp add: dma_reset_def tile_ok_def tile_apart_def) blast

text \<open>
  C38. \<open>snrt_dma_wait_all\<close> returns as soon as the engine has had time to complete what is
  queued, and when it returns, the effect on memory is that of all queued transfers, each
  exactly once and in the order of issue, whatever the interleaving of completions and polls.
\<close>

theorem snrt_dma_wait_all_completes:
  assumes "length (pending st) \<le> sum_list sched"
  shows "\<exists>st'. snrt_dma_wait_all exec sched st = Some st' \<and> pending st' = [] \<and>
    dmem st' = fold exec (pending st) (dmem st)"
  using wait_all_returns [OF assms, of exec] wait_all_partial by blast

theorem snrt_dma_wait_all_completes_witness:
  "\<exists>st'. snrt_dma_wait_all copy_seq [0, 2] (snd (snrt_dma_start_1d 0x30 0x20 4
       (snd (snrt_dma_start_1d 0x20 0x10 4 dma_reset)))) = Some st' \<and> pending st' = [] \<and>
     dmem st' = fold copy_seq (pending (snd (snrt_dma_start_1d 0x30 0x20 4
       (snd (snrt_dma_start_1d 0x20 0x10 4 dma_reset))))) ucast"
  using snrt_dma_wait_all_completes [of "snd (snrt_dma_start_1d 0x30 0x20 4
       (snd (snrt_dma_start_1d 0x20 0x10 4 dma_reset)))" "[0, 2]" copy_seq]
  by (simp add: dma_start_simps) (simp add: dma_reset_def)

end
