(* ===== verification/Sync.thy ===== *)
theory Sync
  imports Dma
begin

text \<open>
  Synchronisation: \<open>sw/snRuntime/src/sync.h\<close>. The mutexes and the software barrier are
  step relations in which any hart may execute its next memory access, so that every
  interleaving of the harts is a run; the reduction functions are modelled by the effect
  of their phases between barriers.
\<close>

section \<open>Mutexes\<close>

text \<open>
  The position of a hart in \<open>snrt_mutex_acquire\<close>, \<open>snrt_mutex_ttas_acquire\<close> and
  \<open>snrt_mutex_release\<close>. \<open>M_Swap t0\<close>: about to execute \<open>amoswap\<close> with the value of
  register \<open>t0\<close>.
\<close>

datatype mtx_pc = M_Idle | M_Load | M_Li | M_Swap u32 | M_Crit

record mtx_state =
  mtx :: u32
  mpc :: "nat \<Rightarrow> mtx_pc"

definition snrt_mutex_acquire :: mtx_pc where
  "snrt_mutex_acquire = M_Swap 1"

definition snrt_mutex_ttas_acquire :: mtx_pc where
  "snrt_mutex_ttas_acquire = M_Load"

definition snrt_mutex_release :: "u32 \<Rightarrow> mtx_pc \<times> u32" where
  "snrt_mutex_release m = (M_Idle, 0)"

text \<open>The next memory access of a hart, with the branch after it.\<close>

fun mutex_instr :: "mtx_pc \<Rightarrow> u32 \<Rightarrow> mtx_pc \<times> u32" where
  "mutex_instr M_Load m = (if m \<noteq> 0 then M_Load else M_Li, m)"
| "mutex_instr M_Li m = (M_Swap 1, m)"
| "mutex_instr (M_Swap t0) m = (if m \<noteq> 0 then M_Swap m else M_Crit, t0)"
| "mutex_instr M_Crit m = snrt_mutex_release m"
| "mutex_instr M_Idle m = (M_Idle, m)"

inductive mutex_step :: "nat \<Rightarrow> mtx_state \<Rightarrow> mtx_state \<Rightarrow> bool" for n :: nat where
  call: "\<lbrakk>i < n; mpc s i = M_Idle; e = snrt_mutex_acquire \<or> e = snrt_mutex_ttas_acquire\<rbrakk> \<Longrightarrow>
    mutex_step n s (s\<lparr>mpc := (mpc s)(i := e)\<rparr>)"
| instr: "\<lbrakk>i < n; mpc s i \<noteq> M_Idle; mutex_instr (mpc s i) (mtx s) = (pc', m')\<rbrakk> \<Longrightarrow>
    mutex_step n s \<lparr>mtx = m', mpc = (mpc s)(i := pc')\<rparr>"

definition mutex_init :: "mtx_state \<Rightarrow> bool" where
  "mutex_init s \<longleftrightarrow> mtx s = 0 \<and> (\<forall>i. mpc s i = M_Idle)"

text \<open>A waiting hart never stores 0; the mutex is free iff nobody is inside; at most one is.\<close>

definition mutex_inv :: "mtx_state \<Rightarrow> bool" where
  "mutex_inv s \<longleftrightarrow>
     (\<forall>i t0. mpc s i = M_Swap t0 \<longrightarrow> t0 \<noteq> 0) \<and>
     (mtx s = 0 \<longleftrightarrow> (\<forall>i. mpc s i \<noteq> M_Crit)) \<and>
     (\<forall>i j. mpc s i = M_Crit \<longrightarrow> mpc s j = M_Crit \<longrightarrow> i = j)"

lemma mutex_inv_instr:
  assumes inv: "mutex_inv s" and pc: "mpc s i \<noteq> M_Idle"
    and step: "mutex_instr (mpc s i) (mtx s) = (pc', m')"
  shows "mutex_inv \<lparr>mtx = m', mpc = (mpc s)(i := pc')\<rparr>"
proof (cases "mpc s i")
  case (M_Swap t0)
  then show ?thesis
    using inv step by (auto simp: mutex_inv_def split: if_splits) (metis mtx_pc.distinct)
next
  case M_Crit
  then show ?thesis
    using inv step by (auto simp: mutex_inv_def snrt_mutex_release_def)
next
  case M_Load
  then have "\<forall>j. ((mpc s)(i := pc')) j = M_Crit \<longleftrightarrow> mpc s j = M_Crit" "m' = mtx s" "\<forall>t0. pc' \<noteq> M_Swap t0"
    using step by (auto split: if_splits)
  then show ?thesis using inv by (auto simp: mutex_inv_def simp del: fun_upd_apply) (metis fun_upd_apply)+
next
  case M_Li
  then have "\<forall>j. ((mpc s)(i := pc')) j = M_Crit \<longleftrightarrow> mpc s j = M_Crit" "m' = mtx s" "pc' = M_Swap 1"
    using step by auto
  then show ?thesis using inv by (auto simp: mutex_inv_def simp del: fun_upd_apply)
      (metis fun_upd_apply mtx_pc.inject zero_neq_one)+
qed (use pc in simp)

interpretation mutex: step_invariant mutex_init "mutex_step n" mutex_inv for n
proof unfold_locales
  show "mutex_inv s" if "mutex_init s" for s
    using that by (simp add: mutex_init_def mutex_inv_def)
  show "mutex_inv t" if "mutex_inv s" "mutex_step n s t" for s t
    using that(2)
  proof (cases rule: mutex_step.cases)
    case (call i e)
    then show ?thesis
      using that(1) by (auto simp: mutex_inv_def snrt_mutex_acquire_def snrt_mutex_ttas_acquire_def)
  next
    case (instr i pc' m')
    then show ?thesis using mutex_inv_instr [OF that(1)] by simp
  qed
qed

text \<open>
  C6. Mutual exclusion: whatever the interleaving of any number of harts, each using
  \<open>snrt_mutex_acquire\<close> or \<open>snrt_mutex_ttas_acquire\<close>, no two harts are between acquiring
  and releasing the mutex at the same time.
\<close>

theorem mutex_mutual_exclusion:
  assumes "reachable mutex_init (mutex_step n) s" "mpc s i = M_Crit" "mpc s j = M_Crit"
  shows "i = j"
  using mutex.reachable_inv [OF assms(1)] assms(2,3) by (simp add: mutex_inv_def)

text \<open>
  The mutex is never lost: whenever nobody holds it, the next \<open>amoswap\<close> of any waiting
  hart takes it, and from the critical section one \<open>snrt_mutex_release\<close> makes it free.
\<close>

lemma mutex_available:
  assumes "reachable mutex_init (mutex_step n) s" "\<forall>j. mpc s j \<noteq> M_Crit" "mpc s i = M_Swap t0"
  shows "mutex_instr (mpc s i) (mtx s) = (M_Crit, t0) \<and>
    mutex_instr M_Crit t0 = (M_Idle, mtx s)"
  using mutex.reachable_inv [OF assms(1)] assms(2,3) by (simp add: mutex_inv_def snrt_mutex_release_def)

text \<open>A run in which hart 0 holds the mutex and hart 1 waits for it.\<close>

definition mutex_run :: "nat \<Rightarrow> mtx_state" where
  "mutex_run k = [
     \<lparr>mtx = 0, mpc = \<lambda>_. M_Idle\<rparr>,
     \<lparr>mtx = 0, mpc = (\<lambda>_. M_Idle)(0 := M_Swap 1)\<rparr>,
     \<lparr>mtx = 1, mpc = (\<lambda>_. M_Idle)(0 := M_Crit)\<rparr>] ! k"

lemma mutex_run_reachable: "reachable mutex_init (mutex_step 2) (mutex_run k)" if "k \<le> 2"
proof -
  have 0: "reachable mutex_init (mutex_step 2) (mutex_run 0)"
    by (rule reachable.start) (simp add: mutex_init_def mutex_run_def)
  have "mutex_step 2 (mutex_run 0) (mutex_run 1)"
    using mutex_step.call [of 0 2 "mutex_run 0" snrt_mutex_acquire]
    by (simp add: mutex_run_def snrt_mutex_acquire_def)
  then have 1: "reachable mutex_init (mutex_step 2) (mutex_run 1)" by (rule reachable.move [OF 0])
  have "mutex_step 2 (mutex_run 1) (mutex_run 2)"
    using mutex_step.instr [of 0 2 "mutex_run 1" M_Crit 1] by (simp add: mutex_run_def)
  then have "reachable mutex_init (mutex_step 2) (mutex_run 2)" by (rule reachable.move [OF 1])
  with 0 1 that show ?thesis by (auto simp: le_Suc_eq numeral_2_eq_2)
qed

theorem mutex_mutual_exclusion_witness:
  "mpc (mutex_run 2) 0 = M_Crit \<and> \<not> mpc (mutex_run 2) 1 = M_Crit"
  using mutex_mutual_exclusion [OF mutex_run_reachable [of 2], of 0 1] by (simp add: mutex_run_def)

section \<open>The software barrier\<close>

record snrt_barrier_t =
  cnt :: u32
  iteration :: u32

text \<open>
  The position of a hart in \<open>snrt_partial_barrier\<close>; the local variable \<open>prev_it\<close> is part of
  it once it has been read. \<open>B_Reset\<close> and \<open>B_Bump\<close> are the two stores of the last hart.
\<close>

datatype bar_pc = B_Out | B_Enter | B_Read u32 | B_Reset | B_Bump | B_Spin u32

text \<open>\<open>rounds\<close> counts the calls that a hart has returned from.\<close>

record bar_state =
  barr :: snrt_barrier_t
  bpc :: "nat \<Rightarrow> bar_pc"
  rounds :: "nat \<Rightarrow> nat"

fun snrt_partial_barrier :: "u32 \<Rightarrow> bar_pc \<Rightarrow> snrt_barrier_t \<Rightarrow> bar_pc \<times> snrt_barrier_t" where
  "snrt_partial_barrier n B_Out b = (B_Out, b)"
| "snrt_partial_barrier n B_Enter b = (B_Read (iteration b), b)"
| "snrt_partial_barrier n (B_Read prev_it) b =
     (let c = cnt b + 1
      in (if c = n then B_Reset else B_Spin prev_it, b\<lparr>cnt := c\<rparr>))"
| "snrt_partial_barrier n B_Reset b = (B_Bump, b\<lparr>cnt := 0\<rparr>)"
| "snrt_partial_barrier n B_Bump b = (B_Out, b\<lparr>iteration := iteration b + 1\<rparr>)"
| "snrt_partial_barrier n (B_Spin prev_it) b =
     (if prev_it = iteration b then B_Spin prev_it else B_Out, b)"

definition bar_next :: "nat \<Rightarrow> nat \<Rightarrow> bar_state \<Rightarrow> bar_state" where
  "bar_next N i s =
     (let (pc', b') = snrt_partial_barrier (of_nat N) (bpc s i) (barr s)
      in \<lparr>barr = b', bpc = (bpc s)(i := pc'),
          rounds = (if pc' = B_Out then (rounds s)(i := Suc (rounds s i)) else rounds s)\<rparr>)"

inductive barrier_step :: "nat \<Rightarrow> bar_state \<Rightarrow> bar_state \<Rightarrow> bool" for N :: nat where
  call: "\<lbrakk>i < N; bpc s i = B_Out\<rbrakk> \<Longrightarrow> barrier_step N s (s\<lparr>bpc := (bpc s)(i := B_Enter)\<rparr>)"
| instr: "\<lbrakk>i < N; bpc s i \<noteq> B_Out\<rbrakk> \<Longrightarrow> barrier_step N s (bar_next N i s)"

definition barrier_init :: "bar_state \<Rightarrow> bool" where
  "barrier_init s \<longleftrightarrow> barr s = \<lparr>cnt = 0, iteration = 0\<rparr> \<and> (\<forall>i. bpc s i = B_Out \<and> rounds s i = 0)"

text \<open>
  The invariant in round \<open>K\<close>. Every hart that is not waiting has returned \<open>K\<close> times; a
  waiting one remembers the round it arrived in, which is this one or the one before.
\<close>

fun hart_ok :: "nat \<Rightarrow> bar_pc \<Rightarrow> nat \<Rightarrow> bool" where
  "hart_ok K (B_Spin prev) r \<longleftrightarrow> prev = of_nat r \<and> (r = K \<or> Suc r = K)"
| "hart_ok K (B_Read prev) r \<longleftrightarrow> prev = of_nat K \<and> r = K"
| "hart_ok K pc r \<longleftrightarrow> r = K"

fun has_arrived :: "nat \<Rightarrow> bar_pc \<Rightarrow> nat \<Rightarrow> bool" where
  "has_arrived K (B_Spin prev) r \<longleftrightarrow> r = K"
| "has_arrived K B_Reset r \<longleftrightarrow> True"
| "has_arrived K B_Bump r \<longleftrightarrow> True"
| "has_arrived K pc r \<longleftrightarrow> False"

fun releasing :: "bar_pc \<Rightarrow> bool" where
  "releasing B_Reset \<longleftrightarrow> True"
| "releasing B_Bump \<longleftrightarrow> True"
| "releasing pc \<longleftrightarrow> False"

definition arrived :: "nat \<Rightarrow> nat \<Rightarrow> bar_state \<Rightarrow> nat set" where
  "arrived N K s = {i. i < N \<and> has_arrived K (bpc s i) (rounds s i)}"

definition barrier_inv_at :: "nat \<Rightarrow> nat \<Rightarrow> bar_state \<Rightarrow> bool" where
  "barrier_inv_at N K s \<longleftrightarrow>
     iteration (barr s) = of_nat K \<and>
     (\<forall>i<N. hart_ok K (bpc s i) (rounds s i)) \<and>
     cnt (barr s) = (if \<exists>i<N. bpc s i = B_Bump then 0 else of_nat (card (arrived N K s))) \<and>
     ((\<exists>i<N. releasing (bpc s i)) \<longleftrightarrow> arrived N K s = {..<N}) \<and>
     (\<forall>i<N. \<forall>j<N. releasing (bpc s i) \<longrightarrow> releasing (bpc s j) \<longrightarrow> i = j)"

definition barrier_inv :: "nat \<Rightarrow> bar_state \<Rightarrow> bool" where
  "barrier_inv N s \<longleftrightarrow> (\<exists>K. barrier_inv_at N K s)"

lemma releasing_iff: "releasing pc \<longleftrightarrow> pc = B_Reset \<or> pc = B_Bump"
  by (cases pc) auto

lemma bar_next_pc: "bpc (bar_next N i s) i = fst (snrt_partial_barrier (of_nat N) (bpc s i) (barr s))"
  by (simp add: bar_next_def case_prod_beta)

lemma of_nat_Suc_neq: "(of_nat r :: u32) \<noteq> of_nat (Suc r)"
  by simp

lemma finite_arrived [simp]: "finite (arrived N K s)"
  by (simp add: arrived_def)

text \<open>A step of hart \<open>i\<close> that does not change who has arrived, the counter or the round.\<close>

lemma barrier_inv_quiet:
  assumes inv: "barrier_inv_at N K s" and i: "i < N"
    and quiet: "\<not> releasing (bpc s i)" "\<not> releasing pc'"
    and ok: "hart_ok K pc' r'" and same: "has_arrived K pc' r' \<longleftrightarrow> has_arrived K (bpc s i) (rounds s i)"
  shows "barrier_inv_at N K \<lparr>barr = barr s, bpc = (bpc s)(i := pc'), rounds = (rounds s)(i := r')\<rparr>"
proof -
  let ?t = "\<lparr>barr = barr s, bpc = (bpc s)(i := pc'), rounds = (rounds s)(i := r')\<rparr>"
  have "arrived N K ?t = arrived N K s" using same by (auto simp: arrived_def)
  moreover have "releasing (bpc ?t j) \<longleftrightarrow> releasing (bpc s j)" "bpc ?t j = B_Bump \<longleftrightarrow> bpc s j = B_Bump" for j
    using quiet by (auto simp: releasing_iff)
  moreover have "\<forall>j<N. hart_ok K (bpc ?t j) (rounds ?t j)"
    using inv ok by (auto simp: barrier_inv_at_def)
  ultimately show ?thesis using inv unfolding barrier_inv_at_def by simp blast
qed

lemma barrier_inv_add:
  assumes inv: "barrier_inv_at N K s" and i: "i < N" and N: "N < 2 ^ 32"
    and pc: "bpc s i = B_Read prev"
  shows "barrier_inv_at N K (bar_next N i s)"
proof -
  let ?t = "bar_next N i s"
  note inv' = inv [unfolded barrier_inv_at_def]
  have nin: "i \<notin> arrived N K s" using pc by (simp add: arrived_def)
  then have nrel: "\<not> releasing (bpc s j)" if "j < N" for j using inv' i that by blast
  have sub: "arrived N K s \<subseteq> {..<N}" by (auto simp: arrived_def)
  then have "card (arrived N K s) < N"
    using nin i psubset_card_mono [of "{..<N}" "arrived N K s"] by auto
  have cnt: "cnt (barr s) = of_nat (card (arrived N K s))"
    using inv' nrel by (auto simp: releasing_iff)
  define c where "c = card (arrived N K s)"
  have "(of_nat (Suc c) :: u32) = of_nat N \<longleftrightarrow> Suc c = N"
    by (rule of_nat_inject_small) (use N \<open>card _ < N\<close> in \<open>simp_all add: c_def\<close>)
  then have last: "(of_nat c + 1 :: u32) = of_nat N \<longleftrightarrow> Suc c = N" by (simp add: add.commute)
  have prev: "prev = of_nat K" "rounds s i = K" using inv' i pc by force+
  have t: "bpc ?t = (bpc s)(i := if Suc c = N then B_Reset else B_Spin prev)"
    "barr ?t = (barr s)\<lparr>cnt := of_nat (Suc c)\<rparr>" "rounds ?t = rounds s"
    using pc cnt last by (auto simp: bar_next_def c_def add.commute)
  have arr: "arrived N K ?t = insert i (arrived N K s)"
    using i prev by (auto simp: arrived_def t)
  then have card: "card (arrived N K ?t) = Suc c" using nin by (simp add: c_def)
  have full: "arrived N K ?t = {..<N} \<longleftrightarrow> Suc c = N"
  proof -
    have "arrived N K ?t \<subseteq> {..<N}" by (auto simp: arrived_def)
    then show ?thesis using card card_subset_eq [of "{..<N}" "arrived N K ?t"] by (metis card_lessThan finite_lessThan)
  qed
  have nb: "bpc ?t j \<noteq> B_Bump" if "j < N" for j using nrel that by (auto simp: t releasing_iff)
  have rel: "releasing (bpc ?t j) \<longleftrightarrow> j = i \<and> Suc c = N" if "j < N" for j
    using nrel that by (simp add: t)
  show ?thesis
    unfolding barrier_inv_at_def
  proof (intro conjI)
    show "\<forall>j<N. hart_ok K (bpc ?t j) (rounds ?t j)" using inv' prev by (auto simp: t)
    show "(\<exists>j<N. releasing (bpc ?t j)) \<longleftrightarrow> arrived N K ?t = {..<N}" using rel full i by auto
    show "\<forall>j<N. \<forall>k<N. releasing (bpc ?t j) \<longrightarrow> releasing (bpc ?t k) \<longrightarrow> j = k" using rel by auto
    show "cnt (barr ?t) = (if \<exists>j<N. bpc ?t j = B_Bump then 0 else of_nat (card (arrived N K ?t)))"
    proof -
      have "\<not> (\<exists>j<N. bpc ?t j = B_Bump)" using nb by blast
      then show ?thesis unfolding card by (simp only: if_False t) simp
    qed
    show "iteration (barr ?t) = of_nat K" using inv' by (simp add: t)
  qed
qed

lemma barrier_inv_reset:
  assumes inv: "barrier_inv_at N K s" and i: "i < N" and pc: "bpc s i = B_Reset"
  shows "barrier_inv_at N K (bar_next N i s)"
proof -
  let ?t = "bar_next N i s"
  note inv' = inv [unfolded barrier_inv_at_def]
  have t: "bpc ?t = (bpc s)(i := B_Bump)" "barr ?t = (barr s)\<lparr>cnt := 0\<rparr>" "rounds ?t = rounds s"
    using pc by (simp_all add: bar_next_def)
  have "arrived N K ?t = arrived N K s" using pc by (auto simp: arrived_def t)
  moreover have "releasing (bpc ?t j) \<longleftrightarrow> releasing (bpc s j)" for j using pc by (simp add: t)
  moreover have "\<forall>j<N. hart_ok K (bpc ?t j) (rounds ?t j)" using inv' pc i by (auto simp: t)
  moreover have "\<exists>j<N. bpc ?t j = B_Bump" using i by (auto simp: t)
  ultimately show ?thesis using inv' unfolding barrier_inv_at_def by (simp add: t)
qed

lemma barrier_inv_bump:
  assumes inv: "barrier_inv_at N K s" and i: "i < N" and pc: "bpc s i = B_Bump"
  shows "barrier_inv_at N (Suc K) (bar_next N i s)"
proof -
  let ?t = "bar_next N i s"
  note inv' = inv [unfolded barrier_inv_at_def]
  have t: "bpc ?t = (bpc s)(i := B_Out)" "barr ?t = (barr s)\<lparr>iteration := iteration (barr s) + 1\<rparr>"
    "rounds ?t = (rounds s)(i := Suc (rounds s i))"
    using pc by (simp_all add: bar_next_def)
  have full: "arrived N K s = {..<N}" using inv' i pc by force
  have "releasing (bpc s i)" using pc by simp
  then have others: "\<exists>prev. bpc s j = B_Spin prev \<and> rounds s j = K" if "j < N" "j \<noteq> i" for j
  proof -
    have "\<not> releasing (bpc s j)" using inv' i that \<open>releasing (bpc s i)\<close> by blast
    moreover have "has_arrived K (bpc s j) (rounds s j)" using full that by (auto simp: arrived_def)
    ultimately show ?thesis by (cases "bpc s j") auto
  qed
  have ok: "hart_ok (Suc K) (bpc ?t j) (rounds ?t j)" "\<not> has_arrived (Suc K) (bpc ?t j) (rounds ?t j)"
    "\<not> releasing (bpc ?t j)" if "j < N" for j
    using others [of j] that inv' pc by (cases "j = i"; force simp: t)+
  then have none: "arrived N (Suc K) ?t = {}" by (auto simp: arrived_def)
  have nb: "\<not> (\<exists>j<N. bpc ?t j = B_Bump)" "\<not> (\<exists>j<N. releasing (bpc ?t j))"
    using ok(3) by (metis releasing.simps(2), blast)
  have z: "cnt (barr s) = 0" using inv' i pc by auto
  show ?thesis
    unfolding barrier_inv_at_def none if_not_P [OF nb(1)]
  proof (intro conjI)
    show "(\<exists>j<N. releasing (bpc ?t j)) \<longleftrightarrow> {} = {..<N}" using nb(2) i by auto
    show "\<forall>j<N. \<forall>k<N. releasing (bpc ?t j) \<longrightarrow> releasing (bpc ?t k) \<longrightarrow> j = k" using nb(2) by blast
    show "\<forall>j<N. hart_ok (Suc K) (bpc ?t j) (rounds ?t j)" using ok(1) by blast
    show "cnt (barr ?t) = of_nat (card {})" "iteration (barr ?t) = of_nat (Suc K)"
      using inv' z by (simp_all add: t)
  qed
qed

lemma barrier_inv_next:
  assumes inv: "barrier_inv N s" and i: "i < N" and N: "N < 2 ^ 32" and pc: "bpc s i \<noteq> B_Out"
  shows "barrier_inv N (bar_next N i s)"
proof -
  obtain K where K: "barrier_inv_at N K s" using inv by (auto simp: barrier_inv_def)
  note inv' = K [unfolded barrier_inv_at_def]
  have hi: "hart_ok K (bpc s i) (rounds s i)" using inv' i by blast
  show ?thesis
  proof (cases "bpc s i")
    case B_Enter
    then have "bar_next N i s = \<lparr>barr = barr s, bpc = (bpc s)(i := B_Read (of_nat K)),
        rounds = (rounds s)(i := rounds s i)\<rparr>"
      using inv' by (simp add: bar_next_def)
    then show ?thesis
      using barrier_inv_quiet [OF K i, of "B_Read (of_nat K)" "rounds s i"] B_Enter hi
      by (auto simp: barrier_inv_def)
  next
    case (B_Spin prev)
    show ?thesis
    proof (cases "prev = iteration (barr s)")
      case True
      then have "bar_next N i s = s" using B_Spin by (simp add: bar_next_def fun_upd_idem)
      then show ?thesis using inv by simp
    next
      case False
      then have r: "Suc (rounds s i) = K" "rounds s i \<noteq> K" using hi B_Spin inv' by auto
      have "bar_next N i s = \<lparr>barr = barr s, bpc = (bpc s)(i := B_Out), rounds = (rounds s)(i := K)\<rparr>"
        using B_Spin False r by (simp add: bar_next_def)
      then show ?thesis
        using barrier_inv_quiet [OF K i, of B_Out K] B_Spin r by (auto simp: barrier_inv_def)
    qed
  qed (use pc barrier_inv_add [OF K i N] barrier_inv_reset [OF K i] barrier_inv_bump [OF K i]
       in \<open>auto simp: barrier_inv_def\<close>)
qed

text \<open>The barrier protocol of \<open>N\<close> harts keeps its invariant.\<close>

lemma barrier_inv_call:
  assumes "barrier_inv N s" "i < N" "bpc s i = B_Out"
  shows "barrier_inv N (s\<lparr>bpc := (bpc s)(i := B_Enter)\<rparr>)"
proof -
  obtain K where K: "barrier_inv_at N K s" using assms(1) by (auto simp: barrier_inv_def)
  have "hart_ok K (bpc s i) (rounds s i)" using K assms(2) by (auto simp: barrier_inv_at_def)
  then have "barrier_inv_at N K \<lparr>barr = barr s, bpc = (bpc s)(i := B_Enter), rounds = (rounds s)(i := rounds s i)\<rparr>"
    using barrier_inv_quiet [OF K assms(2), of B_Enter "rounds s i"] assms(3) by simp
  then show ?thesis unfolding barrier_inv_def by (metis (mono_tags) bar_state.surjective bar_state.update_convs(2) fun_upd_triv old.unit.exhaust)
qed

text \<open>
  The protocol of \<open>N\<close> harts: \<open>N\<close> is the argument that all of them pass. With a number
  of harts that is 0 or does not fit the counter the statements are void.
\<close>

definition barrier_harts :: "nat \<Rightarrow> bool" where
  "barrier_harts N \<longleftrightarrow> 0 < N \<and> N < 2 ^ 32"

interpretation barrier: step_invariant "\<lambda>s. barrier_harts N \<and> barrier_init s"
    "\<lambda>s t. barrier_harts N \<and> barrier_step N s t" "barrier_inv N" for N
proof unfold_locales
  show "barrier_inv N s" if "barrier_harts N \<and> barrier_init s" for s
  proof -
    have "arrived N 0 s = {}" using that by (auto simp: arrived_def barrier_init_def)
    then have "barrier_inv_at N 0 s"
      using that by (auto simp: barrier_inv_at_def barrier_init_def barrier_harts_def)
    then show ?thesis by (auto simp: barrier_inv_def)
  qed
  show "barrier_inv N t" if "barrier_inv N s" "barrier_harts N \<and> barrier_step N s t" for s t
    using that by (auto simp: barrier_harts_def elim!: barrier_step.cases
        intro: barrier_inv_call barrier_inv_next)
qed

lemma reachable_barrier_inv:
  assumes "barrier_harts N" "reachable barrier_init (barrier_step N) s"
  shows "barrier_inv N s"
proof (rule barrier.reachable_inv)
  show "reachable (\<lambda>s. barrier_harts N \<and> barrier_init s) (\<lambda>s t. barrier_harts N \<and> barrier_step N s t) s"
    using assms(2) by induction (use assms(1) in \<open>auto intro: reachable.intros\<close>)
qed

text \<open>The hart has performed the atomic increment of its current call.\<close>

fun incremented :: "bar_pc \<Rightarrow> bool" where
  "incremented (B_Spin prev) \<longleftrightarrow> True"
| "incremented B_Reset \<longleftrightarrow> True"
| "incremented B_Bump \<longleftrightarrow> True"
| "incremented pc \<longleftrightarrow> False"

lemma barrier_rounds:
  assumes "barrier_harts N" "reachable barrier_init (barrier_step N) s" "i < N" "j < N"
  shows "rounds s i \<le> rounds s j + (if incremented (bpc s j) then 1 else 0)"
proof -
  obtain K where K: "barrier_inv_at N K s"
    using reachable_barrier_inv [OF assms(1,2)] by (auto simp: barrier_inv_def)
  have ok: "hart_ok K (bpc s k) (rounds s k)" if "k < N" for k using K that by (auto simp: barrier_inv_at_def)
  have "rounds s i \<le> K" using ok [OF assms(3)] by (cases "bpc s i") auto
  also have "K \<le> rounds s j + (if incremented (bpc s j) then 1 else 0)"
    using ok [OF assms(4)] by (cases "bpc s j") auto
  finally show ?thesis .
qed

text \<open>
  C36. No hart leaves the barrier early, in any number of uses of the same barrier object
  and any interleaving: when a hart has returned from its \<open>r\<close>-th call of
  \<open>snrt_partial_barrier\<close>, every hart has made the increment of its own \<open>r\<close>-th call. The
  32-bit iteration counter may wrap around any number of times.
\<close>

theorem partial_barrier_safe:
  assumes "barrier_harts N" "reachable barrier_init (barrier_step N) s" "i < N" "j < N"
  shows "rounds s i \<le> rounds s j + (if incremented (bpc s j) then 1 else 0)"
  by (rule barrier_rounds [OF assms])

text \<open>
  C37. The barrier does not deadlock: as long as no hart is outside the barrier, some hart
  can make a step that is not a fruitless iteration of the waiting loop.
\<close>

theorem partial_barrier_progress:
  assumes "barrier_harts N" "reachable barrier_init (barrier_step N) s" "\<forall>i<N. bpc s i \<noteq> B_Out"
  shows "\<exists>i<N. bpc (bar_next N i s) i \<noteq> bpc s i"
proof -
  obtain K where K: "barrier_inv_at N K s"
    using reachable_barrier_inv [OF assms(1,2)] by (auto simp: barrier_inv_def)
  note inv' = K [unfolded barrier_inv_at_def]
  show ?thesis
  proof (cases "\<exists>i<N. releasing (bpc s i)")
    case True
    then show ?thesis by (auto simp: releasing_iff bar_next_def)
  next
    case False
    then have "arrived N K s \<noteq> {..<N}" using inv' by blast
    then obtain i where i: "i < N" "\<not> has_arrived K (bpc s i) (rounds s i)" by (auto simp: arrived_def)
    have ok: "hart_ok K (bpc s i) (rounds s i)" and it: "iteration (barr s) = of_nat K"
      using inv' i(1) by blast+
    have "bpc (bar_next N i s) i \<noteq> bpc s i"
    proof (cases "bpc s i")
      case (B_Spin prev)
      then have "Suc (rounds s i) = K" "prev = of_nat (rounds s i)" using ok i(2) by auto
      then have "prev \<noteq> iteration (barr s)" using it of_nat_Suc_neq by metis
      then show ?thesis by (simp add: bar_next_pc B_Spin)
    qed (use i assms(3) in \<open>simp_all add: bar_next_pc Let_def\<close>)
    with i(1) show ?thesis by blast
  qed
qed

text \<open>Two harts, of which hart 0 has arrived and waits, and hart 1 has entered.\<close>

definition bar_call :: "nat \<Rightarrow> bar_state \<Rightarrow> bar_state" where
  "bar_call i s = s\<lparr>bpc := (bpc s)(i := B_Enter)\<rparr>"

definition bar_zero :: bar_state where
  "bar_zero = \<lparr>barr = \<lparr>cnt = 0, iteration = 0\<rparr>, bpc = \<lambda>_. B_Out, rounds = \<lambda>_. 0\<rparr>"

definition bar_waiting :: bar_state where
  "bar_waiting = bar_call 1 (bar_next 2 0 (bar_next 2 0 (bar_call 0 bar_zero)))"

lemma bar_waiting_eval:
  "bpc bar_waiting 0 = B_Spin 0" "bpc bar_waiting 1 = B_Enter" "rounds bar_waiting i = 0"
  by (simp_all add: bar_waiting_def bar_call_def bar_zero_def bar_next_def)

lemma bar_waiting_reachable: "reachable barrier_init (barrier_step 2) bar_waiting"
proof -
  have "reachable barrier_init (barrier_step 2) bar_zero"
    by (rule reachable.start) (simp add: barrier_init_def bar_zero_def)
  then have "reachable barrier_init (barrier_step 2) (bar_call 0 bar_zero)"
    unfolding bar_call_def
    by (rule reachable.move) (rule barrier_step.call, simp, simp add: bar_zero_def)
  then have "reachable barrier_init (barrier_step 2) (bar_next 2 0 (bar_call 0 bar_zero))"
    by (rule reachable.move) (auto simp: bar_call_def bar_zero_def intro!: barrier_step.instr)
  then have "reachable barrier_init (barrier_step 2) (bar_next 2 0 (bar_next 2 0 (bar_call 0 bar_zero)))"
    by (rule reachable.move)
      (rule barrier_step.instr, simp, simp add: bar_call_def bar_zero_def bar_next_def)
  then show ?thesis
    unfolding bar_waiting_def bar_call_def [of 1]
    by (rule reachable.move)
      (rule barrier_step.call, simp, simp add: bar_call_def bar_zero_def bar_next_def)
qed

theorem partial_barrier_safe_witness:
  "rounds bar_waiting 0 \<le> rounds bar_waiting 1 + (if incremented (bpc bar_waiting 1) then 1 else 0)"
  using partial_barrier_safe [OF _ bar_waiting_reachable, of 0 1] by (simp add: barrier_harts_def)

theorem partial_barrier_progress_witness:
  "\<exists>i<2. bpc (bar_next 2 i bar_waiting) i \<noteq> bpc bar_waiting i"
proof -
  have "\<forall>i<2. bpc bar_waiting i \<noteq> B_Out"
    using bar_waiting_eval by (auto simp: less_2_cases_iff)
  then show ?thesis
    using partial_barrier_progress [OF _ bar_waiting_reachable] by (simp add: barrier_harts_def)
qed

section \<open>The global barrier\<close>

text \<open>
  \<open>snrt_global_barrier\<close> on \<open>C\<close> clusters of \<open>N\<close> cores, of which core \<open>N - 1\<close> is the DM
  core: a hardware barrier in the cluster (all cores are released at once when the last
  one reads the barrier CSR), the software barrier among the DM cores, and a second
  hardware barrier. \<open>G_Sw\<close>: the DM core is in the software barrier, at the position
  that \<open>gbar\<close> holds for its cluster. \<open>snrt_global_all_to_all_reduction\<close> adds its value to
  \<open>_reduction_result\<close> (\<open>red\<close>) and enters the same barrier. \<open>grounds\<close> counts the returns
  of a core and \<open>added\<close> records what each of its calls has added (0 for a plain barrier).
\<close>

datatype glob_pc = G_Out | G_Hw1 | G_Sw | G_Hw2

record glob_state =
  gbar :: bar_state
  gpc :: "nat \<Rightarrow> nat \<Rightarrow> glob_pc"
  grounds :: "nat \<Rightarrow> nat \<Rightarrow> nat"
  red :: u32
  added :: "nat \<Rightarrow> nat \<Rightarrow> u32 list"

definition glob_enter :: "nat \<Rightarrow> nat \<Rightarrow> u32 \<Rightarrow> glob_state \<Rightarrow> glob_state" where
  "glob_enter c k v s = s\<lparr>gpc := (gpc s)(c := (gpc s c)(k := G_Hw1)),
     added := (added s)(c := (added s c)(k := added s c k @ [v]))\<rparr>"

definition snrt_global_all_to_all_reduction :: "nat \<Rightarrow> nat \<Rightarrow> u32 \<Rightarrow> glob_state \<Rightarrow> glob_state" where
  "snrt_global_all_to_all_reduction c k v s =
     glob_enter c k v (s\<lparr>red := red s + v\<rparr>)"

text \<open>The first hardware barrier of cluster \<open>c\<close> opens.\<close>

definition glob_hw1 :: "nat \<Rightarrow> nat \<Rightarrow> glob_state \<Rightarrow> glob_state" where
  "glob_hw1 N c s = s\<lparr>gbar := bar_call c (gbar s),
     gpc := (gpc s)(c := \<lambda>k. if k = N - 1 then G_Sw else G_Hw2)\<rparr>"

text \<open>The DM core of cluster \<open>c\<close> makes a step in the software barrier.\<close>

definition glob_sw :: "nat \<Rightarrow> nat \<Rightarrow> nat \<Rightarrow> glob_state \<Rightarrow> glob_state" where
  "glob_sw C N c s =
     (let b = bar_next C c (gbar s)
      in s\<lparr>gbar := b, gpc := (gpc s)(c := (gpc s c)(N - 1 := if bpc b c = B_Out then G_Hw2 else G_Sw))\<rparr>)"

definition glob_hw2 :: "nat \<Rightarrow> glob_state \<Rightarrow> glob_state" where
  "glob_hw2 c s = s\<lparr>gpc := (gpc s)(c := \<lambda>_. G_Out), grounds := (grounds s)(c := \<lambda>k. Suc (grounds s c k))\<rparr>"

inductive snrt_global_barrier :: "nat \<Rightarrow> nat \<Rightarrow> glob_state \<Rightarrow> glob_state \<Rightarrow> bool" for C N :: nat where
  enter: "\<lbrakk>c < C; k < N; gpc s c k = G_Out\<rbrakk> \<Longrightarrow> snrt_global_barrier C N s (glob_enter c k 0 s)"
| reduce: "\<lbrakk>c < C; k < N; gpc s c k = G_Out\<rbrakk> \<Longrightarrow>
    snrt_global_barrier C N s (snrt_global_all_to_all_reduction c k v s)"
| hw1: "\<lbrakk>c < C; \<forall>k<N. gpc s c k = G_Hw1\<rbrakk> \<Longrightarrow> snrt_global_barrier C N s (glob_hw1 N c s)"
| sw: "\<lbrakk>c < C; gpc s c (N - 1) = G_Sw\<rbrakk> \<Longrightarrow> snrt_global_barrier C N s (glob_sw C N c s)"
| hw2: "\<lbrakk>c < C; \<forall>k<N. gpc s c k = G_Hw2\<rbrakk> \<Longrightarrow> snrt_global_barrier C N s (glob_hw2 c s)"

definition global_init :: "nat \<Rightarrow> nat \<Rightarrow> glob_state \<Rightarrow> bool" where
  "global_init C N s \<longleftrightarrow> barrier_harts C \<and> 0 < N \<and> barrier_init (gbar s) \<and> red s = 0 \<and>
     (\<forall>c k. gpc s c k = G_Out \<and> grounds s c k = 0 \<and> added s c k = [])"

text \<open>
  A cluster is collecting its cores at the first hardware barrier, or its DM core is in the
  software barrier with the others at the second hardware barrier, or all are there.
\<close>

definition collecting :: "nat \<Rightarrow> nat \<Rightarrow> glob_state \<Rightarrow> bool" where
  "collecting N c s \<longleftrightarrow> bpc (gbar s) c = B_Out \<and>
     (\<forall>k<N. (gpc s c k = G_Out \<or> gpc s c k = G_Hw1) \<and> grounds s c k = rounds (gbar s) c)"

definition synchronising :: "nat \<Rightarrow> nat \<Rightarrow> glob_state \<Rightarrow> bool" where
  "synchronising N c s \<longleftrightarrow> bpc (gbar s) c \<noteq> B_Out \<and>
     (\<forall>k<N. gpc s c k = (if k = N - 1 then G_Sw else G_Hw2) \<and> grounds s c k = rounds (gbar s) c)"

definition leaving :: "nat \<Rightarrow> nat \<Rightarrow> glob_state \<Rightarrow> bool" where
  "leaving N c s \<longleftrightarrow> bpc (gbar s) c = B_Out \<and>
     (\<forall>k<N. gpc s c k = G_Hw2 \<and> Suc (grounds s c k) = rounds (gbar s) c)"

definition global_inv :: "nat \<Rightarrow> nat \<Rightarrow> glob_state \<Rightarrow> bool" where
  "global_inv C N s \<longleftrightarrow> barrier_harts C \<and> 0 < N \<and> reachable barrier_init (barrier_step C) (gbar s) \<and>
     (\<forall>c<C. collecting N c s \<or> synchronising N c s \<or> leaving N c s)"

lemmas phase_defs = collecting_def synchronising_def leaving_def

lemma phase_cong:
  assumes "bpc (gbar t) c = bpc (gbar s) c" "rounds (gbar t) c = rounds (gbar s) c"
    "\<And>k. gpc t c k = gpc s c k" "\<And>k. grounds t c k = grounds s c k"
  shows "collecting N c t = collecting N c s" "synchronising N c t = synchronising N c s"
    "leaving N c t = leaving N c s"
  using assms by (simp_all add: phase_defs)

lemma bar_next_other: "c' \<noteq> c \<Longrightarrow> bpc (bar_next C c b) c' = bpc b c'"
    "c' \<noteq> c \<Longrightarrow> rounds (bar_next C c b) c' = rounds b c'"
  by (simp_all add: bar_next_def case_prod_beta Let_def)

lemma bar_next_rounds:
  "rounds (bar_next C c b) c = (if bpc (bar_next C c b) c = B_Out then Suc (rounds b c) else rounds b c)"
  by (simp add: bar_next_def case_prod_beta Let_def)

text \<open>The position of one core tells the phase of its cluster.\<close>

lemma phase_pc:
  assumes "k < N"
  shows "collecting N c s \<Longrightarrow> gpc s c k = G_Out \<or> gpc s c k = G_Hw1"
    and "synchronising N c s \<Longrightarrow> gpc s c k = (if k = N - 1 then G_Sw else G_Hw2)"
    and "leaving N c s \<Longrightarrow> gpc s c k = G_Hw2"
  using assms by (auto simp: phase_defs)

lemma phase_of_pc:
  assumes "global_inv C N s" "c < C" "k < N"
  shows "gpc s c k = G_Out \<or> gpc s c k = G_Hw1 \<Longrightarrow> collecting N c s"
    and "gpc s c (N - 1) = G_Sw \<Longrightarrow> synchronising N c s"
    and "gpc s c (N - 1) = G_Hw2 \<Longrightarrow> leaving N c s"
proof -
  have ph: "collecting N c s \<or> synchronising N c s \<or> leaving N c s" and N: "N - 1 < N"
    using assms by (auto simp: global_inv_def)
  show "collecting N c s" if "gpc s c k = G_Out \<or> gpc s c k = G_Hw1"
    using ph phase_pc [OF assms(3), of c s] that by (metis glob_pc.distinct)
  show "synchronising N c s" if "gpc s c (N - 1) = G_Sw"
    using ph phase_pc [OF N, of c s] that by (metis glob_pc.distinct)
  show "leaving N c s" if "gpc s c (N - 1) = G_Hw2"
    using ph phase_pc [OF N, of c s] that by (metis glob_pc.distinct)
qed

text \<open>The returns of a core, against the rounds of the software barrier.\<close>

lemma phase_grounds:
  assumes "global_inv C N s" "c < C" "k < N"
  shows "grounds s c k \<le> rounds (gbar s) c"
    and "rounds (gbar s) c + (if incremented (bpc (gbar s) c) then 1 else 0) \<le>
      grounds s c k + (if gpc s c k = G_Sw \<or> gpc s c k = G_Hw2 then 1 else 0)"
proof -
  consider (col) "collecting N c s" | (syn) "synchronising N c s" | (lea) "leaving N c s"
    using assms by (auto simp: global_inv_def)
  note ph = this
  show "grounds s c k \<le> rounds (gbar s) c"
    using ph by cases (use assms(3) in \<open>auto simp: phase_defs\<close>)
  show "rounds (gbar s) c + (if incremented (bpc (gbar s) c) then 1 else 0) \<le>
      grounds s c k + (if gpc s c k = G_Sw \<or> gpc s c k = G_Hw2 then 1 else 0)"
    using ph by cases (use assms(3) in \<open>auto simp: phase_defs\<close>)
qed

text \<open>A step that changes only cluster \<open>c\<close>, and leaves it in one of the phases.\<close>

lemma global_inv_cluster:
  assumes inv: "global_inv C N s" and reach: "reachable barrier_init (barrier_step C) (gbar t)"
    and c: "collecting N c t \<or> synchronising N c t \<or> leaving N c t"
    and others: "\<And>c'. c' \<noteq> c \<Longrightarrow> bpc (gbar t) c' = bpc (gbar s) c' \<and>
      rounds (gbar t) c' = rounds (gbar s) c' \<and> gpc t c' = gpc s c' \<and> grounds t c' = grounds s c'"
  shows "global_inv C N t"
proof -
  have "collecting N c' t \<or> synchronising N c' t \<or> leaving N c' t" if "c' < C" for c'
  proof (cases "c' = c")
    case False
    then show ?thesis
      using phase_cong [of t c' s N] others [OF False] inv that by (auto simp: global_inv_def)
  qed (use c in simp)
  then show ?thesis using inv reach by (simp add: global_inv_def)
qed

lemma global_inv_enter:
  assumes "global_inv C N s" "c < C" "k < N" "gpc s c k = G_Out"
  shows "global_inv C N (glob_enter c k v s)"
proof (rule global_inv_cluster [OF assms(1), where c = c])
  have "collecting N c s" using phase_of_pc(1) [OF assms(1,2,3)] assms(4) by blast
  then have "collecting N c (glob_enter c k v s)" by (simp add: collecting_def glob_enter_def)
  then show "collecting N c (glob_enter c k v s) \<or> synchronising N c (glob_enter c k v s) \<or>
      leaving N c (glob_enter c k v s)" by simp
qed (use assms(1) in \<open>simp_all add: glob_enter_def global_inv_def\<close>)

lemma global_inv_hw1:
  assumes inv: "global_inv C N s" and c: "c < C" and pc: "\<forall>k<N. gpc s c k = G_Hw1"
  shows "global_inv C N (glob_hw1 N c s)"
proof (rule global_inv_cluster [OF inv, where c = c])
  let ?t = "glob_hw1 N c s"
  have N: "0 < N" and r: "reachable barrier_init (barrier_step C) (gbar s)"
    using inv by (auto simp: global_inv_def)
  have col: "collecting N c s" using phase_of_pc(1) [OF inv c N] pc N by blast
  then show "collecting N c ?t \<or> synchronising N c ?t \<or> leaving N c ?t"
    by (simp add: collecting_def synchronising_def glob_hw1_def bar_call_def)
  have "barrier_step C (gbar s) (gbar ?t)"
    using barrier_step.call [of c C "gbar s"] c col by (simp add: glob_hw1_def bar_call_def collecting_def)
  then show "reachable barrier_init (barrier_step C) (gbar ?t)" by (rule reachable.move [OF r])
qed (simp add: glob_hw1_def bar_call_def)

lemma global_inv_sw:
  assumes inv: "global_inv C N s" and c: "c < C" and pc: "gpc s c (N - 1) = G_Sw"
  shows "global_inv C N (glob_sw C N c s)"
proof (rule global_inv_cluster [OF inv, where c = c])
  let ?t = "glob_sw C N c s"
  have N: "N - 1 < N" and r: "reachable barrier_init (barrier_step C) (gbar s)"
    using inv by (auto simp: global_inv_def)
  have sy: "synchronising N c s" using phase_of_pc(2) [OF inv c N] pc by blast
  then show "collecting N c ?t \<or> synchronising N c ?t \<or> leaving N c ?t"
    by (auto simp: synchronising_def leaving_def glob_sw_def Let_def bar_next_rounds)
  have "barrier_step C (gbar s) (gbar ?t)"
    using barrier_step.instr [of c C "gbar s"] c sy by (simp add: glob_sw_def Let_def synchronising_def)
  then show "reachable barrier_init (barrier_step C) (gbar ?t)" by (rule reachable.move [OF r])
qed (simp add: glob_sw_def Let_def bar_next_other)

lemma global_inv_hw2:
  assumes inv: "global_inv C N s" and c: "c < C" and pc: "\<forall>k<N. gpc s c k = G_Hw2"
  shows "global_inv C N (glob_hw2 c s)"
proof (rule global_inv_cluster [OF inv, where c = c])
  let ?t = "glob_hw2 c s"
  have N: "N - 1 < N" using inv by (simp add: global_inv_def)
  have "leaving N c s" using phase_of_pc(3) [OF inv c N] pc N by blast
  then show "collecting N c ?t \<or> synchronising N c ?t \<or> leaving N c ?t"
    by (simp add: collecting_def leaving_def glob_hw2_def)
qed (use inv in \<open>simp_all add: glob_hw2_def global_inv_def\<close>)

text \<open>Adding a value for the reduction does not touch what the invariant speaks of.\<close>

lemma global_inv_reduce:
  assumes "global_inv C N s" "c < C" "k < N" "gpc s c k = G_Out"
  shows "global_inv C N (snrt_global_all_to_all_reduction c k v s)"
proof -
  let ?u = "s\<lparr>red := red s + v\<rparr>"
  have "global_inv C N ?u" using assms(1) by (simp add: global_inv_def phase_defs)
  then show ?thesis
    unfolding snrt_global_all_to_all_reduction_def using assms by (intro global_inv_enter) simp_all
qed

interpretation global: step_invariant "global_init C N" "snrt_global_barrier C N" "global_inv C N" for C N
proof unfold_locales
  show "global_inv C N s" if "global_init C N s" for s
    using that by (auto simp: global_init_def global_inv_def collecting_def barrier_init_def
        intro: reachable.start)
  show "global_inv C N t" if "global_inv C N s" "snrt_global_barrier C N s t" for s t
    using that(2,1) by cases (auto intro: global_inv_enter global_inv_reduce global_inv_hw1
        global_inv_sw global_inv_hw2)
qed

lemma global_barrier_rounds:
  assumes "reachable (global_init C N) (snrt_global_barrier C N) s"
    and "c < C" "k < N" "c' < C" "k' < N"
  shows "grounds s c k \<le> grounds s c' k' + (if gpc s c' k' = G_Sw \<or> gpc s c' k' = G_Hw2 then 1 else 0)"
proof -
  note inv = global.reachable_inv [OF assms(1)]
  have "grounds s c k \<le> rounds (gbar s) c" by (rule phase_grounds(1) [OF inv assms(2,3)])
  also have "\<dots> \<le> rounds (gbar s) c' + (if incremented (bpc (gbar s) c') then 1 else 0)"
    using barrier_rounds inv assms(2,4) unfolding global_inv_def by blast
  also have "\<dots> \<le> grounds s c' k' + (if gpc s c' k' = G_Sw \<or> gpc s c' k' = G_Hw2 then 1 else 0)"
    by (rule phase_grounds(2) [OF inv assms(4,5)])
  finally show ?thesis .
qed

text \<open>\<open>_reduction_result\<close> is the sum of all that has been added, and each call adds once.\<close>

definition reduction_inv :: "nat \<Rightarrow> nat \<Rightarrow> glob_state \<Rightarrow> bool" where
  "reduction_inv C N s \<longleftrightarrow> global_inv C N s \<and> red s = (\<Sum>c<C. \<Sum>k<N. sum_list (added s c k)) \<and>
     (\<forall>c<C. \<forall>k<N. length (added s c k) = grounds s c k + (if gpc s c k = G_Out then 0 else 1))"

lemma sum_added_update:
  fixes f :: "nat \<Rightarrow> nat \<Rightarrow> u32"
  assumes "c < C" "k < N"
  shows "(\<Sum>c'<C. \<Sum>k'<N. (f(c := (f c)(k := f c k + v))) c' k') = (\<Sum>c'<C. \<Sum>k'<N. f c' k') + v"
proof -
  have "(\<Sum>k'<N. ((f c)(k := f c k + v)) k') = (\<Sum>k'<N. f c k') + v"
    using assms(2) by (simp add: sum.remove [of "{..<N}" k])
  moreover have "(\<Sum>c'<C. \<Sum>k'<N. (f(c := (f c)(k := f c k + v))) c' k') =
      (\<Sum>k'<N. ((f c)(k := f c k + v)) k') + (\<Sum>c'\<in>{..<C} - {c}. \<Sum>k'<N. f c' k')"
    using assms(1) by (simp add: sum.remove [of "{..<C}" c])
  moreover have "(\<Sum>c'<C. \<Sum>k'<N. f c' k') = (\<Sum>k'<N. f c k') + (\<Sum>c'\<in>{..<C} - {c}. \<Sum>k'<N. f c' k')"
    using assms(1) by (simp add: sum.remove [of "{..<C}" c])
  ultimately show ?thesis by simp
qed

lemma enter_as_reduction: "glob_enter c k 0 s = snrt_global_all_to_all_reduction c k 0 s"
  by (simp add: snrt_global_all_to_all_reduction_def)

lemma reduction_inv_reduce:
  assumes inv: "reduction_inv C N s" and ck: "c < C" "k < N" "gpc s c k = G_Out"
  shows "reduction_inv C N (snrt_global_all_to_all_reduction c k v s)"
proof -
  let ?t = "snrt_global_all_to_all_reduction c k v s"
  have t: "red ?t = red s + v" "added ?t = (added s)(c := (added s c)(k := added s c k @ [v]))"
    "grounds ?t = grounds s" "gpc ?t = (gpc s)(c := (gpc s c)(k := G_Hw1))"
    by (simp_all add: snrt_global_all_to_all_reduction_def glob_enter_def)
  have "(\<Sum>c'<C. \<Sum>k'<N. sum_list (added ?t c' k')) = (\<Sum>c'<C. \<Sum>k'<N.
      ((\<lambda>a b. sum_list (added s a b))(c := (\<lambda>b. sum_list (added s c b))(k := sum_list (added s c k) + v))) c' k')"
    by (intro sum.cong refl) (simp add: t)
  also have "\<dots> = (\<Sum>c'<C. \<Sum>k'<N. sum_list (added s c' k')) + v"
    using sum_added_update [OF ck(1,2), of "\<lambda>a b. sum_list (added s a b)" v] by simp
  finally show ?thesis
    using inv ck global_inv_reduce unfolding reduction_inv_def by (auto simp: t)
qed

lemma reduction_inv_step:
  assumes inv: "reduction_inv C N s" and step: "snrt_global_barrier C N s t"
  shows "reduction_inv C N t"
  using step
proof cases
  case (enter c k)
  then show ?thesis using reduction_inv_reduce [OF inv] by (simp add: enter_as_reduction)
next
  case (reduce c k v)
  then show ?thesis using reduction_inv_reduce [OF inv] by simp
next
  case (hw1 c)
  then have "global_inv C N t" using inv global_inv_hw1 by (simp add: reduction_inv_def)
  then show ?thesis using hw1 inv by (auto simp: reduction_inv_def glob_hw1_def)
next
  case (sw c)
  then have "global_inv C N t" using inv global_inv_sw by (simp add: reduction_inv_def)
  then show ?thesis using sw inv by (auto simp: reduction_inv_def glob_sw_def Let_def)
next
  case (hw2 c)
  then have "global_inv C N t" using inv global_inv_hw2 by (simp add: reduction_inv_def)
  then show ?thesis using hw2 inv by (auto simp: reduction_inv_def glob_hw2_def)
qed

interpretation reduction: step_invariant "global_init C N" "snrt_global_barrier C N" "reduction_inv C N" for C N
proof unfold_locales
  show "reduction_inv C N s" if "global_init C N s" for s
    using that global.inv_init [OF that] by (simp add: reduction_inv_def global_init_def)
qed (rule reduction_inv_step)

text \<open>
  C4. \<open>snrt_global_barrier\<close> holds every core of every cluster: when some core has returned
  from its \<open>r\<close>-th call, each core of each cluster has passed the first hardware barrier of
  its own \<open>r\<close>-th call, for any number of clusters and cores and any interleaving.
\<close>

theorem global_barrier_safe:
  assumes "reachable (global_init C N) (snrt_global_barrier C N) s"
    and "c < C" "k < N" "c' < C" "k' < N"
  shows "grounds s c k \<le> grounds s c' k' + (if gpc s c' k' = G_Sw \<or> gpc s c' k' = G_Hw2 then 1 else 0)"
  by (rule global_barrier_rounds [OF assms])


text \<open>An executable scheduler of the protocol, for concrete runs.\<close>

datatype glob_act = A_Enter nat nat | A_Reduce nat nat u32 | A_Hw1 nat | A_Sw nat | A_Hw2 nat

fun glob_exec :: "nat \<Rightarrow> nat \<Rightarrow> glob_act list \<Rightarrow> glob_state \<Rightarrow> glob_state option" where
  "glob_exec C N [] s = Some s"
| "glob_exec C N (A_Enter c k # as) s =
     (if c < C \<and> k < N \<and> gpc s c k = G_Out then glob_exec C N as (glob_enter c k 0 s) else None)"
| "glob_exec C N (A_Reduce c k v # as) s =
     (if c < C \<and> k < N \<and> gpc s c k = G_Out
      then glob_exec C N as (snrt_global_all_to_all_reduction c k v s) else None)"
| "glob_exec C N (A_Hw1 c # as) s =
     (if c < C \<and> list_all (\<lambda>k. gpc s c k = G_Hw1) [0..<N] then glob_exec C N as (glob_hw1 N c s) else None)"
| "glob_exec C N (A_Sw c # as) s =
     (if c < C \<and> gpc s c (N - 1) = G_Sw then glob_exec C N as (glob_sw C N c s) else None)"
| "glob_exec C N (A_Hw2 c # as) s =
     (if c < C \<and> list_all (\<lambda>k. gpc s c k = G_Hw2) [0..<N] then glob_exec C N as (glob_hw2 c s) else None)"

lemma glob_exec_reachable:
  "glob_exec C N as s = Some t \<Longrightarrow> reachable I (snrt_global_barrier C N) s \<Longrightarrow>
    reachable I (snrt_global_barrier C N) t"
  by (induction C N as s rule: glob_exec.induct)
    (auto split: if_splits simp: list_all_iff Ball_def One_nat_def [symmetric] simp del: One_nat_def
      intro: reachable.move snrt_global_barrier.intros)

definition glob_zero :: glob_state where
  "glob_zero = \<lparr>gbar = bar_zero, gpc = \<lambda>_ _. G_Out, grounds = \<lambda>_ _. 0, red = 0, added = \<lambda>_ _. []\<rparr>"

text \<open>Two clusters of one core each add 5 and 7; both come through the barrier.\<close>

definition glob_example :: glob_state where
  "glob_example = the (glob_exec 2 1 [A_Reduce 0 0 5, A_Reduce 1 0 7, A_Hw1 0, A_Hw1 1,
     A_Sw 0, A_Sw 0, A_Sw 1, A_Sw 0, A_Sw 1, A_Sw 1, A_Sw 1, A_Hw2 1, A_Sw 0, A_Hw2 0] glob_zero)"

lemma glob_example_run:
  "glob_exec 2 1 [A_Reduce 0 0 5, A_Reduce 1 0 7, A_Hw1 0, A_Hw1 1, A_Sw 0, A_Sw 0, A_Sw 1, A_Sw 0,
     A_Sw 1, A_Sw 1, A_Sw 1, A_Hw2 1, A_Sw 0, A_Hw2 0] glob_zero = Some glob_example"
  and glob_example_eval: "grounds glob_example 0 0 = 1" "grounds glob_example 1 0 = 1"
    "added glob_example 0 0 = [5]" "added glob_example 1 0 = [7]"
  by (simp_all add: glob_example_def glob_zero_def bar_zero_def glob_hw1_def glob_hw2_def glob_sw_def
      glob_enter_def snrt_global_all_to_all_reduction_def bar_call_def bar_next_def Let_def)

lemma glob_example_reachable: "reachable (global_init 2 1) (snrt_global_barrier 2 1) glob_example"
proof (rule glob_exec_reachable [OF glob_example_run])
  show "reachable (global_init 2 1) (snrt_global_barrier 2 1) glob_zero"
    by (rule reachable.start)
      (simp add: global_init_def glob_zero_def bar_zero_def barrier_init_def barrier_harts_def)
qed

theorem global_barrier_safe_witness:
  "grounds glob_example 0 0 \<le> grounds glob_example 1 0 +
     (if gpc glob_example 1 0 = G_Sw \<or> gpc glob_example 1 0 = G_Hw2 then 1 else 0)"
  using global_barrier_safe [OF glob_example_reachable, of 0 0 1 0] by simp


section \<open>The reduction tree\<close>

text \<open>
  \<open>snrt_global_reduction_dma\<close> between \<open>C\<close> clusters with \<open>K\<close> compute cores each. \<open>dst c i\<close> and
  \<open>src c i\<close> are element \<open>i\<close> of the buffers of cluster \<open>c\<close>; the buffers are at the same
  offset in every cluster, so subtracting \<open>(1 << level) * SNRT_CLUSTER_OFFSET\<close> from a
  pointer of cluster \<open>c\<close> gives the buffer of cluster \<open>c - 2 ^ level\<close>. \<open>add\<close> is the addition of
  \<open>double\<close>. Between two barriers the clusters touch different memory; they are run one
  after the other.
\<close>

fun ceil_log2 :: "nat \<Rightarrow> nat" where
  "ceil_log2 n = (if n \<le> 1 then 0 else Suc (ceil_log2 ((n + 1) div 2)))"

declare ceil_log2.simps [simp del]

definition is_active :: "nat \<Rightarrow> nat \<Rightarrow> bool" where
  "is_active level c \<longleftrightarrow> c mod 2 ^ level = 0"

definition is_sender :: "nat \<Rightarrow> nat \<Rightarrow> bool" where
  "is_sender level c \<longleftrightarrow> c mod 2 ^ (level + 1) \<noteq> 0"

definition reduction_send ::
  "nat \<Rightarrow> (nat \<Rightarrow> nat \<Rightarrow> 'a) \<Rightarrow> nat \<Rightarrow> nat \<Rightarrow> (nat \<Rightarrow> nat \<Rightarrow> 'a) \<Rightarrow> nat \<Rightarrow> nat \<Rightarrow> 'a" where
  "reduction_send len src level c dst =
     (if is_active level c \<and> is_sender level c
      then dst(c - 2 ^ level := \<lambda>i. if i < len then src c i else dst (c - 2 ^ level) i)
      else dst)"

definition core_reduce ::
  "('a \<Rightarrow> 'a \<Rightarrow> 'a) \<Rightarrow> nat \<Rightarrow> nat \<Rightarrow> (nat \<Rightarrow> 'a) \<Rightarrow> nat \<Rightarrow> (nat \<Rightarrow> 'a) \<Rightarrow> nat \<Rightarrow> 'a" where
  "core_reduce add K len src k dst =
     (let items_per_core = len div K; core_offset = k * items_per_core
      in for_upto items_per_core
           (\<lambda>i dst. let abs_i = core_offset + i in dst(abs_i := add (dst abs_i) (src abs_i))) dst)"

definition reduction_add ::
  "('a \<Rightarrow> 'a \<Rightarrow> 'a) \<Rightarrow> nat \<Rightarrow> nat \<Rightarrow> (nat \<Rightarrow> nat \<Rightarrow> 'a) \<Rightarrow> nat \<Rightarrow> nat \<Rightarrow>
   (nat \<Rightarrow> nat \<Rightarrow> 'a) \<Rightarrow> nat \<Rightarrow> nat \<Rightarrow> 'a" where
  "reduction_add add K len src level c dst =
     (if is_active level c \<and> \<not> is_sender level c
      then dst(c := for_upto K (core_reduce add K len (src c)) (dst c))
      else dst)"

definition reduction_level ::
  "('a \<Rightarrow> 'a \<Rightarrow> 'a) \<Rightarrow> nat \<Rightarrow> nat \<Rightarrow> nat \<Rightarrow> (nat \<Rightarrow> nat \<Rightarrow> 'a) \<Rightarrow> nat \<Rightarrow>
   (nat \<Rightarrow> nat \<Rightarrow> 'a) \<Rightarrow> nat \<Rightarrow> nat \<Rightarrow> 'a" where
  "reduction_level add C K len src level dst =
     for_upto C (reduction_add add K len src level) (for_upto C (reduction_send len src level) dst)"

definition snrt_global_reduction_dma ::
  "('a \<Rightarrow> 'a \<Rightarrow> 'a) \<Rightarrow> nat \<Rightarrow> nat \<Rightarrow> nat \<Rightarrow> (nat \<Rightarrow> nat \<Rightarrow> 'a) \<Rightarrow>
   (nat \<Rightarrow> nat \<Rightarrow> 'a) \<Rightarrow> nat \<Rightarrow> nat \<Rightarrow> 'a" where
  "snrt_global_reduction_dma add C K len src dst =
     (if C = 1 then dst(0 := \<lambda>i. if i < len then src 0 i else dst 0 i)
      else for_upto (ceil_log2 C) (reduction_level add C K len src) dst)"

lemma ceil_log2_power: "ceil_log2 (2 ^ n) = n"
proof (induction n)
  case (Suc n)
  have "((2::nat) ^ Suc n + 1) div 2 = 2 ^ n" by simp
  moreover have "(1::nat) < 2 ^ Suc n" by (rule one_less_power) simp_all
  ultimately show ?case using Suc by (subst ceil_log2.simps) (simp only: linorder_not_le [symmetric] if_False)
qed (simp add: ceil_log2.simps)

text \<open>The elements of one core, and of all cores of a cluster.\<close>

lemma core_reduce_at:
  assumes "K dvd len" "0 < K"
  shows "core_reduce add K len src k d j =
    (if k * (len div K) \<le> j \<and> j < (k + 1) * (len div K) then add (d j) (src j) else d j)"
proof -
  let ?n = "len div K"
  have "m \<le> ?n \<Longrightarrow> for_upto m (\<lambda>i dst. dst(k * ?n + i := add (dst (k * ?n + i)) (src (k * ?n + i)))) d j =
      (if k * ?n \<le> j \<and> j < k * ?n + m then add (d j) (src j) else d j)" for m
    by (induction m) (auto simp: for_upto_Suc)
  from this [of ?n] show ?thesis by (simp add: core_reduce_def Let_def add.commute)
qed

lemma cluster_reduce_at:
  assumes "K dvd len" "0 < K"
  shows "for_upto K (core_reduce add K len src) d j = (if j < len then add (d j) (src j) else d j)"
proof -
  have "m \<le> K \<Longrightarrow> for_upto m (core_reduce add K len src) d j =
      (if j < m * (len div K) then add (d j) (src j) else d j)" for m
    by (induction m) (auto simp: for_upto_Suc core_reduce_at [OF assms])
  from this [of K] show ?thesis using assms(1) by simp
qed

lemma top_level_active: "is_active L 0" "\<not> is_sender L 0" "is_active L (2 ^ L)" "is_sender L (2 ^ L)"
  by (simp_all add: is_active_def is_sender_def)

lemma reduction_send_to_0:
  assumes "2 ^ L < C"
  shows "for_upto C (reduction_send len src L) d 0 = (\<lambda>i. if i < len then src (2 ^ L) i else d 0 i)"
proof -
  have "for_upto m (reduction_send len src L) d 0 =
      (if 2 ^ L < m then (\<lambda>i. if i < len then src (2 ^ L) i else d 0 i) else d 0)" for m
  proof (induction m)
    case (Suc m)
    have "m = 2 ^ L" if "is_active L m" "is_sender L m" "m - 2 ^ L = 0"
    proof (rule ccontr)
      assume "m \<noteq> 2 ^ L"
      then have "m < 2 ^ L" using that(3) by simp
      then have "m = 0" using that(1) by (simp add: is_active_def)
      then show False using that(2) top_level_active by simp
    qed
    then show ?case
      using Suc top_level_active by (auto simp: for_upto_Suc reduction_send_def less_Suc_eq)
  qed simp
  then show ?thesis using assms by simp
qed

lemma reduction_add_at_0:
  assumes "0 < C" "K dvd len" "0 < K"
  shows "for_upto C (reduction_add add K len src L) d 0 =
    (\<lambda>j. if j < len then add (d 0 j) (src 0 j) else d 0 j)"
proof -
  have "for_upto (Suc m) (reduction_add add K len src L) d 0 =
      (\<lambda>j. if j < len then add (d 0 j) (src 0 j) else d 0 j)" for m
  proof (induction m)
    case 0
    show ?case
      by (simp add: for_upto_Suc reduction_add_def fun_eq_iff top_level_active
          cluster_reduce_at [OF assms(2,3)])
  next
    case (Suc m)
    have "reduction_add add K len src L (Suc m) e 0 = e 0" for e by (simp add: reduction_add_def)
    with Suc show ?case by (subst for_upto_Suc) simp
  qed
  then show ?thesis using assms(1) by (cases C) auto
qed



end
