(* ===== verification/Irq.thy ===== *)
theory Irq
  imports Team
begin

text \<open>
  Interrupts and control registers: \<open>riscv.h\<close>, \<open>cluster_interrupts.h\<close> and
  \<open>global_interrupts.h\<close> of \<open>sw/snRuntime/src\<close>, and
  \<open>snitch_cluster_global_interrupts.h\<close>, which replaces the latter on the single
  cluster. The bit numbers of \<open>encoding.h\<close> (a file of a git submodule) are the fields of
  \<open>riscv_enc\<close>. The set and clear registers of the cluster act as in
  \<open>hw/snitch_cluster/src/snitch_cluster_peripheral/snitch_cluster_peripheral.sv\<close>.
\<close>

section \<open>State\<close>

record riscv_enc =
  IRQ_M_CLUSTER :: u32
  MIP_MCIP :: u32
  MSTATUS_MIE :: u32

record core_csrs =
  mie :: u32
  mip :: u32
  mstatus :: u32
  mcycle :: u32

text \<open>
  The cluster-local interrupt register, one bit per core of the cluster; the \<open>msip\<close>
  words of the CLINT, one bit per hart and 32 harts per word; the mutex of the CLINT.
\<close>

record irq_state =
  cl_clint :: u32
  msip :: "nat \<Rightarrow> u32"
  clint_mutex :: u32

text \<open>\<open>1 << n\<close> as the RV32 shifter computes it: by the low five bits of \<open>n\<close>.\<close>

definition shl1 :: "u32 \<Rightarrow> u32" where
  "shl1 n = push_bit (unat n mod 32) 1"

section \<open>Control registers\<close>

definition snrt_mcycle :: "core_csrs \<Rightarrow> u32" where
  "snrt_mcycle c = mcycle c"

definition snrt_interrupt_enable :: "u32 \<Rightarrow> core_csrs \<Rightarrow> core_csrs" where
  "snrt_interrupt_enable irq c = c\<lparr>mie := mie c OR shl1 irq\<rparr>"

definition snrt_interrupt_disable :: "u32 \<Rightarrow> core_csrs \<Rightarrow> core_csrs" where
  "snrt_interrupt_disable irq c = c\<lparr>mie := mie c AND NOT (shl1 irq)\<rparr>"

definition snrt_interrupt_global_enable :: "riscv_enc \<Rightarrow> core_csrs \<Rightarrow> core_csrs" where
  "snrt_interrupt_global_enable e c = c\<lparr>mstatus := mstatus c OR MSTATUS_MIE e\<rparr>"

definition snrt_interrupt_global_disable :: "riscv_enc \<Rightarrow> core_csrs \<Rightarrow> core_csrs" where
  "snrt_interrupt_global_disable e c = c\<lparr>mstatus := mstatus c AND NOT (MSTATUS_MIE e)\<rparr>"

text \<open>\<open>wfi\<close> lets the hart continue once an enabled interrupt is pending.\<close>

definition snrt_wfi :: "core_csrs \<Rightarrow> bool" where
  "snrt_wfi c \<longleftrightarrow> mip c AND mie c \<noteq> 0"

section \<open>Cluster-local interrupts\<close>

definition snrt_int_cluster_set :: "u32 \<Rightarrow> irq_state \<Rightarrow> irq_state" where
  "snrt_int_cluster_set msk s = s\<lparr>cl_clint := cl_clint s OR msk\<rparr>"

definition snrt_int_cluster_clr :: "u32 \<Rightarrow> irq_state \<Rightarrow> irq_state" where
  "snrt_int_cluster_clr msk s = s\<lparr>cl_clint := cl_clint s AND NOT msk\<rparr>"

definition snrt_int_clr_mcip_unsafe :: "snrt_defs \<Rightarrow> u32 \<Rightarrow> irq_state \<Rightarrow> irq_state" where
  "snrt_int_clr_mcip_unsafe d hartid s = snrt_int_cluster_clr (shl1 (snrt_cluster_core_idx d hartid)) s"

text \<open>
  The loop reads \<open>mip\<close> until the cluster interrupt is no longer pending; the values it
  reads are an argument. The result is the number of reads, or \<open>None\<close> while the loop is
  still running.
\<close>

fun snrt_int_wait_mcip_clr :: "riscv_enc \<Rightarrow> u32 list \<Rightarrow> nat option" where
  "snrt_int_wait_mcip_clr e [] = None"
| "snrt_int_wait_mcip_clr e (v # vs) =
     (if v AND MIP_MCIP e \<noteq> 0 then map_option Suc (snrt_int_wait_mcip_clr e vs) else Some 1)"

definition snrt_int_clr_mcip ::
  "riscv_enc \<Rightarrow> snrt_defs \<Rightarrow> u32 \<Rightarrow> u32 list \<Rightarrow> irq_state \<Rightarrow> (nat \<times> irq_state) option" where
  "snrt_int_clr_mcip e d hartid mips s =
     (let s = snrt_int_clr_mcip_unsafe d hartid s
      in map_option (\<lambda>n. (n, s)) (snrt_int_wait_mcip_clr e mips))"

definition snrt_int_set_mcip :: "snrt_defs \<Rightarrow> u32 \<Rightarrow> irq_state \<Rightarrow> irq_state" where
  "snrt_int_set_mcip d hartid s = snrt_int_cluster_set (shl1 (snrt_cluster_core_idx d hartid)) s"

text \<open>The cluster interrupt of the core with index \<open>i\<close> in its cluster.\<close>

definition mcip_pending :: "irq_state \<Rightarrow> nat \<Rightarrow> bool" where
  "mcip_pending s i \<longleftrightarrow> bit (cl_clint s) i"

section \<open>Software interrupts through the CLINT\<close>

text \<open>
  \<open>global_interrupts.h\<close>: a read-modify-write of the hart's \<open>msip\<close> word under the CLINT
  mutex. While somebody else holds the mutex the caller spins (\<open>None\<close>).
  \<open>snrt_clint_msip_ptr\<close> is only declared in the repository (the platforms that have a
  CLINT define it): \<open>wd\<close> gives the word of a hart.
\<close>

definition with_clint_mutex :: "(irq_state \<Rightarrow> 'a \<times> irq_state) \<Rightarrow> irq_state \<Rightarrow> ('a \<times> irq_state) option" where
  "with_clint_mutex f s =
     (if clint_mutex s \<noteq> 0 then None
      else let (r, s') = f (s\<lparr>clint_mutex := 1\<rparr>) in Some (r, s'\<lparr>clint_mutex := 0\<rparr>))"

definition snrt_int_sw_clear :: "(u32 \<Rightarrow> nat) \<Rightarrow> u32 \<Rightarrow> irq_state \<Rightarrow> (unit \<times> irq_state) option" where
  "snrt_int_sw_clear wd hartid = with_clint_mutex (\<lambda>s.
     ((), s\<lparr>msip := (msip s)(wd hartid := msip s (wd hartid) AND NOT (shl1 (hartid AND 0x1f)))\<rparr>))"

definition snrt_int_sw_set :: "(u32 \<Rightarrow> nat) \<Rightarrow> u32 \<Rightarrow> irq_state \<Rightarrow> (unit \<times> irq_state) option" where
  "snrt_int_sw_set wd hartid = with_clint_mutex (\<lambda>s.
     ((), s\<lparr>msip := (msip s)(wd hartid := msip s (wd hartid) OR shl1 (hartid AND 0x1f))\<rparr>))"

definition snrt_int_sw_get :: "(u32 \<Rightarrow> nat) \<Rightarrow> u32 \<Rightarrow> irq_state \<Rightarrow> (u32 \<times> irq_state) option" where
  "snrt_int_sw_get wd hartid = with_clint_mutex (\<lambda>s.
     (drop_bit (unat (hartid AND 0x1f)) (msip s (wd hartid)), s))"

text \<open>The software interrupt of a hart, and the layout that gives every hart a bit of its own.\<close>

definition msip_pending :: "(u32 \<Rightarrow> nat) \<Rightarrow> irq_state \<Rightarrow> u32 \<Rightarrow> bool" where
  "msip_pending wd s h \<longleftrightarrow> bit (msip s (wd h)) (unat h mod 32)"

definition msip_layout :: "(u32 \<Rightarrow> nat) \<Rightarrow> bool" where
  "msip_layout wd \<longleftrightarrow> (\<forall>h h'. wd h = wd h' \<longrightarrow> unat h mod 32 = unat h' mod 32 \<longrightarrow> h = h')"

text \<open>\<open>snitch_cluster_global_interrupts.h\<close>: cluster interrupts behind the scenes.\<close>

definition cluster_int_sw_clear :: "u32 \<Rightarrow> irq_state \<Rightarrow> irq_state" where
  "cluster_int_sw_clear hartid s = snrt_int_cluster_clr (shl1 hartid) s"

definition cluster_int_sw_set :: "u32 \<Rightarrow> irq_state \<Rightarrow> irq_state" where
  "cluster_int_sw_set hartid s = snrt_int_cluster_set (shl1 hartid) s"

section \<open>Bits\<close>

lemma bit_shl1: "bit (shl1 n) k \<longleftrightarrow> k = unat n mod 32"
  by (auto simp: shl1_def bit_simps)

lemma unat_and_31: "unat (h AND 0x1f :: u32) = unat h mod 32"
proof -
  have "h AND 0x1f = take_bit 5 h" by (simp add: take_bit_eq_mask mask_eq_exp_minus_1)
  then have "unat (h AND 0x1f) = take_bit 5 (unat h)" by (simp add: unsigned_take_bit_eq)
  then show ?thesis by (simp add: take_bit_eq_mod)
qed

lemma bit_lt_32: "bit (w :: u32) k \<Longrightarrow> k < 32"
  using bit_imp_le_length [of w k] by simp

lemma drop_bit_zero_iff: "drop_bit n w = 0 \<longleftrightarrow> (\<forall>k. n \<le> k \<longrightarrow> \<not> bit w k)" for w :: u32
proof
  assume "drop_bit n w = 0"
  then have "\<not> bit (drop_bit n w) j" for j by simp
  then show "\<forall>k. n \<le> k \<longrightarrow> \<not> bit w k" by (auto simp: bit_drop_bit_eq le_iff_add)
next
  assume "\<forall>k. n \<le> k \<longrightarrow> \<not> bit w k"
  then show "drop_bit n w = 0" by (intro bit_word_eqI) (simp add: bit_drop_bit_eq)
qed

lemmas irq_simps = bit_shl1 unat_and_31 mcip_pending_def msip_pending_def with_clint_mutex_def
  snrt_int_cluster_set_def snrt_int_cluster_clr_def snrt_int_sw_clear_def snrt_int_sw_set_def

lemma mcip_pending_set:
  "k < 32 \<Longrightarrow> mcip_pending (snrt_int_cluster_set (shl1 n) s) k \<longleftrightarrow> mcip_pending s k \<or> k = unat n mod 32"
  by (simp add: irq_simps bit_or_iff)

lemma mcip_pending_clr:
  "k < 32 \<Longrightarrow> mcip_pending (snrt_int_cluster_clr (shl1 n) s) k \<longleftrightarrow> mcip_pending s k \<and> k \<noteq> unat n mod 32"
  by (simp add: irq_simps bit_and_iff bit_not_iff)

section \<open>Properties\<close>

text \<open>
  On a well-formed platform with at most 32 cores per cluster \<open>snrt_int_set_mcip\<close> raises
  the cluster interrupt of the calling core and \<open>snrt_int_clr_mcip_unsafe\<close> drops it, and
  neither changes the interrupt of any other core of the cluster.
\<close>

lemma mcip_set_clr_own_core:
  assumes "wf_defs d" "unat (SNRT_CLUSTER_CORE_NUM d) \<le> 32" "c < unat (SNRT_CLUSTER_NUM d)"
    "i < unat (SNRT_CLUSTER_CORE_NUM d)" "k < unat (SNRT_CLUSTER_CORE_NUM d)"
  shows "(mcip_pending (snrt_int_set_mcip d (hart_of d c i) s) k \<longleftrightarrow> mcip_pending s k \<or> k = i) \<and>
    (mcip_pending (snrt_int_clr_mcip_unsafe d (hart_of d c i) s) k \<longleftrightarrow> mcip_pending s k \<and> k \<noteq> i)"
proof -
  have "unat (snrt_cluster_core_idx d (hart_of d c i)) mod 32 = i"
    using assms by (simp add: unat_cluster_core_idx_hart_of)
  moreover have "k < 32" using assms by simp
  ultimately show ?thesis
    by (simp add: snrt_int_set_mcip_def snrt_int_clr_mcip_unsafe_def mcip_pending_set mcip_pending_clr)
qed

text \<open>
  The CLINT operations \<open>snrt_int_sw_set\<close> and \<open>snrt_int_sw_clear\<close>, with the mutex free,
  return with the mutex free again, set or clear the software interrupt of the given hart
  and leave that of every other hart as it was.
\<close>

lemma int_sw_set_clear:
  assumes "msip_layout wd" "clint_mutex s = 0"
  shows "(\<exists>s'. snrt_int_sw_set wd h s = Some ((), s') \<and> clint_mutex s' = 0 \<and>
      (\<forall>h'. msip_pending wd s' h' \<longleftrightarrow> msip_pending wd s h' \<or> h' = h)) \<and>
    (\<exists>s'. snrt_int_sw_clear wd h s = Some ((), s') \<and> clint_mutex s' = 0 \<and>
      (\<forall>h'. msip_pending wd s' h' \<longleftrightarrow> msip_pending wd s h' \<and> h' \<noteq> h))"
proof -
  have own: "h' = h" if "wd h' = wd h" "unat h' mod 32 = unat h mod 32" for h'
    using assms(1) that by (auto simp: msip_layout_def)
  show ?thesis
    using assms(2) by (auto simp: irq_simps bit_or_iff bit_and_iff bit_not_iff dest: own)
qed

text \<open>
  \<open>snrt_int_sw_get\<close> returns the \<open>msip\<close> word shifted down to the hart's bit, with the bits
  of the harts above it left in: bit 0 of the result tells whether the hart's interrupt
  is pending, but the result is 0 only if no hart of the same word with a number at least as
  high is pending, so a test of the result against 0, which the comment of the function
  invites (\<open>0 if no SW interrupt is pending, 1 otherwise\<close>), sees the interrupts of others.
\<close>

lemma int_sw_get_result:
  assumes "clint_mutex s = 0"
  shows "\<exists>r. snrt_int_sw_get wd h s = Some (r, s) \<and> (bit r 0 \<longleftrightarrow> msip_pending wd s h) \<and>
    (r = 0 \<longleftrightarrow> (\<forall>k. unat h mod 32 \<le> k \<longrightarrow> \<not> bit (msip s (wd h)) k))"
proof -
  let ?r = "drop_bit (unat h mod 32) (msip s (wd h))"
  have "snrt_int_sw_get wd h s = Some (?r, s)"
    using assms by (simp add: snrt_int_sw_get_def with_clint_mutex_def unat_and_31)
  moreover have "bit ?r 0 \<longleftrightarrow> msip_pending wd s h"
    by (simp add: bit_drop_bit_eq msip_pending_def)
  ultimately show ?thesis using drop_bit_zero_iff by blast
qed

end
