(* ===== verification/Dm.thy ===== *)
theory Dm
  imports Sync Irq
begin

text \<open>
  The data mover service of \<open>sw/snRuntime/src/dm.h\<close>: compute cores put copy tasks into a
  four-slot ring in the TCDM, the DM core takes them out in \<open>dm_main\<close> and starts them on the
  DMA engine, and a small request protocol (\<open>stat_q\<close>, \<open>stat_pvalid\<close>) lets a client wait for
  the engine. The ring indices and the fill level stay below 5 and are natural numbers
  here; \<open>stat_q\<close> is an option, with \<open>None\<close> for the value 0 (no request).
\<close>

section \<open>Data\<close>

record dm_task_t =
  t_src :: u64
  t_dst :: u64
  t_size :: u32
  t_sstrd :: u32
  t_dstrd :: u32
  t_nreps :: u32
  t_cfg :: u32
  t_twod :: u32

datatype en_stat_t = STAT_WAIT_IDLE | STAT_EXIT | STAT_READY

definition DM_TASK_QUEUE_SIZE :: nat where
  "DM_TASK_QUEUE_SIZE = 4"

record dm_t =
  queue :: "nat \<Rightarrow> dm_task_t"
  queue_back :: nat
  queue_front :: nat
  queue_fill :: nat
  dm_mutex :: u32
  stat_q :: "en_stat_t option"
  stat_p :: u32
  stat_pvalid :: u32
  dm_wfi :: u32

definition dm_task_zero :: dm_task_t where
  "dm_task_zero = \<lparr>t_src = 0, t_dst = 0, t_size = 0, t_sstrd = 0, t_dstrd = 0, t_nreps = 0,
     t_cfg = 0, t_twod = 0\<rparr>"

text \<open>The struct after the \<open>snrt_memset\<close> of \<open>dm_init\<close>.\<close>

definition dm_zero :: dm_t where
  "dm_zero = \<lparr>queue = \<lambda>_. dm_task_zero, queue_back = 0, queue_front = 0, queue_fill = 0,
     dm_mutex = 0, stat_q = None, stat_p = 0, stat_pvalid = 0, dm_wfi = 0\<rparr>"

section \<open>Bounded queues\<close>

text \<open>
  What a client of the task ring relies on: a bounded queue with an abstraction to the
  list of its elements, oldest first.
\<close>

locale bounded_fifo =
  fixes capacity :: nat and elems :: "'q \<Rightarrow> 'a list" and valid :: "'q \<Rightarrow> bool"
    and put :: "'a \<Rightarrow> 'q \<Rightarrow> 'q" and head :: "'q \<Rightarrow> 'a" and take_out :: "'q \<Rightarrow> 'q"
  assumes elems_bound: "valid q \<Longrightarrow> length (elems q) \<le> capacity"
    and put_valid: "valid q \<Longrightarrow> length (elems q) < capacity \<Longrightarrow> valid (put x q)"
    and put_elems: "valid q \<Longrightarrow> length (elems q) < capacity \<Longrightarrow> elems (put x q) = elems q @ [x]"
    and head_elems: "valid q \<Longrightarrow> elems q \<noteq> [] \<Longrightarrow> head q = hd (elems q)"
    and out_valid: "valid q \<Longrightarrow> elems q \<noteq> [] \<Longrightarrow> valid (take_out q)"
    and out_elems: "valid q \<Longrightarrow> elems q \<noteq> [] \<Longrightarrow> elems (take_out q) = tl (elems q)"
begin

text \<open>Putting a whole list that fits, and taking everything out again.\<close>

lemma put_list:
  "valid q \<Longrightarrow> length (elems q) + length xs \<le> capacity \<Longrightarrow>
     valid (fold put xs q) \<and> elems (fold put xs q) = elems q @ xs"
  by (induction xs arbitrary: q) (auto simp: put_valid put_elems)

fun drain :: "nat \<Rightarrow> 'q \<Rightarrow> 'a list \<times> 'q" where
  "drain 0 q = ([], q)"
| "drain (Suc n) q = (let (xs, q') = drain n (take_out q) in (head q # xs, q'))"

lemma drain_elems:
  "valid q \<Longrightarrow> n \<le> length (elems q) \<Longrightarrow>
     fst (drain n q) = take n (elems q) \<and> valid (snd (drain n q)) \<and>
     elems (snd (drain n q)) = drop n (elems q)"
proof (induction n arbitrary: q)
  case (Suc n)
  then have ne: "elems q \<noteq> []" by auto
  have "n \<le> length (elems (take_out q))" using Suc.prems out_elems [OF Suc.prems(1) ne] by simp
  with Suc.IH [OF out_valid [OF Suc.prems(1) ne]] show ?case
    using head_elems [OF Suc.prems(1) ne] out_elems [OF Suc.prems(1) ne] ne
    by (cases "elems q") (simp_all add: case_prod_beta)
qed simp

lemma put_drain:
  assumes "valid q" "elems q = []" "length xs \<le> capacity"
  shows "fst (drain (length xs) (fold put xs q)) = xs"
  using put_list [OF assms(1), of xs] drain_elems [of "fold put xs q" "length xs"] assms by simp

end

section \<open>The task ring\<close>

text \<open>The critical section of \<open>dm_memcpy_async\<close> and \<open>dm_memcpy2d_async\<close>, for the task \<open>t\<close>.\<close>

definition dm_insert :: "dm_task_t \<Rightarrow> dm_t \<Rightarrow> dm_t" where
  "dm_insert t d = d\<lparr>queue := (queue d)(queue_front d := t), queue_fill := queue_fill d + 1,
     queue_front := (queue_front d + 1) mod DM_TASK_QUEUE_SIZE\<rparr>"

text \<open>The slot that \<open>dm_main\<close> looks at, and its bump.\<close>

definition dm_peek :: "dm_t \<Rightarrow> dm_task_t" where
  "dm_peek d = queue d (queue_back d)"

definition dm_bump :: "dm_t \<Rightarrow> dm_t" where
  "dm_bump d = d\<lparr>queue_back := (queue_back d + 1) mod DM_TASK_QUEUE_SIZE, queue_fill := queue_fill d - 1\<rparr>"

definition ring_list :: "(nat \<Rightarrow> 'a) \<Rightarrow> nat \<Rightarrow> nat \<Rightarrow> 'a list" where
  "ring_list q b n = map (\<lambda>i. q ((b + i) mod DM_TASK_QUEUE_SIZE)) [0..<n]"

definition dm_tasks :: "dm_t \<Rightarrow> dm_task_t list" where
  "dm_tasks d = ring_list (queue d) (queue_back d) (queue_fill d)"

definition dm_valid :: "dm_t \<Rightarrow> bool" where
  "dm_valid d \<longleftrightarrow> queue_fill d \<le> DM_TASK_QUEUE_SIZE \<and> queue_back d < DM_TASK_QUEUE_SIZE \<and>
     queue_front d = (queue_back d + queue_fill d) mod DM_TASK_QUEUE_SIZE"

lemma ring_list_length [simp]: "length (ring_list q b n) = n"
  by (simp add: ring_list_def)

lemma ring_list_Suc: "ring_list q b (Suc n) = ring_list q b n @ [q ((b + n) mod DM_TASK_QUEUE_SIZE)]"
  by (simp add: ring_list_def)

lemma ring_list_Cons:
  "b < DM_TASK_QUEUE_SIZE \<Longrightarrow>
    ring_list q b (Suc n) = q b # ring_list q ((b + 1) mod DM_TASK_QUEUE_SIZE) n"
  unfolding ring_list_def
  by (subst upt_conv_Cons) (simp_all add: map_Suc_upt [symmetric] comp_def mod_add_left_eq del: upt_Suc)

lemma ring_slot_inject:
  assumes "i < DM_TASK_QUEUE_SIZE" "j < DM_TASK_QUEUE_SIZE"
    "(b + i) mod DM_TASK_QUEUE_SIZE = (b + j) mod DM_TASK_QUEUE_SIZE"
  shows "i = j"
proof -
  have "j = i" if "i \<le> j" "j < n" "(b + i) mod n = (b + j) mod n" for i j n :: nat
  proof -
    have "n dvd (b + j) - (b + i)" using that mod_eq_dvd_iff_nat [of "b + i" "b + j" n] by simp
    then have "n dvd j - i" by simp
    then show ?thesis using that by (auto dest: dvd_imp_le)
  qed
  then show ?thesis using assms by (metis nat_le_linear)
qed

text \<open>Writing a slot past the last element does not change the elements.\<close>

lemma ring_list_upd:
  assumes "n \<le> m" "m < DM_TASK_QUEUE_SIZE"
  shows "ring_list (q((b + m) mod DM_TASK_QUEUE_SIZE := x)) b n = ring_list q b n"
proof -
  have "(b + i) mod DM_TASK_QUEUE_SIZE \<noteq> (b + m) mod DM_TASK_QUEUE_SIZE" if "i < n" for i
    using ring_slot_inject [of i m b] assms that by auto
  then show ?thesis by (auto simp: ring_list_def)
qed

lemma dm_insert_valid:
  assumes "dm_valid d" "queue_fill d < DM_TASK_QUEUE_SIZE"
  shows "dm_valid (dm_insert t d)" "dm_tasks (dm_insert t d) = dm_tasks d @ [t]"
proof -
  show "dm_valid (dm_insert t d)"
    using assms by (simp add: dm_valid_def dm_insert_def mod_Suc_eq)
  have "dm_tasks (dm_insert t d) =
      ring_list ((queue d)((queue_back d + queue_fill d) mod DM_TASK_QUEUE_SIZE := t))
        (queue_back d) (Suc (queue_fill d))"
    using assms by (simp add: dm_tasks_def dm_insert_def dm_valid_def)
  then show "dm_tasks (dm_insert t d) = dm_tasks d @ [t]"
    using assms(2) by (simp add: ring_list_Suc ring_list_upd dm_tasks_def)
qed

lemma dm_bump_valid:
  assumes "dm_valid d" "0 < queue_fill d"
  shows "dm_valid (dm_bump d)" "dm_tasks d = dm_peek d # dm_tasks (dm_bump d)"
proof -
  obtain n where n: "queue_fill d = Suc n" using assms(2) by (cases "queue_fill d") auto
  show "dm_valid (dm_bump d)"
    using assms(1) n by (simp add: dm_valid_def dm_bump_def DM_TASK_QUEUE_SIZE_def mod_simps)
  show "dm_tasks d = dm_peek d # dm_tasks (dm_bump d)"
    using assms(1) n by (simp add: dm_tasks_def dm_bump_def dm_peek_def dm_valid_def ring_list_Cons)
qed

interpretation dm_ring: bounded_fifo DM_TASK_QUEUE_SIZE dm_tasks dm_valid dm_insert dm_peek dm_bump
proof unfold_locales
  show "length (dm_tasks q) \<le> DM_TASK_QUEUE_SIZE" if "dm_valid q" for q
    using that by (simp add: dm_tasks_def dm_valid_def)
  have fill: "queue_fill q = length (dm_tasks q)" for q by (simp add: dm_tasks_def)
  show "dm_valid (dm_insert x q)" "dm_tasks (dm_insert x q) = dm_tasks q @ [x]"
    if "dm_valid q" "length (dm_tasks q) < DM_TASK_QUEUE_SIZE" for x q
    using that dm_insert_valid [of q] by (simp_all add: fill)
  show "dm_peek q = hd (dm_tasks q)" "dm_valid (dm_bump q)" "dm_tasks (dm_bump q) = tl (dm_tasks q)"
    if "dm_valid q" "dm_tasks q \<noteq> []" for q
    using that dm_bump_valid [of q] by (simp_all add: fill)
qed

section \<open>Clients and the DM core\<close>

text \<open>
  One client and the DM core, each making one memory access at a time. The position of the
  client: \<open>C_*\<close> in \<open>dm_memcpy_async\<close> or \<open>dm_memcpy2d_async\<close> (with their arguments),
  \<open>S_Wake\<close> in \<open>dm_start\<close>, \<open>W_*\<close> in the first part of \<open>dm_wait\<close>, \<open>Q_* e\<close> in the request part of
  \<open>dm_wait\<close> and \<open>dm_wait_ready\<close>, \<open>X_*\<close> in \<open>dm_exit\<close>.
\<close>

datatype dm_args = Args_1d ptr ptr u32 | Args_2d u64 u64 u32 u32 u32 u32 u32

datatype dm_cpc = C_Idle | C_Poll dm_args | C_Lock dm_args | C_Insert dm_args | C_Inc | C_Front | C_Unlock | S_Wake
  | W_Wake | W_Fill | W_StatQ
  | Q_Lock en_stat_t | Q_Clr en_stat_t | Q_Set en_stat_t | Q_Wake en_stat_t | Q_Valid en_stat_t
  | Q_Unlock en_stat_t
  | X_Set | X_Wake

text \<open>The position of the DM core in \<open>dm_main\<close>, with \<open>wfi_dm\<close> inlined.\<close>

datatype dm_dpc = D_Top | D_Block | D_Issue | D_Back | D_Dec | D_Stat | D_Valid | D_ClrQ
  | D_CheckF | D_CheckQ | D_WfiInc | D_Wfi | D_Clr | D_WfiDec | D_Exit

text \<open>
  \<open>pend\<close>: the tasks started on the engine and not completed, \<open>finished\<close>: those completed,
  \<open>accepted\<close>: all tasks ever put into the ring; \<open>irq\<close>: the cluster interrupt of the DM core.
\<close>

record dm_sys =
  dmd :: dm_t
  pend :: "dm_task_t list"
  finished :: "dm_task_t list"
  accepted :: "dm_task_t list"
  cpc :: dm_cpc
  dpc :: dm_dpc
  irq :: bool

text \<open>The stores into the task slot; a 1D copy leaves the strides and repetitions as they are.\<close>

fun dm_fill_slot :: "dm_args \<Rightarrow> dm_task_t \<Rightarrow> dm_task_t" where
  "dm_fill_slot (Args_1d dest src n) t =
     t\<lparr>t_src := ucast src, t_dst := ucast dest, t_size := n, t_twod := 0, t_cfg := 0\<rparr>"
| "dm_fill_slot (Args_2d src dst sz sstrd dstrd nreps cfg) t =
     t\<lparr>t_src := src, t_dst := dst, t_size := sz, t_sstrd := sstrd, t_dstrd := dstrd,
       t_nreps := nreps, t_twod := 1, t_cfg := cfg\<rparr>"

text \<open>Where the functions of the interface start.\<close>

definition dm_memcpy_async :: "ptr \<Rightarrow> ptr \<Rightarrow> u32 \<Rightarrow> dm_cpc" where
  "dm_memcpy_async dest src n = C_Poll (Args_1d dest src n)"

definition dm_memcpy2d_async :: "u64 \<Rightarrow> u64 \<Rightarrow> u32 \<Rightarrow> u32 \<Rightarrow> u32 \<Rightarrow> u32 \<Rightarrow> u32 \<Rightarrow> dm_cpc" where
  "dm_memcpy2d_async src dst sz sstrd dstrd nreps cfg =
     C_Poll (Args_2d src dst sz sstrd dstrd nreps cfg)"

definition dm_start :: dm_cpc where "dm_start = S_Wake"
definition dm_wait :: dm_cpc where "dm_wait = W_Wake"
definition dm_wait_ready :: dm_cpc where "dm_wait_ready = Q_Lock STAT_READY"
definition dm_exit :: dm_cpc where "dm_exit = X_Set"

definition dm_entry :: "dm_cpc \<Rightarrow> bool" where
  "dm_entry pc \<longleftrightarrow> (\<exists>f. pc = C_Poll f) \<or> pc \<in> {dm_start, dm_wait, dm_wait_ready, dm_exit}"

text \<open>\<open>wake_dm\<close>: wait until the DM core sleeps, then raise its interrupt.\<close>

definition wake_dm :: "dm_cpc \<Rightarrow> dm_cpc \<Rightarrow> dm_sys \<Rightarrow> dm_sys" where
  "wake_dm stay nxt s = (if dm_wfi (dmd s) = 0 then s\<lparr>cpc := stay\<rparr> else s\<lparr>cpc := nxt, irq := True\<rparr>)"

definition dm_mtx_lock :: "dm_cpc \<Rightarrow> dm_cpc \<Rightarrow> dm_sys \<Rightarrow> dm_sys" where
  "dm_mtx_lock stay nxt s =
     (if dm_mutex (dmd s) \<noteq> 0 then s\<lparr>cpc := stay\<rparr> else s\<lparr>cpc := nxt, dmd := (dmd s)\<lparr>dm_mutex := 1\<rparr>\<rparr>)"

fun dm_client :: "dm_cpc \<Rightarrow> dm_sys \<Rightarrow> dm_sys" where
  "dm_client C_Idle s = s"
| "dm_client (C_Poll f) s =
     (if queue_fill (dmd s) \<ge> DM_TASK_QUEUE_SIZE then s else s\<lparr>cpc := C_Lock f\<rparr>)"
| "dm_client (C_Lock f) s = dm_mtx_lock (C_Lock f) (C_Insert f) s"
| "dm_client (C_Insert f) s =
     (let d = dmd s; i = queue_front d
      in s\<lparr>dmd := d\<lparr>queue := (queue d)(i := dm_fill_slot f (queue d i))\<rparr>, cpc := C_Inc\<rparr>)"
| "dm_client C_Inc s =
     (let d = dmd s
      in s\<lparr>dmd := d\<lparr>queue_fill := queue_fill d + 1\<rparr>,
           accepted := accepted s @ [queue d (queue_front d)], cpc := C_Front\<rparr>)"
| "dm_client C_Front s =
     (let d = dmd s
      in s\<lparr>dmd := d\<lparr>queue_front := (queue_front d + 1) mod DM_TASK_QUEUE_SIZE\<rparr>, cpc := C_Unlock\<rparr>)"
| "dm_client C_Unlock s = s\<lparr>dmd := (dmd s)\<lparr>dm_mutex := 0\<rparr>, cpc := C_Idle\<rparr>"
| "dm_client S_Wake s = wake_dm S_Wake C_Idle s"
| "dm_client W_Wake s = wake_dm W_Wake W_Fill s"
| "dm_client W_Fill s = (if queue_fill (dmd s) \<noteq> 0 then s else s\<lparr>cpc := W_StatQ\<rparr>)"
| "dm_client W_StatQ s = (if stat_q (dmd s) \<noteq> None then s else s\<lparr>cpc := Q_Lock STAT_WAIT_IDLE\<rparr>)"
| "dm_client (Q_Lock e) s = dm_mtx_lock (Q_Lock e) (Q_Clr e) s"
| "dm_client (Q_Clr e) s = s\<lparr>dmd := (dmd s)\<lparr>stat_pvalid := 0\<rparr>, cpc := Q_Set e\<rparr>"
| "dm_client (Q_Set e) s = s\<lparr>dmd := (dmd s)\<lparr>stat_q := Some e\<rparr>, cpc := Q_Wake e\<rparr>"
| "dm_client (Q_Wake e) s = wake_dm (Q_Wake e) (Q_Valid e) s"
| "dm_client (Q_Valid e) s = (if stat_pvalid (dmd s) = 0 then s else s\<lparr>cpc := Q_Unlock e\<rparr>)"
| "dm_client (Q_Unlock e) s = s\<lparr>dmd := (dmd s)\<lparr>dm_mutex := 0\<rparr>, cpc := C_Idle\<rparr>"
| "dm_client X_Set s = s\<lparr>dmd := (dmd s)\<lparr>stat_q := Some STAT_EXIT\<rparr>, cpc := X_Wake\<rparr>"
| "dm_client X_Wake s = wake_dm X_Wake C_Idle s"

text \<open>\<open>dm_main\<close>; \<open>wb\<close> is the engine's answer to the \<open>would_block\<close> query.\<close>

fun dm_main :: "bool \<Rightarrow> dm_dpc \<Rightarrow> dm_sys \<Rightarrow> dm_sys" where
  "dm_main wb D_Top s = s\<lparr>dpc := if queue_fill (dmd s) \<noteq> 0 then D_Block else D_Stat\<rparr>"
| "dm_main wb D_Block s = s\<lparr>dpc := if wb then D_Block else D_Issue\<rparr>"
| "dm_main wb D_Issue s = s\<lparr>pend := pend s @ [dm_peek (dmd s)], dpc := D_Back\<rparr>"
| "dm_main wb D_Back s =
     s\<lparr>dmd := (dmd s)\<lparr>queue_back := (queue_back (dmd s) + 1) mod DM_TASK_QUEUE_SIZE\<rparr>, dpc := D_Dec\<rparr>"
| "dm_main wb D_Dec s = s\<lparr>dmd := (dmd s)\<lparr>queue_fill := queue_fill (dmd s) - 1\<rparr>, dpc := D_Stat\<rparr>"
| "dm_main wb D_Stat s =
     s\<lparr>dpc := (case stat_q (dmd s) of None \<Rightarrow> D_CheckF
         | Some STAT_WAIT_IDLE \<Rightarrow> (if pend s = [] then D_Valid else D_CheckF)
         | Some STAT_EXIT \<Rightarrow> D_Exit
         | Some STAT_READY \<Rightarrow> D_Valid)\<rparr>"
| "dm_main wb D_Valid s = s\<lparr>dmd := (dmd s)\<lparr>stat_pvalid := 1\<rparr>, dpc := D_ClrQ\<rparr>"
| "dm_main wb D_ClrQ s = s\<lparr>dmd := (dmd s)\<lparr>stat_q := None\<rparr>, dpc := D_CheckF\<rparr>"
| "dm_main wb D_CheckF s = s\<lparr>dpc := if queue_fill (dmd s) \<noteq> 0 then D_Top else D_CheckQ\<rparr>"
| "dm_main wb D_CheckQ s = s\<lparr>dpc := if stat_q (dmd s) \<noteq> None then D_Top else D_WfiInc\<rparr>"
| "dm_main wb D_WfiInc s = s\<lparr>dmd := (dmd s)\<lparr>dm_wfi := dm_wfi (dmd s) + 1\<rparr>, dpc := D_Wfi\<rparr>"
| "dm_main wb D_Wfi s = (if irq s then s\<lparr>dpc := D_Clr\<rparr> else s)"
| "dm_main wb D_Clr s = s\<lparr>irq := False, dpc := D_WfiDec\<rparr>"
| "dm_main wb D_WfiDec s = s\<lparr>dmd := (dmd s)\<lparr>dm_wfi := dm_wfi (dmd s) - 1\<rparr>, dpc := D_Top\<rparr>"
| "dm_main wb D_Exit s = s"

inductive dm_step :: "dm_sys \<Rightarrow> dm_sys \<Rightarrow> bool" where
  call: "cpc s = C_Idle \<Longrightarrow> dm_entry pc \<Longrightarrow> dm_step s (s\<lparr>cpc := pc\<rparr>)"
| client: "dm_step s (dm_client (cpc s) s)"
| core: "dm_step s (dm_main wb (dpc s) s)"
| engine: "pend s = t # ts \<Longrightarrow> dm_step s (s\<lparr>pend := ts, finished := finished s @ [t]\<rparr>)"

definition dm_sys_zero :: dm_sys where
  "dm_sys_zero = \<lparr>dmd = dm_zero, pend = [], finished = [], accepted = [], cpc = C_Idle,
     dpc = D_Top, irq = False\<rparr>"

definition dm_boot :: "dm_sys \<Rightarrow> bool" where
  "dm_boot s \<longleftrightarrow> s = dm_sys_zero"

text \<open>
  \<open>dm_init\<close>: the DM core enables its cluster interrupt, takes the struct from the L1 allocator,
  clears it and publishes the pointer; every other hart spins until the pointer is there
  (\<open>None\<close>: still spinning).
\<close>

record dm_env =
  de_csrs :: core_csrs
  de_alloc :: alloc_state
  de_mem :: mem
  dm_p_global :: ptr

definition sizeof_dm_t :: u32 where
  "sizeof_dm_t = 4 * 40 + 8 * 4"

definition dm_init :: "riscv_enc \<Rightarrow> snrt_defs \<Rightarrow> u32 \<Rightarrow> dm_env \<Rightarrow> (ptr \<times> dm_env) option" where
  "dm_init e d hartid s =
     (if snrt_is_dm_core d hartid then
        let c = snrt_interrupt_enable (IRQ_M_CLUSTER e) (de_csrs s);
            (p, a) = snrt_l1alloc sizeof_dm_t (de_alloc s);
            (q, m) = snrt_memset p 0 sizeof_dm_t (de_mem s)
        in Some (p, s\<lparr>de_csrs := c, de_alloc := a, de_mem := m, dm_p_global := p\<rparr>)
      else if dm_p_global s = 0 then None
      else Some (dm_p_global s, s))"

text \<open>The struct is zero before any other hart sees its address.\<close>

lemma dm_init_zero:
  assumes "snrt_is_dm_core d hartid" "unat (snrt_l1_next (de_alloc s)) + 192 \<le> 2 ^ 32" "i < 192"
    "dm_init e d hartid s = Some (p, s')"
  shows "p = snrt_l1_next (de_alloc s) \<and> dm_p_global s' = p \<and> de_mem s' (ucast p + of_nat i) = 0"
  using assms snrt_memset_byte [of i sizeof_dm_t "snrt_l1_next (de_alloc s)" 0 "de_mem s"]
  by (auto simp: dm_init_def sizeof_dm_t_def case_prod_beta Let_def)

section \<open>The invariant\<close>

text \<open>The ring with the half-finished updates of the DM core and of the client counted as done.\<close>

definition eff_back :: "dm_sys \<Rightarrow> nat" where
  "eff_back s = (if dpc s = D_Back then (queue_back (dmd s) + 1) mod DM_TASK_QUEUE_SIZE
     else queue_back (dmd s))"

definition eff_fill :: "dm_sys \<Rightarrow> nat" where
  "eff_fill s = (if dpc s = D_Back \<or> dpc s = D_Dec then queue_fill (dmd s) - 1 else queue_fill (dmd s))"

definition eff_front :: "dm_sys \<Rightarrow> nat" where
  "eff_front s = (if cpc s = C_Front then (queue_front (dmd s) + 1) mod DM_TASK_QUEUE_SIZE
     else queue_front (dmd s))"

definition ring_inv :: "dm_sys \<Rightarrow> bool" where
  "ring_inv s \<longleftrightarrow> queue_back (dmd s) < DM_TASK_QUEUE_SIZE \<and> queue_fill (dmd s) \<le> DM_TASK_QUEUE_SIZE \<and>
     eff_front s = (eff_back s + eff_fill s) mod DM_TASK_QUEUE_SIZE \<and>
     (dpc s \<in> {D_Block, D_Issue, D_Back, D_Dec} \<longrightarrow> 0 < queue_fill (dmd s))"

definition fifo_inv :: "dm_sys \<Rightarrow> bool" where
  "fifo_inv s \<longleftrightarrow> accepted s = finished s @ pend s @ ring_list (queue (dmd s)) (eff_back s) (eff_fill s)"

definition room_inv :: "dm_sys \<Rightarrow> bool" where
  "room_inv s \<longleftrightarrow> ((\<exists>f. cpc s = C_Lock f \<or> cpc s = C_Insert f) \<or> cpc s = C_Inc \<longrightarrow>
     queue_fill (dmd s) < DM_TASK_QUEUE_SIZE)"

text \<open>The request protocol of \<open>dm_wait\<close>.\<close>

definition wait_inv :: "dm_sys \<Rightarrow> bool" where
  "wait_inv s \<longleftrightarrow>
     (dpc s = D_Valid \<or> dpc s = D_ClrQ \<longrightarrow> stat_q (dmd s) \<noteq> None) \<and>
     (cpc s = W_StatQ \<longrightarrow> queue_fill (dmd s) = 0) \<and>
     (cpc s \<in> {Q_Lock STAT_WAIT_IDLE, Q_Clr STAT_WAIT_IDLE, Q_Set STAT_WAIT_IDLE} \<longrightarrow>
        queue_fill (dmd s) = 0 \<and> stat_q (dmd s) = None) \<and>
     (cpc s = Q_Set STAT_WAIT_IDLE \<longrightarrow> stat_pvalid (dmd s) = 0) \<and>
     (cpc s \<in> {Q_Wake STAT_WAIT_IDLE, Q_Valid STAT_WAIT_IDLE} \<longrightarrow> queue_fill (dmd s) = 0 \<and>
        (stat_q (dmd s) = Some STAT_WAIT_IDLE \<and> dpc s \<noteq> D_ClrQ \<and> stat_pvalid (dmd s) = 0 \<and>
           (dpc s = D_Valid \<longrightarrow> pend s = []) \<or>
         stat_q (dmd s) = Some STAT_WAIT_IDLE \<and> dpc s = D_ClrQ \<and> pend s = [] \<or>
         stat_q (dmd s) = None \<and> pend s = [])) \<and>
     (cpc s = Q_Unlock STAT_WAIT_IDLE \<longrightarrow> queue_fill (dmd s) = 0 \<and> pend s = [])"

definition dm_inv :: "dm_sys \<Rightarrow> bool" where
  "dm_inv s \<longleftrightarrow> ring_inv s \<and> fifo_inv s \<and> room_inv s \<and> wait_inv s"

lemmas dm_inv_defs = ring_inv_def fifo_inv_def room_inv_def eff_back_def eff_fill_def eff_front_def

lemma ring_list_0 [simp]: "ring_list q b 0 = []"
  by (simp add: ring_list_def)

text \<open>A step that leaves the ring, with its half-finished updates, as it is.\<close>

lemma ring_frame:
  assumes "ring_inv s" "fifo_inv s"
    and "eff_back t = eff_back s" "eff_fill t = eff_fill s" "eff_front t = eff_front s"
    and "queue (dmd t) = queue (dmd s)" "queue_back (dmd t) < DM_TASK_QUEUE_SIZE"
    and "queue_fill (dmd t) \<le> DM_TASK_QUEUE_SIZE"
    and "dpc t \<in> {D_Block, D_Issue, D_Back, D_Dec} \<longrightarrow> 0 < queue_fill (dmd t)"
    and "accepted t = accepted s" "finished t @ pend t = finished s @ pend s"
  shows "ring_inv t \<and> fifo_inv t"
proof -
  have "finished t @ pend t @ r = finished s @ pend s @ r" for r
    using assms(11) by (metis append_assoc)
  then show ?thesis using assms(1-10) by (simp add: ring_inv_def fifo_inv_def)
qed

lemmas eff_defs = eff_back_def eff_fill_def eff_front_def

lemma ring_client_insert:
  assumes "ring_inv s" "fifo_inv s" "room_inv s" "cpc s = C_Insert f"
  shows "ring_inv (dm_client (cpc s) s) \<and> fifo_inv (dm_client (cpc s) s)"
proof -
  let ?t = "dm_client (cpc s) s"
  have t: "eff_back ?t = eff_back s" "eff_fill ?t = eff_fill s" "eff_front ?t = eff_front s"
    "queue_back (dmd ?t) = queue_back (dmd s)" "queue_fill (dmd ?t) = queue_fill (dmd s)"
    "dpc ?t = dpc s" "accepted ?t = accepted s" "pend ?t = pend s" "finished ?t = finished s"
    "queue (dmd ?t) = (queue (dmd s))(eff_front s := dm_fill_slot f (queue (dmd s) (queue_front (dmd s))))"
    using assms(4) by (simp_all add: eff_defs Let_def)
  have "eff_fill s < DM_TASK_QUEUE_SIZE" using assms(3,4) by (auto simp: room_inv_def eff_fill_def)
  moreover have "eff_front s = (eff_back s + eff_fill s) mod DM_TASK_QUEUE_SIZE"
    using assms(1) by (simp add: ring_inv_def)
  ultimately have "ring_list (queue (dmd ?t)) (eff_back s) (eff_fill s) =
      ring_list (queue (dmd s)) (eff_back s) (eff_fill s)"
    by (simp add: t ring_list_upd)
  then show ?thesis using assms(1,2) by (simp add: ring_inv_def fifo_inv_def t)
qed

lemma ring_client_inc:
  assumes "ring_inv s" "fifo_inv s" "room_inv s" "cpc s = C_Inc"
  shows "ring_inv (dm_client (cpc s) s) \<and> fifo_inv (dm_client (cpc s) s)"
proof -
  let ?t = "dm_client (cpc s) s"
  have pos: "dpc s = D_Back \<or> dpc s = D_Dec \<Longrightarrow> 0 < queue_fill (dmd s)" using assms(1) by (auto simp: ring_inv_def)
  have t: "eff_back ?t = eff_back s" "eff_fill ?t = Suc (eff_fill s)"
    "eff_front ?t = (eff_front s + 1) mod DM_TASK_QUEUE_SIZE" "queue_back (dmd ?t) = queue_back (dmd s)"
    "queue_fill (dmd ?t) = Suc (queue_fill (dmd s))" "dpc ?t = dpc s" "pend ?t = pend s"
    "finished ?t = finished s" "queue (dmd ?t) = queue (dmd s)"
    "accepted ?t = accepted s @ [queue (dmd s) (eff_front s)]"
    using assms(4) pos by (auto simp: eff_defs Let_def)
  have "queue_fill (dmd s) < DM_TASK_QUEUE_SIZE" using assms(3,4) by (simp add: room_inv_def)
  moreover have "eff_front s = (eff_back s + eff_fill s) mod DM_TASK_QUEUE_SIZE"
    using assms(1) by (simp add: ring_inv_def)
  ultimately show ?thesis
    using assms(1,2) by (auto simp: ring_inv_def fifo_inv_def t ring_list_Suc mod_Suc_eq)
qed

lemma ring_client:
  assumes "ring_inv s" "fifo_inv s" "room_inv s"
  shows "ring_inv (dm_client (cpc s) s) \<and> fifo_inv (dm_client (cpc s) s)"
proof (cases "(\<exists>f. cpc s = C_Insert f) \<or> cpc s = C_Inc")
  case False
  have "queue_back (dmd s) < DM_TASK_QUEUE_SIZE" "queue_fill (dmd s) \<le> DM_TASK_QUEUE_SIZE"
    "dpc s \<in> {D_Block, D_Issue, D_Back, D_Dec} \<longrightarrow> 0 < queue_fill (dmd s)"
    using assms(1) by (simp_all add: ring_inv_def)
  with False show ?thesis
    by (intro ring_frame [OF assms(1,2)]; cases "cpc s")
      (auto simp: eff_defs wake_dm_def dm_mtx_lock_def Let_def)
qed (use assms ring_client_insert ring_client_inc in blast)

lemma ring_core_issue:
  assumes "ring_inv s" "fifo_inv s" "dpc s = D_Issue"
  shows "ring_inv (dm_main wb (dpc s) s) \<and> fifo_inv (dm_main wb (dpc s) s)"
proof -
  let ?t = "dm_main wb (dpc s) s" and ?d = "dmd s"
  have pos: "queue_fill ?d = Suc (queue_fill ?d - 1)" "queue_back ?d < DM_TASK_QUEUE_SIZE"
    using assms(1,3) by (auto simp: ring_inv_def)
  have "eff_front s = (queue_back ?d + Suc (queue_fill ?d - 1)) mod DM_TASK_QUEUE_SIZE"
    using assms(1,3) pos by (simp add: ring_inv_def eff_defs)
  then have "eff_front s = ((queue_back ?d + 1) mod DM_TASK_QUEUE_SIZE + (queue_fill ?d - 1)) mod DM_TASK_QUEUE_SIZE"
    by (simp add: mod_simps)
  moreover have "ring_list (queue ?d) (queue_back ?d) (queue_fill ?d) =
      dm_peek ?d # ring_list (queue ?d) ((queue_back ?d + 1) mod DM_TASK_QUEUE_SIZE) (queue_fill ?d - 1)"
    using ring_list_Cons [OF pos(2), of "queue ?d" "queue_fill ?d - 1"] pos(1) by (simp add: dm_peek_def)
  moreover have "eff_front ?t = eff_front s" "eff_fill ?t = queue_fill ?d - 1" "dmd ?t = ?d"
    "eff_back ?t = (queue_back ?d + 1) mod DM_TASK_QUEUE_SIZE" "pend ?t = pend s @ [dm_peek ?d]"
    "finished ?t = finished s" "accepted ?t = accepted s" "eff_back s = queue_back ?d"
    "eff_fill s = queue_fill ?d" "dpc ?t = D_Back"
    using assms(3) by (simp_all add: eff_defs)
  ultimately show ?thesis
    using assms(1,2) pos unfolding ring_inv_def fifo_inv_def by simp
qed

lemma ring_core:
  assumes "ring_inv s" "fifo_inv s"
  shows "ring_inv (dm_main wb (dpc s) s) \<and> fifo_inv (dm_main wb (dpc s) s)"
proof (cases "dpc s = D_Issue")
  case False
  have "queue_back (dmd s) < DM_TASK_QUEUE_SIZE" "queue_fill (dmd s) \<le> DM_TASK_QUEUE_SIZE"
    "dpc s \<in> {D_Block, D_Issue, D_Back, D_Dec} \<longrightarrow> 0 < queue_fill (dmd s)"
    using assms(1) by (simp_all add: ring_inv_def)
  with False show ?thesis
    by (intro ring_frame [OF assms]; cases "dpc s")
      (simp_all add: eff_defs DM_TASK_QUEUE_SIZE_def split: option.splits en_stat_t.splits)
qed (use assms ring_core_issue in blast)

lemma room_client:
  assumes "ring_inv s" "room_inv s"
  shows "room_inv (dm_client (cpc s) s)"
  using assms by (cases "cpc s") (auto simp: room_inv_def wake_dm_def dm_mtx_lock_def Let_def)

lemma room_core: "room_inv s \<Longrightarrow> room_inv (dm_main wb (dpc s) s)"
  by (cases "dpc s") (auto simp: room_inv_def)

lemma wait_client:
  assumes "wait_inv s"
  shows "wait_inv (dm_client (cpc s) s)"
proof (cases "cpc s")
  case (Q_Set e)
  then show ?thesis using assms by (cases e) (auto simp: wait_inv_def)
next
  case (Q_Valid e)
  then show ?thesis using assms by (cases e) (auto simp: wait_inv_def)
next
  case (Q_Wake e)
  then show ?thesis using assms by (cases e) (auto simp: wait_inv_def wake_dm_def)
next
  case (Q_Lock e)
  then show ?thesis using assms by (cases e) (auto simp: wait_inv_def dm_mtx_lock_def)
next
  case (Q_Clr e)
  then show ?thesis using assms by (cases e) (auto simp: wait_inv_def)
qed (use assms in \<open>auto simp: wait_inv_def wake_dm_def dm_mtx_lock_def Let_def\<close>)

text \<open>While tasks are in the ring, nobody is past the first part of \<open>dm_wait\<close>.\<close>

definition in_request :: "dm_cpc \<Rightarrow> bool" where
  "in_request pc \<longleftrightarrow> pc \<in> {W_StatQ, Q_Lock STAT_WAIT_IDLE, Q_Clr STAT_WAIT_IDLE, Q_Set STAT_WAIT_IDLE,
     Q_Wake STAT_WAIT_IDLE, Q_Valid STAT_WAIT_IDLE, Q_Unlock STAT_WAIT_IDLE}"

lemma wait_inv_busy:
  "wait_inv s \<Longrightarrow> 0 < queue_fill (dmd s) \<Longrightarrow> \<not> in_request (cpc s)"
  by (auto simp: wait_inv_def in_request_def)

lemma wait_inv_outside:
  "\<not> in_request (cpc s) \<Longrightarrow> wait_inv s \<longleftrightarrow> (dpc s = D_Valid \<or> dpc s = D_ClrQ \<longrightarrow> stat_q (dmd s) \<noteq> None)"
  by (auto simp: wait_inv_def in_request_def)

lemma wait_frame:
  assumes "wait_inv s" "cpc t = cpc s" "queue_fill (dmd t) = queue_fill (dmd s)"
    "stat_q (dmd t) = stat_q (dmd s)" "stat_pvalid (dmd t) = stat_pvalid (dmd s)" "pend t = pend s"
    "dpc s \<noteq> D_ClrQ" "dpc t \<noteq> D_ClrQ" "dpc t \<noteq> D_Valid"
  shows "wait_inv t"
  using assms(1) unfolding wait_inv_def assms(2-6) using assms(7-9) by simp blast

lemma wait_core:
  assumes "wait_inv s" "ring_inv s"
  shows "wait_inv (dm_main wb (dpc s) s)"
proof (cases "dpc s \<in> {D_Block, D_Issue, D_Back, D_Dec}")
  case True
  then have "\<not> in_request (cpc s)" using wait_inv_busy assms by (simp add: ring_inv_def)
  with True assms(1) show ?thesis by (auto simp: wait_inv_outside)
next
  case False
  show ?thesis
  proof (cases "dpc s")
    case D_Stat
    have req: "stat_q (dmd s) = Some STAT_WAIT_IDLE \<or> pend s = []"
      if "cpc s \<in> {Q_Wake STAT_WAIT_IDLE, Q_Valid STAT_WAIT_IDLE}"
      using assms(1) that by (auto simp: wait_inv_def)
    show ?thesis
    proof (cases "dpc (dm_main wb (dpc s) s) = D_Valid")
      case True
      then show ?thesis using D_Stat assms(1) req
        by (auto simp: wait_inv_def split: option.splits en_stat_t.splits if_splits)
    next
      case False
      then show ?thesis using D_Stat assms(1)
        by (intro wait_frame [OF assms(1)]) (auto split: option.splits en_stat_t.splits if_splits)
    qed
  next
    case D_Valid
    then have "stat_q (dmd s) \<noteq> None" using assms(1) by (simp add: wait_inv_def)
    with D_Valid show ?thesis using assms(1) by (simp add: wait_inv_def) fastforce
  next
    case D_ClrQ
    then show ?thesis using assms(1) by (simp add: wait_inv_def) blast
  qed (use False in \<open>intro wait_frame [OF assms(1)]; simp\<close>)+
qed

lemma dm_inv_step:
  assumes inv: "dm_inv s" and step: "dm_step s t"
  shows "dm_inv t"
  using step
proof cases
  case (call pc)
  have "ring_inv t \<and> fifo_inv t"
    using inv call by (intro ring_frame [of s]) (auto simp: dm_inv_def ring_inv_def eff_defs dm_entry_def
        dm_start_def dm_wait_def dm_wait_ready_def dm_exit_def)
  then show ?thesis
    using inv call by (auto simp: dm_inv_def room_inv_def wait_inv_def dm_entry_def
        dm_start_def dm_wait_def dm_wait_ready_def dm_exit_def)
next
  case client
  then show ?thesis
    using inv ring_client room_client wait_client by (simp add: dm_inv_def)
next
  case (core wb)
  then show ?thesis
    using inv ring_core room_core wait_core by (simp add: dm_inv_def)
next
  case (engine x xs)
  have "ring_inv t \<and> fifo_inv t"
    using inv engine by (intro ring_frame [of s]) (auto simp: dm_inv_def ring_inv_def eff_defs)
  then show ?thesis
    using inv engine by (auto simp: dm_inv_def room_inv_def wait_inv_def)
qed

interpretation dm: step_invariant dm_boot dm_step dm_inv
proof unfold_locales
  show "dm_inv s" if "dm_boot s" for s
    using that by (simp add: dm_boot_def dm_sys_zero_def dm_zero_def dm_inv_def dm_inv_defs wait_inv_def
        DM_TASK_QUEUE_SIZE_def)
qed (rule dm_inv_step)

section \<open>Concrete runs\<close>

text \<open>An executable scheduler of client and DM core; \<open>R_Engine\<close> completes the oldest transfer.\<close>

datatype dm_act = R_Call dm_cpc | R_Client | R_Core | R_Engine

fun dm_act_step :: "dm_act \<Rightarrow> dm_sys \<Rightarrow> dm_sys" where
  "dm_act_step (R_Call pc) s = (if cpc s = C_Idle then s\<lparr>cpc := pc\<rparr> else s)"
| "dm_act_step R_Client s = dm_client (cpc s) s"
| "dm_act_step R_Core s = dm_main False (dpc s) s"
| "dm_act_step R_Engine s =
     (case pend s of [] \<Rightarrow> s | t # ts \<Rightarrow> s\<lparr>pend := ts, finished := finished s @ [t]\<rparr>)"

definition dm_act_ok :: "dm_act \<Rightarrow> bool" where
  "dm_act_ok a \<longleftrightarrow> (\<forall>pc. a = R_Call pc \<longrightarrow> dm_entry pc)"

lemma dm_run_reachable:
  "list_all dm_act_ok as \<Longrightarrow> reachable dm_boot dm_step s \<Longrightarrow>
    reachable dm_boot dm_step (fold dm_act_step as s)"
proof (induction as arbitrary: s)
  case (Cons a as)
  have "reachable dm_boot dm_step (dm_act_step a s)"
  proof (cases a)
    case (R_Call pc)
    then show ?thesis using Cons.prems dm_step.call [of s pc]
      by (auto simp: dm_act_ok_def intro: reachable.move)
  next
    case R_Engine
    then show ?thesis using Cons.prems
      by (auto split: list.split intro: reachable.move dm_step.engine)
  qed (use Cons.prems dm_step.client [of s] dm_step.core [of s False] in \<open>auto intro: reachable.move\<close>)
  with Cons show ?case by simp
qed simp

lemma dm_zero_reachable: "reachable dm_boot dm_step dm_sys_zero"
  by (rule reachable.start) (simp add: dm_boot_def)

lemma dm_entry_simps [simp]:
  "dm_entry (C_Poll f)" "dm_entry dm_start" "dm_entry dm_wait" "dm_entry dm_wait_ready" "dm_entry dm_exit"
  by (auto simp: dm_entry_def)

text \<open>The DM core goes to sleep; the client queues a copy and waits for it.\<close>

definition wait_run :: "dm_act list" where
  "wait_run = replicate 5 R_Core @ R_Call (dm_memcpy_async 0x100 0x200 64) # replicate 6 R_Client @
     R_Call dm_wait # R_Client # replicate 11 R_Core @ R_Engine # replicate 5 R_Client @
     [R_Core, R_Client] @ replicate 6 R_Core @ [R_Client]"

definition wait_state :: dm_sys where
  "wait_state = fold dm_act_step wait_run dm_sys_zero"

lemma wait_state_reachable: "reachable dm_boot dm_step wait_state"
  unfolding wait_state_def
  by (rule dm_run_reachable [OF _ dm_zero_reachable])
    (auto simp: wait_run_def dm_act_ok_def dm_memcpy_async_def list_all_iff)

lemma wait_state_pcs: "cpc wait_state = Q_Unlock STAT_WAIT_IDLE" "length (accepted wait_state) = 1"
  by code_simp+

text \<open>
  Then, before the DM core has cleared \<open>stat_q\<close>, the client calls \<open>dm_wait_ready\<close>: the DM core
  wipes the new request out.
\<close>

definition ready_state :: dm_sys where
  "ready_state = fold dm_act_step (R_Client # R_Call dm_wait_ready # replicate 3 R_Client @
     replicate 4 R_Core @ [R_Client]) wait_state"

lemma ready_state_reachable: "reachable dm_boot dm_step ready_state"
  unfolding ready_state_def
  by (rule dm_run_reachable [OF _ wait_state_reachable]) (auto simp: dm_act_ok_def list_all_iff)

definition request_lost :: "dm_sys \<Rightarrow> bool" where
  "request_lost s \<longleftrightarrow> cpc s = Q_Valid STAT_READY \<and> stat_pvalid (dmd s) = 0 \<and> stat_q (dmd s) = None \<and>
     queue_fill (dmd s) = 0 \<and>
     dpc s \<in> {D_Top, D_Stat, D_CheckF, D_CheckQ, D_WfiInc, D_Wfi, D_Clr, D_WfiDec}"

lemma request_lost_reached: "request_lost ready_state"
  by code_simp

interpretation lost: step_invariant "\<lambda>s. s = ready_state" dm_step request_lost
proof unfold_locales
  show "request_lost t" if "request_lost s" "dm_step s t" for s t
    using that(2,1) by cases (auto simp: request_lost_def split: if_splits)
qed (simp add: request_lost_reached)

text \<open>Four copies queued without starting the sleeping DM core, and a fifth call.\<close>

definition full_state :: dm_sys where
  "full_state = fold dm_act_step (replicate 5 R_Core @
     concat (replicate 4 (R_Call (dm_memcpy_async 0x100 0x200 64) # replicate 6 R_Client)) @
     [R_Call (dm_memcpy_async 0x100 0x200 64)]) dm_sys_zero"

lemma full_state_reachable: "reachable dm_boot dm_step full_state"
  unfolding full_state_def
  by (rule dm_run_reachable [OF _ dm_zero_reachable])
    (simp add: dm_act_ok_def dm_memcpy_async_def numeral_eq_Suc)

definition queue_stuck :: "dm_sys \<Rightarrow> bool" where
  "queue_stuck s \<longleftrightarrow> cpc s = dm_memcpy_async 0x100 0x200 64 \<and> queue_fill (dmd s) = DM_TASK_QUEUE_SIZE \<and>
     dpc s = D_Wfi \<and> \<not> irq s"

lemma queue_stuck_reached: "queue_stuck full_state"
  by code_simp

interpretation stuck: step_invariant "\<lambda>s. s = full_state" dm_step queue_stuck
proof unfold_locales
  show "queue_stuck t" if "queue_stuck s" "dm_step s t" for s t
    using that(2,1) by cases (auto simp: queue_stuck_def dm_memcpy_async_def)
qed (simp add: queue_stuck_reached)

section \<open>Properties\<close>







text \<open>
  \<open>dm_wait_ready\<close> can hang for ever: unlike \<open>dm_wait\<close> it does not wait for \<open>stat_q\<close> to be
  clear, so after a \<open>dm_wait\<close> that has just returned, the DM core, which sets \<open>stat_pvalid\<close>
  before it clears \<open>stat_q\<close>, erases the new request. The state reached is never left: the
  client polls \<open>stat_pvalid\<close> in every later state.
\<close>

lemma dm_wait_ready_can_hang:
  "reachable dm_boot dm_step ready_state \<and> cpc ready_state = Q_Valid STAT_READY \<and>
   (\<forall>t. reachable (\<lambda>s. s = ready_state) dm_step t \<longrightarrow> cpc t = Q_Valid STAT_READY)"
  using ready_state_reachable lost.reachable_inv request_lost_reached by (simp add: request_lost_def)

text \<open>
  Queueing a fifth copy without \<open>dm_start\<close> hangs for ever: the DM core sleeps with a full
  ring, and the poll of \<open>queue_fill\<close> in \<open>dm_memcpy_async\<close> is the only thing that goes on.
\<close>

lemma dm_memcpy_async_can_hang:
  "reachable dm_boot dm_step full_state \<and> cpc full_state = dm_memcpy_async 0x100 0x200 64 \<and>
   (\<forall>t. reachable (\<lambda>s. s = full_state) dm_step t \<longrightarrow> cpc t = dm_memcpy_async 0x100 0x200 64)"
  using full_state_reachable stuck.reachable_inv queue_stuck_reached by (simp add: queue_stuck_def)

end
