(* ===== verification/Eu.thy ===== *)
theory Eu
  imports Dm
begin

text \<open>
  The event unit of \<open>sw/snRuntime/src/omp/eu.h\<close>, on which the OpenMP runtime forks and joins
  parallel regions. Core 0 is the master; cores 1 to \<open>W\<close> of the cluster are the workers,
  which run \<open>eu_event_loop\<close> (cluster-CLINT variant). The master and every worker make one
  access to the shared struct at a time, in any order. The function pointer, its data and
  \<open>argc\<close> are only passed on: a region is identified by the number of its dispatch, and
  \<open>runs i\<close> counts the calls of the function that core \<open>i\<close> has made for the current one.
\<close>

section \<open>State\<close>

record eu_event =
  nthreads :: nat
  fini_count :: nat

record eu_t =
  workers_in_loop :: nat
  exit_flag :: bool
  workers_mutex :: u32
  workers_wfi :: nat
  e :: eu_event

text \<open>
  The positions of the master: \<open>P_Push n\<close> to \<open>P_Fill n\<close> in \<open>eu_dispatch_push\<close>, \<open>P_Run\<close> to
  \<open>P_Done\<close> in \<open>eu_run_empty\<close> (the local variable \<open>scratch\<close> is part of the position), \<open>E_*\<close> in
  \<open>eu_exit\<close>. \<open>P_Boot\<close> is the wait of \<open>snrt_omp_bootstrap\<close> for the workers, and \<open>P_Idle\<close> stands
  for the code outside the event unit. \<open>eu_run_empty\<close> has two callers: its return position is
  the field \<open>mret\<close>.
\<close>

datatype eu_mpc = P_Boot | P_Idle | P_Push nat | P_Fill nat | P_Run | P_Clear nat | P_Guard nat | P_Wake nat
  | P_Call nat | P_Wait nat | P_Done | E_Test | E_Guard | E_Flag | E_Guard2 | E_Wake | E_Left

text \<open>The positions of a worker in \<open>eu_event_loop\<close>, with \<open>worker_wfi\<close> inlined.\<close>

datatype eu_wpc = K_Enter | K_Check | K_Test | K_Run | K_Fini | K_Inc | K_Wfi | K_Clr | K_Dec | K_Exit

record eu_sys =
  eu :: eu_t
  mpc :: eu_mpc
  mret :: eu_mpc
  wpc :: "nat \<Rightarrow> eu_wpc"
  wirq :: "nat \<Rightarrow> bool"
  runs :: "nat \<Rightarrow> nat"

definition set_e :: "(eu_event \<Rightarrow> eu_event) \<Rightarrow> eu_sys \<Rightarrow> eu_sys" where
  "set_e f s = s\<lparr>eu := (eu s)\<lparr>e := f (e (eu s))\<rparr>\<rparr>"

section \<open>Operations\<close>

definition eu_get_workers_in_loop :: "eu_t \<Rightarrow> nat" where
  "eu_get_workers_in_loop u = workers_in_loop u"

definition eu_get_workers_in_wfi :: "eu_t \<Rightarrow> nat" where
  "eu_get_workers_in_wfi u = workers_wfi u"

text \<open>\<open>wait_worker_wfi\<close>: the master stays where it is until all workers sleep.\<close>

definition wait_worker_wfi :: "eu_mpc \<Rightarrow> eu_sys \<Rightarrow> eu_sys" where
  "wait_worker_wfi nxt s =
     (if workers_wfi (eu s) \<noteq> eu_get_workers_in_loop (eu s) then s else s\<lparr>mpc := nxt\<rparr>)"

text \<open>The second half of \<open>wake_workers\<close>: the interrupts of all compute cores but core 0.\<close>

definition wake_workers :: "nat \<Rightarrow> eu_mpc \<Rightarrow> eu_sys \<Rightarrow> eu_sys" where
  "wake_workers W nxt s = s\<lparr>wirq := \<lambda>i. (1 \<le> i \<and> i \<le> W) \<or> wirq s i, mpc := nxt\<rparr>"

text \<open>Calling the function of the event on core \<open>i\<close>.\<close>

definition run_fn :: "nat \<Rightarrow> eu_sys \<Rightarrow> eu_sys" where
  "run_fn i s = s\<lparr>runs := (runs s)(i := Suc (runs s i))\<rparr>"

text \<open>
  The master: \<open>eu_dispatch_push\<close>, \<open>eu_run_empty\<close> and \<open>eu_exit\<close>. The count of runs starts
  afresh when an event is filled in.
\<close>

fun eu_master :: "nat \<Rightarrow> eu_mpc \<Rightarrow> eu_sys \<Rightarrow> eu_sys" where
  "eu_master W P_Boot s = (if eu_get_workers_in_wfi (eu s) \<noteq> W then s else s\<lparr>mpc := P_Idle\<rparr>)"
| "eu_master W P_Idle s = s"
| "eu_master W (P_Push n) s = wait_worker_wfi (P_Fill n) s"
| "eu_master W (P_Fill n) s = (set_e (nthreads_update (\<lambda>_. n)) s)\<lparr>mpc := P_Run, runs := \<lambda>_. 0\<rparr>"
| "eu_master W P_Run s =
     (let scratch = nthreads (e (eu s))
      in s\<lparr>mpc := if scratch = 0 then mret s else P_Clear scratch\<rparr>)"
| "eu_master W (P_Clear scratch) s =
     (set_e (fini_count_update (\<lambda>_. 0)) s)\<lparr>mpc := if scratch > 1 then P_Guard scratch else P_Call scratch\<rparr>"
| "eu_master W (P_Guard scratch) s = wait_worker_wfi (P_Wake scratch) s"
| "eu_master W (P_Wake scratch) s = wake_workers W (P_Call scratch) s"
| "eu_master W (P_Call scratch) s =
     (if 0 < nthreads (e (eu s)) then run_fn 0 s else s)\<lparr>mpc := if scratch > 1 then P_Wait scratch else P_Done\<rparr>"
| "eu_master W (P_Wait scratch) s =
     (if fini_count (e (eu s)) \<noteq> eu_get_workers_in_loop (eu s) then s else s\<lparr>mpc := P_Done\<rparr>)"
| "eu_master W P_Done s = (set_e (nthreads_update (\<lambda>_. 0)) s)\<lparr>mpc := mret s\<rparr>"
| "eu_master W E_Test s =
     (if nthreads (e (eu s)) = 0 then s\<lparr>mpc := P_Run, mret := E_Guard\<rparr> else s\<lparr>mpc := E_Guard\<rparr>)"
| "eu_master W E_Guard s = wait_worker_wfi E_Flag s"
| "eu_master W E_Flag s = s\<lparr>eu := (eu s)\<lparr>exit_flag := True\<rparr>, mpc := E_Guard2\<rparr>"
| "eu_master W E_Guard2 s = wait_worker_wfi E_Wake s"
| "eu_master W E_Wake s = wake_workers W E_Left s"
| "eu_master W E_Left s = s"

text \<open>
  The calls: \<open>eu_dispatch_push\<close> followed by \<open>eu_run_empty\<close>, as \<open>parallelRegion\<close> makes them, and
  \<open>eu_exit\<close>.
\<close>

definition eu_dispatch_push :: "nat \<Rightarrow> eu_sys \<Rightarrow> eu_sys" where
  "eu_dispatch_push n s = s\<lparr>mpc := P_Push n, mret := P_Idle\<rparr>"

definition eu_exit :: "eu_sys \<Rightarrow> eu_sys" where
  "eu_exit s = s\<lparr>mpc := E_Test\<rparr>"

text \<open>A worker: \<open>eu_event_loop\<close> of core \<open>i\<close>.\<close>

fun eu_event_loop :: "nat \<Rightarrow> eu_wpc \<Rightarrow> eu_sys \<Rightarrow> eu_sys" where
  "eu_event_loop i K_Enter s = s\<lparr>eu := (eu s)\<lparr>workers_in_loop := workers_in_loop (eu s) + 1\<rparr>, wpc := (wpc s)(i := K_Check)\<rparr>"
| "eu_event_loop i K_Check s = s\<lparr>wpc := (wpc s)(i := if exit_flag (eu s) then K_Exit else K_Test)\<rparr>"
| "eu_event_loop i K_Test s = s\<lparr>wpc := (wpc s)(i := if i < nthreads (e (eu s)) then K_Run else K_Fini)\<rparr>"
| "eu_event_loop i K_Run s = (run_fn i s)\<lparr>wpc := (wpc s)(i := K_Fini)\<rparr>"
| "eu_event_loop i K_Fini s = (set_e (fini_count_update Suc) s)\<lparr>wpc := (wpc s)(i := K_Inc)\<rparr>"
| "eu_event_loop i K_Inc s = s\<lparr>eu := (eu s)\<lparr>workers_wfi := workers_wfi (eu s) + 1\<rparr>, wpc := (wpc s)(i := K_Wfi)\<rparr>"
| "eu_event_loop i K_Wfi s = (if wirq s i then s\<lparr>wpc := (wpc s)(i := K_Clr)\<rparr> else s)"
| "eu_event_loop i K_Clr s = s\<lparr>wirq := (wirq s)(i := False), wpc := (wpc s)(i := K_Dec)\<rparr>"
| "eu_event_loop i K_Dec s = s\<lparr>eu := (eu s)\<lparr>workers_wfi := workers_wfi (eu s) - 1\<rparr>, wpc := (wpc s)(i := K_Check)\<rparr>"
| "eu_event_loop i K_Exit s = s"

inductive eu_step :: "nat \<Rightarrow> eu_sys \<Rightarrow> eu_sys \<Rightarrow> bool" for W :: nat where
  fork: "mpc s = P_Idle \<Longrightarrow> eu_step W s (eu_dispatch_push n s)"
| exit: "mpc s = P_Idle \<Longrightarrow> eu_step W s (eu_exit s)"
| master: "eu_step W s (eu_master W (mpc s) s)"
| worker: "1 \<le> i \<Longrightarrow> i \<le> W \<Longrightarrow> eu_step W s (eu_event_loop i (wpc s i) s)"

text \<open>
  After \<open>eu_init\<close>: the struct is cleared, the workers are about to enter the loop and the
  master waits for them.
\<close>

definition eu_init :: eu_t where
  "eu_init = \<lparr>workers_in_loop = 0, exit_flag = False, workers_mutex = 0, workers_wfi = 0,
     e = \<lparr>nthreads = 0, fini_count = 0\<rparr>\<rparr>"

definition eu_boot :: "eu_sys \<Rightarrow> bool" where
  "eu_boot s \<longleftrightarrow> s = \<lparr>eu = eu_init, mpc = P_Boot, mret = P_Idle, wpc = \<lambda>_. K_Enter,
     wirq = \<lambda>_. False, runs = \<lambda>_. 0\<rparr>"

definition eu_mutex_lock :: mtx_pc where
  "eu_mutex_lock = snrt_mutex_acquire"

definition eu_mutex_release :: "eu_t \<Rightarrow> mtx_pc \<times> eu_t" where
  "eu_mutex_release u = (let (pc, m) = snrt_mutex_release (workers_mutex u) in (pc, u\<lparr>workers_mutex := m\<rparr>))"

section \<open>The invariant\<close>

text \<open>A worker is at rest when it has counted itself as finished and no wake-up is pending.\<close>

definition at_rest :: "eu_sys \<Rightarrow> nat \<Rightarrow> bool" where
  "at_rest s i \<longleftrightarrow> (wpc s i = K_Inc \<or> wpc s i = K_Wfi) \<and> \<not> wirq s i"

definition counted :: "eu_wpc \<Rightarrow> bool" where
  "counted pc \<longleftrightarrow> pc = K_Wfi \<or> pc = K_Clr \<or> pc = K_Dec"

text \<open>What a worker owes to the region of \<open>n\<close> threads that is being run.\<close>

definition worker_ok :: "nat \<Rightarrow> eu_sys \<Rightarrow> nat \<Rightarrow> bool" where
  "worker_ok n s i \<longleftrightarrow>
     (wpc s i = K_Run \<longrightarrow> i < n) \<and> wpc s i \<noteq> K_Exit \<and> wpc s i \<noteq> K_Enter \<and>
     (wirq s i \<longrightarrow> wpc s i = K_Wfi \<or> wpc s i = K_Clr) \<and> (wpc s i = K_Clr \<longrightarrow> wirq s i) \<and>
     runs s i = (if (at_rest s i \<or> wpc s i = K_Fini) \<and> i < n then 1 else 0)"

definition eu_quiet :: "nat \<Rightarrow> eu_sys \<Rightarrow> bool" where
  "eu_quiet W s \<longleftrightarrow> (\<forall>i\<in>{1..W}. at_rest s i)"

definition eu_asleep :: "nat \<Rightarrow> eu_sys \<Rightarrow> bool" where
  "eu_asleep W s \<longleftrightarrow> (\<forall>i\<in>{1..W}. wpc s i = K_Wfi \<and> \<not> wirq s i)"

definition eu_entering :: "nat \<Rightarrow> eu_sys \<Rightarrow> bool" where
  "eu_entering W s \<longleftrightarrow> nthreads (e (eu s)) = 0 \<and>
     (\<forall>i\<in>{1..W}. wpc s i \<in> {K_Enter, K_Check, K_Test, K_Fini, K_Inc, K_Wfi} \<and> \<not> wirq s i)"

definition eu_running :: "nat \<Rightarrow> nat \<Rightarrow> eu_sys \<Rightarrow> bool" where
  "eu_running W n s \<longleftrightarrow> nthreads (e (eu s)) = n \<and> (\<forall>i\<in>{1..W}. worker_ok n s i) \<and>
     fini_count (e (eu s)) = card {i \<in> {1..W}. at_rest s i} \<and> (\<forall>i>W. runs s i = 0)"

definition eu_leaving :: "nat \<Rightarrow> eu_sys \<Rightarrow> bool" where
  "eu_leaving W s \<longleftrightarrow>
     (\<forall>i\<in>{1..W}. wpc s i \<in> {K_Clr, K_Dec, K_Check, K_Exit} \<or> wpc s i = K_Wfi \<and> wirq s i)"

definition region_done :: "nat \<Rightarrow> nat \<Rightarrow> eu_sys \<Rightarrow> bool" where
  "region_done W n s \<longleftrightarrow> (\<forall>i. runs s i = (if i < n \<and> i \<le> W then 1 else 0))"

text \<open>What holds at each position of the master.\<close>

fun eu_phase :: "nat \<Rightarrow> eu_mpc \<Rightarrow> eu_sys \<Rightarrow> bool" where
  "eu_phase W P_Boot s = (eu_entering W s \<and> \<not> exit_flag (eu s))"
| "eu_phase W (P_Clear n) s = (eu_quiet W s \<and> \<not> exit_flag (eu s) \<and> runs s = (\<lambda>_. 0) \<and>
     nthreads (e (eu s)) = n \<and> 0 < n)"
| "eu_phase W (P_Guard n) s = (eu_quiet W s \<and> \<not> exit_flag (eu s) \<and> runs s = (\<lambda>_. 0) \<and>
     nthreads (e (eu s)) = n \<and> 1 < n \<and> fini_count (e (eu s)) = 0)"
| "eu_phase W (P_Wake n) s = (eu_asleep W s \<and> \<not> exit_flag (eu s) \<and> runs s = (\<lambda>_. 0) \<and>
     nthreads (e (eu s)) = n \<and> 1 < n \<and> fini_count (e (eu s)) = 0)"
| "eu_phase W (P_Call n) s = (\<not> exit_flag (eu s) \<and> nthreads (e (eu s)) = n \<and> 0 < n \<and> runs s 0 = 0 \<and>
     (if n = 1 then eu_quiet W s \<and> runs s = (\<lambda>_. 0) else eu_running W n s))"
| "eu_phase W (P_Wait n) s = (\<not> exit_flag (eu s) \<and> 1 < n \<and> runs s 0 = 1 \<and> eu_running W n s)"
| "eu_phase W P_Done s = (eu_quiet W s \<and> \<not> exit_flag (eu s) \<and> 0 < nthreads (e (eu s)) \<and>
     region_done W (nthreads (e (eu s))) s)"
| "eu_phase W P_Run s = (eu_quiet W s \<and> \<not> exit_flag (eu s) \<and>
     (0 < nthreads (e (eu s)) \<longrightarrow> runs s = (\<lambda>_. 0)))"
| "eu_phase W E_Flag s = (eu_asleep W s \<and> \<not> exit_flag (eu s))"
| "eu_phase W E_Guard2 s = (eu_asleep W s \<and> exit_flag (eu s))"
| "eu_phase W E_Wake s = (eu_asleep W s \<and> exit_flag (eu s))"
| "eu_phase W E_Left s = (eu_leaving W s \<and> exit_flag (eu s))"
| "eu_phase W P_Idle s = (eu_quiet W s \<and> \<not> exit_flag (eu s))"
| "eu_phase W (P_Push n) s = (eu_quiet W s \<and> \<not> exit_flag (eu s))"
| "eu_phase W (P_Fill n) s = (eu_quiet W s \<and> \<not> exit_flag (eu s))"
| "eu_phase W E_Test s = (eu_quiet W s \<and> \<not> exit_flag (eu s))"
| "eu_phase W E_Guard s = (eu_quiet W s \<and> \<not> exit_flag (eu s))"

definition eu_base :: "nat \<Rightarrow> eu_sys \<Rightarrow> bool" where
  "eu_base W s \<longleftrightarrow> workers_in_loop (eu s) = card {i \<in> {1..W}. wpc s i \<noteq> K_Enter} \<and>
     workers_wfi (eu s) = card {i \<in> {1..W}. counted (wpc s i)} \<and> mret s \<in> {P_Idle, E_Guard}"

definition eu_inv :: "nat \<Rightarrow> eu_sys \<Rightarrow> bool" where
  "eu_inv W s \<longleftrightarrow> eu_base W s \<and> eu_phase W (mpc s) s"

text \<open>Changing the state of one worker changes a count of workers by what that worker contributes.\<close>

lemma card_update:
  assumes "finite A" "j \<in> A" "\<And>i. i \<in> A \<Longrightarrow> i \<noteq> j \<Longrightarrow> Q i = P i"
  shows "card {i \<in> A. Q i} + of_bool (P j) = card {i \<in> A. P i} + of_bool (Q j)"
proof -
  let ?B = "{i \<in> A - {j}. P i}"
  have "{i \<in> A. P i} = (if P j then insert j ?B else ?B)" "{i \<in> A. Q i} = (if Q j then insert j ?B else ?B)"
    using assms(2,3) by auto
  moreover have "j \<notin> ?B" "finite ?B" using assms(1) by auto
  ultimately show ?thesis by simp
qed

lemma card_all_iff:
  "card {i \<in> {1..W::nat}. P i} = W \<longleftrightarrow> (\<forall>i\<in>{1..W}. P i)"
proof
  assume c: "card {i \<in> {1..W}. P i} = W"
  have "{i \<in> {1..W}. P i} = {1..W}"
    by (rule card_subset_eq) (use c in auto)
  then show "\<forall>i\<in>{1..W}. P i" by auto
next
  assume "\<forall>i\<in>{1..W}. P i"
  then have "{i \<in> {1..W}. P i} = {1..W}" by auto
  then show "card {i \<in> {1..W}. P i} = W" by simp
qed

lemmas eu_state_defs = set_e_def run_fn_def wake_workers_def wait_worker_wfi_def eu_get_workers_in_loop_def
  eu_get_workers_in_wfi_def at_rest_def counted_def

lemma base_worker:
  assumes base: "eu_base W s" and i: "i \<in> {1..W}"
  shows "eu_base W (eu_event_loop i (wpc s i) s)"
proof -
  let ?t = "eu_event_loop i (wpc s i) s"
  have upd: "j \<noteq> i \<Longrightarrow> wpc ?t j = wpc s j" for j
    by (cases "wpc s i") (auto simp: eu_state_defs)
  have c1: "card {j \<in> {1..W}. wpc ?t j \<noteq> K_Enter} + of_bool (wpc s i \<noteq> K_Enter) =
      card {j \<in> {1..W}. wpc s j \<noteq> K_Enter} + of_bool (wpc ?t i \<noteq> K_Enter)"
    by (rule card_update) (use i upd in auto)
  have c2: "card {j \<in> {1..W}. counted (wpc ?t j)} + of_bool (counted (wpc s i)) =
      card {j \<in> {1..W}. counted (wpc s j)} + of_bool (counted (wpc ?t i))"
    by (rule card_update) (use i upd in auto)
  have p: "counted (wpc s i) \<Longrightarrow> 0 < workers_wfi (eu s)"
    using base i by (auto simp: eu_base_def card_gt_0_iff)
  have f1: "workers_in_loop (eu ?t) + of_bool (wpc s i \<noteq> K_Enter) = workers_in_loop (eu s) + of_bool (wpc ?t i \<noteq> K_Enter)"
    by (cases "wpc s i") (auto simp: set_e_def run_fn_def)
  have f2: "workers_wfi (eu ?t) + of_bool (counted (wpc s i)) = workers_wfi (eu s) + of_bool (counted (wpc ?t i))"
    using p by (cases "wpc s i") (auto simp: set_e_def run_fn_def counted_def)
  have f3: "mret ?t = mret s" by (cases "wpc s i") (auto simp: set_e_def run_fn_def)
  show ?thesis
    unfolding eu_base_def
  proof (intro conjI)
    show "workers_in_loop (eu ?t) = card {j \<in> {1..W}. wpc ?t j \<noteq> K_Enter}"
      using base c1 f1 unfolding eu_base_def by linarith
    show "workers_wfi (eu ?t) = card {j \<in> {1..W}. counted (wpc ?t j)}"
      using base c2 f2 unfolding eu_base_def by linarith
    show "mret ?t \<in> {P_Idle, E_Guard}" using base f3 unfolding eu_base_def by simp
  qed
qed

lemma base_fields:
  "eu_base W (s\<lparr>mpc := p\<rparr>) = eu_base W s" "eu_base W (set_e f s) = eu_base W s"
  "eu_base W (s\<lparr>wirq := q\<rparr>) = eu_base W s" "eu_base W (s\<lparr>runs := r\<rparr>) = eu_base W s"
  "eu_base W (s\<lparr>eu := (eu s)\<lparr>exit_flag := x\<rparr>\<rparr>) = eu_base W s"
  by (simp_all add: eu_base_def set_e_def)

lemma base_asleep:
  assumes "eu_base W s" "eu_quiet W s" "workers_wfi (eu s) = workers_in_loop (eu s)"
  shows "eu_asleep W s"
proof -
  have "\<forall>i\<in>{1..W}. wpc s i \<noteq> K_Enter" using assms(2) by (auto simp: eu_quiet_def at_rest_def)
  then have "workers_in_loop (eu s) = W"
    using assms(1) card_all_iff [of W "\<lambda>i. wpc s i \<noteq> K_Enter"] by (simp add: eu_base_def)
  then have "\<forall>i\<in>{1..W}. counted (wpc s i)"
    using assms(1,3) card_all_iff [of W "\<lambda>i. counted (wpc s i)"] by (simp add: eu_base_def)
  with assms(2) show ?thesis by (force simp: eu_quiet_def eu_asleep_def at_rest_def counted_def)
qed

lemma asleep_quiet: "eu_asleep W s \<Longrightarrow> eu_quiet W s"
  by (auto simp: eu_asleep_def eu_quiet_def at_rest_def)

text \<open>What a worker can do in each phase.\<close>

lemma asleep_worker:
  "eu_asleep W s \<Longrightarrow> i \<in> {1..W} \<Longrightarrow> eu_event_loop i (wpc s i) s = s"
  by (simp add: eu_asleep_def)

lemma quiet_worker:
  assumes "eu_quiet W s" "i \<in> {1..W}"
  shows "eu_quiet W (eu_event_loop i (wpc s i) s)" and "runs (eu_event_loop i (wpc s i) s) = runs s"
    and "e (eu (eu_event_loop i (wpc s i) s)) = e (eu s)"
    and "exit_flag (eu (eu_event_loop i (wpc s i) s)) = exit_flag (eu s)"
  using assms by (cases "wpc s i"; force simp: eu_quiet_def at_rest_def)+

lemma entering_worker:
  assumes "eu_entering W s" "i \<in> {1..W}" "\<not> exit_flag (eu s)"
  shows "eu_entering W (eu_event_loop i (wpc s i) s)" and "\<not> exit_flag (eu (eu_event_loop i (wpc s i) s))"
  using assms by (cases "wpc s i"; force simp: eu_entering_def set_e_def)+

lemma leaving_worker:
  assumes "eu_leaving W s" "i \<in> {1..W}" "exit_flag (eu s)"
  shows "eu_leaving W (eu_event_loop i (wpc s i) s)" and "exit_flag (eu (eu_event_loop i (wpc s i) s))"
proof -
  have "wpc s i \<in> {K_Clr, K_Dec, K_Check, K_Exit, K_Wfi}"
    using assms(1,2) unfolding eu_leaving_def by blast
  then show "eu_leaving W (eu_event_loop i (wpc s i) s)" "exit_flag (eu (eu_event_loop i (wpc s i) s))"
    using assms by (cases "wpc s i"; simp add: eu_leaving_def)+
qed

lemma running_worker_fields:
  assumes "eu_running W n s" "i \<in> {1..W}" "\<not> exit_flag (eu s)"
  shows "\<not> exit_flag (eu (eu_event_loop i (wpc s i) s))" "nthreads (e (eu (eu_event_loop i (wpc s i) s))) = n"
    "j \<noteq> i \<Longrightarrow> runs (eu_event_loop i (wpc s i) s) j = runs s j"
    "j \<noteq> i \<Longrightarrow> wpc (eu_event_loop i (wpc s i) s) j = wpc s j"
    "j \<noteq> i \<Longrightarrow> wirq (eu_event_loop i (wpc s i) s) j = wirq s j"
    "worker_ok n (eu_event_loop i (wpc s i) s) i"
    "fini_count (e (eu (eu_event_loop i (wpc s i) s))) + of_bool (at_rest s i) =
      fini_count (e (eu s)) + of_bool (at_rest (eu_event_loop i (wpc s i) s) i)"
  using assms
  by (cases "wpc s i"; force simp: eu_running_def worker_ok_def eu_state_defs split: if_splits)+

lemma running_worker:
  assumes run: "eu_running W n s" and i: "i \<in> {1..W}" and ex: "\<not> exit_flag (eu s)"
  shows "eu_running W n (eu_event_loop i (wpc s i) s)"
proof -
  let ?t = "eu_event_loop i (wpc s i) s"
  note f = running_worker_fields [OF run i ex]
  have same: "j \<noteq> i \<Longrightarrow> at_rest ?t j = at_rest s j" for j using f by (simp add: at_rest_def)
  have "worker_ok n ?t j" if "j \<in> {1..W}" for j
    using f run that by (cases "j = i") (auto simp: eu_running_def worker_ok_def same)
  moreover have "card {j \<in> {1..W}. at_rest ?t j} + of_bool (at_rest s i) =
      card {j \<in> {1..W}. at_rest s j} + of_bool (at_rest ?t i)"
    by (rule card_update) (use i same in auto)
  then have "fini_count (e (eu ?t)) = card {j \<in> {1..W}. at_rest ?t j}"
    using f(7) run by (simp add: eu_running_def)
  moreover have "\<forall>j>W. runs ?t j = 0" using f(3) i run by (auto simp: eu_running_def)
  ultimately show ?thesis using f(2) by (simp add: eu_running_def)
qed

text \<open>The worker side of the invariant.\<close>

lemma phase_mpc_worker: "mpc (eu_event_loop i pc s) = mpc s" "mret (eu_event_loop i pc s) = mret s"
  by (cases pc; simp add: set_e_def run_fn_def)+

lemma phase_worker:
  assumes "eu_phase W p s" and "i \<in> {1..W}"
  shows "eu_phase W p (eu_event_loop i (wpc s i) s)"
proof (cases "p \<in> {E_Flag, E_Guard2, E_Wake} \<union> range P_Wake")
  case True
  then have "eu_asleep W s" using assms(1) by auto
  then show ?thesis using assms by (simp add: asleep_worker)
next
  case False
  note q = quiet_worker [OF _ assms(2)] entering_worker [OF _ assms(2)] leaving_worker [OF _ assms(2)]
    running_worker [OF _ assms(2)] running_worker_fields [OF _ assms(2)]
  show ?thesis using assms(1) False
    by (cases p) (use assms(2) in \<open>auto simp: q region_done_def split: if_splits\<close>)
qed

lemma phase_set_mpc: "eu_phase W p (s\<lparr>mpc := q\<rparr>) = eu_phase W p s"
  by (cases p) (auto simp: eu_entering_def eu_quiet_def eu_asleep_def at_rest_def eu_running_def
      eu_leaving_def worker_ok_def region_done_def)

lemma phase_set_mret: "eu_phase W p (s\<lparr>mret := q\<rparr>) = eu_phase W p s"
  by (cases p) (auto simp: eu_entering_def eu_quiet_def eu_asleep_def at_rest_def eu_running_def
      eu_leaving_def worker_ok_def region_done_def)

text \<open>Steps of the master that start and finish a region.\<close>

lemma entering_done:
  assumes "eu_base W s" "eu_entering W s" "workers_wfi (eu s) = W"
  shows "eu_quiet W s"
proof -
  have "\<forall>i\<in>{1..W}. counted (wpc s i)"
    using assms(1,3) card_all_iff [of W "\<lambda>i. counted (wpc s i)"] by (simp add: eu_base_def)
  with assms(2) show ?thesis by (force simp: eu_entering_def eu_quiet_def at_rest_def counted_def)
qed

lemma wake_running:
  assumes "eu_asleep W s" "runs s = (\<lambda>_. 0)" "nthreads (e (eu s)) = n" "fini_count (e (eu s)) = 0"
  shows "eu_running W n (wake_workers W q s)"
proof -
  have "{i \<in> {1..W}. at_rest (wake_workers W q s) i} = {}"
    by (auto simp: at_rest_def wake_workers_def)
  then show ?thesis using assms
    by (auto simp: eu_running_def worker_ok_def eu_asleep_def wake_workers_def at_rest_def)
qed

lemma running_all_in_loop:
  assumes "eu_base W s" "eu_running W n s"
  shows "workers_in_loop (eu s) = W"
proof -
  have "\<forall>i\<in>{1..W}. wpc s i \<noteq> K_Enter" using assms(2) by (auto simp: eu_running_def worker_ok_def)
  then show ?thesis using assms(1) card_all_iff [of W "\<lambda>i. wpc s i \<noteq> K_Enter"]
    by (simp add: eu_base_def)
qed

lemma running_done:
  assumes "eu_base W s" "eu_running W n s" "runs s 0 = 1" "1 < n"
    "fini_count (e (eu s)) = workers_in_loop (eu s)"
  shows "eu_quiet W s \<and> region_done W n s"
proof -
  have "card {i \<in> {1..W}. at_rest s i} = W"
    using assms(2,5) running_all_in_loop [OF assms(1,2)] unfolding eu_running_def by linarith
  then have q: "\<forall>i\<in>{1..W}. at_rest s i" by (rule card_all_iff [THEN iffD1])
  have "runs s i = (if i < n \<and> i \<le> W then 1 else 0)" for i
  proof (cases "i = 0 \<or> W < i")
    case True then show ?thesis using assms by (auto simp: eu_running_def)
  next
    case False
    then have "worker_ok n s i" "at_rest s i" using assms(2) q by (auto simp: eu_running_def)
    then show ?thesis using False by (simp add: worker_ok_def)
  qed
  with q show ?thesis by (simp add: eu_quiet_def region_done_def)
qed

lemma running_set_mpc: "eu_running W n (s\<lparr>mpc := q\<rparr>) = eu_running W n s"
  by (simp add: eu_running_def worker_ok_def at_rest_def)

lemma running_call:
  assumes "eu_running W n s" shows "eu_running W n (run_fn 0 s)"
  using assms by (auto simp: eu_running_def run_fn_def worker_ok_def at_rest_def)

text \<open>The master side of the invariant.\<close>

lemma quiet_fields:
  "eu_quiet W (s\<lparr>mpc := q\<rparr>) = eu_quiet W s" "eu_quiet W (set_e f s) = eu_quiet W s"
  "eu_quiet W (run_fn i s) = eu_quiet W s" "eu_quiet W (s\<lparr>runs := r\<rparr>) = eu_quiet W s"
  "eu_quiet W (s\<lparr>mret := q\<rparr>) = eu_quiet W s"
  by (simp_all add: eu_quiet_def at_rest_def set_e_def run_fn_def)

lemma phase_wait:
  assumes "eu_base W s" "eu_quiet W s" "eu_phase W p s" "eu_asleep W s \<Longrightarrow> eu_phase W q s" "mpc s = p"
  shows "eu_phase W (mpc (wait_worker_wfi q s)) (wait_worker_wfi q s)"
  using assms base_asleep [of W s]
  by (simp add: wait_worker_wfi_def eu_get_workers_in_loop_def phase_set_mpc)

lemma base_wait: "eu_base W (wait_worker_wfi q s) = eu_base W s"
  by (simp add: wait_worker_wfi_def base_fields)


lemma inv_master:
  assumes "eu_inv W s"
  shows "eu_inv W (eu_master W (mpc s) s)"
proof -
  have base: "eu_base W s" and ph: "eu_phase W (mpc s) s" using assms by (auto simp: eu_inv_def)
  have ret: "mret s = P_Idle \<or> mret s = E_Guard" using base by (simp add: eu_base_def)
  show ?thesis
  proof (cases "mpc s")
    case P_Boot
    then show ?thesis using base ph entering_done
      by (auto simp: eu_inv_def base_fields quiet_fields eu_get_workers_in_wfi_def)
  next
    case (P_Push n) then show ?thesis using phase_wait [OF base, of "P_Push n" "P_Fill n"] base ph
      by (auto simp: eu_inv_def base_wait)
  next
    case (P_Fill n) then show ?thesis using base ph
      by (simp add: eu_inv_def base_fields quiet_fields) (simp add: set_e_def)
  next
    case P_Run then show ?thesis using base ph ret
      by (auto simp: eu_inv_def base_fields quiet_fields Let_def)
  next
    case (P_Clear n) then show ?thesis using base ph
      by (auto simp: eu_inv_def base_fields quiet_fields) (auto simp: set_e_def)
  next
    case (P_Guard n) then show ?thesis using phase_wait [OF base, of "P_Guard n" "P_Wake n"] base ph
      by (auto simp: eu_inv_def base_wait)
  next
    case (P_Wake n) then show ?thesis using base ph wake_running [of W s n "P_Call n"]
      by (auto simp: eu_inv_def) (auto simp: wake_workers_def eu_base_def)
  next
    case (P_Call n) then show ?thesis using base ph running_call [of W n s]
      by (auto simp: eu_inv_def base_fields quiet_fields eu_base_def run_fn_def region_done_def running_set_mpc)
  next
    case (P_Wait n) then show ?thesis using base ph running_done [OF base, of n]
      by (auto simp: eu_inv_def base_fields quiet_fields eu_get_workers_in_loop_def phase_set_mpc eu_running_def region_done_def)
  next
    case P_Done then show ?thesis using base ph ret
      by (auto simp: eu_inv_def base_fields quiet_fields) (auto simp: set_e_def)
  next
    case E_Test then show ?thesis using base ph
      by (auto simp: eu_inv_def base_fields quiet_fields eu_base_def)
  next
    case E_Guard then show ?thesis using phase_wait [OF base, of E_Guard E_Flag] base ph
      by (auto simp: eu_inv_def base_wait)
  next
    case E_Guard2 then show ?thesis using phase_wait [OF base asleep_quiet, of E_Guard2 E_Wake] base ph
      by (auto simp: eu_inv_def base_wait)
  next
    case E_Flag then show ?thesis using base ph
      by (auto simp: eu_inv_def base_fields eu_asleep_def eu_base_def)
  next
    case E_Wake then show ?thesis using base ph
      by (auto simp: eu_inv_def wake_workers_def eu_asleep_def eu_leaving_def eu_base_def)
  qed (use assms in simp_all)
qed

interpretation event_unit: step_invariant eu_boot "eu_step W" "eu_inv W" for W
proof
  fix s assume "eu_boot s"
  then show "eu_inv W s"
    by (simp add: eu_inv_def eu_boot_def eu_init_def eu_base_def eu_entering_def counted_def)
next
  fix s t assume inv: "eu_inv W s" and "eu_step W s t"
  from this(2) show "eu_inv W t"
  proof cases
    case (fork n) then show ?thesis using inv
      by (simp add: eu_inv_def eu_dispatch_push_def quiet_fields eu_base_def)
  next
    case exit then show ?thesis using inv
      by (simp add: eu_inv_def eu_exit_def quiet_fields base_fields)
  next
    case master then show ?thesis using inv by (simp add: inv_master)
  next
    case (worker i) then show ?thesis using inv
      by (simp add: eu_inv_def phase_mpc_worker phase_worker base_worker)
  qed
qed

section \<open>Forking and joining\<close>

text \<open>
  C7. When the master has joined a parallel region of \<open>n\<close> threads, whatever the order of the
  accesses of the cores, each of the cores \<open>0, \<dots>, min n (W + 1) - 1\<close> has called the
  function of the region exactly once, no other core has called it, and no worker is still
  running it or about to run it again.
\<close>

lemma eu_fork_join:
  assumes "reachable eu_boot (eu_step W) s" and "mpc s = P_Done"
  shows "(\<forall>i. runs s i = (if i < nthreads (e (eu s)) \<and> i \<le> W then 1 else 0)) \<and>
    (\<forall>i\<in>{1..W}. wpc s i \<in> {K_Inc, K_Wfi} \<and> \<not> wirq s i)"
  using event_unit.reachable_inv [OF assms(1)] assms(2)
  by (auto simp: eu_inv_def region_done_def eu_quiet_def at_rest_def)

text \<open>A run of one worker through a region of two threads.\<close>

fun eu_sched :: "nat \<Rightarrow> nat list \<Rightarrow> eu_sys \<Rightarrow> eu_sys" where
  "eu_sched W [] s = s"
| "eu_sched W (0 # is) s = eu_sched W is (eu_master W (mpc s) s)"
| "eu_sched W (Suc i # is) s = eu_sched W is (eu_event_loop (Suc i) (wpc s (Suc i)) s)"

lemma eu_sched_reachable:
  assumes "reachable eu_boot (eu_step W) s" "\<forall>i\<in>set is. i \<le> W"
  shows "reachable eu_boot (eu_step W) (eu_sched W is s)"
  using assms
proof (induction W "is" s rule: eu_sched.induct)
  case (2 W "is" s) then show ?case by (auto intro: reachable.move eu_step.master)
next
  case (3 W i "is" s) then show ?case 
    by (auto intro: reachable.move eu_step.worker [of "Suc i" W s, simplified])
qed simp

definition eu_boot_state :: eu_sys where
  "eu_boot_state = \<lparr>eu = eu_init, mpc = P_Boot, mret = P_Idle, wpc = \<lambda>_. K_Enter,
     wirq = \<lambda>_. False, runs = \<lambda>_. 0\<rparr>"

definition eu_region_run :: eu_sys where
  "eu_region_run = eu_sched 1 [0, 0, 0, 0, 0, 0, 0, 1, 1, 1, 1, 1, 1, 1, 0]
     (eu_dispatch_push 2 (eu_sched 1 [1, 1, 1, 1, 1, 0] eu_boot_state))"

lemma eu_region_run_reachable: "reachable eu_boot (eu_step 1) eu_region_run"
  unfolding eu_region_run_def
proof (rule eu_sched_reachable, rule reachable.move, rule eu_sched_reachable)
  show "reachable eu_boot (eu_step 1) eu_boot_state"
    by (rule reachable.start) (simp add: eu_boot_def eu_boot_state_def)
  show "eu_step 1 (eu_sched 1 [1, 1, 1, 1, 1, 0] eu_boot_state)
      (eu_dispatch_push 2 (eu_sched 1 [1, 1, 1, 1, 1, 0] eu_boot_state))"
    by (rule eu_step.fork) code_simp
qed simp_all

theorem eu_fork_join_witness:
  "runs eu_region_run 0 = 1 \<and> runs eu_region_run 1 = 1 \<and> runs eu_region_run 2 = 0"
proof -
  have n: "mpc eu_region_run = P_Done" "nthreads (e (eu eu_region_run)) = 2" by code_simp+
  show ?thesis using eu_fork_join [OF eu_region_run_reachable n(1)] n(2) by simp
qed

section \<open>Progress\<close>

text \<open>
  How far a worker is from resting again, and how far the master is from leaving the event
  unit.
\<close>

fun wrank :: "eu_wpc \<Rightarrow> bool \<Rightarrow> nat" where
  "wrank K_Wfi q = (if q then 8 else 0)"
| "wrank K_Clr q = 7"
| "wrank K_Dec q = 6"
| "wrank K_Enter q = 6"
| "wrank K_Check q = 5"
| "wrank K_Test q = 4"
| "wrank K_Run q = 3"
| "wrank K_Fini q = 2"
| "wrank K_Inc q = 1"
| "wrank K_Exit q = 0"

fun mrank :: "eu_mpc \<Rightarrow> nat" where
  "mrank P_Boot = 1" | "mrank P_Idle = 0" | "mrank E_Left = 0"
| "mrank E_Wake = 1" | "mrank E_Guard2 = 2" | "mrank E_Flag = 3" | "mrank E_Guard = 4"
| "mrank P_Done = 5" | "mrank (P_Wait n) = 6" | "mrank (P_Call n) = 7" | "mrank (P_Wake n) = 8"
| "mrank (P_Guard n) = 9" | "mrank (P_Clear n) = 10" | "mrank P_Run = 11" | "mrank (P_Fill n) = 12"
| "mrank (P_Push n) = 13" | "mrank E_Test = 14"

definition wsum :: "nat \<Rightarrow> eu_sys \<Rightarrow> nat" where
  "wsum W s = (\<Sum>i\<in>{1..W}. wrank (wpc s i) (wirq s i))"

lemma wsum_less:
  assumes "i \<in> {1..W}" "\<And>j. j \<noteq> i \<Longrightarrow> wpc t j = wpc s j \<and> wirq t j = wirq s j"
    "wrank (wpc t i) (wirq t i) < wrank (wpc s i) (wirq s i)"
  shows "wsum W t < wsum W s"
  unfolding wsum_def
proof (rule sum_strict_mono_ex1)
  show "\<forall>j\<in>{1..W}. wrank (wpc t j) (wirq t j) \<le> wrank (wpc s j) (wirq s j)"
  proof
    fix j show "wrank (wpc t j) (wirq t j) \<le> wrank (wpc s j) (wirq s j)"
      using assms(2) [of j] assms(3) by (cases "j = i") simp_all
  qed
qed (use assms(1,3) in auto)

lemma worker_frame:
  "j \<noteq> i \<Longrightarrow> wpc (eu_event_loop i pc s) j = wpc s j \<and> wirq (eu_event_loop i pc s) j = wirq s j"
  by (cases pc) (simp_all add: set_e_def run_fn_def)

lemma worker_advances:
  assumes "i \<in> {1..W}" "wpc s i = K_Wfi \<Longrightarrow> wirq s i" "wpc s i \<noteq> K_Exit"
    "wpc s i = K_Inc \<Longrightarrow> \<not> wirq s i"
  shows "wsum W (eu_event_loop i (wpc s i) s) < wsum W s"
proof (rule wsum_less [OF assms(1)])
  show "wrank (wpc (eu_event_loop i (wpc s i) s) i) (wirq (eu_event_loop i (wpc s i) s) i) < wrank (wpc s i) (wirq s i)"
    using assms(2-4) by (cases "wpc s i") (simp_all add: set_e_def run_fn_def)
qed (rule worker_frame)

text \<open>A wait of the master that is not over has a worker that can move.\<close>

lemma not_all_counted:
  assumes "eu_base W s" "workers_wfi (eu s) \<noteq> W"
  obtains i where "i \<in> {1..W}" "\<not> counted (wpc s i)"
  using assms card_all_iff [of W "\<lambda>i. counted (wpc s i)"] by (auto simp: eu_base_def)

lemma guard_moves:
  assumes "eu_base W s" "eu_quiet W s"
  shows "mpc (wait_worker_wfi q s) = q \<or> (\<exists>i\<in>{1..W}. wsum W (eu_event_loop i (wpc s i) s) < wsum W s)"
proof (cases "workers_wfi (eu s) = workers_in_loop (eu s)")
  case True then show ?thesis by (simp add: wait_worker_wfi_def eu_get_workers_in_loop_def)
next
  case False
  have "\<forall>i\<in>{1..W}. wpc s i \<noteq> K_Enter" using assms(2) by (auto simp: eu_quiet_def at_rest_def)
  then have "workers_in_loop (eu s) = W"
    using assms(1) card_all_iff [of W "\<lambda>i. wpc s i \<noteq> K_Enter"] by (simp add: eu_base_def)
  with False obtain i where i: "i \<in> {1..W}" "\<not> counted (wpc s i)"
    using not_all_counted [OF assms(1)] by metis
  with assms(2) have "wpc s i = K_Inc" "\<not> wirq s i" by (auto simp: eu_quiet_def at_rest_def counted_def)
  then have "wsum W (eu_event_loop i (wpc s i) s) < wsum W s" by (intro worker_advances [OF i(1)]) simp_all
  then show ?thesis using i(1) by blast
qed

lemma boot_moves:
  assumes "eu_base W s" "eu_entering W s" "workers_wfi (eu s) \<noteq> W"
  shows "\<exists>i\<in>{1..W}. wsum W (eu_event_loop i (wpc s i) s) < wsum W s"
proof -
  obtain i where i: "i \<in> {1..W}" "\<not> counted (wpc s i)" by (rule not_all_counted [OF assms(1,3)])
  with assms(2) have "wpc s i \<in> {K_Enter, K_Check, K_Test, K_Fini, K_Inc}" "\<not> wirq s i"
    by (auto simp: eu_entering_def counted_def)
  then have "wsum W (eu_event_loop i (wpc s i) s) < wsum W s"
    by (intro worker_advances [OF i(1)]) auto
  then show ?thesis using i(1) by blast
qed

lemma join_moves:
  assumes "eu_base W s" "eu_running W n s" "fini_count (e (eu s)) \<noteq> workers_in_loop (eu s)"
  shows "\<exists>i\<in>{1..W}. wsum W (eu_event_loop i (wpc s i) s) < wsum W s"
proof -
  have "card {i \<in> {1..W}. at_rest s i} \<noteq> W"
    using assms running_all_in_loop [OF assms(1,2)] by (simp add: eu_running_def)
  then obtain i where i: "i \<in> {1..W}" "\<not> at_rest s i" using card_all_iff by blast
  then have "worker_ok n s i" using assms(2) by (auto simp: eu_running_def)
  then have "wsum W (eu_event_loop i (wpc s i) s) < wsum W s"
    using i(2) by (intro worker_advances [OF i(1)]) (simp_all add: worker_ok_def at_rest_def)
  then show ?thesis using i(1) by blast
qed

lemma wait_master:
  assumes "eu_inv W s" "mpc s \<noteq> P_Idle" "mpc s \<noteq> E_Left"
  shows "mrank (mpc (eu_master W (mpc s) s)) < mrank (mpc s) \<or>
    (\<exists>i\<in>{1..W}. wsum W (eu_event_loop i (wpc s i) s) < wsum W s)"
proof -
  have b: "eu_base W s" and p: "eu_phase W (mpc s) s" using assms(1) by (auto simp: eu_inv_def)
  have ret: "mrank (mret s) \<le> 4" using b by (auto simp: eu_base_def)
  show ?thesis
  proof (cases "mpc s")
    case P_Boot then show ?thesis using boot_moves [OF b] p by (auto simp: eu_get_workers_in_wfi_def)
  next
    case (P_Push n) then show ?thesis using guard_moves [OF b, of "P_Fill n"] p by auto
  next
    case (P_Guard n) then show ?thesis using guard_moves [OF b, of "P_Wake n"] p by auto
  next
    case E_Guard then show ?thesis using guard_moves [OF b, of E_Flag] p by auto
  next
    case E_Guard2 then show ?thesis using guard_moves [OF b asleep_quiet, of E_Wake] p by auto
  next
    case (P_Wait n) then show ?thesis using join_moves [OF b, of n] p by (auto simp: eu_get_workers_in_loop_def)
  qed (use assms(2,3) ret in \<open>auto simp: Let_def wake_workers_def\<close>)
qed

lemma eu_returns_aux:
  assumes "reachable eu_boot (eu_step W) s"
  shows "\<exists>t. (eu_step W)\<^sup>*\<^sup>* s t \<and> (mpc t = P_Idle \<or> mpc t = E_Left)"
  using assms
proof (induction s rule: wf_induct_rule [OF wf_measures, of "[\<lambda>s. mrank (mpc s), wsum W]"])
  case (1 s)
  show ?case
  proof (cases "mpc s = P_Idle \<or> mpc s = E_Left")
    case False
    consider (m) "mrank (mpc (eu_master W (mpc s) s)) < mrank (mpc s)"
      | (w) i where "i \<in> {1..W}" "wsum W (eu_event_loop i (wpc s i) s) < wsum W s"
      using wait_master [OF event_unit.reachable_inv [OF 1(2)]] False by blast
    then obtain t where t: "eu_step W s t" "(t, s) \<in> measures [\<lambda>s. mrank (mpc s), wsum W]"
    proof cases
      case m then show ?thesis using that [OF eu_step.master [of W s]] by simp
    next
      case w then show ?thesis using that [OF eu_step.worker [of i W s]] by (simp add: phase_mpc_worker)
    qed
    then show ?thesis using 1 by (meson converse_rtranclp_into_rtranclp reachable.move)
  qed auto
qed

text \<open>
  C27. No deadlock in the event unit: from every state that can be reached, the cores have an
  execution in which the master comes out of the event unit: it finishes booting, joins the
  region it has forked, or leaves \<open>eu_exit\<close>.
\<close>

lemma eu_master_returns:
  assumes "reachable eu_boot (eu_step W) s"
  shows "\<exists>t. (eu_step W)\<^sup>*\<^sup>* s t \<and> (mpc t = P_Idle \<or> mpc t = E_Left)"
  using assms by (rule eu_returns_aux)

theorem eu_master_returns_witness:
  "mpc eu_region_run = P_Done \<and>
    (\<exists>t. (eu_step 1)\<^sup>*\<^sup>* eu_region_run t \<and> (mpc t = P_Idle \<or> mpc t = E_Left))"
proof -
  have "mpc eu_region_run = P_Done" by code_simp
  then show ?thesis using eu_master_returns [OF eu_region_run_reachable] by simp
qed

end
