(* ===== verification/Kmp.thy ===== *)
theory Kmp
  imports Eu Alloc "HOL-Library.Signed_Division"
begin

text \<open>
  The OpenMP runtime above the event unit: \<open>sw/snRuntime/src/omp/kmp.c\<close>, \<open>kmp.h\<close>, \<open>omp.c\<close> and
  \<open>omp.h\<close> (dynamic number of threads). The compiler calls \<open>__kmpc_fork_call\<close> for a parallel
  region and \<open>__kmpc_for_static_init_4\<close> for a work-shared loop; the leading underscores are
  dropped here. All integers are 32-bit words; the signed operations of C are the words of
  the truncating division of the signed values.
\<close>

section \<open>Data\<close>

text \<open>The schedules of \<open>enum sched_type\<close> and their numbers.\<close>

datatype sched_type =
    kmp_sch_lower | kmp_sch_static_chunked | kmp_sch_static
  | kmp_sch_dynamic_chunked | kmp_sch_guided_chunked | kmp_sch_runtime
  | kmp_sch_auto | kmp_sch_trapezoidal | kmp_sch_static_greedy
  | kmp_sch_static_balanced | kmp_sch_guided_iterative_chunked | kmp_sch_guided_analytical_chunked
  | kmp_sch_static_steal | kmp_sch_static_balanced_chunked | kmp_sch_guided_simd
  | kmp_sch_runtime_simd | kmp_sch_upper | kmp_ord_lower
  | kmp_ord_static_chunked | kmp_ord_static | kmp_ord_dynamic_chunked
  | kmp_ord_guided_chunked | kmp_ord_runtime | kmp_ord_auto
  | kmp_ord_trapezoidal | kmp_ord_upper | kmp_distribute_static_chunked
  | kmp_distribute_static | kmp_nm_lower | kmp_nm_static_chunked
  | kmp_nm_static | kmp_nm_dynamic_chunked | kmp_nm_guided_chunked
  | kmp_nm_runtime | kmp_nm_auto | kmp_nm_trapezoidal
  | kmp_nm_static_greedy | kmp_nm_static_balanced | kmp_nm_guided_iterative_chunked
  | kmp_nm_guided_analytical_chunked | kmp_nm_static_steal | kmp_nm_ord_static_chunked
  | kmp_nm_ord_static | kmp_nm_ord_dynamic_chunked | kmp_nm_ord_guided_chunked
  | kmp_nm_ord_runtime | kmp_nm_ord_auto | kmp_nm_ord_trapezoidal
  | kmp_nm_upper | kmp_sch_modifier_monotonic | kmp_sch_modifier_nonmonotonic
  | kmp_sch_default

fun sched_code :: "sched_type \<Rightarrow> s32" where
  "sched_code kmp_sch_lower = 32"
| "sched_code kmp_sch_static_chunked = 33"
| "sched_code kmp_sch_static = 34"
| "sched_code kmp_sch_dynamic_chunked = 35"
| "sched_code kmp_sch_guided_chunked = 36"
| "sched_code kmp_sch_runtime = 37"
| "sched_code kmp_sch_auto = 38"
| "sched_code kmp_sch_trapezoidal = 39"
| "sched_code kmp_sch_static_greedy = 40"
| "sched_code kmp_sch_static_balanced = 41"
| "sched_code kmp_sch_guided_iterative_chunked = 42"
| "sched_code kmp_sch_guided_analytical_chunked = 43"
| "sched_code kmp_sch_static_steal = 44"
| "sched_code kmp_sch_static_balanced_chunked = 45"
| "sched_code kmp_sch_guided_simd = 46"
| "sched_code kmp_sch_runtime_simd = 47"
| "sched_code kmp_sch_upper = 48"
| "sched_code kmp_ord_lower = 64"
| "sched_code kmp_ord_static_chunked = 65"
| "sched_code kmp_ord_static = 66"
| "sched_code kmp_ord_dynamic_chunked = 67"
| "sched_code kmp_ord_guided_chunked = 68"
| "sched_code kmp_ord_runtime = 69"
| "sched_code kmp_ord_auto = 70"
| "sched_code kmp_ord_trapezoidal = 71"
| "sched_code kmp_ord_upper = 72"
| "sched_code kmp_distribute_static_chunked = 91"
| "sched_code kmp_distribute_static = 92"
| "sched_code kmp_nm_lower = 160"
| "sched_code kmp_nm_static_chunked = 161"
| "sched_code kmp_nm_static = 162"
| "sched_code kmp_nm_dynamic_chunked = 163"
| "sched_code kmp_nm_guided_chunked = 164"
| "sched_code kmp_nm_runtime = 165"
| "sched_code kmp_nm_auto = 166"
| "sched_code kmp_nm_trapezoidal = 167"
| "sched_code kmp_nm_static_greedy = 168"
| "sched_code kmp_nm_static_balanced = 169"
| "sched_code kmp_nm_guided_iterative_chunked = 170"
| "sched_code kmp_nm_guided_analytical_chunked = 171"
| "sched_code kmp_nm_static_steal = 172"
| "sched_code kmp_nm_ord_static_chunked = 193"
| "sched_code kmp_nm_ord_static = 194"
| "sched_code kmp_nm_ord_dynamic_chunked = 195"
| "sched_code kmp_nm_ord_guided_chunked = 196"
| "sched_code kmp_nm_ord_runtime = 197"
| "sched_code kmp_nm_ord_auto = 198"
| "sched_code kmp_nm_ord_trapezoidal = 199"
| "sched_code kmp_nm_upper = 200"
| "sched_code kmp_sch_modifier_monotonic = push_bit 29 1"
| "sched_code kmp_sch_modifier_nonmonotonic = push_bit 30 1"
| "sched_code kmp_sch_default = 34"

record ident_t =
  reserved_1 :: s32
  flags :: s32
  reserved_2 :: s32
  reserved_3 :: s32
  psource :: ptr

record omp_team_t =
  nbThreads :: u8
  loop_epoch :: s32
  loop_start :: s32
  loop_end :: s32
  loop_incr :: s32
  loop_chunk :: s32
  loop_is_setup :: s32
  core_epoch :: "s32 list"

text \<open>
  \<open>omp_t\<close>; its pointer field \<open>kmpc_args\<close> is never used (the runtime uses the global variable
  of that name), and \<open>omp_prof_t\<close> has the single field \<open>fork_oh\<close>.
\<close>

record omp_t =
  plainTeam :: omp_team_t
  numThreads :: s32
  maxThreads :: s32
  kmpc_barrier :: ptr
  kmpc_args_field :: ptr

record omp_prof_t =
  fork_oh :: u32

section \<open>Signed arithmetic of C\<close>

definition c_div :: "s32 \<Rightarrow> s32 \<Rightarrow> s32" where
  "c_div a b = word_of_int (sint a sdiv sint b)"

definition c_mod :: "s32 \<Rightarrow> s32 \<Rightarrow> s32" where
  "c_mod a b = word_of_int (sint a smod sint b)"

section \<open>The team\<close>

definition KMP_FORK_MAX_NARGS :: nat where
  "KMP_FORK_MAX_NARGS = 12"

text \<open>
  The state the functions share: the globals \<open>kmpc_args\<close> and \<open>omp_p_global\<close>, the object that
  \<open>omp_p\<close> points to, the barrier object, the profile, and the allocator.
\<close>

record kmp_state =
  kmpc_args :: ptr
  omp_p_global :: ptr
  omp :: omp_t
  kbarrier :: snrt_barrier_t
  omp_prof :: ptr
  prof :: omp_prof_t
  heap :: alloc_state

text \<open>
  \<open>omp_init\<close>. \<open>sizeof(omp_t)\<close> is 108: the team of 92 bytes (\<open>nbThreads\<close> padded to 4, six
  integers and 16 epochs) and four words. A core other than core 0 polls \<open>omp_p_global\<close>:
  \<open>None\<close> is another round.
\<close>

definition omp_init_main :: "snrt_defs \<Rightarrow> kmp_state \<Rightarrow> kmp_state" where
  "omp_init_main d s =
     (let (args, h1) = snrt_l1alloc (4 * of_nat KMP_FORK_MAX_NARGS) (heap s);
          (o_p, h2) = snrt_l1alloc 108 h1;
          nbCores = snrt_cluster_compute_core_num d;
          team = (plainTeam (omp s))\<lparr>nbThreads := ucast nbCores, loop_epoch := 0, loop_is_setup := 0,
            core_epoch := replicate 16 0\<rparr>;
          (bar, h3) = snrt_l1alloc 8 h2;
          (pr, h4) = snrt_l1alloc 4 h3
      in s\<lparr>kmpc_args := args,
           omp := (omp s)\<lparr>plainTeam := team, numThreads := nbCores, maxThreads := nbCores, kmpc_barrier := bar\<rparr>,
           kbarrier := \<lparr>cnt = 0, iteration = 0\<rparr>,
           omp_p_global := o_p, omp_prof := pr, heap := h4\<rparr>)"

definition omp_init :: "snrt_defs \<Rightarrow> u32 \<Rightarrow> kmp_state \<Rightarrow> kmp_state option" where
  "omp_init d hartid s =
     (if snrt_cluster_core_idx d hartid = 0 then Some (omp_init_main d s)
      else if omp_p_global s = 0 then None else Some s)"

definition omp_getData :: "kmp_state \<Rightarrow> omp_t" where
  "omp_getData s = omp s"

definition omp_get_team :: "omp_t \<Rightarrow> omp_team_t" where
  "omp_get_team this = plainTeam this"

definition omp_get_thread_num :: "snrt_defs \<Rightarrow> u32 \<Rightarrow> u32" where
  "omp_get_thread_num d hartid = snrt_cluster_core_idx d hartid"

text \<open>What \<open>snrt_omp_bootstrap\<close> makes of a core after the three initialisations.\<close>

datatype boot_role = Master | Data_mover | Worker u32

definition snrt_omp_bootstrap :: "snrt_defs \<Rightarrow> u32 \<Rightarrow> u32 \<Rightarrow> boot_role \<times> u32" where
  "snrt_omp_bootstrap d hartid core_idx =
     (if core_idx = 0 then (Master, 0)
      else if snrt_is_dm_core d hartid then (Data_mover, 1)
      else (Worker core_idx, 1))"

section \<open>Parallel regions\<close>

text \<open>
  The calls that leave the runtime: \<open>snrt_exit\<close> (which returns), the outlined function with
  the thread id and its arguments, the event unit's dispatch alone and dispatch followed by
  \<open>eu_run_empty\<close>.
\<close>

datatype kmp_call = Exit s32 | Fn u32 s32 "u32 list" | Dispatch u32 u32 | Run_Region u32 u32

definition parallelRegion :: "s32 \<Rightarrow> s32 \<Rightarrow> kmp_state \<Rightarrow> kmp_call list \<times> kmp_state" where
  "parallelRegion argc num_threads s =
     ([Run_Region argc num_threads],
      s\<lparr>omp := (omp s)\<lparr>plainTeam := (plainTeam (omp s))\<lparr>nbThreads := ucast num_threads\<rparr>\<rparr>\<rparr>)"

text \<open>
  The words from \<open>kmpc_args\<close> on, by index. The \<open>switch\<close> of \<open>__microtask_wrapper\<close> on \<open>argc\<close>: cases
  8 to 11 have no \<open>break\<close> and run into the next one, \<open>default\<close> runs into case 0.
\<close>

definition micro_fn :: "(nat \<Rightarrow> u32) \<Rightarrow> s32 \<Rightarrow> nat \<Rightarrow> kmp_call" where
  "micro_fn arg gtid k = Fn (arg 0) gtid (map (\<lambda>i. arg (1 + i)) [0..<k])"

definition micro_switch :: "(nat \<Rightarrow> u32) \<Rightarrow> s32 \<Rightarrow> nat \<Rightarrow> kmp_call list" where
  "micro_switch arg gtid argc =
     (if argc > 12 then [Exit (- 1), micro_fn arg gtid 0]
      else if argc \<le> 7 then [micro_fn arg gtid argc]
      else map (micro_fn arg gtid) [argc..<13])"

text \<open>\<open>cycle\<close> is the value of \<open>mcycle\<close> at the entry.\<close>

definition microtask_wrapper ::
  "snrt_defs \<Rightarrow> u32 \<Rightarrow> u32 \<Rightarrow> (nat \<Rightarrow> u32) \<Rightarrow> u32 \<Rightarrow> kmp_state \<Rightarrow> kmp_call list \<times> kmp_state" where
  "microtask_wrapper d hartid cycle arg argc s =
     (micro_switch arg (omp_get_thread_num d hartid) (unat argc),
      if hartid = 1 then s\<lparr>prof := \<lparr>fork_oh = cycle - fork_oh (prof s)\<rparr>\<rparr> else s)"

text \<open>
  \<open>__kmpc_fork_call\<close>: it returns the calls it makes, the argument words after it and the
  state. \<open>va\<close> is the list of variadic arguments, of length \<open>argc\<close>.
\<close>

definition kmpc_fork_args :: "u32 \<Rightarrow> u32 list \<Rightarrow> (nat \<Rightarrow> u32) \<Rightarrow> nat \<Rightarrow> u32" where
  "kmpc_fork_args microtask va args =
     for_upto (length va) (\<lambda>i a. a(i + 1 := va ! i)) (args(0 := microtask))"

definition kmpc_fork_call ::
  "snrt_defs \<Rightarrow> u32 \<Rightarrow> u32 \<Rightarrow> u32 \<Rightarrow> u32 list \<Rightarrow> (nat \<Rightarrow> u32) \<Rightarrow> kmp_state \<Rightarrow>
     kmp_call list \<times> (nat \<Rightarrow> u32) \<times> kmp_state" where
  "kmpc_fork_call d hartid cycle microtask va args s =
     (let argc = of_nat (length va);
          args' = kmpc_fork_args microtask va args;
          s1 = s\<lparr>prof := \<lparr>fork_oh = cycle\<rparr>\<rparr>
      in if snrt_cluster_core_idx d hartid \<noteq> 0
         then ([Exit (- 1), Dispatch argc (numThreads (omp_getData s1))], args', s1)
         else let (cs, s2) = parallelRegion argc (numThreads (omp_getData s1)) s1 in (cs, args', s2))"

text \<open>\<open>__kmpc_barrier\<close> is one use of the software barrier by all threads.\<close>

definition kmpc_barrier :: "kmp_state \<Rightarrow> bar_pc \<Rightarrow> bar_pc \<times> kmp_state" where
  "kmpc_barrier s pc =
     (let (pc', b') = snrt_partial_barrier (numThreads (omp_getData s)) pc (kbarrier s)
      in (pc', s\<lparr>kbarrier := b'\<rparr>))"

section \<open>Work sharing\<close>

text \<open>
  The variables that \<open>__kmpc_for_static_init_4\<close> updates through its pointers; \<open>plastiter\<close> is
  \<open>None\<close> when that pointer is \<open>NULL\<close>.
\<close>

record for_bounds =
  plastiter :: "s32 option"
  plower :: s32
  pupper :: s32
  pstride :: s32

definition static_chunked_bounds :: "u8 \<Rightarrow> u32 \<Rightarrow> s32 \<Rightarrow> s32 \<Rightarrow> for_bounds \<Rightarrow> for_bounds option" where
  "static_chunked_bounds nbT threadNum incr chunk b =
     (let globalUpper = pupper b;
          span = incr * chunk;
          st = span * ucast nbT;
          lo = plower b + span * threadNum;
          up = lo + span - incr;
          beginLastChunk = globalUpper - c_mod globalUpper span
      in case plastiter b of
           None \<Rightarrow> None
         | Some _ \<Rightarrow> Some \<lparr>plastiter = Some (if c_mod (beginLastChunk - lo) st = 0 then 1 else 0),
             plower = lo, pupper = up, pstride = st\<rparr>)"

definition static_bounds :: "u8 \<Rightarrow> u32 \<Rightarrow> s32 \<Rightarrow> for_bounds \<Rightarrow> for_bounds" where
  "static_bounds nbT threadNum incr b =
     (let loopSize = c_div (pupper b - plower b) incr + 1;
          globalUpper = pupper b;
          chunk = loopSize div ucast nbT;
          leftOver = loopSize - chunk * ucast nbT;
          (chunk', lo) =
            (if sint threadNum < sint leftOver
             then (chunk + 1, plower b + threadNum * (chunk + 1) * incr)
             else (chunk, plower b + threadNum * chunk * incr + leftOver));
          up = lo + chunk' * incr - incr
      in \<lparr>plastiter = map_option (\<lambda>_. if up = globalUpper \<and> sint lo \<le> sint globalUpper then 1 else 0) (plastiter b),
          plower = lo, pupper = up, pstride = loopSize\<rparr>)"

definition kmpc_for_static_init_4 ::
  "snrt_defs \<Rightarrow> u32 \<Rightarrow> kmp_state \<Rightarrow> s32 \<Rightarrow> s32 \<Rightarrow> s32 \<Rightarrow> for_bounds \<Rightarrow> for_bounds option" where
  "kmpc_for_static_init_4 d hartid s sched incr chunk b =
     (let team = omp_get_team (omp_getData s); threadNum = omp_get_thread_num d hartid
      in if sched = sched_code kmp_sch_static_chunked
         then static_chunked_bounds (nbThreads team) threadNum incr chunk b
         else if sched = sched_code kmp_sch_static
         then Some (static_bounds (nbThreads team) threadNum incr b)
         else Some b)"

text \<open>The unsigned variant converts its bounds to signed and back, which keeps the bits.\<close>

definition kmpc_for_static_init_4u ::
  "snrt_defs \<Rightarrow> u32 \<Rightarrow> kmp_state \<Rightarrow> s32 \<Rightarrow> s32 \<Rightarrow> s32 \<Rightarrow> for_bounds \<Rightarrow> for_bounds option" where
  "kmpc_for_static_init_4u d hartid s sched incr chunk b =
     (let ilower = plower b; iupper = pupper b
      in case kmpc_for_static_init_4 d hartid s sched incr chunk (b\<lparr>plower := ilower, pupper := iupper\<rparr>) of
           None \<Rightarrow> None
         | Some b' \<Rightarrow> Some (b'\<lparr>plower := plower b', pupper := pupper b'\<rparr>))"

definition kmpc_for_static_fini :: "kmp_state \<Rightarrow> kmp_state" where
  "kmpc_for_static_fini s = s"

section \<open>Static schedules\<close>

lemma sint_word_of_int_small:
  assumes "- (2 ^ 31) \<le> x" "x < 2 ^ 31"
  shows "sint (word_of_int x :: s32) = x"
  using assms by (simp add: int_word_sint)

lemma word_eq_of_sint: "(w :: s32) = word_of_int (sint w)"
  by simp

lemma sint_bounds: "- (2 ^ 31) \<le> sint (w :: s32)" "sint (w :: s32) < 2 ^ 31"
  using sint_greater_eq [of w] sint_less [of w] by simp_all

text \<open>The number of iterations before thread \<open>t\<close> when \<open>N\<close> of them are dealt out to \<open>T\<close> threads.\<close>

definition share :: "int \<Rightarrow> int \<Rightarrow> int \<Rightarrow> int" where
  "share N T t = t * (N div T) + min t (N mod T)"

lemma share_0: "0 < T \<Longrightarrow> share N T 0 = 0"
  by (simp add: share_def)

lemma share_T:
  assumes "0 < T" shows "share N T T = N"
proof -
  have "min T (N mod T) = N mod T" using pos_mod_bound [OF assms, of N] by (simp only: min_def split: if_split) linarith
  then show ?thesis by (simp add: share_def)
qed

lemma share_step:
  "share N T (t + 1) = share N T t + N div T + (if t < N mod T then 1 else 0)"
  by (simp add: share_def algebra_simps min_def)

lemma share_mono: "0 < T \<Longrightarrow> 0 \<le> N \<Longrightarrow> t \<le> u \<Longrightarrow> share N T t \<le> share N T u"
  by (auto simp: share_def min_def pos_imp_zdiv_nonneg_iff intro!: add_mono mult_right_mono)

lemma share_1:
  assumes "0 < T" "0 < N" shows "1 \<le> share N T 1"
proof -
  have N: "N = T * (N div T) + N mod T" by simp
  have q: "0 \<le> N div T" "0 \<le> N mod T" using assms by (simp_all add: pos_imp_zdiv_nonneg_iff)
  have "0 < N mod T \<or> 1 \<le> N div T"
  proof (rule ccontr)
    assume "\<not> ?thesis"
    then have "N div T = 0" "N mod T = 0" using q by auto
    with N assms(2) show False by simp
  qed
  then show ?thesis using share_step [of N T 0] share_0 [OF assms(1)] q(1) by auto
qed

lemma c_div_1: "c_div w 1 = w"
proof -
  have "sint w sdiv 1 = sint w" by (simp add: signed_divide_int_def sgn_mult_abs)
  then show ?thesis by (simp add: c_div_def)
qed

lemma word_div_of_int:
  assumes "0 \<le> N" "N < 2 ^ 32" "0 \<le> T" "T < 2 ^ 32"
  shows "(word_of_int N :: u32) div word_of_int T = word_of_int (N div T)"
  using assms by (simp add: word_div_def uint_word_of_int)

lemma static_bounds_words:
  fixes lo hi :: s32
  assumes le: "sint lo \<le> sint hi" and n: "sint hi - sint lo < 2 ^ 31 - 1"
    and T: "0 < uint nbT" and t: "int t < uint nbT" and b: "plower b = lo" "pupper b = hi"
  shows "plower (static_bounds nbT (of_nat t) 1 b) = word_of_int (sint lo + share (sint hi - sint lo + 1) (uint nbT) (int t))"
    and "pupper (static_bounds nbT (of_nat t) 1 b) = word_of_int (sint lo + share (sint hi - sint lo + 1) (uint nbT) (int t + 1) - 1)"
proof -
  define N where "N = sint hi - sint lo + 1"
  define T where "T = uint nbT"
  have Tb: "0 < T" "T < 256" "int t < T" using T t unsigned_less [of nbT]
    by (auto simp: T_def)
  have Nb: "0 < N" "N < 2 ^ 31" using le n by (simp_all add: N_def)
  have tn: "(of_nat t :: u32) = word_of_int (int t)" by simp
  have Tw: "(ucast nbT :: u32) = word_of_int T" by (simp add: T_def)
  have hl: "hi - lo + 1 = word_of_int N" by (simp add: N_def)
  have q: "(word_of_int N :: u32) div word_of_int T = word_of_int (N div T)"
    by (rule word_div_of_int) (use Tb Nb in auto)
  have r: "(word_of_int N :: u32) - word_of_int (N div T) * word_of_int T = word_of_int (N mod T)"
    by (simp add: minus_div_mult_eq_mod flip: of_int_mult of_int_diff)
  have small: "sint (word_of_int x :: s32) = x" if "0 \<le> x" "x < T" for x
    using that Tb by (intro sint_word_of_int_small) auto
  have sr: "sint (word_of_int (N mod T) :: s32) = N mod T" "sint (word_of_int (int t) :: s32) = int t"
    by (rule small; use Tb in simp)+
  have lo: "lo = word_of_int (sint lo)" by simp
  have "plower (static_bounds nbT (of_nat t) 1 b) = word_of_int (sint lo + share N T (int t)) \<and>
    pupper (static_bounds nbT (of_nat t) 1 b) = word_of_int (sint lo + share N T (int t + 1) - 1)"
    unfolding static_bounds_def Let_def b c_div_1 hl Tw q r tn sr
    by (simp add: share_def min_def algebra_simps)
  then show "plower (static_bounds nbT (of_nat t) 1 b) = word_of_int (sint lo + share (sint hi - sint lo + 1) (uint nbT) (int t))"
    "pupper (static_bounds nbT (of_nat t) 1 b) = word_of_int (sint lo + share (sint hi - sint lo + 1) (uint nbT) (int t + 1) - 1)"
    by (simp_all add: N_def T_def)
qed

lemma static_bounds_ints:
  fixes lo hi :: s32
  assumes le: "sint lo \<le> sint hi" and h: "sint hi < 2 ^ 31 - 1" and n: "sint hi - sint lo < 2 ^ 31 - 1"
    and T: "0 < uint nbT" and t: "int t < uint nbT" and b: "plower b = lo" "pupper b = hi"
  shows "sint (plower (static_bounds nbT (of_nat t) 1 b)) = sint lo + share (sint hi - sint lo + 1) (uint nbT) (int t)"
    and "sint (pupper (static_bounds nbT (of_nat t) 1 b)) = sint lo + share (sint hi - sint lo + 1) (uint nbT) (int t + 1) - 1"
    and "plastiter (static_bounds nbT (of_nat t) 1 b) = map_option (\<lambda>_. if
      sint (pupper (static_bounds nbT (of_nat t) 1 b)) = sint hi \<and>
      sint (plower (static_bounds nbT (of_nat t) 1 b)) \<le> sint hi then 1 else 0) (plastiter b)"
proof -
  define N where "N = sint hi - sint lo + 1"
  define T where "T = uint nbT"
  have s: "0 \<le> share N T u \<and> share N T u \<le> N" if "0 \<le> u" "u \<le> T" for u
    using share_mono [of T N 0 u] share_mono [of T N u T] share_0 [of T N] share_T [of T N] that assms(1,4)
    by (simp add: N_def T_def)
  have "1 \<le> share N T (int t + 1)"
    using share_1 [of T N] share_mono [of T N 1 "int t + 1"] assms(1,4) by (simp add: N_def T_def)
  then have 1: "0 \<le> share N T (int t)" "share N T (int t) \<le> N" "1 \<le> share N T (int t + 1)" "share N T (int t + 1) \<le> N"
    using s [of "int t"] s [of "int t + 1"] t by (auto simp: T_def)
  show "sint (plower (static_bounds nbT (of_nat t) 1 b)) = sint lo + share (sint hi - sint lo + 1) (uint nbT) (int t)"
    unfolding static_bounds_words(1) [OF le n T t b]
    by (rule sint_word_of_int_small) (use 1 h sint_bounds [of lo] in \<open>auto simp: N_def T_def\<close>)
  show "sint (pupper (static_bounds nbT (of_nat t) 1 b)) = sint lo + share (sint hi - sint lo + 1) (uint nbT) (int t + 1) - 1"
    unfolding static_bounds_words(2) [OF le n T t b]
    by (rule sint_word_of_int_small) (use 1 h sint_bounds [of lo] in \<open>auto simp: N_def T_def\<close>)
  have sint_eq: "sint x = sint y \<longleftrightarrow> x = y" for x y :: s32 by (auto intro: signed_word_eqI)
  show "plastiter (static_bounds nbT (of_nat t) 1 b) = map_option (\<lambda>_. if
      sint (pupper (static_bounds nbT (of_nat t) 1 b)) = sint hi \<and>
      sint (plower (static_bounds nbT (of_nat t) 1 b)) \<le> sint hi then 1 else 0) (plastiter b)"
    unfolding sint_eq
    by (simp only: static_bounds_def Let_def b case_prod_beta for_bounds.select_convs)
qed


text \<open>A growing sequence of bounds cuts an interval into consecutive pieces.\<close>

lemma cuts_partition:
  fixes g :: "nat \<Rightarrow> int"
  assumes "\<And>t. t < n \<Longrightarrow> g t \<le> g (Suc t)"
  shows "(\<Union>t<n. {g t .. g (Suc t) - 1}) = {g 0 .. g n - 1} \<and> g 0 \<le> g n"
  using assms
proof (induction n)
  case (Suc n)
  have "(\<Union>t<Suc n. {g t .. g (Suc t) - 1}) = {g 0 .. g n - 1} \<union> {g n .. g (Suc n) - 1}"
    using Suc by (auto simp: lessThan_Suc)
  moreover have "{g 0 .. g n - 1} \<union> {g n .. g (Suc n) - 1} = {g 0 .. g (Suc n) - 1}" "g 0 \<le> g (Suc n)"
    using Suc.IH Suc.prems [of n] Suc.prems by force+
  ultimately show ?case by simp
qed simp

lemma cuts_disjoint:
  fixes g :: "nat \<Rightarrow> int"
  assumes "\<And>t u. t \<le> u \<Longrightarrow> g t \<le> g u" and "t \<noteq> u"
  shows "{g t .. g (Suc t) - 1} \<inter> {g u .. g (Suc u) - 1} = {}"
proof -
  have "Suc t \<le> u \<or> Suc u \<le> t" using assms(2) by auto
  then show ?thesis using assms(1) [of "Suc t" u] assms(1) [of "Suc u" t] by fastforce
qed

text \<open>The iterations that a thread gets from the static schedule, as the compiled loop runs them.\<close>

definition static_iters :: "u8 \<Rightarrow> for_bounds \<Rightarrow> nat \<Rightarrow> int set" where
  "static_iters nbT b t = {sint (plower (static_bounds nbT (of_nat t) 1 b)) .. sint (pupper (static_bounds nbT (of_nat t) 1 b))}"

text \<open>
  C8. The static schedule of a loop with increment 1 deals the iterations out without loss or
  repetition: the pieces of the threads are pairwise disjoint, together they are the
  iterations from the lower to the upper bound, their sizes differ by at most one, and the
  last-iteration flag is set for exactly the thread whose piece holds the upper bound.
\<close>

theorem kmpc_static_partition:
  fixes b :: for_bounds and nbT :: u8
  assumes "sint (plower b) \<le> sint (pupper b)" "sint (pupper b) < 2 ^ 31 - 1"
    "sint (pupper b) - sint (plower b) < 2 ^ 31 - 1" "0 < unat nbT"
  shows "(\<Union>t<unat nbT. static_iters nbT b t) = {sint (plower b) .. sint (pupper b)} \<and>
    (\<forall>t<unat nbT. \<forall>u<unat nbT. t \<noteq> u \<longrightarrow> static_iters nbT b t \<inter> static_iters nbT b u = {}) \<and>
    (\<forall>t<unat nbT. \<forall>u<unat nbT. card (static_iters nbT b t) \<le> card (static_iters nbT b u) + 1) \<and>
    (\<forall>t<unat nbT. plastiter (static_bounds nbT (of_nat t) 1 b) =
       map_option (\<lambda>_. if sint (pupper b) \<in> static_iters nbT b t then 1 else 0) (plastiter b))"
proof -
  define N where "N = sint (pupper b) - sint (plower b) + 1"
  define T where "T = uint nbT"
  define g where "g t = sint (plower b) + share N T (int t)" for t
  have "0 < int (unat nbT)" using assms(4) by (simp only: of_nat_0_less_iff)
  then have T: "0 < uint nbT" "0 < T" "int (unat nbT) = T" by (simp_all add: T_def)
  have N: "0 \<le> N" using assms(1) by (simp add: N_def)
  have tT: "int t < uint nbT" if "t < unat nbT" for t
  proof -
    from that have "int t < int (unat nbT)" by (simp only: of_nat_less_iff)
    then show ?thesis by simp
  qed
  note ints = static_bounds_ints [OF assms(1-3) T(1) tT refl refl]
  have it: "static_iters nbT b t = {g t .. g (Suc t) - 1}" if "t < unat nbT" for t
    using ints(1,2) [OF that] by (simp add: static_iters_def g_def N_def T_def add.commute)
  have mono: "t \<le> u \<Longrightarrow> g t \<le> g u" for t u using share_mono [OF T(2) N] by (simp add: g_def)
  have ends: "g 0 = sint (plower b)" "g (unat nbT) = sint (pupper b) + 1"
    using share_0 [OF T(2)] share_T [OF T(2), of N] by (simp_all add: g_def N_def flip: T_def)
  have 1: "(\<Union>t<unat nbT. static_iters nbT b t) = {sint (plower b) .. sint (pupper b)}"
    using cuts_partition [of "unat nbT" g] mono it by (simp add: ends)
  have 2: "\<forall>t<unat nbT. \<forall>u<unat nbT. t \<noteq> u \<longrightarrow> static_iters nbT b t \<inter> static_iters nbT b u = {}"
    using it cuts_disjoint [of g] mono by simp
  have "card (static_iters nbT b t) = nat (N div T + (if int t < N mod T then 1 else 0))" if "t < unat nbT" for t
    using share_step [of N T "int t"] by (simp add: it [OF that] g_def add.commute)
  moreover have "0 \<le> N div T" using N T(2) by (simp add: pos_imp_zdiv_nonneg_iff)
  ultimately have 3: "\<forall>t<unat nbT. \<forall>u<unat nbT. card (static_iters nbT b t) \<le> card (static_iters nbT b u) + 1"
    by auto
  have 4: "plastiter (static_bounds nbT (of_nat t) 1 b) =
       map_option (\<lambda>_. if sint (pupper b) \<in> static_iters nbT b t then 1 else 0) (plastiter b)" if t: "t < unat nbT" for t
  proof -
    have "sint (pupper (static_bounds nbT (of_nat t) 1 b)) \<le> sint (pupper b)"
      using mono [of "Suc t" "unat nbT"] t ints(2) [OF t] ends by (simp add: g_def N_def T_def add.commute)
    then show ?thesis unfolding ints(3) [OF t] static_iters_def by (auto intro!: arg_cong2 [where f = map_option])
  qed
  from 1 2 3 4 show ?thesis by blast
qed

theorem kmpc_static_partition_witness:
  "let b = \<lparr>plastiter = Some 0, plower = 3, pupper = 12, pstride = 1\<rparr>
   in (\<Union>t<4. static_iters 4 b t) = {3 .. 12}"
  using kmpc_static_partition [of "\<lparr>plastiter = Some 0, plower = 3, pupper = 12, pstride = 1\<rparr>" 4]
  by simp

text \<open>
  With an increment of 2, ten iterations and four threads, the static schedule runs one
  iteration twice and another one not at all: the offset for the threads after the left-over
  ones is not multiplied by the increment. The iterations are 0, 2, \<dots>, 18; threads 1 and 2 both
  get 10, and no thread gets 18.
\<close>

theorem kmpc_static_stride_overlap:
  "let b = \<lparr>plastiter = None, plower = 0, pupper = 18, pstride = 2\<rparr>;
       r = (\<lambda>t. let c = static_bounds 4 t 2 b in (sint (plower c), sint (pupper c)))
   in [r 0, r 1, r 2, r 3] = [(0, 4), (6, 10), (10, 12), (14, 16)]"
  by code_simp

section \<open>Chunked schedules\<close>

text \<open>The values the loop variable of a thread takes: chunks of its bounds, moved on by the stride.\<close>

definition chunk_iters :: "s32 \<Rightarrow> for_bounds \<Rightarrow> int set" where
  "chunk_iters incr c = {sint (plower c) + int k * sint (pstride c) + int j * sint incr |k j.
     sint (plower c) + int j * sint incr \<le> sint (pupper c)}"

lemma chunked_bounds_ints:
  fixes incr chunk :: s32
  assumes i: "0 < sint incr" and c: "0 < sint chunk"
    and f: "sint (plower b) + sint incr * sint chunk * uint nbT < 2 ^ 31" and f2: "sint incr * sint chunk * uint nbT < 2 ^ 31"
    and t: "int t < uint nbT" and r: "static_chunked_bounds nbT (of_nat t) incr chunk b = Some r"
  shows "sint (plower r) = sint (plower b) + sint incr * sint chunk * int t"
    "sint (pupper r) = sint (plower b) + sint incr * sint chunk * int t + sint incr * sint chunk - sint incr"
    "sint (pstride r) = sint incr * sint chunk * uint nbT"
proof -
  define S where "S = sint incr * sint chunk"
  have S: "0 < S" "sint incr \<le> S" using i c by (simp_all add: S_def)
  have "S * (int t + 1) \<le> S * uint nbT" using S t by (intro mult_left_mono) auto
  then have St: "0 \<le> S * int t" "S * int t + S \<le> S * uint nbT" using S by (simp_all add: algebra_simps)
  have w: "plower r = word_of_int (sint (plower b) + S * int t)"
    "pupper r = word_of_int (sint (plower b) + S * int t + S - sint incr)"
    "pstride r = word_of_int (S * uint nbT)"
    using r by (auto simp: static_chunked_bounds_def Let_def S_def split: option.splits)
  note bnd = sint_bounds [of "plower b"] f [folded S_def] f2 [folded S_def] St S i
  show "sint (plower r) = sint (plower b) + sint incr * sint chunk * int t"
    unfolding w S_def [symmetric] by (rule sint_word_of_int_small) (use bnd in linarith)+
  show "sint (pupper r) = sint (plower b) + sint incr * sint chunk * int t + sint incr * sint chunk - sint incr"
    unfolding w S_def [symmetric] by (rule sint_word_of_int_small) (use bnd in linarith)+
  show "sint (pstride r) = sint incr * sint chunk * uint nbT"
    unfolding w S_def [symmetric] by (rule sint_word_of_int_small) (use bnd in linarith)+
qed

text \<open>Iteration number \<open>m\<close> belongs to the thread that its chunk is dealt to.\<close>

lemma chunk_iters_iff:
  fixes incr chunk :: s32
  assumes i: "0 < sint incr" and c: "0 < sint chunk"
    and f: "sint (plower b) + sint incr * sint chunk * uint nbT < 2 ^ 31" and f2: "sint incr * sint chunk * uint nbT < 2 ^ 31"
    and t: "int t < uint nbT" and r: "static_chunked_bounds nbT (of_nat t) incr chunk b = Some r"
  shows "sint (plower b) + int m * sint incr \<in> chunk_iters incr r \<longleftrightarrow> int m div sint chunk mod uint nbT = int t"
proof -
  note e = chunked_bounds_ints [OF assms]
  let ?c = "sint chunk" and ?T = "uint nbT" and ?i = "sint incr"
  have "sint (plower b) + int m * ?i \<in> chunk_iters incr r \<longleftrightarrow>
    (\<exists>k j :: nat. int j < ?c \<and> int m = (int k * ?T + int t) * ?c + int j)"
  proof -
    have a: "int j * ?i \<le> ?i * ?c - ?i \<longleftrightarrow> int j < ?c" for j
    proof -
      have "int j * ?i \<le> ?i * ?c - ?i \<longleftrightarrow> ?i * (int j + 1) \<le> ?i * ?c" by (simp add: algebra_simps)
      then show ?thesis using i by (simp add: mult_le_cancel_left_pos add1_zle_eq)
    qed
    have b: "int m * ?i = ?i * ?c * int t + int k * (?i * ?c * ?T) + int j * ?i \<longleftrightarrow>
      int m = (int k * ?T + int t) * ?c + int j" for k j
    proof -
      have "?i * ?c * int t + int k * (?i * ?c * ?T) + int j * ?i = ((int k * ?T + int t) * ?c + int j) * ?i"
        by (simp add: algebra_simps)
      then show ?thesis using i by simp
    qed
    show ?thesis
      unfolding chunk_iters_def e by (simp add: add.assoc a conj_commute flip: b)
  qed
  also have "\<dots> \<longleftrightarrow> int m div ?c mod ?T = int t"
  proof
    assume "\<exists>k j :: nat. int j < ?c \<and> int m = (int k * ?T + int t) * ?c + int j"
    then obtain k j :: nat where j: "int j < ?c" and m: "int m = (int k * ?T + int t) * ?c + int j" by blast
    have "int m div ?c = int k * ?T + int t" using j c unfolding m by (simp add: div_pos_pos_trivial)
    then show "int m div ?c mod ?T = int t" using t by simp
  next
    assume h: "int m div ?c mod ?T = int t"
    have "int m = (int m div ?c) * ?c + int m mod ?c" by simp
    also have "int m div ?c = (int m div ?c div ?T) * ?T + int t" using h by (metis div_mult_mod_eq)
    finally have "int m = (int (nat (int m div ?c div ?T)) * ?T + int t) * ?c + int (nat (int m mod ?c))"
      using c t by (simp add: pos_imp_zdiv_nonneg_iff)
    moreover have "int (nat (int m mod ?c)) < ?c" using c by simp
    ultimately show "\<exists>k j :: nat. int j < ?c \<and> int m = (int k * ?T + int t) * ?c + int j" by blast
  qed
  finally show ?thesis .
qed

text \<open>
  C29. The chunked static schedule gives every iteration of the loop to exactly one thread:
  the \<open>m\<close>-th value of the loop variable is in the chunks of thread \<open>m div chunk mod T\<close> and of no
  other.
\<close>

theorem kmpc_chunked_partition:
  fixes incr chunk :: s32 and nbT :: u8
  assumes "0 < sint incr" "0 < sint chunk" "0 < unat nbT" "plastiter b \<noteq> None"
    "sint (plower b) + sint incr * sint chunk * uint nbT < 2 ^ 31" "sint incr * sint chunk * uint nbT < 2 ^ 31"
  shows "\<exists>!t. t < unat nbT \<and> sint (plower b) + int m * sint incr
    \<in> chunk_iters incr (the (static_chunked_bounds nbT (of_nat t) incr chunk b))"
proof -
  have nT: "int t < uint nbT \<longleftrightarrow> t < unat nbT" for t
    by (metis of_nat_less_iff uint_nat)
  have some: "static_chunked_bounds nbT t incr chunk b = Some (the (static_chunked_bounds nbT t incr chunk b))" for t
    using assms(4) by (auto simp: static_chunked_bounds_def Let_def)
  have iff: "sint (plower b) + int m * sint incr \<in> chunk_iters incr (the (static_chunked_bounds nbT (of_nat t) incr chunk b))
      \<longleftrightarrow> int m div sint chunk mod uint nbT = int t" if "t < unat nbT" for t
    using chunk_iters_iff [OF assms(1,2,5,6) _ some] that nT by blast
  let ?t = "nat (int m div sint chunk mod uint nbT)"
  have "0 < uint nbT" using assms(3) nT [of 0] by simp
  then have t: "int ?t = int m div sint chunk mod uint nbT" "int m div sint chunk mod uint nbT < uint nbT" by simp_all
  show ?thesis
  proof (rule ex1I [of _ ?t])
    have "?t < unat nbT" using nT [of ?t] t by simp
    then show "?t < unat nbT \<and> sint (plower b) + int m * sint incr
      \<in> chunk_iters incr (the (static_chunked_bounds nbT (of_nat ?t) incr chunk b))"
      using iff t(1) by simp
  qed (use iff in auto)
qed

theorem kmpc_chunked_partition_witness:
  "\<exists>!t. t < 4 \<and> (5 + int 100 * 2) \<in> chunk_iters 2
    (the (static_chunked_bounds 4 (of_nat t) 2 3 \<lparr>plastiter = Some 0, plower = 5, pupper = 999, pstride = 1\<rparr>))"
  using kmpc_chunked_partition [of 2 3 4 "\<lparr>plastiter = Some 0, plower = 5, pupper = 999, pstride = 1\<rparr>" 100]
  by simp

text \<open>
  The last-iteration flag of the chunked schedule is computed as if the loop started at 0:
  for the iterations 1 to 8 in chunks of 4 over two threads, thread 1 runs the last chunk 5
  to 8 and yet no thread has the flag set. Starting at 0, for the iterations 0 to 7, the flag
  is set for thread 1 alone.
\<close>

theorem kmpc_chunked_lastiter:
  "let r = (\<lambda>lo hi t. map_option (\<lambda>c. (plastiter c, sint (plower c), sint (pupper c)))
         (static_chunked_bounds 2 t 1 4 \<lparr>plastiter = Some 0, plower = lo, pupper = hi, pstride = 1\<rparr>))
   in [r 1 8 0, r 1 8 1] = [Some (Some 0, 1, 4), Some (Some 0, 5, 8)] \<and>
      [r 0 7 0, r 0 7 1] = [Some (Some 0, 0, 3), Some (Some 1, 4, 7)]"
  by code_simp

section \<open>Delivering the arguments\<close>

lemma fork_args_0: "kmpc_fork_args f va args 0 = f"
  unfolding kmpc_fork_args_def
  by (rule for_upto_invariant [where P = "\<lambda>_ a. a 0 = f"]) auto

lemma fork_args_Suc:
  assumes "i < length va" shows "kmpc_fork_args f va args (Suc i) = va ! i"
  unfolding kmpc_fork_args_def using for_upto_writes_hit [of "\<lambda>i. i + 1" "length va" i] assms by simp

lemma fork_args_frame: "length va < i \<Longrightarrow> kmpc_fork_args f va args i = args i"
  unfolding kmpc_fork_args_def
  by (rule for_upto_invariant [where P = "\<lambda>_ a. a i = args i"]) auto

lemma micro_fn_fork:
  "k \<le> length va \<Longrightarrow> micro_fn (kmpc_fork_args f va args) g k = Fn f g (take k va)"
  by (auto simp: micro_fn_def fork_args_0 fork_args_Suc intro!: nth_equalityI)



end
