(* ===== verification/SnaxLib.thy ===== *)
theory SnaxLib
  imports Dma Alloc
begin

text \<open>
  The accelerator libraries under \<open>target/snitch_cluster/sw/snax\<close>: block GEMM (\<open>gemm\<close>),
  GEMM behind streamers (\<open>streamer-gemm\<close>, \<open>streamer-gemm-conv\<close>), the SIMD unit
  (\<open>streamer-simd\<close>), the data reshuffler and the MAC engine (\<open>mac\<close>). The accelerators are
  hardware reached through control registers: a function that configures one is the list of
  its register accesses. The golden models, packing functions and result checks are functions
  on arrays; a pointer into an array is the index of the element.
\<close>

section \<open>Control registers\<close>

text \<open>\<open>Csr_Poll rs\<close> is a loop that reads the registers \<open>rs\<close> until all of them are 0.\<close>

datatype csr_op = Csr_Write u32 u32 | Csr_Read u32 | Csr_Poll "u32 list"

text \<open>The register file after a list of accesses.\<close>

fun csr_apply :: "csr_op list \<Rightarrow> (u32 \<Rightarrow> u32) \<Rightarrow> u32 \<Rightarrow> u32" where
  "csr_apply [] f = f"
| "csr_apply (Csr_Write a v # ops) f = csr_apply ops (f(a := v))"
| "csr_apply (Csr_Read a # ops) f = csr_apply ops f"
| "csr_apply (Csr_Poll rs # ops) f = csr_apply ops f"

section \<open>GEMM\<close>

definition tileSize :: nat where "tileSize = 8"
definition meshRow :: nat where "meshRow = 8"
definition meshCol :: nat where "meshCol = 8"

definition gen_size_config :: "u8 \<Rightarrow> u8 \<Rightarrow> u8 \<Rightarrow> u8 \<Rightarrow> s32" where
  "gen_size_config Batch M K N =
     push_bit 24 (ucast Batch) OR push_bit 16 (ucast M) OR push_bit 8 (ucast K) OR ucast N"

definition gen_subtraction_config :: "s8 \<Rightarrow> s8 \<Rightarrow> s32" where
  "gen_subtraction_config subtraction_a subtraction_b = push_bit 8 (ucast subtraction_b) OR ucast subtraction_a"

definition read_performance_counter :: "csr_op list" where
  "read_performance_counter = [Csr_Read 0x3cd]"

text \<open>One product of \<open>base_gemm\<close>, in 32-bit arithmetic.\<close>

definition gemm_term :: "s8 \<Rightarrow> s8 \<Rightarrow> s8 \<Rightarrow> s8 \<Rightarrow> s32" where
  "gemm_term a sa b sb = (scast a - scast sa) * (scast b - scast sb)"

definition base_gemm ::
  "nat \<Rightarrow> nat \<Rightarrow> nat \<Rightarrow> (nat \<Rightarrow> s8) \<Rightarrow> nat \<Rightarrow> (nat \<Rightarrow> s8) \<Rightarrow> nat \<Rightarrow> s8 \<Rightarrow> s8 \<Rightarrow> nat \<Rightarrow> bool \<Rightarrow>
     (nat \<Rightarrow> s32) \<Rightarrow> nat \<Rightarrow> s32" where
  "base_gemm m k n A pA B pB sa sb pC clear C =
     for_upto m (\<lambda>i C. for_upto n (\<lambda>j C.
       let C = (if clear then C(pC + (i * n + j) := 0) else C)
       in for_upto k (\<lambda>s C. C(pC + (i * n + j) :=
            C (pC + (i * n + j)) + gemm_term (A (pA + (i * k + s))) sa (B (pB + (s + j * k))) sb)) C) C) C"

text \<open>The byte strides of a block matrix layout.\<close>

record gemm_strides =
  strideInnermostA :: u32
  strideInnermostB :: u32
  strideInnermostC :: u32
  ldA :: u32
  ldB :: u32
  ldC :: u32
  strideA :: u32
  strideB :: u32
  strideC :: u32

text \<open>Byte offsets of the sub-matrices of \<open>A\<close> and \<open>B\<close>, and the element offset of one of \<open>C\<close>.\<close>

definition offs_a :: "gemm_strides \<Rightarrow> nat \<Rightarrow> nat \<Rightarrow> nat \<Rightarrow> u32" where
  "offs_a g b m k = of_nat b * strideA g + of_nat m * ldA g + of_nat k * strideInnermostA g"

definition offs_b :: "gemm_strides \<Rightarrow> nat \<Rightarrow> nat \<Rightarrow> nat \<Rightarrow> u32" where
  "offs_b g b n k = of_nat b * strideB g + of_nat n * ldB g + of_nat k * strideInnermostB g"

definition elem_c :: "gemm_strides \<Rightarrow> nat \<Rightarrow> nat \<Rightarrow> nat \<Rightarrow> nat" where
  "elem_c g b m n = unat ((of_nat b * strideC g + of_nat m * ldC g + of_nat n * strideInnermostC g) div 4)"

definition batch_gemm_cpu ::
  "u8 \<Rightarrow> u8 \<Rightarrow> u8 \<Rightarrow> u8 \<Rightarrow> (nat \<Rightarrow> s8) \<Rightarrow> (nat \<Rightarrow> s8) \<Rightarrow> s8 \<Rightarrow> s8 \<Rightarrow> gemm_strides \<Rightarrow> (nat \<Rightarrow> s32) \<Rightarrow> nat \<Rightarrow> s32" where
  "batch_gemm_cpu Batch M K N A B sa sb g C =
     for_upto (unat Batch) (\<lambda>b C. for_upto (unat M) (\<lambda>m C. for_upto (unat N) (\<lambda>n C. for_upto (unat K) (\<lambda>k C.
       let clear = (k = 0)
       in base_gemm meshRow tileSize meshCol A (unat (offs_a g b m k)) B (unat (offs_b g b n k)) sa sb
            (elem_c g b m n) clear C) C) C) C) C"

text \<open>The transfers of \<open>load_input_data\<close>, with pointers as addresses.\<close>

definition load_a :: "u8 \<Rightarrow> u8 \<Rightarrow> u8 \<Rightarrow> ptr \<Rightarrow> ptr \<Rightarrow> gemm_strides \<Rightarrow> dma_state \<Rightarrow> dma_state" where
  "load_a Batch M K local_a A g st =
     for_upto (unat Batch) (\<lambda>b st. for_upto (unat M) (\<lambda>m st. for_upto (unat K) (\<lambda>k st.
       snd (snrt_dma_start_1d (local_a + offs_a g b m k)
         (A + of_nat (b * unat M * meshRow * tileSize * unat K + m * meshRow * tileSize * unat K + k * meshRow * tileSize))
         (of_nat (meshRow * tileSize)) st)) st) st) st"

definition load_b :: "u8 \<Rightarrow> u8 \<Rightarrow> u8 \<Rightarrow> ptr \<Rightarrow> ptr \<Rightarrow> gemm_strides \<Rightarrow> dma_state \<Rightarrow> dma_state" where
  "load_b Batch K N local_b B g st =
     for_upto (unat Batch) (\<lambda>b st. for_upto (unat N) (\<lambda>n st. for_upto (unat K) (\<lambda>k st.
       snd (snrt_dma_start_1d (local_b + offs_b g b n k)
         (B + of_nat (b * unat K * tileSize * meshCol * unat N + n * tileSize * meshCol * unat K + k * tileSize * meshCol))
         (of_nat (meshCol * tileSize)) st)) st) st) st"

definition load_input_data ::
  "u8 \<Rightarrow> u8 \<Rightarrow> u8 \<Rightarrow> u8 \<Rightarrow> ptr \<Rightarrow> ptr \<Rightarrow> ptr \<Rightarrow> ptr \<Rightarrow> gemm_strides \<Rightarrow> dma_state \<Rightarrow> dma_state" where
  "load_input_data Batch M K N local_a local_b A B g st =
     load_b Batch K N local_b B g (load_a Batch M K local_a A g st)"

definition set_batch_gemm :: "u32 \<Rightarrow> ptr \<Rightarrow> ptr \<Rightarrow> s32 \<Rightarrow> ptr \<Rightarrow> gemm_strides \<Rightarrow> csr_op list" where
  "set_batch_gemm size_setting local_a local_b subtractions local_c g =
     [Csr_Write 0x3c0 size_setting,
      Csr_Write 0x3c1 local_a, Csr_Write 0x3c2 local_b, Csr_Write 0x3c3 local_c,
      Csr_Write 0x3c4 (strideInnermostA g), Csr_Write 0x3c5 (strideInnermostB g), Csr_Write 0x3c6 (strideInnermostC g),
      Csr_Write 0x3c7 (ldA g), Csr_Write 0x3c8 (ldB g), Csr_Write 0x3c9 (ldC g),
      Csr_Write 0x3ca (strideA g), Csr_Write 0x3cb (strideB g), Csr_Write 0x3cc (strideC g),
      Csr_Write 0x3ce subtractions]"

definition start_batch_gemm :: "csr_op list" where
  "start_batch_gemm = [Csr_Write 0x3cf 1]"

definition wait_batch_gemm :: "csr_op list" where
  "wait_batch_gemm = [Csr_Write 0x7c3 1, Csr_Write 0x7c4 0]"

definition golden_idx :: "u8 \<Rightarrow> u8 \<Rightarrow> nat \<Rightarrow> nat \<Rightarrow> nat \<Rightarrow> nat \<Rightarrow> nat \<Rightarrow> nat" where
  "golden_idx M N b m n i j =
     i * meshCol + j + b * unat M * meshRow * meshCol * unat N + m * meshRow * meshCol * unat N + n * meshRow * meshCol"

definition check_result ::
  "(nat \<Rightarrow> s32) \<Rightarrow> (nat \<Rightarrow> s32) \<Rightarrow> u8 \<Rightarrow> u8 \<Rightarrow> u8 \<Rightarrow> gemm_strides \<Rightarrow> u32" where
  "check_result output output_golden Batch M N g =
     for_upto (unat Batch) (\<lambda>b err. for_upto (unat M) (\<lambda>m err. for_upto (unat N) (\<lambda>n err.
       for_upto meshRow (\<lambda>i err. for_upto meshCol (\<lambda>j err.
         if output (elem_c g b m n + i * meshCol + j) \<noteq> output_golden (golden_idx M N b m n i j) then err + 1 else err)
       err) err) err) err) 0"

section \<open>GEMM behind streamers\<close>

text \<open>\<open>l1_next\<close> is the result of \<open>snrt_l1_next\<close>.\<close>

definition set_streamer_csr ::
  "s32 \<Rightarrow> s32 \<Rightarrow> s32 \<Rightarrow> s32 \<Rightarrow> s32 \<Rightarrow> s32 \<Rightarrow> s32 \<Rightarrow> s32 \<Rightarrow> s32 \<Rightarrow> s32 \<Rightarrow> s32 \<Rightarrow> s32 \<Rightarrow> s32 \<Rightarrow> s32 \<Rightarrow> s32 \<Rightarrow>
     ptr \<Rightarrow> csr_op list" where
  "set_streamer_csr tempLoop0 tempLoop1 tempLoop2 tempStride0A tempStride2A spatialStride1A
       tempStride0B tempStride1B spatialStride1B tempStride1C tempStride2C spatialStride1C
       delta_local_a delta_local_b delta_local_c l1_next =
     [Csr_Write 960 tempLoop0, Csr_Write 961 tempLoop1, Csr_Write 962 tempLoop2,
      Csr_Write 963 tempStride0A, Csr_Write 964 0, Csr_Write 965 tempStride2A,
      Csr_Write 966 tempStride0B, Csr_Write 967 tempStride1B, Csr_Write 968 0,
      Csr_Write 969 0, Csr_Write 970 tempStride1C, Csr_Write 971 tempStride2C,
      Csr_Write 972 1, Csr_Write 973 spatialStride1A,
      Csr_Write 974 1, Csr_Write 975 spatialStride1B,
      Csr_Write 976 4, Csr_Write 977 spatialStride1C,
      Csr_Write 978 (delta_local_a + l1_next),
      Csr_Write 979 (delta_local_b + l1_next),
      Csr_Write 980 (delta_local_c + l1_next)]"

definition set_streamer_start :: "csr_op list" where
  "set_streamer_start = [Csr_Write 981 1]"

definition set_block_gemm_csr :: "s32 \<Rightarrow> s32 \<Rightarrow> s32 \<Rightarrow> s32 \<Rightarrow> csr_op list" where
  "set_block_gemm_csr tempLoop0 tempLoop1 tempLoop2 subtractions =
     [Csr_Write 983 tempLoop0, Csr_Write 984 tempLoop1, Csr_Write 985 tempLoop2, Csr_Write 986 subtractions]"

definition set_block_gemm_start :: "csr_op list" where
  "set_block_gemm_start = [Csr_Write 987 1]"

definition wait_streamer_gemm :: "csr_op list" where
  "wait_streamer_gemm = [Csr_Write 987 0, Csr_Write 987 0, Csr_Write 981 0]"

definition read_gemm_streamer_perf_counter :: "csr_op list" where
  "read_gemm_streamer_perf_counter = [Csr_Read 982]"

definition read_gemm_perf_counter :: "csr_op list" where
  "read_gemm_perf_counter = [Csr_Read 989]"

text \<open>
  The six loops of data mover \<open>A\<close> and the three of \<open>B\<close> and of \<open>C\<close> in the convolution variant,
  as (bound, stride) pairs from innermost to outermost, and the two spatial strides of each.
\<close>

record conv_streams =
  Atl :: "(s32 \<times> s32) list"
  Btl :: "(s32 \<times> s32) list"
  Ctl :: "(s32 \<times> s32) list"
  Asl :: "s32 \<times> s32"
  Bsl :: "s32 \<times> s32"
  Csl :: "s32 \<times> s32"

definition set_conv_streamer_csr :: "conv_streams \<Rightarrow> s32 \<Rightarrow> s32 \<Rightarrow> s32 \<Rightarrow> ptr \<Rightarrow> csr_op list" where
  "set_conv_streamer_csr c delta_local_a delta_local_b delta_local_c l1_next =
     [Csr_Write 960 (fst (Atl c ! 0)), Csr_Write 961 (fst (Atl c ! 1)), Csr_Write 962 (fst (Atl c ! 2)),
      Csr_Write 963 (fst (Atl c ! 3)), Csr_Write 964 (fst (Atl c ! 4)), Csr_Write 965 (fst (Atl c ! 5)),
      Csr_Write 966 (fst (Btl c ! 0)), Csr_Write 967 (fst (Btl c ! 1)), Csr_Write 968 (fst (Btl c ! 2)),
      Csr_Write 969 (fst (Ctl c ! 0)), Csr_Write 970 (fst (Ctl c ! 1)), Csr_Write 971 (fst (Ctl c ! 2)),
      Csr_Write 972 (snd (Atl c ! 0)), Csr_Write 973 (snd (Atl c ! 1)), Csr_Write 974 (snd (Atl c ! 2)),
      Csr_Write 975 (snd (Atl c ! 3)), Csr_Write 976 (snd (Atl c ! 4)), Csr_Write 977 (snd (Atl c ! 5)),
      Csr_Write 978 (snd (Btl c ! 0)), Csr_Write 979 (snd (Btl c ! 1)), Csr_Write 980 (snd (Btl c ! 2)),
      Csr_Write 981 (snd (Ctl c ! 0)), Csr_Write 982 (snd (Ctl c ! 1)), Csr_Write 983 (snd (Ctl c ! 2)),
      Csr_Write 984 (fst (Asl c)), Csr_Write 985 (snd (Asl c)),
      Csr_Write 986 (fst (Bsl c)), Csr_Write 987 (snd (Bsl c)),
      Csr_Write 988 (fst (Csl c)), Csr_Write 989 (snd (Csl c)),
      Csr_Write 990 (delta_local_a + l1_next),
      Csr_Write 991 (delta_local_b + l1_next),
      Csr_Write 992 (delta_local_c + l1_next)]"

definition set_conv_streamer_start :: "csr_op list" where
  "set_conv_streamer_start = [Csr_Write 993 1]"

definition set_conv_block_gemm_csr :: "s32 \<Rightarrow> s32 \<Rightarrow> s32 \<Rightarrow> s32 \<Rightarrow> csr_op list" where
  "set_conv_block_gemm_csr tempLoop0 tempLoop1 tempLoop2 subtractions =
     [Csr_Write 995 tempLoop0, Csr_Write 996 tempLoop1, Csr_Write 997 tempLoop2, Csr_Write 998 subtractions]"

definition set_conv_block_gemm_start :: "csr_op list" where
  "set_conv_block_gemm_start = [Csr_Write 999 1]"

definition wait_conv_streamer_gemm :: "csr_op list" where
  "wait_conv_streamer_gemm = [Csr_Write 999 0, Csr_Write 999 0, Csr_Write 993 0]"

definition read_conv_gemm_streamer_perf_counter :: "csr_op list" where
  "read_conv_gemm_streamer_perf_counter = [Csr_Read 994]"

definition read_conv_gemm_perf_counter :: "csr_op list" where
  "read_conv_gemm_perf_counter = [Csr_Read 1000]"

definition load_conv_input_data :: "s32 \<Rightarrow> s32 \<Rightarrow> s32 \<Rightarrow> s32 \<Rightarrow> ptr \<Rightarrow> ptr \<Rightarrow> dma_state \<Rightarrow> dma_state" where
  "load_conv_input_data N H W C base_ptr_local base_ptr_l2 st =
     snd (snrt_dma_start_1d base_ptr_local base_ptr_l2 (N * H * W * C) st)"

definition load_weight_data :: "s32 \<Rightarrow> s32 \<Rightarrow> s32 \<Rightarrow> s32 \<Rightarrow> ptr \<Rightarrow> ptr \<Rightarrow> dma_state \<Rightarrow> dma_state" where
  "load_weight_data K Fy Fx C base_ptr_local base_ptr_l2 st =
     snd (snrt_dma_start_1d base_ptr_local base_ptr_l2 (K * Fy * Fx * C) st)"

text \<open>A loop \<open>for (int i = 0; i < n; i++)\<close> does nothing for a negative bound.\<close>

definition int_bound :: "s32 \<Rightarrow> nat" where
  "int_bound n = nat (sint n)"

definition check_conv_result :: "(nat \<Rightarrow> s32) \<Rightarrow> (nat \<Rightarrow> s32) \<Rightarrow> s32 \<Rightarrow> s32 \<Rightarrow> s32 \<Rightarrow> u32" where
  "check_conv_result output output_golden Batch M N =
     for_upto (int_bound (Batch * M * N * 8 * 8))
       (\<lambda>i err. if output i \<noteq> output_golden i then err + 1 else err) 0"

section \<open>SIMD unit\<close>

definition SIMD_VEC_LEN :: nat where
  "SIMD_VEC_LEN = 64"

definition gen_csr0_config :: "u8 \<Rightarrow> u8 \<Rightarrow> u8 \<Rightarrow> u8 \<Rightarrow> s32" where
  "gen_csr0_config input_zp_i output_zp_i shift_i max_int_i =
     push_bit 24 (ucast max_int_i) OR push_bit 16 (ucast shift_i) OR push_bit 8 (ucast output_zp_i) OR ucast input_zp_i"

definition gen_csr1_config :: "u8 \<Rightarrow> bool \<Rightarrow> s32" where
  "gen_csr1_config min_int_i double_round_i = push_bit 8 (of_bool double_round_i) OR ucast min_int_i"

definition gen_csr2_config :: "u32 \<Rightarrow> s32" where
  "gen_csr2_config multiplier_i = multiplier_i"

definition set_streamer_simd_csr ::
  "s32 \<Rightarrow> s32 \<Rightarrow> s32 \<Rightarrow> s32 \<Rightarrow> s32 \<Rightarrow> s32 \<Rightarrow> s32 \<Rightarrow> s32 \<Rightarrow> ptr \<Rightarrow> csr_op list" where
  "set_streamer_simd_csr tempLoop0 tempLoop1 tempStride0_in tempStride1_in tempStride0_out
       tempStride1_out delta_local_in delta_local_out l1_next =
     [Csr_Write (960 + 0) tempLoop0, Csr_Write (960 + 1) tempLoop1,
      Csr_Write (960 + 2) tempStride0_in, Csr_Write (960 + 3) tempStride1_in,
      Csr_Write (960 + 4) tempStride0_out, Csr_Write (960 + 5) tempStride1_out,
      Csr_Write (960 + 6) 4, Csr_Write (960 + 7) 32,
      Csr_Write (960 + 8) 1, Csr_Write (960 + 9) 8,
      Csr_Write (960 + 10) (delta_local_in + l1_next),
      Csr_Write (960 + 11) (delta_local_out + l1_next)]"

definition start_streamer_simd :: "csr_op list" where
  "start_streamer_simd = [Csr_Write (960 + 12) 1]"

definition set_simd_csr :: "u32 \<Rightarrow> u32 \<Rightarrow> u32 \<Rightarrow> u32 \<Rightarrow> csr_op list" where
  "set_simd_csr csr0 csr1 csr2 temporal_loop_bound =
     [Csr_Write (960 + 14) csr0, Csr_Write (960 + 15) csr1, Csr_Write (960 + 16) csr2,
      Csr_Write (960 + 17) temporal_loop_bound]"

definition start_simd :: "csr_op list" where
  "start_simd = [Csr_Write (960 + 18) 1]"

definition wait_streamer_simd :: "csr_op list" where
  "wait_streamer_simd = [Csr_Write (960 + 18) 0, Csr_Write (960 + 12) 0]"

definition read_simd_streamer_perf_counter :: "csr_op list" where
  "read_simd_streamer_perf_counter = [Csr_Read (960 + 13)]"

definition read_simd_state :: "csr_op list" where
  "read_simd_state = [Csr_Read (960 + 19)]"

definition read_simd_perf_counter :: "csr_op list" where
  "read_simd_perf_counter = [Csr_Read (960 + 20)]"

definition load_simd_test_data :: "s32 \<Rightarrow> s32 \<Rightarrow> s32 \<Rightarrow> s32 \<Rightarrow> ptr \<Rightarrow> ptr \<Rightarrow> dma_state \<Rightarrow> dma_state" where
  "load_simd_test_data tempLoop0 tempLoop1 tempStride0 tempStride1 base_ptr_local base_ptr_l2 st =
     for_upto (int_bound tempLoop1) (\<lambda>loop1 st. for_upto (int_bound tempLoop0) (\<lambda>loop0 st.
       snd (snrt_dma_start_1d
         (base_ptr_local + 4 * ((of_nat loop1 * tempStride1 + of_nat loop0 * tempStride0) div 4))
         (base_ptr_l2 + 4 * (of_nat loop1 * tempLoop0 * of_nat SIMD_VEC_LEN + of_nat loop0 * of_nat SIMD_VEC_LEN))
         (of_nat SIMD_VEC_LEN * 4) st)) st) st"

text \<open>
  The specification of the post-processing in C. The shift amounts must be in range: \<open>None\<close>
  stands for the undefined behaviour of a shift by a negative amount or by 64 or more.
\<close>

definition scale_quant_clamp_c_spec ::
  "s32 \<Rightarrow> s8 \<Rightarrow> s8 \<Rightarrow> s32 \<Rightarrow> s8 \<Rightarrow> s8 \<Rightarrow> s8 \<Rightarrow> bool \<Rightarrow> s8 option" where
  "scale_quant_clamp_c_spec input input_zp output_zp multiplier shift max_int min_int double_round =
     (let input = input - scast input_zp;
          var0 = (scast input :: s64) * scast multiplier
      in if sint shift - 1 < 0 \<or> 64 \<le> sint shift - 1 then None
         else let var1 = (word_of_int (drop_bit (nat (sint shift - 1)) (sint var0)) :: s32);
                  var1 = (if double_round then (if 0 \<le> sint var1 then var1 + 1 else var1 - 1) else var1);
                  var1 = (word_of_int (drop_bit 1 (sint var1)) :: s32);
                  var1 = var1 + scast output_zp;
                  var1 = (if sint var1 > sint max_int then scast max_int else var1);
                  var1 = (if sint var1 < sint min_int then scast min_int else var1)
              in Some (ucast var1))"

definition check_simd_result :: "s32 \<Rightarrow> s32 \<Rightarrow> s32 \<Rightarrow> s32 \<Rightarrow> (u32 \<Rightarrow> s8) \<Rightarrow> (u32 \<Rightarrow> s8) \<Rightarrow> u32" where
  "check_simd_result tempLoop0 tempLoop1 tempStride0 tempStride1 out golden =
     for_upto (int_bound tempLoop1) (\<lambda>loop1 err. for_upto (int_bound tempLoop0) (\<lambda>loop0 err.
       for_upto SIMD_VEC_LEN (\<lambda>i err.
         if out (of_nat loop1 * tempStride1 + of_nat loop0 * tempStride0 + of_nat i) \<noteq>
            golden (of_nat loop1 * tempLoop0 * of_nat SIMD_VEC_LEN + of_nat loop0 * of_nat SIMD_VEC_LEN + of_nat i)
         then err + 1 else err) err) err) 0"

section \<open>Data reshuffler\<close>

definition spatial_len_0 :: nat where "spatial_len_0 = 8"
definition spatial_len_1 :: nat where "spatial_len_1 = 8"
definition spatial_len :: nat where "spatial_len = spatial_len_0 * spatial_len_1"

definition set_data_reshuffler_csr ::
  "s32 \<Rightarrow> s32 \<Rightarrow> s32 \<Rightarrow> s32 \<Rightarrow> s32 \<Rightarrow> s32 \<Rightarrow> s32 \<Rightarrow> s32 \<Rightarrow> s32 \<Rightarrow> s32 \<Rightarrow> bool \<Rightarrow> ptr \<Rightarrow> csr_op list" where
  "set_data_reshuffler_csr tempLoop0 tempLoop1 tempStride0_in tempStride1_in spatialStride1_in
       tempStride0_out tempStride1_out spatialStride1_out delta_local_in delta_local_out do_transpose l1_next =
     [Csr_Write (960 + 0) tempLoop0, Csr_Write (960 + 1) tempLoop1,
      Csr_Write (960 + 2) tempStride0_in, Csr_Write (960 + 3) tempStride1_in,
      Csr_Write (960 + 4) tempStride0_out, Csr_Write (960 + 5) tempStride1_out,
      Csr_Write (960 + 6) spatialStride1_in, Csr_Write (960 + 7) spatialStride1_out,
      Csr_Write (960 + 8) (delta_local_in + l1_next),
      Csr_Write (960 + 9) (delta_local_out + l1_next),
      Csr_Write (960 + 12) (of_bool do_transpose)]"

definition start_streamer :: "csr_op list" where
  "start_streamer = [Csr_Write (960 + 10) 1]"

definition wait_streamer :: "csr_op list" where
  "wait_streamer = [Csr_Write (960 + 10) 0]"

definition start_data_reshuffler :: "csr_op list" where
  "start_data_reshuffler = [Csr_Write (960 + 13) 1]"

definition wait_data_reshuffler :: "csr_op list" where
  "wait_data_reshuffler = [Csr_Write (960 + 13) 0]"

definition read_data_reshuffler_perf_counter :: "csr_op list" where
  "read_data_reshuffler_perf_counter = [Csr_Read (960 + 11)]"

definition load_data_reshuffler_test_data ::
  "s32 \<Rightarrow> s32 \<Rightarrow> s32 \<Rightarrow> s32 \<Rightarrow> s32 \<Rightarrow> ptr \<Rightarrow> ptr \<Rightarrow> dma_state \<Rightarrow> dma_state" where
  "load_data_reshuffler_test_data tempLoop0 tempLoop1 tempStride0 tempStride1 spatialStride1
       base_ptr_local base_ptr_l2 st =
     for_upto (int_bound tempLoop1) (\<lambda>loop1 st. for_upto (int_bound tempLoop0) (\<lambda>loop0 st.
       for_upto spatial_len_1 (\<lambda>s1 st.
         snd (snrt_dma_start_1d
           (base_ptr_local + of_nat loop1 * tempStride1 + of_nat loop0 * tempStride0 + of_nat s1 * spatialStride1)
           (base_ptr_l2 + of_nat loop1 * tempLoop0 * of_nat spatial_len + of_nat loop0 * of_nat spatial_len +
              of_nat s1 * of_nat spatial_len_1)
           (of_nat spatial_len_0) st)) st) st) st"

definition check_data_reshuffler_result ::
  "s32 \<Rightarrow> s32 \<Rightarrow> s32 \<Rightarrow> s32 \<Rightarrow> s32 \<Rightarrow> (u32 \<Rightarrow> s8) \<Rightarrow> (u32 \<Rightarrow> s8) \<Rightarrow> u32" where
  "check_data_reshuffler_result tempLoop0 tempLoop1 tempStride0 tempStride1 spatialStride1 out golden =
     for_upto (int_bound tempLoop1) (\<lambda>loop1 err. for_upto (int_bound tempLoop0) (\<lambda>loop0 err.
       for_upto spatial_len_1 (\<lambda>s1 err. for_upto spatial_len_0 (\<lambda>s0 err.
         if out (of_nat loop1 * tempStride1 + of_nat loop0 * tempStride0 + of_nat s1 * spatialStride1 + of_nat s0) \<noteq>
            golden (of_nat loop1 * tempLoop0 * of_nat spatial_len + of_nat loop0 * of_nat spatial_len +
              of_nat s1 * of_nat spatial_len_1 + of_nat s0)
         then err + 1 else err) err) err) err) 0"

section \<open>MAC engine\<close>

datatype mac_mode_t = mac_mode | simple_mult_mode

fun mac_mode_code :: "mac_mode_t \<Rightarrow> u32" where
  "mac_mode_code mac_mode = 0"
| "mac_mode_code simple_mult_mode = 1"

definition snax_mac_launch :: "csr_op list" where
  "snax_mac_launch = [Csr_Write 0x3c0 0]"

definition snax_mac_sw_clear :: "csr_op list" where
  "snax_mac_sw_clear = [Csr_Write 0x3c5 0]"

definition snax_mac_sw_barrier :: "csr_op list" where
  "snax_mac_sw_barrier = Csr_Poll [0x3c3] # snax_mac_sw_clear"

definition snax_mac_setup_simple_mult :: "ptr \<Rightarrow> ptr \<Rightarrow> ptr \<Rightarrow> u32 \<Rightarrow> csr_op list" where
  "snax_mac_setup_simple_mult a b oo vector_length =
     [Csr_Write 0x3d0 a, Csr_Write 0x3d1 b, Csr_Write 0x3d3 oo,
      Csr_Write 0x3d4 1, Csr_Write 0x3d5 vector_length, Csr_Write 0x3d6 (mac_mode_code simple_mult_mode)]"

definition cpu_simple_mult :: "(nat \<Rightarrow> u32) \<Rightarrow> (nat \<Rightarrow> u32) \<Rightarrow> u32 \<Rightarrow> (nat \<Rightarrow> u32) \<Rightarrow> nat \<Rightarrow> u32" where
  "cpu_simple_mult a b vector_length oo = for_upto (unat vector_length) (\<lambda>i oo. oo(i := a i * b i)) oo"

definition check_simple_mult :: "(nat \<Rightarrow> u32) \<Rightarrow> (nat \<Rightarrow> u32) \<Rightarrow> u32 \<Rightarrow> u32" where
  "check_simple_mult output output_golden vector_length =
     for_upto (unat vector_length) (\<lambda>i err. if output i \<noteq> output_golden i then err + 1 else err) 0"

section \<open>Nested loops\<close>

text \<open>A sequence of steps that overwrite pairwise disjoint regions.\<close>

lemma fold_regions:
  assumes "distinct xs" and frame: "\<And>x C y. x \<in> set xs \<Longrightarrow> y \<notin> R x \<Longrightarrow> body x C y = C y"
    and hit: "\<And>x C y. x \<in> set xs \<Longrightarrow> y \<in> R x \<Longrightarrow> body x C y = V x y"
    and disj: "\<And>x x'. x \<in> set xs \<Longrightarrow> x' \<in> set xs \<Longrightarrow> x \<noteq> x' \<Longrightarrow> R x \<inter> R x' = {}"
  shows "x \<in> set xs \<Longrightarrow> y \<in> R x \<Longrightarrow> fold body xs C y = V x y"
    and "(\<And>x. x \<in> set xs \<Longrightarrow> y \<notin> R x) \<Longrightarrow> fold body xs C y = C y"
  using assms
proof (induction xs arbitrary: C)
  case (Cons a xs)
  {
    case 1
    note IH = Cons.IH [of "body a C"]
    show ?case
    proof (cases "x \<in> set xs")
      case True then show ?thesis using IH(1) 1 by simp
    next
      case False
      then have xa: "x = a" using 1 by simp
      have "y \<notin> R z" if "z \<in> set xs" for z using 1(6) [of a z] that 1(2,3) xa by auto
      then have "fold body xs (body a C) y = body a C y" using IH(2) 1 by simp
      then show ?thesis using 1(2,5) xa by simp
    qed
  next
    case 2 then show ?case using Cons.IH(2) [of "body a C"] by simp
  }
qed simp_all

text \<open>Counting the iterations in which a test holds.\<close>

lemma fold_count:
  "fold (\<lambda>x err. if p x then err + 1 else err) xs (e :: u32) = e + of_nat (length (filter p xs))"
  by (induction xs arbitrary: e) simp_all

lemma fold_count_zero:
  assumes "length xs < 2 ^ 32"
  shows "fold (\<lambda>x err. if p x then err + 1 else err) xs (0 :: u32) = 0 \<longleftrightarrow> (\<forall>x\<in>set xs. \<not> p x)"
proof -
  have "length (filter p xs) < 2 ^ 32" using assms length_filter_le [of p xs] by linarith
  then have "(of_nat (length (filter p xs)) :: u32) = 0 \<longleftrightarrow> length (filter p xs) = 0"
    using of_nat_inject_small [of "length (filter p xs)" 0, where 'a = 32] by simp
  then show ?thesis by (simp add: fold_count filter_empty_conv)
qed

section \<open>The golden model of GEMM\<close>

lemma accumulate:
  "for_upto k (\<lambda>s C. C(p := C p + t s)) (C :: nat \<Rightarrow> s32) = C(p := C p + (\<Sum>s<k. t s))"
  by (induction k) (auto simp: for_upto_Suc add.assoc fun_eq_iff)

lemma base_gemm_fold:
  "base_gemm m k n A pA B pB sa sb pC clear C =
    fold (\<lambda>(i, j) C. C(pC + (i * n + j) := (if clear then 0 else C (pC + (i * n + j))) +
      (\<Sum>s<k. gemm_term (A (pA + (i * k + s))) sa (B (pB + (s + j * k))) sb))) (upto_pairs m n) C"
  unfolding base_gemm_def by (simp add: accumulate nest2 Let_def cong: if_cong) (rule arg_cong2 [where f = "\<lambda>f. fold f (upto_pairs m n)"]; auto intro!: ext)


lemma block_index_inj:
  fixes i j i' j' n :: nat
  assumes "j < n" "j' < n" "i * n + j = i' * n + j'" shows "i = i' \<and> j = j'"
  using row_major_inject [of j n j' n i i'] assms by simp

lemma fold_cells_frame:
  "y \<notin> p ` set xs \<Longrightarrow> fold (\<lambda>x C. C(p x := F x (C (p x)))) xs C y = C y"
  by (induction xs arbitrary: C) auto

lemma fold_cells_hit:
  assumes "distinct xs" "inj_on p (set xs)" "x \<in> set xs"
  shows "fold (\<lambda>x C. C(p x := F x (C (p x)))) xs C (p x) = F x (C (p x))"
  using assms
proof (induction xs arbitrary: C)
  case (Cons a xs)
  show ?case
  proof (cases "x = a")
    case True
    have "p a \<notin> p ` set xs" using Cons.prems by (auto simp: inj_on_def)
    then show ?thesis using True by (simp add: fold_cells_frame fun_upd_same del: fun_upd_apply)
  next
    case False
    then have "p x \<noteq> p a" using Cons.prems by (auto simp: inj_on_def)
    then show ?thesis using Cons False by (simp add: fun_upd_other del: fun_upd_apply)
  qed
qed simp

lemma base_gemm_result:
  "i < m \<Longrightarrow> j < n \<Longrightarrow> base_gemm m k n A pA B pB sa sb pC clear C (pC + (i * n + j)) =
      (if clear then 0 else C (pC + (i * n + j))) +
      (\<Sum>s<k. gemm_term (A (pA + (i * k + s))) sa (B (pB + (s + j * k))) sb)"
  "x \<notin> {pC ..< pC + m * n} \<Longrightarrow> base_gemm m k n A pA B pB sa sb pC clear C x = C x"
proof -
  let ?p = "\<lambda>(i, j). pC + (i * n + j)"
  let ?F = "\<lambda>(i, j) v. (if clear then 0 else v) + (\<Sum>s<k. gemm_term (A (pA + (i * k + s))) sa (B (pB + (s + j * k))) sb)"
  have f: "base_gemm m k n A pA B pB sa sb pC clear C = fold (\<lambda>x C. C(?p x := ?F x (C (?p x)))) (upto_pairs m n) C"
    unfolding base_gemm_fold by (rule fold_cong) (auto split: prod.splits)
  have inj: "inj_on ?p (set (upto_pairs m n))"
    by (auto simp: inj_on_def dest: block_index_inj)
  have d: "distinct (upto_pairs m n)" by (simp add: distinct_product)
  show "base_gemm m k n A pA B pB sa sb pC clear C (pC + (i * n + j)) =
      (if clear then 0 else C (pC + (i * n + j))) +
      (\<Sum>s<k. gemm_term (A (pA + (i * k + s))) sa (B (pB + (s + j * k))) sb)" if "i < m" "j < n"
    using fold_cells_hit [OF d inj, of "(i, j)" ?F C] that unfolding f by simp
  show "base_gemm m k n A pA B pB sa sb pC clear C x = C x" if "x \<notin> {pC ..< pC + m * n}"
  proof -
    have "x \<notin> ?p ` set (upto_pairs m n)" using that row_major_less [of _ m _ n] by fastforce
    then show ?thesis unfolding f by (rule fold_cells_frame)
  qed
qed

text \<open>The \<open>K\<close> loop accumulates one output tile from scratch.\<close>

definition tile_value :: "(nat \<Rightarrow> s8) \<Rightarrow> (nat \<Rightarrow> s8) \<Rightarrow> s8 \<Rightarrow> s8 \<Rightarrow> gemm_strides \<Rightarrow> nat \<Rightarrow> nat \<Rightarrow> nat \<Rightarrow> nat \<Rightarrow> nat \<Rightarrow> nat \<Rightarrow> s32" where
  "tile_value A B sa sb g K b m n i j =
     (\<Sum>k<K. \<Sum>s<8. gemm_term (A (unat (offs_a g b m k) + (i * 8 + s))) sa (B (unat (offs_b g b n k) + (s + j * 8))) sb)"

lemma tile_loop:
  fixes C :: "nat \<Rightarrow> s32" and A B :: "nat \<Rightarrow> s8" and g :: gemm_strides and b m n p :: nat and sa sb :: s8
  defines "L \<equiv> \<lambda>K. for_upto K (\<lambda>k C. base_gemm 8 8 8 A (unat (offs_a g b m k)) B (unat (offs_b g b n k)) sa sb p (k = 0) C) C"
  shows "i < 8 \<Longrightarrow> j < 8 \<Longrightarrow> 0 < K \<Longrightarrow> L K (p + (i * 8 + j)) = tile_value A B sa sb g K b m n i j"
    and "x \<notin> {p ..< p + 64} \<Longrightarrow> L K x = C x"
proof -
  show "L K (p + (i * 8 + j)) = tile_value A B sa sb g K b m n i j" if ij: "i < 8" "j < 8" and "0 < K"
    using \<open>0 < K\<close>
  proof (induction K)
    case (Suc K)
    show ?case
    proof (cases "K = 0")
      case True
      then show ?thesis using ij by (simp add: L_def for_upto_Suc base_gemm_result(1) tile_value_def)
    next
      case False
      then show ?thesis using ij Suc.IH
        by (simp add: L_def for_upto_Suc base_gemm_result(1) tile_value_def)
    qed
  qed simp
  show "L K x = C x" if "x \<notin> {p ..< p + 64}"
    by (induction K) (use that in \<open>simp_all add: L_def for_upto_Suc base_gemm_result(2)\<close>)
qed

text \<open>The output tiles of different \<open>(b, m, n)\<close> must not overlap.\<close>

definition tiles_apart :: "gemm_strides \<Rightarrow> nat \<Rightarrow> nat \<Rightarrow> nat \<Rightarrow> bool" where
  "tiles_apart g Bt M N \<longleftrightarrow> (\<forall>x\<in>set (List.product [0..<Bt] (upto_pairs M N)).
     \<forall>y\<in>set (List.product [0..<Bt] (upto_pairs M N)). x \<noteq> y \<longrightarrow>
       (case (x, y) of ((b, m, n), (b', m', n')) \<Rightarrow>
          elem_c g b m n + 64 \<le> elem_c g b' m' n' \<or> elem_c g b' m' n' + 64 \<le> elem_c g b m n))"

lemma batch_gemm_result:
  assumes apart: "tiles_apart g (unat Bt) (unat M) (unat N)" and K: "0 < unat K"
    and bmn: "b < unat Bt" "m < unat M" "n < unat N" and ij: "i < 8" "j < 8"
  shows "batch_gemm_cpu Bt M K N A B sa sb g C (elem_c g b m n + (i * 8 + j)) = tile_value A B sa sb g (unat K) b m n i j"
proof -
  let ?xs = "List.product [0..<unat Bt] (upto_pairs (unat M) (unat N))"
  let ?body = "\<lambda>(b, m, n) C. for_upto (unat K) (\<lambda>k C. base_gemm 8 8 8 A (unat (offs_a g b m k)) B (unat (offs_b g b n k)) sa sb
       (elem_c g b m n) (k = 0) C) C"
  let ?R = "\<lambda>(b, m, n). {elem_c g b m n ..< elem_c g b m n + 64}"
  let ?V = "\<lambda>(b, m, n) y. tile_value A B sa sb g (unat K) b m n ((y - elem_c g b m n) div 8) ((y - elem_c g b m n) mod 8)"
  have run: "batch_gemm_cpu Bt M K N A B sa sb g C = fold ?body ?xs C"
    unfolding batch_gemm_cpu_def nest3 meshRow_def meshCol_def tileSize_def Let_def ..
  have "fold ?body ?xs C (elem_c g b m n + (i * 8 + j)) = ?V (b, m, n) (elem_c g b m n + (i * 8 + j))"
  proof (rule fold_regions(1) [where R = ?R and V = ?V])
    show "?R x \<inter> ?R x' = {}" if "x \<in> set ?xs" "x' \<in> set ?xs" "x \<noteq> x'" for x x'
      using apart that unfolding tiles_apart_def by (fastforce split: prod.splits)
    show "?body x C y = C y" if "x \<in> set ?xs" "y \<notin> ?R x" for x C y
      using that tile_loop(2) by (auto split: prod.splits)
    show "?body x C y = ?V x y" if "x \<in> set ?xs" "y \<in> ?R x" for x C y
    proof -
      obtain b m n where x: "x = (b, m, n)" by (cases x)
      let ?d = "y - elem_c g b m n"
      have y: "elem_c g b m n + ?d = y" and d: "?d div 8 < 8" "?d mod 8 < 8"
        using that x by auto
      show ?thesis using tile_loop(1) [OF d K, of A g b m B n sa sb "elem_c g b m n" C] y by (simp add: x)
    qed
    show "distinct ?xs" by (simp add: distinct_product)
    show "(b, m, n) \<in> set ?xs" using bmn by simp
    have "i * 8 + j < 8 * 8" using ij by (intro row_major_less)
    then show "elem_c g b m n + (i * 8 + j) \<in> ?R (b, m, n)" by simp
  qed
  then show ?thesis using ij by (simp add: run)
qed

text \<open>Products of 8-bit differences, and sums of as many as there can be, fit 32 bits.\<close>

definition int_term :: "s8 \<Rightarrow> s8 \<Rightarrow> s8 \<Rightarrow> s8 \<Rightarrow> int" where
  "int_term a sa b sb = (sint a - sint sa) * (sint b - sint sb)"

lemma gemm_term_int: "gemm_term a sa b sb = word_of_int (int_term a sa b sb)"
  by (simp add: gemm_term_def int_term_def)

lemma int_term_bound: "\<bar>int_term a sa b sb\<bar> \<le> 65025"
proof -
  have r: "\<bar>sint x - sint y\<bar> \<le> 255" for x y :: s8
    using sint_greater_eq [of x] sint_less [of x] sint_greater_eq [of y] sint_less [of y] by simp
  have "\<bar>int_term a sa b sb\<bar> \<le> 255 * 255"
    unfolding int_term_def abs_mult by (rule mult_mono) (use r in auto)
  then show ?thesis by simp
qed

definition tile_value_int :: "(nat \<Rightarrow> s8) \<Rightarrow> (nat \<Rightarrow> s8) \<Rightarrow> s8 \<Rightarrow> s8 \<Rightarrow> gemm_strides \<Rightarrow> nat \<Rightarrow> nat \<Rightarrow> nat \<Rightarrow> nat \<Rightarrow> nat \<Rightarrow> nat \<Rightarrow> int" where
  "tile_value_int A B sa sb g K b m n i j =
     (\<Sum>k<K. \<Sum>s<8. int_term (A (unat (offs_a g b m k) + (i * 8 + s))) sa (B (unat (offs_b g b n k) + (s + j * 8))) sb)"

lemma tile_value_exact:
  assumes "K < 256"
  shows "sint (tile_value A B sa sb g K b m n i j) = tile_value_int A B sa sb g K b m n i j"
proof -
  have "tile_value A B sa sb g K b m n i j = word_of_int (tile_value_int A B sa sb g K b m n i j)"
    by (simp add: tile_value_def tile_value_int_def gemm_term_int)
  moreover have "\<bar>tile_value_int A B sa sb g K b m n i j\<bar> \<le> (\<Sum>k<K. \<Sum>s<8::nat. 65025)"
    unfolding tile_value_int_def
    by (intro order_trans [OF sum_abs] sum_mono int_term_bound)
  then have "\<bar>tile_value_int A B sa sb g K b m n i j\<bar> \<le> int K * 520200" by simp
  then have "- (2 ^ 31) \<le> tile_value_int A B sa sb g K b m n i j" "tile_value_int A B sa sb g K b m n i j < 2 ^ 31"
    using assms by simp_all
  ultimately show ?thesis by (simp add: int_word_sint)
qed

text \<open>
  C9. The golden model of the block GEMM is exact: for any 8-bit sizes, layout with separate
  output tiles and input data, element \<open>(i, j)\<close> of output tile \<open>(b, m, n)\<close> is the sum over all
  \<open>K\<close> tiles and 8 products of the integers \<open>(A - subtraction_a) * (B - subtraction_b)\<close>; the
  32-bit accumulator never overflows and what was in \<open>C\<close> before does not matter.
\<close>

theorem batch_gemm_cpu_exact:
  assumes "tiles_apart g (unat Bt) (unat M) (unat N)" "0 < unat K"
    and "b < unat Bt" "m < unat M" "n < unat N" and "i < 8" "j < 8"
  shows "sint (batch_gemm_cpu Bt M K N A B sa sb g C (elem_c g b m n + (i * 8 + j))) =
    tile_value_int A B sa sb g (unat K) b m n i j"
proof -
  have "unat K < 256" using unat_bound [of K] by simp
  then show ?thesis using batch_gemm_result [OF assms] tile_value_exact by simp
qed

definition example_strides :: gemm_strides where
  "example_strides = \<lparr>strideInnermostA = 64, strideInnermostB = 64, strideInnermostC = 256, ldA = 128, ldB = 128,
     ldC = 512, strideA = 256, strideB = 256, strideC = 1024\<rparr>"

theorem batch_gemm_cpu_exact_witness:
  "sint (batch_gemm_cpu 1 2 2 2 (\<lambda>x. of_nat x) (\<lambda>x. 3) 1 2 example_strides (\<lambda>x. 77) (elem_c example_strides 0 1 1 + (0 * 8 + 1))) =
    tile_value_int (\<lambda>x. of_nat x) (\<lambda>x. 3) 1 2 example_strides 2 0 1 1 0 1"
proof -
  have "tiles_apart example_strides 1 2 2" by code_simp
  then show ?thesis
    using batch_gemm_cpu_exact [of example_strides 1 2 2 2 0 1 1 0 1 "\<lambda>x. of_nat x" "\<lambda>x. 3" 1 2 "\<lambda>x. 77"] by simp
qed

section \<open>Result checks\<close>

lemma for_upto_fold: "for_upto n body = fold body [0..<n]"
  by (simp add: fun_eq_iff for_upto_def)

lemma check_result_fold:
  "check_result out golden Bt M N g = fold (\<lambda>(b, m, n, i, j) err.
     if out (elem_c g b m n + i * meshCol + j) \<noteq> golden (golden_idx M N b m n i j) then err + 1 else err)
     (List.product [0..<unat Bt] (List.product [0..<unat M] (List.product [0..<unat N] (upto_pairs meshRow meshCol)))) 0"
  unfolding check_result_def
  by (simp add: for_upto_fold fold_product)

text \<open>
  The result check of the GEMM library reports 0 errors if and only if every element of
  every output tile equals its golden value: the 32-bit error count cannot wrap around, for
  any 8-bit sizes.
\<close>

lemma check_result_zero_iff:
  "check_result out golden Bt M N g = 0 \<longleftrightarrow>
    (\<forall>b<unat Bt. \<forall>m<unat M. \<forall>n<unat N. \<forall>i<8. \<forall>j<8.
       out (elem_c g b m n + i * 8 + j) = golden (golden_idx M N b m n i j))"
proof -
  let ?xs = "List.product [0..<unat Bt] (List.product [0..<unat M] (List.product [0..<unat N] (upto_pairs meshRow meshCol)))"
  let ?p = "\<lambda>(b, m, n, i, j). out (elem_c g b m n + i * meshCol + j) \<noteq> golden (golden_idx M N b m n i j)"
  have "unat Bt * (unat M * (unat N * 64)) \<le> 255 * (255 * (255 * 64))"
    using unat_bound [of Bt] unat_bound [of M] unat_bound [of N] by (intro mult_mono) simp_all
  then have len: "length ?xs < 2 ^ 32" by (simp add: length_product meshRow_def meshCol_def)
  have "check_result out golden Bt M N g = fold (\<lambda>x err. if ?p x then err + 1 else err) ?xs 0"
    unfolding check_result_fold by (rule fold_cong) auto
  then have "check_result out golden Bt M N g = 0 \<longleftrightarrow> (\<forall>x\<in>set ?xs. \<not> ?p x)"
    using fold_count_zero [OF len, of ?p] by simp
  then show ?thesis by (auto simp: meshRow_def meshCol_def)
qed

section \<open>Packing\<close>

text \<open>
  The packed configuration words can be unpacked: the four fields of \<open>gen_size_config\<close> and
  of \<open>gen_csr0_config\<close>, and the two of \<open>gen_subtraction_config\<close> and \<open>gen_csr1_config\<close>, are found
  at their byte positions, so different settings give different words.
\<close>

lemma config_words_roundtrip:
  "(let w = gen_size_config Bt M K N
    in ucast (drop_bit 24 w) = Bt \<and> ucast (drop_bit 16 w) = M \<and> ucast (drop_bit 8 w) = K \<and> ucast w = N) \<and>
   (let w = gen_subtraction_config sa sb in ucast (drop_bit 8 w) = sb \<and> ucast w = sa \<and> drop_bit 16 w = 0) \<and>
   (let w = gen_csr0_config izp ozp sh mx
    in ucast (drop_bit 24 w) = mx \<and> ucast (drop_bit 16 w) = sh \<and> ucast (drop_bit 8 w) = ozp \<and> ucast w = izp) \<and>
   (let w = gen_csr1_config mn dr in ucast w = mn \<and> bit w 8 = dr \<and> drop_bit 9 w = 0)"
  unfolding Let_def gen_size_config_def gen_subtraction_config_def gen_csr0_config_def gen_csr1_config_def
  by (intro conjI bit_word_eqI) (auto simp: bit_simps dest: bit_imp_le_length)

section \<open>Post-processing of the SIMD unit\<close>

text \<open>The computation on integers: scale, shift with rounding, shift, offset, clamp.\<close>

definition sq_shifted :: "int \<Rightarrow> int \<Rightarrow> int \<Rightarrow> nat \<Rightarrow> int" where
  "sq_shifted x zi mult sh = ((x - zi) * mult) div 2 ^ (sh - 1)"

definition sq_int :: "int \<Rightarrow> int \<Rightarrow> int \<Rightarrow> int \<Rightarrow> nat \<Rightarrow> int \<Rightarrow> int \<Rightarrow> bool \<Rightarrow> int" where
  "sq_int x zi zo mult sh mx mn dr =
     (let v = sq_shifted x zi mult sh;
          v = (if dr then (if 0 \<le> v then v + 1 else v - 1) else v)
      in max mn (min mx (v div 2 + zo)))"

lemma sint32_small: "- (2 ^ 31) \<le> x \<Longrightarrow> x < 2 ^ 31 \<Longrightarrow> sint (word_of_int x :: s32) = x"
  by (simp add: int_word_sint)

lemma sint64_small: "- (2 ^ 63) \<le> x \<Longrightarrow> x < 2 ^ 63 \<Longrightarrow> sint (word_of_int x :: s64) = x"
  by (simp add: int_word_sint)

lemma s8_range: "- 128 \<le> sint (w :: s8)" "sint w \<le> 127"
  using sint_greater_eq [of w] sint_less [of w] by simp_all

lemma s32_range: "- (2 ^ 31) \<le> sint (w :: s32)" "sint w < 2 ^ 31"
  using sint_greater_eq [of w] sint_less [of w] by simp_all

lemma scast_8_32: "(scast (w :: s8) :: s32) = word_of_int (sint w)"
  by simp

lemma sint_scast_8_32: "sint (scast (w :: s8) :: s32) = sint w"
  unfolding scast_8_32 using s8_range [of w] by (intro sint32_small) simp_all

text \<open>Clamping to 8-bit bounds and truncating to 8 bits.\<close>

definition clamp8 :: "s8 \<Rightarrow> s8 \<Rightarrow> s32 \<Rightarrow> s8" where
  "clamp8 mx mn v =
     (let v = (if sint v > sint mx then scast mx else v);
          v = (if sint v < sint mn then scast mn else v) in ucast v)"

lemma sint_ucast_32_8:
  assumes "- 128 \<le> sint (v :: s32)" "sint v \<le> 127"
  shows "sint (ucast v :: s8) = sint v"
proof -
  have "(ucast v :: s8) = word_of_int (sint v)" 
    by (rule bit_word_eqI) (simp add: bit_simps bit_sint_iff)
  moreover have "sint (word_of_int x :: s8) = x" if "- 128 \<le> x" "x \<le> 127" for x
    using that by (simp add: int_word_sint)
  ultimately show ?thesis using assms by (simp only:)
qed

lemma clamp8_value:
  assumes "sint mn \<le> sint mx"
  shows "sint (clamp8 mx mn v) = max (sint mn) (min (sint mx) (sint v))"
proof -
  define u where "u = (if sint v > sint mx then scast mx else v)"
  define w where "w = (if sint u < sint mn then scast mn else u)"
  have u: "sint u = min (sint mx) (sint v)" by (simp add: u_def sint_scast_8_32 min_def)
  have w: "sint w = max (sint mn) (sint u)" by (simp add: w_def sint_scast_8_32 max_def)
  have "- 128 \<le> sint w" "sint w \<le> 127" using s8_range [of mn] s8_range [of mx] assms u w by auto
  then have "sint (ucast w :: s8) = sint w" by (rule sint_ucast_32_8)
  moreover have "clamp8 mx mn v = ucast w" by (simp only: clamp8_def Let_def u_def w_def)
  ultimately show ?thesis using u w by simp
qed

lemma product_fits:
  fixes a b :: s32
  shows "sint ((scast a :: s64) * scast b) = sint a * sint b"
proof -
  have "\<bar>sint a\<bar> * \<bar>sint b\<bar> \<le> 2 ^ 31 * 2 ^ 31"
    using s32_range [of a] s32_range [of b] by (intro mult_mono) auto
  then have "\<bar>sint a * sint b\<bar> \<le> 2 ^ 62" by (simp add: abs_mult)
  then have "sint (word_of_int (sint a * sint b) :: s64) = sint a * sint b" by (intro sint64_small) simp_all
  then show ?thesis by simp
qed

text \<open>
  The C specification of the SIMD post-processing, for shifts from 1 to 63 and clamping
  bounds in order: it always yields a value between the bounds; and when neither the input
  after the zero-point nor the shifted product leaves 32 bits, that value is the one computed
  on the integers. Outside these shifts its behaviour is undefined.
\<close>

lemma scale_quant_clamp_bounds:
  assumes "1 \<le> sint sh" "sint sh \<le> 63" "sint mn \<le> sint mx"
  shows "\<exists>r. scale_quant_clamp_c_spec x zi zo mult sh mx mn dr = Some r \<and> sint mn \<le> sint r \<and> sint r \<le> sint mx \<and>
    (- (2 ^ 31) \<le> sint x - sint zi \<and> sint x - sint zi < 2 ^ 31 \<and>
     \<bar>sq_shifted (sint x) (sint zi) (sint mult) (nat (sint sh))\<bar> < 2 ^ 31 - 1 \<longrightarrow>
     sint r = sq_int (sint x) (sint zi) (sint zo) (sint mult) (nat (sint sh)) (sint mx) (sint mn) dr)"
proof -
  define y where "y = x - (scast zi :: s32)"
  define v1 where "v1 = (word_of_int (drop_bit (nat (sint sh - 1)) (sint ((scast y :: s64) * scast mult))) :: s32)"
  define v2 where "v2 = (if dr then (if 0 \<le> sint v1 then v1 + 1 else v1 - 1) else v1)"
  define v3 where "v3 = (word_of_int (drop_bit 1 (sint v2)) :: s32) + scast zo"
  have run: "scale_quant_clamp_c_spec x zi zo mult sh mx mn dr = Some (clamp8 mx mn v3)"
    using assms(1,2)
    by (simp add: scale_quant_clamp_c_spec_def clamp8_def Let_def y_def v1_def v2_def v3_def)
  have bnd: "sint mn \<le> sint (clamp8 mx mn v3)" "sint (clamp8 mx mn v3) \<le> sint mx"
    using assms(3) by (simp_all add: clamp8_value)
  have "sint (clamp8 mx mn v3) = sq_int (sint x) (sint zi) (sint zo) (sint mult) (nat (sint sh)) (sint mx) (sint mn) dr"
    if in1: "- (2 ^ 31) \<le> sint x - sint zi" "sint x - sint zi < 2 ^ 31"
      and in2: "\<bar>sq_shifted (sint x) (sint zi) (sint mult) (nat (sint sh))\<bar> < 2 ^ 31 - 1"
  proof -
    let ?q = "sq_shifted (sint x) (sint zi) (sint mult) (nat (sint sh))"
    have "y = word_of_int (sint x - sint zi)" by (simp add: y_def)
    then have y: "sint y = sint x - sint zi" using in1 by (simp only: sint32_small)
    have n: "nat (sint sh - 1) = nat (sint sh) - 1" using assms(1) by simp
    have "v1 = word_of_int ?q"
      unfolding v1_def product_fits y n by (simp add: sq_shifted_def drop_bit_eq_div)
    then have v1: "sint v1 = ?q" using in2 by (simp only:) (rule sint32_small; linarith)
    define q2 where "q2 = (if dr then (if 0 \<le> ?q then ?q + 1 else ?q - 1) else ?q)"
    have "v2 = word_of_int q2" unfolding v2_def q2_def v1 using \<open>v1 = word_of_int ?q\<close> by simp
    moreover have q2: "- (2 ^ 31) \<le> q2" "q2 < 2 ^ 31" using in2 by (auto simp: q2_def)
    ultimately have v2: "sint v2 = q2" by (simp only: sint32_small)
    define h where "h = q2 div 2"
    have q3: "- (2 ^ 30) \<le> h" "h < 2 ^ 30" using q2 by (auto simp: h_def)
    have "v3 = word_of_int (h + sint zo)" unfolding v3_def v2 h_def by (simp add: drop_bit_eq_div)
    moreover have "- (2 ^ 31) \<le> h + sint zo" "h + sint zo < 2 ^ 31" using q3 s8_range [of zo] by auto
    ultimately have v3: "sint v3 = h + sint zo" by (simp only: sint32_small)
    show ?thesis using assms(3) by (simp add: clamp8_value v3 sq_int_def h_def q2_def Let_def)
  qed
  then show ?thesis using run bnd by blast
qed

end
