(* ===== verification/SnaxApps.thy ===== *)
theory SnaxApps
  imports SnaxLib
begin

text \<open>
  The applications under \<open>target/snitch_cluster/sw/apps/snax-*\<close>. Every core of the cluster runs
  \<open>main\<close>; its body is cut into the segments between the hardware barriers. A segment acts on
  the DMA engine and on the accelerator's control registers; the error count that \<open>main\<close>
  returns is a function of what the memory holds when the results are checked. Reading the cycle
  counter and printing have no effect in the model. The data of an application (\<open>data.h\<close>) are
  parameters: the sizes, and the addresses or the contents of the arrays.
\<close>

section \<open>Segments\<close>

record app_state =
  adma :: dma_state
  acsr :: "csr_op list"

type_synonym segment = "app_state \<Rightarrow> app_state"

definition start_1d :: "ptr \<Rightarrow> ptr \<Rightarrow> u32 \<Rightarrow> segment" where
  "start_1d dst src sz s = s\<lparr>adma := snd (snrt_dma_start_1d dst src sz (adma s))\<rparr>"

definition on_dma :: "(dma_state \<Rightarrow> dma_state) \<Rightarrow> segment" where
  "on_dma f s = s\<lparr>adma := f (adma s)\<rparr>"

definition csr :: "csr_op list \<Rightarrow> segment" where
  "csr ops s = s\<lparr>acsr := acsr s @ ops\<rparr>"

definition only :: "bool \<Rightarrow> segment \<Rightarrow> segment" where
  "only b f = (if b then f else id)"

text \<open>Which core runs: the platform and the hart.\<close>

record core =
  cdefs :: snrt_defs
  chart :: u32

definition is_dm :: "core \<Rightarrow> bool" where
  "is_dm c = snrt_is_dm_core (cdefs c) (chart c)"

definition is_compute :: "core \<Rightarrow> bool" where
  "is_compute c = snrt_is_compute_core (cdefs c) (chart c)"

text \<open>The 32-bit array at a pointer in a memory that is read word by word.\<close>

definition words_at :: "(ptr \<Rightarrow> u32) \<Rightarrow> ptr \<Rightarrow> nat \<Rightarrow> u32" where
  "words_at ld p i = ld (p + 4 * of_nat i)"

section \<open>MAC engine\<close>

definition snax_mac_main :: "core \<Rightarrow> u32 \<Rightarrow> ptr \<Rightarrow> ptr \<Rightarrow> ptr \<Rightarrow> ptr \<Rightarrow> (ptr \<Rightarrow> u32) \<Rightarrow> segment list \<times> s32" where
  "snax_mac_main c VEC_LEN l1_next A B C ld =
     (let local_a = l1_next;
          local_b = local_a + 4 * VEC_LEN;
          local_c = local_b + 4 * VEC_LEN;
          local_o = local_c + 4 * 1;
          vector_size = VEC_LEN * 4;
          scale_size = 1 * 4
      in ([only (is_dm c) (start_1d local_c C scale_size \<circ> start_1d local_b B vector_size \<circ> start_1d local_a A vector_size),
           only (is_compute c) (csr
             [Csr_Write 0x3d0 local_a, Csr_Write 0x3d1 local_b, Csr_Write 0x3d2 local_c, Csr_Write 0x3d3 local_o,
              Csr_Write 0x3d4 1, Csr_Write 0x3d5 19,
              Csr_Write 0x7c3 1, Csr_Write 0x3c0 0, Csr_Write 0x7c4 0])],
          if is_compute c then (if ld local_o \<noteq> 54763 then 1 else 0) else 0))"

text \<open>The registers of one of the four engines of \<open>snax-mac-mult\<close>, from its first register on.\<close>

definition mac_mult_regs :: "u32 \<Rightarrow> ptr \<Rightarrow> ptr \<Rightarrow> ptr \<Rightarrow> u32 \<Rightarrow> csr_op list" where
  "mac_mult_regs base a b oo slice_len =
     [Csr_Write base a, Csr_Write (base + 1) b, Csr_Write (base + 3) oo,
      Csr_Write (base + 4) 1, Csr_Write (base + 5) slice_len, Csr_Write (base + 6) (mac_mode_code simple_mult_mode)]"

definition snax_mac_mult_main ::
  "core \<Rightarrow> u32 \<Rightarrow> u32 \<Rightarrow> ptr \<Rightarrow> ptr \<Rightarrow> ptr \<Rightarrow> (nat \<Rightarrow> u32) \<Rightarrow> (ptr \<Rightarrow> u32) \<Rightarrow> segment list \<times> s32" where
  "snax_mac_mult_main c VEC_LEN ACC_NUM l1_next A B OUT ld =
     (let SLICE_LEN = VEC_LEN div ACC_NUM;
          local_a_acc_0 = l1_next;
          local_b_acc_0 = local_a_acc_0 + 4 * VEC_LEN;
          local_o_acc_0 = local_b_acc_0 + 4 * VEC_LEN;
          vector_size = VEC_LEN * 4
      in ([only (is_dm c) (start_1d local_b_acc_0 B vector_size \<circ> start_1d local_a_acc_0 A vector_size),
           only (is_compute c) (csr
             (mac_mult_regs 976 local_a_acc_0 local_b_acc_0 local_o_acc_0 SLICE_LEN @
              mac_mult_regs 1000 (local_a_acc_0 + 4 * SLICE_LEN) (local_b_acc_0 + 4 * SLICE_LEN) (local_o_acc_0 + 4 * SLICE_LEN) SLICE_LEN @
              mac_mult_regs 1024 (local_a_acc_0 + 4 * (2 * SLICE_LEN)) (local_b_acc_0 + 4 * (2 * SLICE_LEN)) (local_o_acc_0 + 4 * (2 * SLICE_LEN)) SLICE_LEN @
              mac_mult_regs 1048 (local_a_acc_0 + 4 * (3 * SLICE_LEN)) (local_b_acc_0 + 4 * (3 * SLICE_LEN)) (local_o_acc_0 + 4 * (3 * SLICE_LEN)) SLICE_LEN @
              [Csr_Write 960 0, Csr_Write 984 0, Csr_Write 1008 0, Csr_Write 1032 0,
               Csr_Poll [963, 987, 1011, 1035]]))],
          if is_compute c then check_simple_mult (words_at ld local_o_acc_0) OUT VEC_LEN else 0))"

text \<open>The check that both variants of \<open>snax-mac-simple\<close> end with, on the arrays in L1.\<close>

definition mac_simple_err :: "u32 \<Rightarrow> (nat \<Rightarrow> u32) \<Rightarrow> (nat \<Rightarrow> u32) \<Rightarrow> (nat \<Rightarrow> u32) \<Rightarrow> (nat \<Rightarrow> u32) \<Rightarrow> s32" where
  "mac_simple_err VEC_LEN a b oo OUT =
     (let cpu_output = cpu_simple_mult a b VEC_LEN (\<lambda>_. 0)
      in check_simple_mult oo OUT VEC_LEN + check_simple_mult cpu_output OUT VEC_LEN)"

definition untiled_main ::
  "core \<Rightarrow> u32 \<Rightarrow> ptr \<Rightarrow> ptr \<Rightarrow> ptr \<Rightarrow> ptr \<Rightarrow> (nat \<Rightarrow> u32) \<Rightarrow> (ptr \<Rightarrow> u32) \<Rightarrow> segment list \<times> s32" where
  "untiled_main c VEC_LEN l1_next A B OUT_TEST OUT ld =
     (let local_a = l1_next;
          local_b = local_a + 4 * VEC_LEN;
          local_o = local_b + 4 * VEC_LEN;
          vector_size = VEC_LEN * 4
      in ([only (is_dm c) (start_1d local_b B vector_size \<circ> start_1d local_a A vector_size),
           only (is_compute c) (csr (snax_mac_setup_simple_mult local_a local_b local_o VEC_LEN @ snax_mac_launch @ snax_mac_sw_barrier)),
           only (is_dm c) (start_1d OUT_TEST local_o vector_size),
           only (is_dm c) (start_1d local_o OUT_TEST vector_size)],
          if is_compute c then mac_simple_err VEC_LEN (words_at ld local_a) (words_at ld local_b) (words_at ld local_o) OUT else 0))"

text \<open>One iteration of the tiling loop of \<open>tiled.c\<close> and the whole program.\<close>

definition tiled_iter :: "core \<Rightarrow> u32 \<Rightarrow> u32 \<Rightarrow> ptr \<Rightarrow> ptr \<Rightarrow> ptr \<Rightarrow> ptr \<Rightarrow> ptr \<Rightarrow> ptr \<Rightarrow> u32 \<Rightarrow> segment" where
  "tiled_iter c tile_size iterations local_a local_b local_o A B OUT_TEST i =
     (let transfer_size = tile_size * 4
      in only (is_dm c \<and> i > 1)
           (start_1d (OUT_TEST + 4 * ((i - 2) * tile_size)) (local_o + 4 * ((i - 2) * tile_size)) transfer_size) \<circ>
         only (is_compute c \<and> i > 0 \<and> i < iterations + 1)
           (csr (snax_mac_setup_simple_mult (local_a + 4 * ((i - 1) * tile_size)) (local_b + 4 * ((i - 1) * tile_size))
              (local_o + 4 * ((i - 1) * tile_size)) tile_size @ snax_mac_launch @ snax_mac_sw_barrier)) \<circ>
         only (is_dm c \<and> i < iterations)
           (start_1d (local_b + 4 * (i * tile_size)) (B + 4 * (i * tile_size)) transfer_size \<circ>
            start_1d (local_a + 4 * (i * tile_size)) (A + 4 * (i * tile_size)) transfer_size))"

definition tiled_main ::
  "core \<Rightarrow> u32 \<Rightarrow> u32 \<Rightarrow> ptr \<Rightarrow> ptr \<Rightarrow> ptr \<Rightarrow> ptr \<Rightarrow> (nat \<Rightarrow> u32) \<Rightarrow> (ptr \<Rightarrow> u32) \<Rightarrow> segment list \<times> s32" where
  "tiled_main c VEC_LEN TILE_SIZE l1_next A B OUT_TEST OUT ld =
     (let local_a = l1_next;
          local_b = local_a + 4 * VEC_LEN;
          local_o = local_b + 4 * VEC_LEN;
          iterations = VEC_LEN div TILE_SIZE
      in (map (\<lambda>i. tiled_iter c TILE_SIZE iterations local_a local_b local_o A B OUT_TEST (of_nat i)) [0..<unat (iterations + 2)] @
            [only (is_dm c) (start_1d local_o OUT_TEST (VEC_LEN * 4))],
          if is_compute c then mac_simple_err VEC_LEN (words_at ld local_a) (words_at ld local_b) (words_at ld local_o) OUT else 0))"

section \<open>ALU\<close>

text \<open>\<open>ld64\<close> reads the 64-bit words of the memory.\<close>

definition snax_alu_main ::
  "core \<Rightarrow> u64 \<Rightarrow> u64 \<Rightarrow> u64 \<Rightarrow> ptr \<Rightarrow> ptr \<Rightarrow> ptr \<Rightarrow> (nat \<Rightarrow> u64) \<Rightarrow> (ptr \<Rightarrow> u64) \<Rightarrow> segment list \<times> s32" where
  "snax_alu_main c DATA_LEN LOOP_ITER MODE l1_next A B OUT ld64 =
     (let local_a = l1_next;
          local_b = local_a + 8 * ucast DATA_LEN;
          local_o = local_b + 8 * ucast DATA_LEN;
          vector_size = ucast (DATA_LEN * 8)
      in ([only (is_dm c) (start_1d local_b B vector_size \<circ> start_1d local_a A vector_size),
           only (is_compute c) (csr
             [Csr_Write 0x3c0 (ucast LOOP_ITER), Csr_Write 0x3c1 32, Csr_Write 0x3c2 32, Csr_Write 0x3c3 64,
              Csr_Write 0x3c4 8, Csr_Write 0x3c5 8, Csr_Write 0x3c6 8,
              Csr_Write 0x3c7 local_a, Csr_Write 0x3c8 local_b, Csr_Write 0x3c9 local_o, Csr_Write 0x3ca 1,
              Csr_Write 0x3cc (ucast MODE), Csr_Write 0x3cd (ucast LOOP_ITER), Csr_Write 0x3ce 1,
              Csr_Poll [0x3cf], Csr_Read 0x3d0])],
          if is_compute c then
            for_upto (unat DATA_LEN) (\<lambda>i err.
              let check_val = ld64 (local_o + 8 * (of_nat i * 2)) + ld64 (local_o + 8 * (of_nat i * 2 + 1))
              in if check_val \<noteq> OUT i then err + 1 else err) 0
          else 0))"

section \<open>Matrix multiplication\<close>

text \<open>The signed 32-bit and 8-bit arrays at a pointer.\<close>

definition ints_at :: "(ptr \<Rightarrow> u32) \<Rightarrow> ptr \<Rightarrow> nat \<Rightarrow> s32" where
  "ints_at ld p i = ld (p + 4 * of_nat i)"

definition bytes_at :: "(ptr \<Rightarrow> u8) \<Rightarrow> ptr \<Rightarrow> nat \<Rightarrow> u8" where
  "bytes_at ld8 p i = ld8 (p + of_nat i)"

text \<open>
  The computation of \<open>snax-gemm-base.c\<close> on the core: it stores element \<open>(i, j)\<close> at
  \<open>i * k + j\<close>.
\<close>

definition gemm_base_elem :: "nat \<Rightarrow> (nat \<Rightarrow> u8) \<Rightarrow> (nat \<Rightarrow> u8) \<Rightarrow> nat \<Rightarrow> nat \<Rightarrow> u32" where
  "gemm_base_elem k a b i j =
     for_upto k (\<lambda>s acc. acc + ucast (a (i * k + s)) * ucast (b (s + j * k))) 0"

definition gemm_base_compute :: "nat \<Rightarrow> nat \<Rightarrow> nat \<Rightarrow> (nat \<Rightarrow> u8) \<Rightarrow> (nat \<Rightarrow> u8) \<Rightarrow> (nat \<Rightarrow> u32) \<Rightarrow> nat \<Rightarrow> u32" where
  "gemm_base_compute m n k a b C =
     for_upto m (\<lambda>i C. for_upto n (\<lambda>j C. C(i * k + j := gemm_base_elem k a b i j)) C) C"

definition gemm_err :: "nat \<Rightarrow> nat \<Rightarrow> (nat \<Rightarrow> u32) \<Rightarrow> (nat \<Rightarrow> u32) \<Rightarrow> s32" where
  "gemm_err m n C_golden C =
     for_upto m (\<lambda>i err. for_upto n (\<lambda>j err. if C_golden (i * n + j) \<noteq> C (i * n + j) then err + 1 else err) err) 0"

definition gemm_load :: "core \<Rightarrow> u32 \<Rightarrow> u32 \<Rightarrow> u32 \<Rightarrow> ptr \<Rightarrow> ptr \<Rightarrow> ptr \<Rightarrow> segment" where
  "gemm_load c m n k l1_next A B =
     only (is_dm c) (start_1d (l1_next + m * k * 1) B (n * k * 1) \<circ> start_1d l1_next A (m * k * 1))"

definition gemm_base_main ::
  "core \<Rightarrow> u32 \<Rightarrow> u32 \<Rightarrow> u32 \<Rightarrow> ptr \<Rightarrow> ptr \<Rightarrow> ptr \<Rightarrow> (nat \<Rightarrow> u32) \<Rightarrow> (ptr \<Rightarrow> u8) \<Rightarrow> (ptr \<Rightarrow> u32) \<Rightarrow> segment list \<times> s32" where
  "gemm_base_main c m n k l1_next A B C_golden ld8 ld =
     (let local_a = l1_next;
          local_b = local_a + m * k * 1;
          local_c = local_b + n * k * 1
      in ([gemm_load c m n k l1_next A B],
          if is_compute c then
            gemm_err (unat m) (unat n) C_golden
              (gemm_base_compute (unat m) (unat n) (unat k) (bytes_at ld8 local_a) (bytes_at ld8 local_b) (words_at ld local_c))
          else 0))"

definition gemm_engine_main ::
  "core \<Rightarrow> u32 \<Rightarrow> u32 \<Rightarrow> u32 \<Rightarrow> ptr \<Rightarrow> ptr \<Rightarrow> ptr \<Rightarrow> (nat \<Rightarrow> u32) \<Rightarrow> (ptr \<Rightarrow> u32) \<Rightarrow> segment list \<times> s32" where
  "gemm_engine_main c m n k l1_next A B C_golden ld =
     (let local_a = l1_next;
          local_b = local_a + m * k * 1;
          local_c = local_b + n * k * 1
      in ([gemm_load c m n k l1_next A B,
           only (is_compute c) (csr
             [Csr_Write 0x3c0 local_a, Csr_Write 0x3c1 local_b, Csr_Write 0x3c2 local_c, Csr_Write 0x3c3 0])],
          if is_compute c then gemm_err (unat m) (unat n) C_golden (words_at ld local_c) else 0))"

text \<open>The sizes, layout and subtraction values of a block GEMM.\<close>

record gemm_data =
  gBatch :: u8
  gM :: u8
  gK :: u8
  gN :: u8
  gstr :: gemm_strides
  gsub_a :: s8
  gsub_b :: s8
  delta_local_a :: u32
  delta_local_b :: u32
  delta_local_c :: u32

text \<open>\<open>snax-block-gemm.c\<close>: the error counts of the accelerator and of the golden model add up.\<close>

definition block_gemm_main ::
  "core \<Rightarrow> gemm_data \<Rightarrow> ptr \<Rightarrow> ptr \<Rightarrow> ptr \<Rightarrow> (nat \<Rightarrow> s32) \<Rightarrow> (nat \<Rightarrow> s32) \<Rightarrow> (ptr \<Rightarrow> u8) \<Rightarrow> (ptr \<Rightarrow> u32) \<Rightarrow> segment list \<times> s32" where
  "block_gemm_main c x l1_next A B C_golden C_cpu ld8 ld =
     (let local_a = l1_next;
          local_b = local_a + delta_local_a x * 1;
          local_c = local_b + delta_local_b x * 1;
          size_setting = gen_size_config (gBatch x) (gM x) (gK x) (gN x);
          subtraction_setting = gen_subtraction_config (gsub_a x) (gsub_b x);
          C_cpu = batch_gemm_cpu (gBatch x) (gM x) (gK x) (gN x) (bytes_at ld8 local_a) (bytes_at ld8 local_b)
            (gsub_a x) (gsub_b x) (gstr x) C_cpu
      in ([only (is_dm c) (on_dma (load_input_data (gBatch x) (gM x) (gK x) (gN x) local_a local_b A B (gstr x))),
           only (is_compute c) (csr (set_batch_gemm size_setting local_a local_b subtraction_setting local_c (gstr x) @
             start_batch_gemm @ wait_batch_gemm)),
           id],
          if is_compute c then
            check_result (ints_at ld local_c) C_golden (gBatch x) (gM x) (gN x) (gstr x) +
            check_result C_cpu C_golden (gBatch x) (gM x) (gN x) (gstr x)
          else 0))"

text \<open>\<open>spatial\<close> are the spatial strides of \<open>A\<close>, \<open>B\<close> and \<open>C\<close>.\<close>

definition streamer_gemm_main ::
  "core \<Rightarrow> gemm_data \<Rightarrow> s32 \<times> s32 \<times> s32 \<Rightarrow> ptr \<Rightarrow> ptr \<Rightarrow> ptr \<Rightarrow> (nat \<Rightarrow> s32) \<Rightarrow> (ptr \<Rightarrow> u32) \<Rightarrow> segment list \<times> s32" where
  "streamer_gemm_main c x spatial l1_next A B C_golden ld =
     (let local_a = l1_next + delta_local_a x;
          local_b = l1_next + delta_local_b x;
          local_c = l1_next + delta_local_c x;
          (spatialA, spatialB, spatialC) = spatial;
          g = gstr x; K = ucast (gK x); N = ucast (gN x); M = ucast (gM x);
          core0 = (snrt_global_core_idx (cdefs c) (chart c) = 0)
      in ([only (is_dm c) (on_dma (load_input_data (gBatch x) (gM x) (gK x) (gN x) local_a local_b A B g)),
           only core0 (csr (set_streamer_csr K N M (strideInnermostA g) (ldA g) spatialA
               (strideInnermostB g) (ldB g) spatialB (strideInnermostC g) (ldC g) spatialC
               (delta_local_a x) (delta_local_b x) (delta_local_c x) l1_next @
             set_streamer_start @
             set_block_gemm_csr K N M (gen_subtraction_config (gsub_a x) (gsub_b x)) @
             set_block_gemm_start @ wait_streamer_gemm))],
          if core0 then check_result (ints_at ld local_c) C_golden (gBatch x) (gM x) (gN x) g else 0))"

record conv_data =
  vNbatch :: s32
  vH :: s32
  vW :: s32
  vCin :: s32
  vCout :: s32
  vKh :: s32
  vKw :: s32
  pad_h :: s32
  pad_w :: s32
  vBatch :: s32
  vM :: s32
  vK :: s32
  vN :: s32
  vsub_a :: s8
  vsub_b :: s8
  vdelta_a :: s32
  vdelta_b :: s32
  vdelta_c :: s32
  vstreams :: conv_streams

definition streamer_gemm_conv_main ::
  "core \<Rightarrow> conv_data \<Rightarrow> ptr \<Rightarrow> ptr \<Rightarrow> ptr \<Rightarrow> (nat \<Rightarrow> s32) \<Rightarrow> (ptr \<Rightarrow> u32) \<Rightarrow> segment list \<times> s32" where
  "streamer_gemm_conv_main c v l1_next A B C_direct_conv2d ld =
     (let local_a = l1_next + vdelta_a v;
          local_b = l1_next + vdelta_b v;
          local_c = l1_next + vdelta_c v;
          core0 = (snrt_global_core_idx (cdefs c) (chart c) = 0)
      in ([only (is_dm c) (on_dma (load_weight_data (vCout v) (vKh v) (vKw v) (vCin v) local_b B \<circ>
             load_conv_input_data (vNbatch v) (vH v + 2 * pad_h v) (vW v + 2 * pad_w v) (vCin v) local_a A)),
           only core0 (csr (set_conv_streamer_csr (vstreams v) (vdelta_a v) (vdelta_b v) (vdelta_c v) l1_next @
             set_conv_streamer_start @
             set_conv_block_gemm_csr (vK v) (vN v) (vM v) (gen_subtraction_config (vsub_a v) (vsub_b v)) @
             set_conv_block_gemm_start @ wait_conv_streamer_gemm))],
          if core0 then check_conv_result (ints_at ld local_c) C_direct_conv2d (vBatch v) (vM v) (vN v) else 0))"

section \<open>SIMD unit and data reshuffler\<close>

record simd_data =
  sLoop0 :: s32
  sLoop1 :: s32
  sStride0_in :: s32
  sStride1_in :: s32
  sStride0_out :: s32
  sStride1_out :: s32
  sdelta_in :: s32
  sdelta_out :: s32
  input_zp_i :: s8
  output_zp_i :: s8
  multiplier_i :: s32
  shift_i :: s8
  max_int_i :: s8
  min_int_i :: s8
  double_round_i :: bool

text \<open>
  The golden data that the first segment of \<open>snax-streamer-simd.c\<close> computes with the C
  specification, from the contents of \<open>DataIn\<close>.
\<close>

definition simd_golden :: "simd_data \<Rightarrow> (nat \<Rightarrow> s32) \<Rightarrow> (nat \<Rightarrow> s8 option) \<Rightarrow> nat \<Rightarrow> s8 option" where
  "simd_golden x DataIn gold =
     for_upto (int_bound (sLoop1 x)) (\<lambda>loop1 gold. for_upto (int_bound (sLoop0 x)) (\<lambda>loop0 gold.
       for_upto SIMD_VEC_LEN (\<lambda>i gold.
         let idx = loop1 * int_bound (sLoop0 x) * SIMD_VEC_LEN + loop0 * SIMD_VEC_LEN + i
         in gold(idx := scale_quant_clamp_c_spec (DataIn idx) (input_zp_i x) (output_zp_i x) (multiplier_i x)
              (shift_i x) (max_int_i x) (min_int_i x) (double_round_i x))) gold) gold) gold"

text \<open>
  The segments, the array \<open>C_golden_c_spec\<close> after the first segment, and the error count. The check
  compares the result with \<open>C_golden\<close>, not with \<open>C_golden_c_spec\<close>.
\<close>

definition streamer_simd_main ::
  "core \<Rightarrow> simd_data \<Rightarrow> ptr \<Rightarrow> ptr \<Rightarrow> (nat \<Rightarrow> s32) \<Rightarrow> (nat \<Rightarrow> s8 option) \<Rightarrow> (u32 \<Rightarrow> s8) \<Rightarrow> (ptr \<Rightarrow> s8) \<Rightarrow>
     segment list \<times> (nat \<Rightarrow> s8 option) \<times> s32" where
  "streamer_simd_main c x l1_next DataIn input C_golden_c_spec C_golden ld8 =
     (let C_golden_c_spec = (if is_compute c then simd_golden x input C_golden_c_spec else C_golden_c_spec);
          local_in = l1_next + sdelta_in x;
          local_out = l1_next + sdelta_out x;
          core0 = (snrt_global_core_idx (cdefs c) (chart c) = 0);
          csr0 = gen_csr0_config (input_zp_i x) (output_zp_i x) (shift_i x) (max_int_i x);
          csr1 = gen_csr1_config (min_int_i x) (double_round_i x);
          csr2 = gen_csr2_config (multiplier_i x)
      in ([id,
           only (is_dm c) (on_dma (load_simd_test_data (sLoop0 x) (sLoop1 x) (sStride0_in x) (sStride1_in x) local_in DataIn)),
           only core0 (csr (set_streamer_simd_csr (sLoop0 x) (sLoop1 x) (sStride0_in x) (sStride1_in x)
               (sStride0_out x) (sStride1_out x) (sdelta_in x) (sdelta_out x) l1_next @
             start_streamer_simd @ set_simd_csr csr0 csr1 csr2 (sLoop0 x * sLoop1 x) @ start_simd @ wait_streamer_simd))],
          C_golden_c_spec,
          if core0 then check_simd_result (sLoop0 x) (sLoop1 x) (sStride0_out x) (sStride1_out x) (\<lambda>k. ld8 (local_out + k)) C_golden
          else 0))"

record reshuffle_data =
  rLoop0 :: s32
  rLoop1 :: s32
  rdma_strides :: "s32 \<times> s32 \<times> s32"
  rin_strides :: "s32 \<times> s32 \<times> s32"
  rout_strides :: "s32 \<times> s32 \<times> s32"
  rdelta_in :: s32
  rdelta_out :: s32
  rtranspose :: bool

definition data_reshuffler_main ::
  "core \<Rightarrow> reshuffle_data \<Rightarrow> ptr \<Rightarrow> ptr \<Rightarrow> (u32 \<Rightarrow> s8) \<Rightarrow> (ptr \<Rightarrow> s8) \<Rightarrow> segment list \<times> s32" where
  "data_reshuffler_main c x l1_next DataIn C_golden ld8 =
     (let local_in = l1_next + rdelta_in x;
          local_out = l1_next + rdelta_out x;
          (d0, d1, ds) = rdma_strides x; (i0, i1, ispat) = rin_strides x; (o0, o1, ospat) = rout_strides x;
          core0 = (snrt_cluster_core_idx (cdefs c) (chart c) = 0)
      in ([only (is_dm c) (on_dma (load_data_reshuffler_test_data (rLoop0 x) (rLoop1 x) d0 d1 ds local_in DataIn)),
           only core0 (csr (set_data_reshuffler_csr (rLoop0 x) (rLoop1 x) i0 i1 ispat o0 o1 ospat (rdelta_in x) (rdelta_out x) (rtranspose x) l1_next @
             start_data_reshuffler @ start_streamer @ wait_data_reshuffler @ wait_streamer))],
          if core0 then check_data_reshuffler_result (rLoop0 x) (rLoop1 x) o0 o1 ospat (\<lambda>k. ld8 (local_out + k)) C_golden else 0))"

section \<open>The matrix product on the core\<close>

lemma gemm_base_elem_sum:
  assumes "k < 2 ^ 16"
  shows "unat (gemm_base_elem k a b i j) = (\<Sum>s<k. unat (a (i * k + s)) * unat (b (s + j * k)))"
proof -
  let ?t = "\<lambda>s. unat (a (i * k + s)) * unat (b (s + j * k))"
  have t: "?t s \<le> 255 * 255" for s
    using unat_bound [of "a (i * k + s)"] unat_bound [of "b (s + j * k)"] by (intro mult_le_mono) simp_all
  have le: "(\<Sum>s<n. ?t s) \<le> n * (255 * 255)" for n
    using sum_bounded_above [of "{..<n}" ?t "255 * 255"] t by simp
  have "gemm_base_elem k a b i j = of_nat (\<Sum>s<k. ?t s)"
    unfolding gemm_base_elem_def by (rule for_upto_invariant [where P = "\<lambda>n acc. acc = of_nat (\<Sum>s<n. ?t s)"]) simp_all
  moreover have "(\<Sum>s<k. ?t s) < 2 ^ LENGTH(32)" using le [of k] assms by simp
  ultimately show ?thesis by (simp only: unat_of_nat_small)
qed

lemma gemm_base_compute_elem:
  assumes "i < m" "j < n" "n = k"
  shows "gemm_base_compute m n k a b C (i * n + j) = gemm_base_elem k a b i j"
proof -
  have *: "gemm_base_compute m n k a b C = fold (\<lambda>(i, j) C. C(i * k + j := gemm_base_elem k a b i j)) (upto_pairs m n) C"
    by (simp add: gemm_base_compute_def nest2)
  have "inj_on (\<lambda>(i, j). i * k + j) (set (upto_pairs m n))"
    using assms(3) by (auto simp: inj_on_def dest: block_index_inj)
  then have "fold (\<lambda>x C. C((\<lambda>(i, j). i * k + j) x := (\<lambda>(i, j). gemm_base_elem k a b i j) x)) (upto_pairs m n) C
      ((\<lambda>(i, j). i * k + j) (i, j)) = gemm_base_elem k a b i j"
    using fold_cells_hit [of "upto_pairs m n" "\<lambda>(i, j). i * k + j" "(i, j)" "\<lambda>(i, j) _. gemm_base_elem k a b i j" C] assms(1,2)
    by (simp add: distinct_product split_def)
  then show ?thesis using assms(3) * by (simp add: split_def)
qed

lemma gemm_err_zero:
  assumes "m * n < 2 ^ 32"
  shows "gemm_err m n G C = 0 \<longleftrightarrow> (\<forall>i<m. \<forall>j<n. G (i * n + j) = C (i * n + j))"
proof -
  have "gemm_err m n G C = fold (\<lambda>x err. if (\<lambda>(i, j). G (i * n + j) \<noteq> C (i * n + j)) x then err + 1 else err) (upto_pairs m n) 0"
    by (simp add: gemm_err_def nest2 split_def)
  then show ?thesis using assms fold_count_zero [of "upto_pairs m n" "\<lambda>(i, j). G (i * n + j) \<noteq> C (i * n + j)"] by auto
qed

text \<open>
  \<open>snax-gemm-base.c\<close> on a compute core, when \<open>n\<close> equals \<open>k\<close>: it reports no error exactly when
  the golden matrix is the product of the two matrices that it finds in L1, computed in unbounded
  integers (the 32-bit accumulator does not overflow for \<open>k\<close> below \<open>2^16\<close>).
\<close>

lemma gemm_base_main_correct:
  assumes "is_compute c" and "n = k" and "unat m * unat n < 2 ^ 32" and "unat k < 2 ^ 16"
  shows "snd (gemm_base_main c m n k l1_next A B C_golden ld8 ld) = 0 \<longleftrightarrow>
    (\<forall>i < unat m. \<forall>j < unat n. unat (C_golden (i * unat n + j)) =
      (\<Sum>s < unat k. unat (ld8 (l1_next + of_nat (i * unat k + s))) * unat (ld8 (l1_next + m * k + of_nat (s + j * unat k)))))"
proof -
  have "snd (gemm_base_main c m n k l1_next A B C_golden ld8 ld) = 0 \<longleftrightarrow>
    (\<forall>i < unat m. \<forall>j < unat n. C_golden (i * unat n + j) =
      gemm_base_elem (unat k) (bytes_at ld8 l1_next) (bytes_at ld8 (l1_next + m * k)) i j)"
    using assms by (simp add: gemm_base_main_def Let_def gemm_err_zero gemm_base_compute_elem del: of_nat_add of_nat_mult)
  moreover have "C_golden x = w \<longleftrightarrow> unat (C_golden x) = unat w" for x w by (auto intro: unsigned_word_eqI)
  ultimately show ?thesis using assms(4) by (simp only: gemm_base_elem_sum bytes_at_def)
qed

definition compute_core :: core where
  "compute_core = \<lparr>cdefs = snitch_cluster_defs example_cfg, chart = 0\<rparr>"

definition dm_core :: core where
  "dm_core = \<lparr>cdefs = snitch_cluster_defs example_cfg, chart = 8\<rparr>"

lemma example_cores: "is_compute compute_core" "is_dm dm_core"
  by (simp_all add: compute_core_def dm_core_def is_compute_def is_dm_def snrt_is_dm_core_def snrt_is_compute_core_def
      team_defs snitch_cluster_defs_def example_cfg_def)

text \<open>
  With \<open>n\<close> different from \<open>k\<close> the program reports an error for the right golden values: it stores row
  1 at \<open>1 * k\<close> and checks it at \<open>1 * n\<close>.
\<close>

lemma gemm_base_rows:
  "gemm_err 2 1 (\<lambda>_. 2) (gemm_base_compute 2 1 2 (\<lambda>_. 1) (\<lambda>_. 1) (\<lambda>_. 0)) = 1 \<and>
   (\<forall>i. gemm_base_elem 2 (\<lambda>_. 1) (\<lambda>_. 1) i 0 = 2)"
  by (simp add: gemm_err_def gemm_base_compute_def gemm_base_elem_def for_upto_def upt_rec)

end
