(* ===== verification/Boot.thy ===== *)
theory Boot
  imports Sync Alloc
begin

text \<open>
  Start-up and platform services: the C part of the start-up code
  (\<open>sw/snRuntime/src/start.c\<close> as configured by the \<open>rtl\<close> and \<open>banshee\<close> targets), the
  performance counters (\<open>perf_cnt.h\<close>) and the console of the RTL target (\<open>putchar.c\<close>).
\<close>

section \<open>Start-up\<close>

text \<open>
  Addresses of the linker symbols, and the offset of the thread-local variable \<open>_cls_ptr\<close>
  from the thread pointer, which the compiler chooses.
\<close>

record crt_syms =
  tdata_start :: u32
  tdata_end :: u32
  tbss_start :: u32
  tbss_end :: u32
  cdata_start :: u32
  cdata_end :: u32
  cbss_start :: u32
  cbss_end :: u32
  bss_start :: u32
  bss_end :: u32
  edram :: u32
  cls_ptr_offset :: u32

definition snrt_cls_base_addr :: "snrt_defs \<Rightarrow> crt_syms \<Rightarrow> u32 \<Rightarrow> u32" where
  "snrt_cls_base_addr d y hartid =
     (let cdata_size = cdata_end y - cdata_start y;
          cbss_size = cbss_end y - cbss_start y;
          l1_end_addr = SNRT_TCDM_START_ADDR d + snrt_cluster_idx d hartid * SNRT_CLUSTER_OFFSET d + SNRT_TCDM_SIZE d
      in l1_end_addr - cdata_size - cbss_size)"

text \<open>The distance of the thread-local storage of neighbouring cores.\<close>

definition tls_offset :: "snrt_defs \<Rightarrow> u32" where
  "tls_offset d = push_bit (SNRT_LOG2_STACK_SIZE d) 1 + 8"

text \<open>\<open>snrt_init_tls\<close> up to its barrier, on the core with thread pointer \<open>tp\<close>.\<close>

definition snrt_init_tls :: "gen_cfg \<Rightarrow> snrt_defs \<Rightarrow> crt_syms \<Rightarrow> u32 \<Rightarrow> u32 \<Rightarrow> dma_state \<Rightarrow> dma_state" where
  "snrt_init_tls g d y hartid tp st =
     (if snrt_is_dm_core d hartid then
        let sz = tdata_end y - tdata_start y;
            tls_ptr = tp;
            st = snd (snrt_dma_start_1d tls_ptr (tdata_start y) sz st);
            n = unat (snrt_cluster_core_num d);
            st = for_upto (n - 1)
              (\<lambda>k st. snd (snrt_dma_start_1d (tls_ptr + of_nat (k + 1) * tls_offset d) tls_ptr sz st)) st;
            tls_ptr = tls_ptr + sz;
            sz = tbss_end y - tbss_start y
        in for_upto n
             (\<lambda>i st. snd (snrt_dma_start_1d (tls_ptr + of_nat i * tls_offset d) (snrt_zero_memory_ptr g) sz st)) st
      else st)"

definition snrt_init_bss :: "gen_cfg \<Rightarrow> snrt_defs \<Rightarrow> crt_syms \<Rightarrow> u32 \<Rightarrow> dma_state \<Rightarrow> dma_state" where
  "snrt_init_bss g d y hartid st =
     (if snrt_cluster_idx d hartid = 0 \<and> snrt_is_dm_core d hartid then
        let sz = bss_end y - bss_start y
        in snd (snrt_dma_start_1d_wideptr (ucast (bss_start y)) (ucast (snrt_zero_memory_ptr g)) sz st)
      else st)"

text \<open>A 32-bit store of a core, lowest byte first.\<close>

definition store32 :: "ptr \<Rightarrow> u32 \<Rightarrow> mem \<Rightarrow> mem" where
  "store32 p v m = for_upto 4 (\<lambda>i m. m(ucast (p + of_nat i) := ucast (drop_bit (8 * i) v))) m"

definition load32 :: "ptr \<Rightarrow> mem \<Rightarrow> u32" where
  "load32 p m = word_rcat (map (\<lambda>i. m (ucast (p + of_nat i))) [3, 2, 1, 0 :: nat])"

definition snrt_init_cls :: "gen_cfg \<Rightarrow> snrt_defs \<Rightarrow> crt_syms \<Rightarrow> u32 \<Rightarrow> u32 \<Rightarrow> dma_state \<Rightarrow> dma_state" where
  "snrt_init_cls g d y hartid tp st =
     (let st = st\<lparr>dmem := store32 (tp + cls_ptr_offset y) (snrt_cls_base_addr d y hartid) (dmem st)\<rparr>
      in if snrt_is_dm_core d hartid then
           let p = snrt_cls_base_addr d y hartid;
               sz = cdata_end y - cdata_start y;
               st = snd (snrt_dma_start_1d p (cdata_start y) sz st);
               p = p + sz;
               sz = cbss_end y - cbss_start y
           in snd (snrt_dma_start_1d p (snrt_zero_memory_ptr g) sz st)
         else st)"

definition snrt_init_libs :: "gen_cfg \<Rightarrow> snrt_defs \<Rightarrow> crt_syms \<Rightarrow> u32 \<Rightarrow> alloc_state \<Rightarrow> alloc_state" where
  "snrt_init_libs g d y hartid s = snrt_alloc_init g d (edram y) hartid s"

text \<open>
  \<open>snrt_main\<close> from its entry to the barrier before \<open>main\<close>, on one core: \<open>None\<close> if the wait for
  the DMA does not return within the schedule. The callbacks are not configured.
\<close>

definition snrt_main_init ::
  "(dma_req \<Rightarrow> mem \<Rightarrow> mem) \<Rightarrow> nat list \<Rightarrow> gen_cfg \<Rightarrow> snrt_defs \<Rightarrow> crt_syms \<Rightarrow> u32 \<Rightarrow> u32 \<Rightarrow>
     dma_state \<Rightarrow> alloc_state \<Rightarrow> (dma_state \<times> alloc_state) option" where
  "snrt_main_init exec sched g d y hartid tp st al =
     (let st = snrt_init_tls g d y hartid tp st;
          st = snrt_init_bss g d y hartid st;
          st = snrt_init_cls g d y hartid tp st
      in case (if snrt_is_dm_core d hartid then snrt_dma_wait_all exec sched st else Some st) of
           None \<Rightarrow> None
         | Some st \<Rightarrow> Some (st, snrt_init_libs g d y hartid al))"

text \<open>
  The end of \<open>snrt_main\<close>: \<open>exit_code\<close> is what \<open>snrt_global_all_to_all_reduction\<close> has returned for
  the exit codes of all cores; the result is what core 0 writes to the exit code register.
\<close>

definition snrt_exit_default :: "snrt_defs \<Rightarrow> u32 \<Rightarrow> s32 \<Rightarrow> u32 option" where
  "snrt_exit_default d hartid exit_code =
     (if snrt_global_core_idx d hartid = 0 then Some (push_bit 1 exit_code OR 1) else None)"

definition snrt_exit :: "snrt_defs \<Rightarrow> u32 \<Rightarrow> s32 \<Rightarrow> u32 option" where
  "snrt_exit d hartid exit_code = snrt_exit_default d hartid exit_code"

definition banshee_exit_code_destination :: ptr where
  "banshee_exit_code_destination = 0x02000014"

section \<open>Performance counters\<close>

datatype snrt_perf_cnt_type =
    SNRT_PERF_CNT_CYCLES | SNRT_PERF_CNT_TCDM_ACCESSED | SNRT_PERF_CNT_TCDM_CONGESTED
  | SNRT_PERF_CNT_ISSUE_FPU | SNRT_PERF_CNT_ISSUE_FPU_SEQ | SNRT_PERF_CNT_ISSUE_CORE_TO_FPU
  | SNRT_PERF_CNT_RETIRED_INSTR | SNRT_PERF_CNT_RETIRED_LOAD | SNRT_PERF_CNT_RETIRED_I
  | SNRT_PERF_CNT_RETIRED_ACC | SNRT_PERF_CNT_DMA_AW_STALL | SNRT_PERF_CNT_DMA_AR_STALL
  | SNRT_PERF_CNT_DMA_R_STALL | SNRT_PERF_CNT_DMA_W_STALL | SNRT_PERF_CNT_DMA_BUF_W_STALL
  | SNRT_PERF_CNT_DMA_BUF_R_STALL | SNRT_PERF_CNT_DMA_AW_DONE | SNRT_PERF_CNT_DMA_AW_BW
  | SNRT_PERF_CNT_DMA_AR_DONE | SNRT_PERF_CNT_DMA_AR_BW | SNRT_PERF_CNT_DMA_R_DONE
  | SNRT_PERF_CNT_DMA_R_BW | SNRT_PERF_CNT_DMA_W_DONE | SNRT_PERF_CNT_DMA_W_BW
  | SNRT_PERF_CNT_DMA_B_DONE | SNRT_PERF_CNT_DMA_BUSY | SNRT_PERF_CNT_ICACHE_MISS
  | SNRT_PERF_CNT_ICACHE_HIT | SNRT_PERF_CNT_ICACHE_PREFETCH | SNRT_PERF_CNT_ICACHE_DOUBLE_HIT
  | SNRT_PERF_CNT_ICACHE_STALL

text \<open>The values of the enumeration are the positions in it.\<close>

definition perf_cnt_types :: "snrt_perf_cnt_type list" where
  "perf_cnt_types = [
     SNRT_PERF_CNT_CYCLES, SNRT_PERF_CNT_TCDM_ACCESSED, SNRT_PERF_CNT_TCDM_CONGESTED,
     SNRT_PERF_CNT_ISSUE_FPU, SNRT_PERF_CNT_ISSUE_FPU_SEQ, SNRT_PERF_CNT_ISSUE_CORE_TO_FPU,
     SNRT_PERF_CNT_RETIRED_INSTR, SNRT_PERF_CNT_RETIRED_LOAD, SNRT_PERF_CNT_RETIRED_I,
     SNRT_PERF_CNT_RETIRED_ACC, SNRT_PERF_CNT_DMA_AW_STALL, SNRT_PERF_CNT_DMA_AR_STALL,
     SNRT_PERF_CNT_DMA_R_STALL, SNRT_PERF_CNT_DMA_W_STALL, SNRT_PERF_CNT_DMA_BUF_W_STALL,
     SNRT_PERF_CNT_DMA_BUF_R_STALL, SNRT_PERF_CNT_DMA_AW_DONE, SNRT_PERF_CNT_DMA_AW_BW,
     SNRT_PERF_CNT_DMA_AR_DONE, SNRT_PERF_CNT_DMA_AR_BW, SNRT_PERF_CNT_DMA_R_DONE,
     SNRT_PERF_CNT_DMA_R_BW, SNRT_PERF_CNT_DMA_W_DONE, SNRT_PERF_CNT_DMA_W_BW,
     SNRT_PERF_CNT_DMA_B_DONE, SNRT_PERF_CNT_DMA_BUSY, SNRT_PERF_CNT_ICACHE_MISS,
     SNRT_PERF_CNT_ICACHE_HIT, SNRT_PERF_CNT_ICACHE_PREFETCH, SNRT_PERF_CNT_ICACHE_DOUBLE_HIT,
     SNRT_PERF_CNT_ICACHE_STALL]"

fun position :: "'a \<Rightarrow> 'a list \<Rightarrow> nat" where
  "position x [] = 0"
| "position x (y # ys) = (if x = y then 0 else Suc (position x ys))"

definition perf_type_code :: "snrt_perf_cnt_type \<Rightarrow> nat" where
  "perf_type_code t = position t perf_cnt_types"

text \<open>The counters \<open>SNRT_PERF_CNT0\<close> to \<open>SNRT_PERF_CNT15\<close> are the indices below \<open>SNRT_PERF_N_CNT\<close>.\<close>

definition SNRT_PERF_N_CNT :: nat where
  "SNRT_PERF_N_CNT = 16"

record perf_regs_t =
  enable :: "nat \<Rightarrow> u32"
  hart_select :: "nat \<Rightarrow> u32"
  perf_counter :: "nat \<Rightarrow> u32"

definition snrt_perf_counters :: "gen_cfg \<Rightarrow> ptr" where
  "snrt_perf_counters g = snrt_cluster_perf_counters_addr g"

definition snrt_start_perf_counter :: "nat \<Rightarrow> snrt_perf_cnt_type \<Rightarrow> u32 \<Rightarrow> perf_regs_t \<Rightarrow> perf_regs_t" where
  "snrt_start_perf_counter c t hart_id r =
     (let r = r\<lparr>hart_select := (hart_select r)(c := hart_select r c OR hart_id)\<rparr>
      in r\<lparr>enable := (enable r)(c := push_bit (perf_type_code t) 1)\<rparr>)"

definition snrt_stop_perf_counter :: "nat \<Rightarrow> perf_regs_t \<Rightarrow> perf_regs_t" where
  "snrt_stop_perf_counter c r = r\<lparr>enable := (enable r)(c := 0)\<rparr>"

definition snrt_reset_perf_counter :: "nat \<Rightarrow> perf_regs_t \<Rightarrow> perf_regs_t" where
  "snrt_reset_perf_counter c r =
     r\<lparr>enable := (enable r)(c := 0), hart_select := (hart_select r)(c := 0), perf_counter := (perf_counter r)(c := 0)\<rparr>"

definition snrt_get_perf_counter :: "nat \<Rightarrow> perf_regs_t \<Rightarrow> u32" where
  "snrt_get_perf_counter c r = perf_counter r c"

section \<open>Console\<close>

text \<open>
  \<open>PUTC_BUFFER_LEN\<close> is 1024 - sizeof(size_t). The struct of one hart is a size, eight 64-bit
  words for the system call and the characters: 1096 bytes with padding.
\<close>

definition PUTC_BUFFER_LEN :: nat where
  "PUTC_BUFFER_LEN = 1024 - 4"

record putc_buffer_header =
  hdr_size :: nat
  syscall_mem :: "u64 list"

record putc_buffer =
  hdr :: putc_buffer_header
  pdata :: "char list"

definition putc_buffer_size :: nat where
  "putc_buffer_size = 1096"

definition putc_buffer_addr :: "u32 \<Rightarrow> u32 \<Rightarrow> u32" where
  "putc_buffer_addr base hartid = base + hartid * of_nat putc_buffer_size"

text \<open>
  \<open>_putchar\<close>: the buffer after the call and the text handed to the host. The host prints the
  \<open>syscall_mem[3]\<close> characters of the buffer and sets \<open>fromhost\<close>; \<open>answer\<close> tells in which polls
  it has done so, and \<open>None\<close> means that it has not within the polls.
\<close>

definition putc_syscall :: "u32 \<Rightarrow> putc_buffer \<Rightarrow> putc_buffer" where
  "putc_syscall data_addr buf =
     buf\<lparr>hdr := (hdr buf)\<lparr>syscall_mem := (syscall_mem (hdr buf))[0 := 64, 1 := 1, 2 := ucast data_addr,
       3 := of_nat (hdr_size (hdr buf))]\<rparr>\<rparr>"

definition putchar_rtl :: "bool list \<Rightarrow> u32 \<Rightarrow> char \<Rightarrow> putc_buffer \<Rightarrow> (putc_buffer \<times> char list) option" where
  "putchar_rtl answer data_addr character buf =
     (let buf = buf\<lparr>pdata := (pdata buf)[hdr_size (hdr buf) := character],
                    hdr := (hdr buf)\<lparr>hdr_size := hdr_size (hdr buf) + 1\<rparr>\<rparr>
      in if hdr_size (hdr buf) = PUTC_BUFFER_LEN \<or> character = CHR 0x0A then
           let buf = putc_syscall data_addr buf
           in if True \<in> set answer
              then Some (buf\<lparr>hdr := (hdr buf)\<lparr>hdr_size := 0\<rparr>\<rparr>, take (hdr_size (hdr buf)) (pdata buf))
              else None
         else Some (buf, []))"

text \<open>The Banshee target writes each character to a register.\<close>

definition snrt_putchar_banshee :: "char \<Rightarrow> u32 \<times> u32" where
  "snrt_putchar_banshee character = (0xF00B8000, of_char character)"

section \<open>What the queued transfers do\<close>

text \<open>Memory read at a natural address.\<close>

definition rd :: "mem \<Rightarrow> nat \<Rightarrow> u8" where
  "rd m x = m (of_nat x)"

lemma req_1d_pairs:
  "set (dma_pairs (req_1d i (ucast (d :: ptr)) (ucast (s :: ptr)) sz st)) =
    {(ucast d + of_nat j, ucast s + of_nat j) |j. j < unat sz}"
  by (force simp: set_dma_pairs req_1d_def dma_rows_def dma_dst_addr_def dma_src_addr_def)

context dma_backend
begin

lemma settled_start_1d:
  fixes d s :: ptr and sz :: u32
  assumes d: "unat d + unat sz \<le> 2 ^ 32" and s: "unat s + unat sz \<le> 2 ^ 32"
    and apart: "unat d + unat sz \<le> unat s \<or> unat s + unat sz \<le> unat d" and x: "x < 2 ^ 63"
  shows "rd (dma_settled exec (snd (snrt_dma_start_1d d s sz st))) x =
    (if unat d \<le> x \<and> x < unat d + unat sz then rd (dma_settled exec st) (unat s + (x - unat d))
     else rd (dma_settled exec st) x)"
proof (cases "sz = 0")
  case True then show ?thesis by (auto simp: snrt_dma_start_1d_def start_zero_size)
next
  case False
  let ?q = "req_1d (next_id st) (ucast d) (ucast s) sz st"
  have pos: "sz > 0" using False by (simp add: word_gt_0)
  have dd: "(ucast d :: u64) + of_nat j = of_nat (unat d + j)" "(ucast s :: u64) + of_nat j = of_nat (unat s + j)" for j
    by simp_all
  have szb: "unat sz < 2 ^ 32" using unat_bound [of sz] by simp
  have inj: "(of_nat a :: u64) = of_nat b \<longleftrightarrow> a = b" if "a < 2 ^ 63" "b < 2 ^ 63" for a b
    using that by (intro of_nat_inject_small) simp_all
  have pairs: "set (dma_pairs ?q) = {(of_nat (unat d + j), of_nat (unat s + j)) |j. j < unat sz}"
    unfolding req_1d_pairs dd ..
  have len: "dma_pairs ?q = map (\<lambda>j. (of_nat (unat d + j), of_nat (unat s + j))) [0..<unat sz]"
    by (simp add: dma_pairs_def req_1d_def dma_rows_def dma_dst_addr_def dma_src_addr_def)
  have hz: "dma_hazard_free ?q"
    unfolding dma_hazard_free_def
  proof (intro conjI)
    show "distinct (map fst (dma_pairs ?q))"
      using d szb by (auto simp: len distinct_map comp_def inj_on_def inj)
    show "\<forall>(d, s)\<in>set (dma_pairs ?q). \<forall>(d', s')\<in>set (dma_pairs ?q). d' = s \<longrightarrow> s' = d'"
      using d s apart szb by (auto simp: req_1d_pairs ucast_offset_inject)
  qed
  have settled: "dma_settled exec (snd (snrt_dma_start_1d d s sz st)) = exec ?q (dma_settled exec st)"
    by (simp add: dma_settled_def snrt_dma_start_1d_def start_1d_wideptr_effect [OF pos])
  show ?thesis
  proof (cases "unat d \<le> x \<and> x < unat d + unat sz")
    case True
    then have "(of_nat x, of_nat (unat s + (x - unat d))) \<in> set (dma_pairs ?q)"
      by (auto simp: pairs intro!: exI [of _ "x - unat d"])
    then show ?thesis using True exec_copy [OF hz] by (simp add: settled rd_def)
  next
    case False
    have "x = unat d + j" if "of_nat x = (ucast d :: u64) + of_nat j" "j < unat sz" for j
      using ucast_offset_inject [of x j 0 d] x szb that by simp
    with False have "of_nat x \<noteq> (ucast d :: u64) + of_nat j" if "j < unat sz" for j
      using that by fastforce
    moreover have "fst ` set (dma_pairs ?q) = {ucast d + of_nat j |j. j < unat sz}"
      unfolding req_1d_pairs by force
    ultimately have "of_nat x \<notin> fst ` set (dma_pairs ?q)" by blast
    then show ?thesis using exec_frame by (simp only: settled rd_def if_not_P [OF False])
  qed
qed

end

text \<open>
  The layout that \<open>start.S\<close> sets up: the thread-local storage of the \<open>N\<close> cores, one offset
  apart from the data mover's upwards, which neither the image of the initialised data nor the
  zero memory overlaps.
\<close>

definition tls_layout :: "gen_cfg \<Rightarrow> snrt_defs \<Rightarrow> crt_syms \<Rightarrow> u32 \<Rightarrow> bool" where
  "tls_layout g d y tp \<longleftrightarrow>
     (let n = unat (tdata_end y - tdata_start y); z = unat (tbss_end y - tbss_start y);
          off = unat (tls_offset d); N = unat (snrt_cluster_core_num d); A = unat tp;
          T = unat (tdata_start y); Z = unat (snrt_zero_memory_ptr g)
      in 0 < N \<and> n + z \<le> off \<and> A + N * off < 2 ^ 32 \<and>
         T + n \<le> 2 ^ 32 \<and> (T + n \<le> A \<or> A + N * off \<le> T) \<and>
         Z + z \<le> 2 ^ 32 \<and> (Z + z \<le> A \<or> A + N * off \<le> Z))"

lemma core_block:
  fixes i k off :: nat
  assumes "i < k" shows "i * off + off \<le> k * off"
proof -
  have "(i + 1) * off \<le> k * off" using assms by (intro mult_right_mono) auto
  then show ?thesis by simp
qed

lemma tls_ptr_unat:
  assumes "unat (p :: ptr) + i * unat off < 2 ^ 32"
  shows "unat (p + of_nat i * off) = unat p + i * unat off"
proof (cases "unat off = 0")
  case True then have "off = 0" by (simp add: unat_eq_0)
  then show ?thesis by simp
next
  case False
  then have "i \<le> i * unat off" by simp
  then have "i < 2 ^ 32" using assms by linarith
  then have "unat (of_nat i * off) = i * unat off"
    using assms by (simp add: unat_mult_nowrap unat_of_nat_small)
  then show ?thesis using assms by (simp add: unat_add_nowrap)
qed

context dma_backend
begin

lemma tls_tdata_loop:
  fixes tp off sz :: u32
  assumes fit: "unat tp + N * unat off < 2 ^ 32" "unat sz \<le> unat off" and N: "0 < N"
    and start: "\<forall>j<unat sz. rd (dma_settled exec st) (unat tp + j) = img j"
  shows "(\<forall>i<N. \<forall>j<unat sz. rd (dma_settled exec (for_upto (N - 1)
        (\<lambda>k st. snd (snrt_dma_start_1d (tp + of_nat (k + 1) * off) tp sz st)) st)) (unat tp + i * unat off + j) = img j) \<and>
    (\<forall>x<2 ^ 63. x < unat tp \<or> unat tp + N * unat off \<le> x \<longrightarrow> rd (dma_settled exec (for_upto (N - 1)
        (\<lambda>k st. snd (snrt_dma_start_1d (tp + of_nat (k + 1) * off) tp sz st)) st)) x = rd (dma_settled exec st) x)"
proof -
  let ?A = "unat tp" and ?o = "unat off" and ?n = "unat sz"
  let ?P = "\<lambda>k t. (\<forall>i\<le>k. \<forall>j<?n. rd (dma_settled exec t) (?A + i * ?o + j) = img j) \<and>
    (\<forall>x<2 ^ 63. x < ?A \<or> ?A + N * ?o \<le> x \<longrightarrow> rd (dma_settled exec t) x = rd (dma_settled exec st) x)"
  have "?P (N - 1) (for_upto (N - 1) (\<lambda>k st. snd (snrt_dma_start_1d (tp + of_nat (k + 1) * off) tp sz st)) st)"
  proof (rule for_upto_invariant [where P = ?P])
    show "?P 0 st" using start by simp
  next
    fix k t assume k: "k < N - 1" and P: "?P k t"
    have b: "(k + 1) * ?o + ?o \<le> N * ?o" using k by (intro core_block) simp
    have u: "unat (tp + of_nat (k + 1) * off) = ?A + (k + 1) * ?o"
      using fit b by (intro tls_ptr_unat) linarith
    define t' where "t' = snd (snrt_dma_start_1d (tp + of_nat (k + 1) * off) tp sz t)"
    have step: "rd (dma_settled exec t') x =
      (if ?A + (k + 1) * ?o \<le> x \<and> x < ?A + (k + 1) * ?o + ?n then rd (dma_settled exec t) (?A + (x - (?A + (k + 1) * ?o)))
       else rd (dma_settled exec t) x)" if "x < 2 ^ 63" for x
      unfolding u [symmetric] t'_def by (rule settled_start_1d) (use u b fit that in auto)
    have "rd (dma_settled exec t') (?A + i * ?o + j) = img j" if "i \<le> Suc k" "j < ?n" for i j
    proof (cases "i = Suc k")
      case True
      then show ?thesis using P that b fit by (subst step) (auto dest: spec [of _ 0])
    next
      case False
      then have "i * ?o + ?o \<le> (k + 1) * ?o" using that by (intro core_block) simp
      then have "\<not> ?A + (k + 1) * ?o \<le> ?A + i * ?o + j" "?A + i * ?o + j < 2 ^ 32"
        using that(2) b fit by linarith+
      then show ?thesis using P that(2) False that(1) step [of "?A + i * ?o + j"] by simp
    qed
    moreover have "rd (dma_settled exec t') x = rd (dma_settled exec st) x"
      if "x < 2 ^ 63" "x < ?A \<or> ?A + N * ?o \<le> x" for x
      using P that b fit step [OF that(1)] by auto
    ultimately show "?P (Suc k) (snd (snrt_dma_start_1d (tp + of_nat (k + 1) * off) tp sz t))"
      unfolding t'_def by blast
  qed
  then show ?thesis using N by (metis Suc_leI Suc_pred' less_Suc_eq_le)
qed


lemma tls_tbss_loop:
  fixes tp off n sz zp :: u32
  assumes fit: "unat tp + N * unat off < 2 ^ 32" "unat n + unat sz \<le> unat off"
    and z: "unat zp + unat sz \<le> 2 ^ 32" "unat zp + unat sz \<le> unat tp \<or> unat tp + N * unat off \<le> unat zp"
    and start: "\<forall>i<N. \<forall>j<unat n. rd (dma_settled exec st) (unat tp + i * unat off + j) = img j"
  shows "(\<forall>i<N. \<forall>j<unat n. rd (dma_settled exec (for_upto N
        (\<lambda>i st. snd (snrt_dma_start_1d (tp + n + of_nat i * off) zp sz st)) st)) (unat tp + i * unat off + j) = img j) \<and>
    (\<forall>i<N. \<forall>j<unat sz. rd (dma_settled exec (for_upto N
        (\<lambda>i st. snd (snrt_dma_start_1d (tp + n + of_nat i * off) zp sz st)) st)) (unat tp + i * unat off + unat n + j) =
      rd (dma_settled exec st) (unat zp + j)) \<and>
    (\<forall>x<2 ^ 63. x < unat tp \<or> unat tp + N * unat off \<le> x \<longrightarrow> rd (dma_settled exec (for_upto N
        (\<lambda>i st. snd (snrt_dma_start_1d (tp + n + of_nat i * off) zp sz st)) st)) x = rd (dma_settled exec st) x)"
proof -
  let ?A = "unat tp" and ?o = "unat off" and ?n = "unat n" and ?z = "unat sz" and ?Z = "unat zp"
  let ?P = "\<lambda>k t. (\<forall>i<N. \<forall>j<?n. rd (dma_settled exec t) (?A + i * ?o + j) = img j) \<and>
    (\<forall>i<k. \<forall>j<?z. rd (dma_settled exec t) (?A + i * ?o + ?n + j) = rd (dma_settled exec st) (?Z + j)) \<and>
    (\<forall>x<2 ^ 63. x < ?A \<or> ?A + N * ?o \<le> x \<longrightarrow> rd (dma_settled exec t) x = rd (dma_settled exec st) x)"
  show "?P N (for_upto N (\<lambda>i st. snd (snrt_dma_start_1d (tp + n + of_nat i * off) zp sz st)) st)"
  proof (rule for_upto_invariant [where P = ?P])
    show "?P 0 st" using start by simp
  next
    fix k t assume k: "k < N" and P: "?P k t"
    have b: "k * ?o + ?o \<le> N * ?o" using k by (rule core_block)
    have tn: "unat (tp + n) = ?A + ?n" using fit b by (intro unat_add_nowrap) simp
    have u: "unat (tp + n + of_nat k * off) = ?A + ?n + k * ?o"
      using fit b tn tls_ptr_unat [of "tp + n" k off] by simp
    define t' where "t' = snd (snrt_dma_start_1d (tp + n + of_nat k * off) zp sz t)"
    have step: "rd (dma_settled exec t') x =
      (if ?A + ?n + k * ?o \<le> x \<and> x < ?A + ?n + k * ?o + ?z then rd (dma_settled exec t) (?Z + (x - (?A + ?n + k * ?o)))
       else rd (dma_settled exec t) x)" if "x < 2 ^ 63" for x
      unfolding u [symmetric] t'_def by (rule settled_start_1d) (use u b fit z that in auto)
    have frame: "rd (dma_settled exec t') (?A + i * ?o + j) = rd (dma_settled exec t) (?A + i * ?o + j)"
      if "i < N" "j < ?o" "i \<noteq> k \<or> j < ?n" for i j
    proof -
      have "i < k \<Longrightarrow> i * ?o + ?o \<le> k * ?o" "k < i \<Longrightarrow> k * ?o + ?o \<le> i * ?o" "i * ?o + ?o \<le> N * ?o"
        using that(1) by (auto intro: core_block)
      note c = this that(2,3) fit
      have "\<not> (?A + ?n + k * ?o \<le> ?A + i * ?o + j \<and> ?A + i * ?o + j < ?A + ?n + k * ?o + ?z)"
      proof (cases i k rule: linorder_cases)
        case less show ?thesis using c(1) [OF less] c(4) by linarith
      next
        case equal then show ?thesis using c by simp
      next
        case greater show ?thesis using c(2) [OF greater] fit by linarith
      qed
      moreover have "?A + i * ?o + j < 2 ^ 32" using c by linarith
      ultimately show ?thesis using step [of "?A + i * ?o + j"] by auto
    qed
    have "rd (dma_settled exec t') (?A + k * ?o + ?n + j) = rd (dma_settled exec st) (?Z + j)" if "j < ?z" for j
    proof -
      have "?A + k * ?o + ?n + j < 2 ^ 32" "?Z + j < 2 ^ 32" using that fit z b by linarith+
      moreover have "rd (dma_settled exec t) (?Z + j) = rd (dma_settled exec st) (?Z + j)"
        using P z that \<open>?Z + j < 2 ^ 32\<close> by auto
      ultimately show ?thesis using that step [of "?A + k * ?o + ?n + j"] by (simp add: algebra_simps)
    qed
    moreover have "rd (dma_settled exec t') (?A + i * ?o + ?n + j) = rd (dma_settled exec st) (?Z + j)" if "i < k" "j < ?z" for i j
      using frame [of i "?n + j"] P that k fit by (simp add: add.assoc)
    moreover have "rd (dma_settled exec t') (?A + i * ?o + j) = img j" if "i < N" "j < ?n" for i j
      using frame [of i j] P that fit by simp
    moreover have "rd (dma_settled exec t') x = rd (dma_settled exec st) x"
      if "x < 2 ^ 63" "x < ?A \<or> ?A + N * ?o \<le> x" for x
      using P that b fit step [OF that(1)] by auto
    ultimately show "?P (Suc k) (snd (snrt_dma_start_1d (tp + n + of_nat k * off) zp sz t))"
      unfolding t'_def [symmetric] by (auto simp: less_Suc_eq)
  qed
qed

end

section \<open>Thread-local storage\<close>

context dma_backend
begin

lemma init_tls_result:
  assumes lay: "tls_layout g d y tp" and dm: "snrt_is_dm_core d hartid"
    and i: "i < unat (snrt_cluster_core_num d)"
  shows "j < unat (tdata_end y - tdata_start y) \<Longrightarrow>
      rd (dma_settled exec (snrt_init_tls g d y hartid tp st)) (unat tp + i * unat (tls_offset d) + j) =
      rd (dma_settled exec st) (unat (tdata_start y) + j)"
    and "j < unat (tbss_end y - tbss_start y) \<Longrightarrow>
      rd (dma_settled exec (snrt_init_tls g d y hartid tp st))
        (unat tp + i * unat (tls_offset d) + unat (tdata_end y - tdata_start y) + j) =
      rd (dma_settled exec st) (unat (snrt_zero_memory_ptr g) + j)"
proof -
  let ?n = "tdata_end y - tdata_start y" and ?z = "tbss_end y - tbss_start y"
  let ?N = "unat (snrt_cluster_core_num d)" and ?o = "tls_offset d" and ?zp = "snrt_zero_memory_ptr g"
  define s1 where "s1 = snd (snrt_dma_start_1d tp (tdata_start y) ?n st)"
  define s2 where "s2 = for_upto (?N - 1) (\<lambda>k st. snd (snrt_dma_start_1d (tp + of_nat (k + 1) * ?o) tp ?n st)) s1"
  define s3 where "s3 = for_upto ?N (\<lambda>i st. snd (snrt_dma_start_1d (tp + ?n + of_nat i * ?o) ?zp ?z st)) s2"
  have res: "snrt_init_tls g d y hartid tp st = s3"
    using dm by (simp add: snrt_init_tls_def Let_def s1_def s2_def s3_def)
  have l: "0 < ?N" "unat ?n + unat ?z \<le> unat ?o" "unat tp + ?N * unat ?o < 2 ^ 32" "unat (tdata_start y) + unat ?n \<le> 2 ^ 32"
    "unat (tdata_start y) + unat ?n \<le> unat tp \<or> unat tp + ?N * unat ?o \<le> unat (tdata_start y)"
    "unat ?zp + unat ?z \<le> 2 ^ 32" "unat ?zp + unat ?z \<le> unat tp \<or> unat tp + ?N * unat ?o \<le> unat ?zp"
    using lay by (auto simp: tls_layout_def Let_def)
  have o1: "0 * unat ?o + unat ?o \<le> ?N * unat ?o" using l(1) by (rule core_block)
  have m: "unat tp + unat ?n \<le> 2 ^ 32" "unat tp + unat ?n \<le> unat (tdata_start y) \<or> unat (tdata_start y) + unat ?n \<le> unat tp"
    "unat tp + unat ?n \<le> unat tp + ?N * unat ?o"
    using l o1 by linarith+
  have s1: "rd (dma_settled exec s1) x =
      (if unat tp \<le> x \<and> x < unat tp + unat ?n then rd (dma_settled exec st) (unat (tdata_start y) + (x - unat tp))
       else rd (dma_settled exec st) x)" if "x < 2 ^ 63" for x
    unfolding s1_def by (rule settled_start_1d [OF m(1) l(4) m(2) that])
  have a1: "\<forall>j<unat ?n. rd (dma_settled exec s1) (unat tp + j) = rd (dma_settled exec st) (unat (tdata_start y) + j)"
    using s1 m by auto
  have n_o: "unat ?n \<le> unat ?o" using l(2) by simp
  note a2 = tls_tdata_loop [OF l(3) n_o l(1) a1, folded s2_def]
  note a3 = tls_tbss_loop [OF l(3,2,6,7) conjunct1 [OF a2], folded s3_def]
  show "rd (dma_settled exec (snrt_init_tls g d y hartid tp st)) (unat tp + i * unat ?o + j) =
      rd (dma_settled exec st) (unat (tdata_start y) + j)" if "j < unat ?n"
    using a3 i that unfolding res by blast
  show "rd (dma_settled exec (snrt_init_tls g d y hartid tp st)) (unat tp + i * unat ?o + unat ?n + j) =
      rd (dma_settled exec st) (unat ?zp + j)" if "j < unat ?z"
  proof -
    let ?x = "unat ?zp + j"
    have x: "?x < 2 ^ 32" "?x < unat tp \<or> unat tp + ?N * unat ?o \<le> ?x" using l(6,7) that by linarith+
    have "rd (dma_settled exec s3) (unat tp + i * unat ?o + unat ?n + j) = rd (dma_settled exec s2) ?x"
      using a3 i that by blast
    also have "\<dots> = rd (dma_settled exec s1) ?x" using conjunct2 [OF a2, rule_format, of ?x] x by simp
    also have "\<dots> = rd (dma_settled exec st) ?x" using s1 [of ?x] x m(3) by auto
    finally show ?thesis unfolding res .
  qed
qed

end


definition example_syms :: crt_syms where
  "example_syms = \<lparr>tdata_start = 0x80001000, tdata_end = 0x80001003, tbss_start = 0x80001004,
     tbss_end = 0x8000100C, cdata_start = 0x80002000, cdata_end = 0x80002004, cbss_start = 0x80002004,
     cbss_end = 0x80002008, bss_start = 0x80003000, bss_end = 0x80003004, edram = 0x80004000,
     cls_ptr_offset = 4\<rparr>"

definition zeroed_dma :: dma_state where
  "zeroed_dma = dma_reset\<lparr>dmem := \<lambda>a. if 0x10030000 \<le> a \<and> a < 0x10040000 then 0 else ucast a\<rparr>"


text \<open>
  The race at the end of \<open>snrt_init_tls\<close>: it passes its barrier without waiting for the
  engine. If the engine is slow, and works off its queue only when \<open>snrt_main\<close> waits for it,
  the transfer that clears \<open>.tbss\<close> comes after the store to \<open>_cls_ptr\<close> and erases it; an engine
  that had finished by then would leave the pointer alone.
\<close>

definition small_syms :: crt_syms where
  "small_syms = \<lparr>tdata_start = 0x80001000, tdata_end = 0x80001000, tbss_start = 0x80001000,
     tbss_end = 0x80001004, cdata_start = 0x80002000, cdata_end = 0x80002000, cbss_start = 0x80002000,
     cbss_end = 0x80002000, bss_start = 0x80003000, bss_end = 0x80003000, edram = 0x80004000,
     cls_ptr_offset = 0\<rparr>"

lemma snrt_init_tls_race:
  "let g = example_cfg\<lparr>CFG_CLUSTER_NR_CORES := 2\<rparr>; d = snitch_cluster_defs g; y = small_syms; tp = 0x1001C000;
       slow = snrt_main_init copy_seq [100] g d y 1 tp zeroed_dma alloc_zero;
       st = snrt_init_tls g d y 1 tp zeroed_dma;
       fast = snrt_dma_wait_all copy_seq [100] (snrt_init_cls g d y 1 tp (dma_retire copy_seq 100 st))
   in map_option (\<lambda>(st, al). load32 (tp + cls_ptr_offset y) (dmem st)) slow = Some 0 \<and>
      map_option (\<lambda>st. load32 (tp + cls_ptr_offset y) (dmem st)) fast = Some (snrt_cls_base_addr d y 1) \<and>
      snrt_cls_base_addr d y 1 \<noteq> 0"
  by code_simp

section \<open>Exit code\<close>

lemma exit_value: "push_bit 1 (c :: u32) OR 1 = 2 * c + 1"
  by (simp add: or_one_eq push_bit_eq_mult mult.commute)

lemma double_eq_0: "2 * (c :: u32) = 0 \<longleftrightarrow> c = 0 \<or> c = 2 ^ 31"
proof -
  have "2 * c = 0 \<longleftrightarrow> (2 * unat c) mod 2 ^ 32 = 0" by (simp add: unat_eq_0 [symmetric] unat_word_ariths)
  also have "\<dots> \<longleftrightarrow> unat c = 0 \<or> unat c = 2 ^ 31"
  proof
    assume "(2 * unat c) mod 2 ^ 32 = 0"
    then obtain k where k: "2 * unat c = 2 ^ 32 * k" by auto
    with unat_bound [of c] have "k < 2" by simp
    then show "unat c = 0 \<or> unat c = 2 ^ 31" using k less_2_cases [of k] by auto
  qed auto
  also have "\<dots> \<longleftrightarrow> c = 0 \<or> c = 2 ^ 31"
  proof -
    have "unat (2 ^ 31 :: u32) = 2 ^ 31" by simp
    then show ?thesis by (metis unat_eq_0 unsigned_word_eqI)
  qed
  finally show ?thesis .
qed

lemma exit_value_decode:
  assumes "(c :: u32) < 2 ^ 31" shows "drop_bit 1 (2 * c + 1) = c"
proof -
  have "unat c < 2 ^ 31" using assms by (simp add: word_less_nat_alt)
  then have "unat (2 * c + 1) = 2 * unat c + 1" by (simp add: unat_word_ariths)
  then have "unat (drop_bit 1 (2 * c + 1)) = unat c" by (simp add: drop_bit_eq_div unat_div)
  then show ?thesis by (rule unsigned_word_eqI)
qed

text \<open>
  The exit code register: only core 0 writes it; the value is odd, it is 1 (success) for
  the summed exit code 0, and for every code below \<open>2 ^ 31\<close> the code can be read back from it.
  The one non-zero code that looks like success is \<open>2 ^ 31\<close>.
\<close>

lemma snrt_exit_code_roundtrip:
  "(snrt_exit d hartid c = None \<longleftrightarrow> snrt_global_core_idx d hartid \<noteq> 0) \<and>
   (\<forall>v. snrt_exit d hartid c = Some v \<longrightarrow> odd v \<and> (v = 1 \<longleftrightarrow> c = 0 \<or> c = 2 ^ 31) \<and> (c < 2 ^ 31 \<longrightarrow> drop_bit 1 v = c))"
  unfolding snrt_exit_def snrt_exit_default_def exit_value
  using exit_value_decode [of c] double_eq_0 [of c] by auto

section \<open>Counters\<close>

lemma position_less: "x \<in> set xs \<Longrightarrow> position x xs < length xs"
  by (induction xs) auto

text \<open>
  A counter that is started for one hart after another without a reset in between counts for
  the union of the bits of the two hart numbers, because the hart is or-ed in; after a reset
  it counts for the given hart.
\<close>

lemma perf_counter_hart:
  "hart_select (snrt_start_perf_counter c t h r) c = hart_select r c OR h"
  "hart_select (snrt_start_perf_counter c t h (snrt_reset_perf_counter c r)) c = h"
  "enable (snrt_start_perf_counter c t h r) c = push_bit (perf_type_code t) 1"
  "enable (snrt_stop_perf_counter c r) c = 0"
  "snrt_get_perf_counter c (snrt_reset_perf_counter c r) = 0"
  "c' \<noteq> c \<Longrightarrow> snrt_get_perf_counter c' (snrt_reset_perf_counter c r) = snrt_get_perf_counter c' r"
  by (simp_all add: snrt_start_perf_counter_def snrt_reset_perf_counter_def snrt_stop_perf_counter_def
      snrt_get_perf_counter_def Let_def)

section \<open>Printing\<close>

text \<open>The calls of \<open>_putchar\<close> for a string, with the answers of the host to each of them.\<close>

fun put_string :: "u32 \<Rightarrow> (bool list \<times> char) list \<Rightarrow> putc_buffer \<Rightarrow> (putc_buffer \<times> char list) option" where
  "put_string a [] buf = Some (buf, [])"
| "put_string a ((answer, c) # cs) buf =
     (case putchar_rtl answer a c buf of
        None \<Rightarrow> None
      | Some (buf, out) \<Rightarrow>
          (case put_string a cs buf of None \<Rightarrow> None | Some (buf, out') \<Rightarrow> Some (buf, out @ out')))"

definition buffered :: "putc_buffer \<Rightarrow> char list" where
  "buffered buf = take (hdr_size (hdr buf)) (pdata buf)"

definition putc_ok :: "putc_buffer \<Rightarrow> bool" where
  "putc_ok buf \<longleftrightarrow> length (pdata buf) = PUTC_BUFFER_LEN \<and> hdr_size (hdr buf) < PUTC_BUFFER_LEN"

lemma putchar_step:
  assumes "putc_ok buf" "True \<in> set answer"
  shows "\<exists>buf' out. putchar_rtl answer a c buf = Some (buf', out) \<and> putc_ok buf' \<and>
    buffered buf @ [c] = out @ buffered buf' \<and> (c = CHR 0x0A \<longrightarrow> hdr_size (hdr buf') = 0)"
  using assms
  by (auto simp: putchar_rtl_def putc_ok_def buffered_def putc_syscall_def Let_def PUTC_BUFFER_LEN_def
      take_Suc_conv_app_nth)

lemma put_string_total:
  assumes "putc_ok buf" "\<forall>(answer, c)\<in>set cs. True \<in> set answer"
  shows "\<exists>buf' out. put_string a cs buf = Some (buf', out) \<and> putc_ok buf' \<and>
    buffered buf @ map snd cs = out @ buffered buf' \<and>
    (cs \<noteq> [] \<and> snd (last cs) = CHR 0x0A \<longrightarrow> hdr_size (hdr buf') = 0)"
  using assms
proof (induction cs arbitrary: buf)
  case (Cons p cs)
  obtain answer c where p: "p = (answer, c)" by (cases p)
  obtain b1 o1 where 1: "putchar_rtl answer a c buf = Some (b1, o1)" "putc_ok b1"
    "buffered buf @ [c] = o1 @ buffered b1" "c = CHR 0x0A \<longrightarrow> hdr_size (hdr b1) = 0"
    using putchar_step [of buf answer a c] Cons.prems p by auto
  obtain b2 o2 where 2: "put_string a cs b1 = Some (b2, o2)" "putc_ok b2"
    "buffered b1 @ map snd cs = o2 @ buffered b2"
    "cs \<noteq> [] \<and> snd (last cs) = CHR 0x0A \<longrightarrow> hdr_size (hdr b2) = 0"
    using Cons.IH [OF 1(2)] Cons.prems by auto
  have "buffered buf @ map snd (p # cs) = (o1 @ o2) @ buffered b2"
    using 1(3) 2(3) p by (metis append.assoc append_Cons append_Nil list.simps(9) snd_conv)
  moreover have "put_string a (p # cs) buf = Some (b2, o1 @ o2)" using 1(1) 2(1) p by simp
  moreover have "hdr_size (hdr b2) = 0" if "snd (last (p # cs)) = CHR 0x0A"
    using that 1(4) 2(1,4) p by (cases "cs = []") auto
  ultimately show ?case using 2(2) by blast
qed simp


definition empty_putc :: putc_buffer where
  "empty_putc = \<lparr>hdr = \<lparr>hdr_size = 0, syscall_mem = replicate 8 0\<rparr>, pdata = replicate PUTC_BUFFER_LEN (CHR ''x'')\<rparr>"


text \<open>
  The buffers of the console and the heap in external memory start at the same linker symbol:
  when \<open>_edram\<close> is aligned, the first chunk of \<open>snrt_l3alloc\<close> is the buffer of hart 0.
\<close>

lemma putc_buffer_is_l3_heap:
  assumes "snrt_is_dm_core d hartid" "ALIGN_UP e 8 = e"
  shows "fst (snrt_l3alloc sz (snrt_alloc_init g d e hartid s)) = putc_buffer_addr e 0"
  using assms
  by (simp add: snrt_l3alloc_def snrt_l3_allocator_def snrt_alloc_init_def putc_buffer_addr_def Let_def MIN_CHUNK_SIZE_def)

end
