(* ===== verification/Actions.thy ===== *)
theory Actions
  imports Prelude
begin

text \<open>
  Regions of memory, and steps of devices that read some region and write another: independent steps can be
  taken in any order.
\<close>

section \<open>Memory actions\<close>

text \<open>The addresses of \<open>n\<close> bytes from a 32-bit pointer.\<close>

definition span :: "ptr \<Rightarrow> nat \<Rightarrow> u64 set" where
  "span p n = {x. unat p \<le> unat x \<and> unat x < unat p + n}"

lemma span_disjoint: "unat p + n \<le> unat q \<or> unat q + k \<le> unat p \<Longrightarrow> span p n \<inter> span q k = {}"
  by (auto simp: span_def)

lemma span_mono: "unat p \<le> unat q \<Longrightarrow> unat q + k \<le> unat p + n \<Longrightarrow> span q k \<subseteq> span p n"
  by (auto simp: span_def)

text \<open>
  A step of a device: the addresses it writes, those it reads, and its effect. It leaves other
  addresses alone, and what it writes depends only on what it reads.
\<close>

type_synonym action = "u64 set \<times> u64 set \<times> (mem \<Rightarrow> mem)"

definition writes :: "action \<Rightarrow> u64 set" where "writes a = fst a"
definition reads :: "action \<Rightarrow> u64 set" where "reads a = fst (snd a)"
definition effect :: "action \<Rightarrow> mem \<Rightarrow> mem" where "effect a = snd (snd a)"

definition action_ok :: "action \<Rightarrow> bool" where
  "action_ok a \<longleftrightarrow> (\<forall>m x. x \<notin> writes a \<longrightarrow> effect a m x = m x) \<and>
     (\<forall>m m'. (\<forall>y\<in>reads a. m y = m' y) \<longrightarrow> (\<forall>x\<in>writes a. effect a m x = effect a m' x))"

lemma action_simps [simp]:
  "writes (W, R, F) = W" "reads (W, R, F) = R" "effect (W, R, F) = F"
  by (simp_all add: writes_def reads_def effect_def)

text \<open>Neither action writes what the other reads or writes.\<close>

definition indep :: "action \<Rightarrow> action \<Rightarrow> bool" where
  "indep a b \<longleftrightarrow> writes a \<inter> writes b = {} \<and> writes a \<inter> reads b = {} \<and> writes b \<inter> reads a = {}"

lemma action_frame: "action_ok a \<Longrightarrow> x \<notin> writes a \<Longrightarrow> effect a m x = m x"
  by (simp add: action_ok_def)

lemma action_reads:
  "action_ok a \<Longrightarrow> x \<in> writes a \<Longrightarrow> (\<And>y. y \<in> reads a \<Longrightarrow> m y = m' y) \<Longrightarrow> effect a m x = effect a m' x"
  by (simp add: action_ok_def)

lemma indep_sym: "indep a b \<longleftrightarrow> indep b a"
  by (auto simp: indep_def)

text \<open>Independent actions have the same effect in every order: each acts on the memory before all of them.\<close>

lemma fold_indep_frame:
  assumes "\<And>a. a \<in> set as \<Longrightarrow> action_ok a" "\<And>a. a \<in> set as \<Longrightarrow> x \<notin> writes a"
  shows "fold effect as m x = m x"
  using assms by (induction as arbitrary: m) (simp_all add: action_frame)

lemma fold_indep_hit:
  assumes "\<And>a. a \<in> set as \<Longrightarrow> action_ok a" "sorted_wrt indep as" "a \<in> set as" "x \<in> writes a"
  shows "fold effect as m x = effect a m x"
  using assms
proof (induction as arbitrary: m)
  case (Cons b as)
  show ?case
  proof (cases "a = b")
    case True
    have "x \<notin> writes c" if "c \<in> set as" for c
      using Cons.prems(2,4) that True by (auto simp: indep_def)
    then show ?thesis using fold_indep_frame [of as x "effect b m"] Cons.prems(1) True by simp
  next
    case False
    then have a: "a \<in> set as" "indep b a" using Cons.prems(2,3) by auto
    have "fold effect as (effect b m) x = effect a (effect b m) x"
      using Cons.IH [of "effect b m"] Cons.prems a by simp
    also have "\<dots> = effect a m x"
    proof (rule action_reads)
      show "action_ok a" "x \<in> writes a" using a Cons.prems by auto
      show "effect b m y = m y" if "y \<in> reads a" for y
        using that a(2) Cons.prems(1) [of b] by (intro action_frame) (auto simp: indep_def)
    qed
    finally show ?thesis by simp
  qed
qed simp

end
