(* ===== verification/Tiled.thy ===== *)
theory Tiled
  imports SnaxApps Boot Actions
begin

text \<open>
  \<open>snax-mac-simple/src/tiled.c\<close> from the first transfer to the check of the result: the data mover
  and the compute core run the segments of \<open>tiled_main\<close> between barriers, the DMA engine and the MAC
  engine act on memory in between. The MAC engine is hardware; its documented effect is the locale
  \<open>mac_engine\<close>. The transfers of a phase and the launch of the engine are interleaved by an arbitrary
  schedule. The program does not wait for the DMA engine before a barrier: the model assumes that the
  transfers of a phase complete before the barrier does.
\<close>

section \<open>Transfers and the MAC engine as actions\<close>

text \<open>A 1D transfer of \<open>n\<close> bytes between 32-bit pointers, from \<open>s\<close> to \<open>d\<close>.\<close>

definition is_1d :: "dma_req \<Rightarrow> ptr \<Rightarrow> ptr \<Rightarrow> u32 \<Rightarrow> bool" where
  "is_1d q d s n \<longleftrightarrow> req_dst q = ucast d \<and> req_src q = ucast s \<and> req_size q = n \<and> req_cfg q = 0"

definition apart :: "ptr \<Rightarrow> ptr \<Rightarrow> nat \<Rightarrow> bool" where
  "apart d s n \<longleftrightarrow> unat d + n \<le> 2 ^ 32 \<and> unat s + n \<le> 2 ^ 32 \<and> (unat d + n \<le> unat s \<or> unat s + n \<le> unat d)"

lemma ucast_back [simp]: "ucast (ucast (p :: ptr) :: u64) = p"
  by (rule bit_word_eqI) (auto simp: bit_simps)

definition copy_action :: "nat \<Rightarrow> ptr \<Rightarrow> ptr \<Rightarrow> action" where
  "copy_action n d s = (span d n, span s n,
     \<lambda>m x. if x \<in> span d n then m (of_nat (unat s + (unat x - unat d))) else m x)"

lemma copy_action_simps [simp]:
  "writes (copy_action n d s) = span d n" "reads (copy_action n d s) = span s n"
  by (simp_all add: copy_action_def)

lemma copy_action_ok:
  assumes ap: "apart d s n"
  shows "action_ok (copy_action n d s)"
proof -
  have "of_nat (unat s + (unat x - unat d)) \<in> span s n" if "x \<in> span d n" for x :: u64
  proof -
    define y where "y = unat s + (unat x - unat d)"
    have y: "unat s \<le> y" "y < unat s + n" using that by (auto simp: span_def y_def)
    then have "unat (of_nat y :: u64) = y" using ap by (intro unat_of_nat_small) (simp add: apart_def)
    then show ?thesis using y by (simp add: span_def flip: y_def)
  qed
  then show ?thesis by (simp add: copy_action_def action_ok_def)
qed

context dma_backend
begin

lemma exec_1d_at:
  assumes q: "is_1d q d s n" and ap: "apart d s (unat n)"
  shows "exec q m x = (if x \<in> span d (unat n) then m (of_nat (unat s + (unat x - unat d))) else m x)"
proof (cases "unat x < 2 ^ 63")
  case True
  let ?st = "dma_reset\<lparr>next_id := req_id q, fe_sstr := req_sstr q, fe_dstr := req_dstr q, fe_reps := req_reps q, dmem := m\<rparr>"
  show ?thesis
  proof (cases "n = 0")
    case False
    then have n: "n > 0" by (simp add: word_gt_0)
    have "req_1d (req_id q) (ucast d) (ucast s) n ?st = q"
      using q by (cases q) (simp add: req_1d_def is_1d_def)
    then have "dma_settled exec (snd (snrt_dma_start_1d d s n ?st)) = exec q m"
      by (simp add: dma_settled_def snrt_dma_start_1d_def start_1d_wideptr_effect [OF n] dma_reset_def)
    then show ?thesis
      using settled_start_1d [of d n s "unat x" ?st] ap True
      by (simp add: rd_def dma_settled_def span_def apart_def dma_reset_def)
  next
    case True
    then have "dma_pairs q = []" using q by (simp add: dma_pairs_def is_1d_def dma_rows_def)
    then show ?thesis using exec_frame [of x q m] True by (auto simp: span_def)
  qed
next
  case False
  have nb: "unat n < 2 ^ 32" using unat_bound [of n] by simp
  have pairs: "set (dma_pairs q) = {(ucast d + of_nat j, ucast s + of_nat j) |j. j < unat n}"
    using q by (force simp: set_dma_pairs is_1d_def dma_rows_def dma_dst_addr_def dma_src_addr_def)
  have "x \<notin> fst ` set (dma_pairs q)"
  proof
    assume "x \<in> fst ` set (dma_pairs q)"
    then obtain j where j: "x = ucast d + of_nat j" "j < unat n" by (auto simp: pairs)
    then have "unat x = unat d + j" using nb unat_offset_u64 [of j d] by simp
    then show False using False nb j(2) unat_bound [of d] by simp
  qed
  moreover have "x \<notin> span d (unat n)" using False ap by (simp add: span_def apart_def)
  ultimately show ?thesis by (simp add: exec_frame)
qed

lemma exec_1d: "is_1d q d s n \<Longrightarrow> apart d s (unat n) \<Longrightarrow> exec q = effect (copy_action (unat n) d s)"
  by (intro ext) (simp add: copy_action_def exec_1d_at del: of_nat_add)

lemma fold_exec_1d:
  assumes "list_all2 (\<lambda>q (d, s). is_1d q d s n \<and> apart d s (unat n)) qs ps"
  shows "fold exec qs = fold effect (map (\<lambda>(d, s). copy_action (unat n) d s) ps)"
  using assms by (induction rule: list_all2_induct) (auto simp: exec_1d)

end


text \<open>The bytes of a 32-bit word in memory.\<close>

lemma bit_load32:
  "bit (load32 p m) n \<longleftrightarrow> n < 32 \<and> bit (m (ucast (p + of_nat (n div 8)))) (n mod 8)"
proof -
  define bs where "bs = map (\<lambda>i. m (ucast (p + of_nat i))) [0, 1, 2, 3 :: nat]"
  have "load32 p m = word_of_int (horner_sum uint (2 ^ LENGTH(8)) bs)"
    unfolding load32_def word_rcat_def bs_def by (simp only: comp_def list.map rev.simps append.simps)
  then have "bit (load32 p m) n \<longleftrightarrow> n < 32 \<and> n div 8 < length bs \<and> bit (bs ! (n div 8)) (n mod 8)"
    using bit_horner_sum_uint_exp_iff [of bs n] by (simp only: bit_word_of_int_iff) simp
  moreover have "length bs = 4" by (simp add: bs_def)
  moreover have "bs ! j = m (ucast (p + of_nat j))" if "j < 4" for j
  proof -
    have "bs = map (\<lambda>i. m (ucast (p + of_nat i))) [0..<4]" by (simp add: bs_def upt_rec)
    then show ?thesis using that by simp
  qed
  ultimately show ?thesis by auto
qed

lemma byte_of_load32:
  assumes "k < 4"
  shows "m (ucast (p + of_nat k)) = ucast (drop_bit (8 * k) (load32 p m))"
proof (rule bit_word_eqI)
  fix i assume "i < LENGTH(8)"
  then show "bit (m (ucast (p + of_nat k))) i = bit (ucast (drop_bit (8 * k) (load32 p m)) :: u8) i"
    using assms by (simp add: bit_load32 bit_simps)
qed

lemma load32_cong:
  assumes "\<And>k. k < 4 \<Longrightarrow> m (ucast (p + of_nat k)) = m' (ucast (p' + of_nat k))"
  shows "load32 p m = load32 p' m'"
  by (rule bit_word_eqI) (simp add: bit_load32 assms)

text \<open>
  The MAC engine in its simple multiplication mode, as \<open>snax_mac_setup_simple_mult\<close> documents it:
  launched with the addresses of \<open>a\<close>, \<open>b\<close>, \<open>o\<close> and the length in its registers \<open>f\<close>, it stores the
  32-bit products from \<open>o\<close> on.
\<close>

definition mult_setup :: "(u32 \<Rightarrow> u32) \<Rightarrow> bool" where
  "mult_setup f \<longleftrightarrow> f 0x3d4 = 1 \<and> f 0x3d6 = mac_mode_code simple_mult_mode \<and>
     apart (f 0x3d3) (f 0x3d0) (4 * unat (f 0x3d5)) \<and> apart (f 0x3d3) (f 0x3d1) (4 * unat (f 0x3d5))"

locale mac_engine =
  fixes hw :: "(u32 \<Rightarrow> u32) \<Rightarrow> mem \<Rightarrow> mem"
  assumes hw_frame: "mult_setup f \<Longrightarrow> x \<notin> span (f 0x3d3) (4 * unat (f 0x3d5)) \<Longrightarrow> hw f m x = m x"
    and hw_product: "mult_setup f \<Longrightarrow> j < unat (f 0x3d5) \<Longrightarrow>
      load32 (f 0x3d3 + 4 * of_nat j) (hw f m) = load32 (f 0x3d0 + 4 * of_nat j) m * load32 (f 0x3d1 + 4 * of_nat j) m"

text \<open>Word \<open>j\<close> of the array at \<open>p\<close>.\<close>

lemma word_addr:
  assumes "unat p + 4 * n \<le> 2 ^ 32" "j < n" "k < 4"
  shows "ucast (p + 4 * of_nat j + of_nat k :: ptr) = (of_nat (unat p + (4 * j + k)) :: u64)"
proof -
  have "ucast (p + of_nat (4 * j + k) :: ptr) = (ucast p + of_nat (4 * j + k) :: u64)"
    using assms by (intro ucast_offset_nowrap) linarith
  then show ?thesis by (simp add: add.assoc)
qed

lemma unat_word_addr:
  assumes "unat p + 4 * n \<le> 2 ^ 32" "j < n" "k < 4"
  shows "unat (ucast (p + 4 * of_nat j + of_nat k :: ptr) :: u64) = unat p + (4 * j + k)"
  unfolding word_addr [OF assms] by (rule unat_of_nat_small) (use assms in simp)

lemma word_in_span:
  assumes "unat p + 4 * n \<le> 2 ^ 32" "j < n" "k < 4"
  shows "(ucast (p + 4 * of_nat j + of_nat k :: ptr) :: u64) \<in> span p (4 * n)"
  using assms unat_word_addr [OF assms] by (simp add: span_def)

lemma span_word:
  assumes "unat p + 4 * n \<le> 2 ^ 32" "x \<in> span p (4 * n)"
  obtains j k where "j < n" "k < 4" "x = ucast (p + 4 * of_nat j + of_nat k :: ptr)"
proof (rule that)
  let ?j = "(unat x - unat p) div 4" and ?k = "(unat x - unat p) mod 4"
  show j: "?j < n" and k: "?k < 4" using assms(2) by (auto simp: span_def)
  have "unat x = unat p + (4 * ?j + ?k)" using assms(2) by (simp add: span_def)
  then have "unat x = unat (ucast (p + 4 * of_nat ?j + of_nat ?k :: ptr) :: u64)"
    using unat_word_addr [OF assms(1) j k] by simp
  then show "x = ucast (p + 4 * of_nat ?j + of_nat ?k :: ptr)" by (rule unsigned_word_eqI)
qed

text \<open>Words that agree on a span.\<close>

lemma load32_span_cong:
  assumes "unat p + 4 * n \<le> 2 ^ 32" "j < n" "\<And>y. y \<in> span p (4 * n) \<Longrightarrow> m y = m' y"
  shows "load32 (p + 4 * of_nat j) m = load32 (p + 4 * of_nat j) m'"
  by (rule load32_cong) (use assms word_in_span in blast)

definition mac_action :: "((u32 \<Rightarrow> u32) \<Rightarrow> mem \<Rightarrow> mem) \<Rightarrow> (u32 \<Rightarrow> u32) \<Rightarrow> action" where
  "mac_action hw f = (span (f 0x3d3) (4 * unat (f 0x3d5)),
     span (f 0x3d0) (4 * unat (f 0x3d5)) \<union> span (f 0x3d1) (4 * unat (f 0x3d5)), hw f)"

context mac_engine
begin

lemma mac_action_ok:
  assumes f: "mult_setup f"
  shows "action_ok (mac_action hw f)"
proof -
  let ?n = "unat (f 0x3d5)"
  have b: "unat (f 0x3d3) + 4 * ?n \<le> 2 ^ 32" "unat (f 0x3d0) + 4 * ?n \<le> 2 ^ 32" "unat (f 0x3d1) + 4 * ?n \<le> 2 ^ 32"
    using f by (simp_all add: mult_setup_def apart_def)
  have "hw f m x = hw f m' x"
    if eq: "\<forall>y \<in> span (f 0x3d0) (4 * ?n) \<union> span (f 0x3d1) (4 * ?n). m y = m' y"
      and x: "x \<in> span (f 0x3d3) (4 * ?n)" for m m' x
  proof -
    obtain j k where j: "j < ?n" "k < 4" and xe: "x = ucast (f 0x3d3 + 4 * of_nat j + of_nat k :: ptr)"
      using span_word [OF b(1) x] .
    have "load32 (f 0x3d3 + 4 * of_nat j) (hw f m) = load32 (f 0x3d3 + 4 * of_nat j) (hw f m')"
      using load32_span_cong [OF b(2) j(1), of m m'] load32_span_cong [OF b(3) j(1), of m m'] eq
      by (simp add: hw_product [OF f j(1)])
    then show ?thesis unfolding xe byte_of_load32 [OF j(2)] by simp
  qed
  then show ?thesis using hw_frame [OF f] by (simp add: action_ok_def mac_action_def)
qed

end

text \<open>A sequential engine that obeys the laws.\<close>

definition mac_seq :: "(u32 \<Rightarrow> u32) \<Rightarrow> mem \<Rightarrow> mem" where
  "mac_seq f m = for_upto (unat (f 0x3d5)) (\<lambda>j m. store32 (f 0x3d3 + 4 * of_nat j)
     (load32 (f 0x3d0 + 4 * of_nat j) m * load32 (f 0x3d1 + 4 * of_nat j) m) m) m"

lemma store32_other:
  assumes "\<And>k. k < 4 \<Longrightarrow> ucast (p + of_nat k) \<noteq> x"
  shows "store32 p v m x = m x"
  unfolding store32_def by (rule for_upto_writes_miss) (rule assms)

lemma load32_store32:
  assumes "unat p + 4 \<le> 2 ^ 32"
  shows "load32 p (store32 p v m) = v"
proof (rule bit_word_eqI)
  fix i assume i: "i < LENGTH(32)"
  have inj: "inj_on (\<lambda>i. ucast (p + of_nat i) :: u64) {..<4}"
  proof (rule inj_onI)
    fix x y :: nat assume "x \<in> {..<4}" "y \<in> {..<4}" and eq: "(ucast (p + of_nat x) :: u64) = ucast (p + of_nat y)"
    then show "x = y"
      using unat_word_addr [of p 1 0 x] unat_word_addr [of p 1 0 y] assms by simp
  qed
  have "store32 p v m (ucast (p + of_nat (i div 8))) = ucast (drop_bit (8 * (i div 8)) v)"
    unfolding store32_def using i by (intro for_upto_writes_hit [OF inj]) simp
  then show "bit (load32 p (store32 p v m)) i = bit v i"
    using i by (simp add: bit_load32 bit_simps)
qed

lemma mac_seq_result:
  assumes f: "mult_setup f"
  shows "(\<forall>x. x \<notin> span (f 0x3d3) (4 * unat (f 0x3d5)) \<longrightarrow> mac_seq f m x = m x) \<and>
    (\<forall>j < unat (f 0x3d5). load32 (f 0x3d3 + 4 * of_nat j) (mac_seq f m) =
      load32 (f 0x3d0 + 4 * of_nat j) m * load32 (f 0x3d1 + 4 * of_nat j) m)"
proof -
  let ?n = "unat (f 0x3d5)" and ?o = "f 0x3d3"
  let ?v = "\<lambda>j. load32 (f 0x3d0 + 4 * of_nat j) m * load32 (f 0x3d1 + 4 * of_nat j) m"
  let ?P = "\<lambda>k t. (\<forall>x. x \<notin> span ?o (4 * ?n) \<longrightarrow> t x = m x) \<and> (\<forall>j<k. load32 (?o + 4 * of_nat j) t = ?v j)"
  have b: "unat ?o + 4 * ?n \<le> 2 ^ 32" "unat (f 0x3d0) + 4 * ?n \<le> 2 ^ 32" "unat (f 0x3d1) + 4 * ?n \<le> 2 ^ 32"
    and sp: "span ?o (4 * ?n) \<inter> span (f 0x3d0) (4 * ?n) = {}" "span ?o (4 * ?n) \<inter> span (f 0x3d1) (4 * ?n) = {}"
    using f by (auto simp: mult_setup_def apart_def intro!: span_disjoint)
  show "?P ?n (mac_seq f m)"
    unfolding mac_seq_def
  proof (rule for_upto_invariant [where P = ?P])
    fix k t assume k: "k < ?n" and P: "?P k t"
    define w where "w = load32 (f 0x3d0 + 4 * of_nat k) t * load32 (f 0x3d1 + 4 * of_nat k) t"
    have "t y = m y" if "y \<in> span (f 0x3d0) (4 * ?n) \<union> span (f 0x3d1) (4 * ?n)" for y
      using P sp that by blast
    then have w: "w = ?v k"
      using load32_span_cong [OF b(2) k, of t m] load32_span_cong [OF b(3) k, of t m] by (simp add: w_def)
    have other: "store32 (?o + 4 * of_nat k) w t (ucast (?o + 4 * of_nat j + of_nat i :: ptr)) =
        t (ucast (?o + 4 * of_nat j + of_nat i :: ptr))" if "j < k" "i < 4" for i j
    proof (rule store32_other)
      fix i' assume "i' < (4 :: nat)"
      then have "unat (ucast (?o + 4 * of_nat k + of_nat i' :: ptr) :: u64) \<noteq> unat (ucast (?o + 4 * of_nat j + of_nat i :: ptr) :: u64)"
        using unat_word_addr [OF b(1) k, of i'] unat_word_addr [OF b(1), of j i] that k by simp
      then show "ucast (?o + 4 * of_nat k + of_nat i' :: ptr) \<noteq> (ucast (?o + 4 * of_nat j + of_nat i :: ptr) :: u64)" by metis
    qed
    have "store32 (?o + 4 * of_nat k) w t x = m x" if "x \<notin> span ?o (4 * ?n)" for x
      using that P word_in_span [OF b(1) k] by (subst store32_other) auto
    moreover have "load32 (?o + 4 * of_nat j) (store32 (?o + 4 * of_nat k) w t) = ?v j" if "j < Suc k" for j
    proof (cases "j = k")
      case True
      have "unat (?o + 4 * of_nat k) = unat ?o + 4 * k"
        using unat_word_addr [OF b(1) k, of 0] unat_ucast_u64 [of "?o + 4 * of_nat k"] by simp
      then show ?thesis using True b(1) k w by (simp add: load32_store32)
    next
      case False
      then have "load32 (?o + 4 * of_nat j) (store32 (?o + 4 * of_nat k) w t) = load32 (?o + 4 * of_nat j) t"
        using that by (intro load32_cong other) auto
      then show ?thesis using P False that by simp
    qed
    ultimately show "?P (Suc k) (store32 (?o + 4 * of_nat k)
        (load32 (f 0x3d0 + 4 * of_nat k) t * load32 (f 0x3d1 + 4 * of_nat k) t) t)"
      unfolding w_def by blast
  qed simp
qed

interpretation seq_mac: mac_engine mac_seq
  by unfold_locales (use mac_seq_result in blast)+

section \<open>Phases between barriers\<close>

text \<open>
  The accesses of a core to the registers of the engine; writing register \<open>0x3c0\<close> launches it. The
  loop that polls its status ends when it is done.
\<close>

fun csr_run :: "((u32 \<Rightarrow> u32) \<Rightarrow> mem \<Rightarrow> mem) \<Rightarrow> csr_op list \<Rightarrow> (u32 \<Rightarrow> u32) \<times> mem \<Rightarrow> (u32 \<Rightarrow> u32) \<times> mem" where
  "csr_run hw [] fm = fm"
| "csr_run hw (Csr_Write a v # ops) (f, m) = csr_run hw ops (f(a := v), if a = 0x3c0 then hw f m else m)"
| "csr_run hw (Csr_Read a # ops) fm = csr_run hw ops fm"
| "csr_run hw (Csr_Poll rs # ops) fm = csr_run hw ops fm"

text \<open>
  One phase: the data mover issues the transfers of its segment, of which \<open>k\<close> complete before the
  compute core launches the engine and the others before the barrier.
\<close>

definition barrier_phase ::
  "(dma_req \<Rightarrow> mem \<Rightarrow> mem) \<Rightarrow> ((u32 \<Rightarrow> u32) \<Rightarrow> mem \<Rightarrow> mem) \<Rightarrow> nat \<Rightarrow> segment \<Rightarrow> segment \<Rightarrow>
     dma_state \<times> (u32 \<Rightarrow> u32) \<Rightarrow> dma_state \<times> (u32 \<Rightarrow> u32)" where
  "barrier_phase exec hw k dm_seg compute_seg s =
     (let d = adma (dm_seg \<lparr>adma = fst s, acsr = []\<rparr>);
          d = dma_retire exec k d;
          (f, m) = csr_run hw (acsr (compute_seg \<lparr>adma = d, acsr = []\<rparr>)) (snd s, dmem d);
          d = d\<lparr>dmem := m\<rparr>
      in (dma_retire exec (length (pending d)) d, f))"

text \<open>The phases of a program whose segments are \<open>dm\<close> on the data mover and \<open>compute\<close> on the compute core.\<close>

definition run_phases ::
  "(dma_req \<Rightarrow> mem \<Rightarrow> mem) \<Rightarrow> ((u32 \<Rightarrow> u32) \<Rightarrow> mem \<Rightarrow> mem) \<Rightarrow> (nat \<Rightarrow> nat) \<Rightarrow> segment list \<Rightarrow> segment list \<Rightarrow>
     dma_state \<times> (u32 \<Rightarrow> u32) \<Rightarrow> dma_state \<times> (u32 \<Rightarrow> u32)" where
  "run_phases exec hw ks dm compute =
     for_upto (length dm) (\<lambda>i. barrier_phase exec hw (ks i) (dm ! i) (compute ! i))"

text \<open>The registers after \<open>snax_mac_setup_simple_mult\<close>, and the accesses that set up, launch and await the engine.\<close>

definition mult_regs :: "ptr \<Rightarrow> ptr \<Rightarrow> ptr \<Rightarrow> u32 \<Rightarrow> (u32 \<Rightarrow> u32) \<Rightarrow> u32 \<Rightarrow> u32" where
  "mult_regs a b oo n f = f(0x3d0 := a, 0x3d1 := b, 0x3d3 := oo, 0x3d4 := 1, 0x3d5 := n, 0x3d6 := 1)"

lemma csr_run_mult:
  "csr_run hw (snax_mac_setup_simple_mult a b oo n @ snax_mac_launch @ snax_mac_sw_barrier) (f, m) =
    ((mult_regs a b oo n f)(0x3c0 := 0, 0x3c5 := 0), hw (mult_regs a b oo n f) m)"
  by (simp add: snax_mac_setup_simple_mult_def snax_mac_launch_def snax_mac_sw_barrier_def snax_mac_sw_clear_def mult_regs_def)

lemma mult_setup_regs:
  "mult_setup (mult_regs a b oo n f) \<longleftrightarrow> apart oo a (4 * unat n) \<and> apart oo b (4 * unat n)"
  by (simp add: mult_setup_def mult_regs_def)

lemma mac_action_regs [simp]:
  "writes (mac_action hw (mult_regs a b oo n f)) = span oo (4 * unat n)"
  "reads (mac_action hw (mult_regs a b oo n f)) = span a (4 * unat n) \<union> span b (4 * unat n)"
  "effect (mac_action hw f') = hw f'"
  by (simp_all add: mac_action_def mult_regs_def)

text \<open>Issuing transfers.\<close>

lemma start_1d_issue:
  assumes "n > 0"
  shows "\<exists>q. is_1d q d s n \<and> pending (adma (start_1d d s n st)) = pending (adma st) @ [q] \<and>
    dmem (adma (start_1d d s n st)) = dmem (adma st)"
  using assms
  by (intro exI [of _ "req_1d (next_id (adma st)) (ucast d) (ucast s) n (adma st)"])
    (simp add: start_1d_def snrt_dma_start_1d_def start_1d_wideptr_effect is_1d_def req_1d_def)

definition issues :: "segment \<Rightarrow> u32 \<Rightarrow> (ptr \<times> ptr) list \<Rightarrow> bool" where
  "issues g n ps \<longleftrightarrow> (\<forall>st. \<exists>qs. list_all2 (\<lambda>q (d, s). is_1d q d s n) qs ps \<and>
     pending (adma (g st)) = pending (adma st) @ qs \<and> dmem (adma (g st)) = dmem (adma st))"

lemma issues_id: "issues id n []"
  by (simp add: issues_def)

lemma issues_start_1d: "n > 0 \<Longrightarrow> issues (start_1d d s n) n [(d, s)]"
  unfolding issues_def
proof
  fix st assume "n > 0"
  then obtain q where "is_1d q d s n \<and> pending (adma (start_1d d s n st)) = pending (adma st) @ [q] \<and>
    dmem (adma (start_1d d s n st)) = dmem (adma st)" using start_1d_issue by blast
  then show "\<exists>qs. list_all2 (\<lambda>q (d, s). is_1d q d s n) qs [(d, s)] \<and>
     pending (adma (start_1d d s n st)) = pending (adma st) @ qs \<and> dmem (adma (start_1d d s n st)) = dmem (adma st)"
    by (intro exI [of _ "[q]"]) simp
qed

lemma issues_comp:
  assumes "issues g n ps" "issues h n rs" shows "issues (h \<circ> g) n (ps @ rs)"
  unfolding issues_def
proof
  fix st
  obtain qs where qs: "list_all2 (\<lambda>q (d, s). is_1d q d s n) qs ps" "pending (adma (g st)) = pending (adma st) @ qs"
    "dmem (adma (g st)) = dmem (adma st)" using assms(1) unfolding issues_def by blast
  obtain us where us: "list_all2 (\<lambda>q (d, s). is_1d q d s n) us rs" "pending (adma (h (g st))) = pending (adma (g st)) @ us"
    "dmem (adma (h (g st))) = dmem (adma (g st))" using assms(2) unfolding issues_def by blast
  show "\<exists>qs. list_all2 (\<lambda>q (d, s). is_1d q d s n) qs (ps @ rs) \<and>
     pending (adma ((h \<circ> g) st)) = pending (adma st) @ qs \<and> dmem (adma ((h \<circ> g) st)) = dmem (adma st)"
    using qs us by (intro exI [of _ "qs @ us"]) (simp add: list_all2_appendI)
qed

text \<open>
  The memory after a phase: the transfers and the engine act independently of each other, so that
  the schedule has no influence.
\<close>

lemma retire_rest:
  "pending (dma_retire exec (length (pending d)) d) = []"
  "dmem (dma_retire exec (length (pending d)) d) = fold exec (pending d) (dmem d)"
  by (simp_all add: dma_retire_def)

lemma sorted_wrt_indep_swap:
  assumes "sorted_wrt indep (xs @ ys @ zs)" shows "sorted_wrt indep (xs @ zs @ ys)"
proof -
  have "\<forall>x\<in>set zs. \<forall>y\<in>set ys. indep x y" using assms indep_sym by (simp add: sorted_wrt_append) blast
  then show ?thesis using assms by (simp add: sorted_wrt_append ball_Un)
qed

lemma barrier_phase_memory:
  assumes "dma_backend exec" and idle: "pending (fst s) = []"
    and iss: "issues dm_seg n ps" and ap: "\<And>d s. (d, s) \<in> set ps \<Longrightarrow> apart d s (unat n)"
    and run: "\<And>d m. csr_run hw (acsr (compute_seg \<lparr>adma = d, acsr = []\<rparr>)) (snd s, m) = (f', fold effect cs m)"
    and ok: "\<And>c. c \<in> set cs \<Longrightarrow> action_ok c"
    and ind: "sorted_wrt indep (map (\<lambda>(d, s). copy_action (unat n) d s) ps @ cs)"
  shows "\<exists>as. pending (fst (barrier_phase exec hw k dm_seg compute_seg s)) = [] \<and>
    dmem (fst (barrier_phase exec hw k dm_seg compute_seg s)) = fold effect as (dmem (fst s)) \<and>
    set as = (\<lambda>(d, s). copy_action (unat n) d s) ` set ps \<union> set cs \<and>
    (\<forall>a\<in>set as. action_ok a) \<and> sorted_wrt indep as"
proof -
  let ?c = "\<lambda>(d, s). copy_action (unat n) d s" and ?d = "adma (dm_seg \<lparr>adma = fst s, acsr = []\<rparr>)"
  define as where "as = map ?c (take k ps) @ cs @ map ?c (drop k ps)"
  obtain qs where qs: "list_all2 (\<lambda>q (d, s). is_1d q d s n) qs ps"
    and pend: "pending ?d = qs" and mem: "dmem ?d = dmem (fst s)"
    using iss idle unfolding issues_def by (metis append_Nil app_state.select_convs(1))
  from qs have "list_all2 (\<lambda>q (d, s). is_1d q d s n \<and> apart d s (unat n)) qs ps"
    by (rule list.rel_mono_strong) (use ap in auto)
  then have exec: "fold exec (take k qs) = fold effect (map ?c (take k ps))"
      "fold exec (drop k qs) = fold effect (map ?c (drop k ps))"
    using dma_backend.fold_exec_1d [OF assms(1)] by (blast intro: list_all2_takeI list_all2_dropI)+
  have "barrier_phase exec hw k dm_seg compute_seg s =
      (let d = (dma_retire exec k ?d)\<lparr>dmem := fold effect cs (dmem (dma_retire exec k ?d))\<rparr>
       in (dma_retire exec (length (pending d)) d, f'))"
    by (simp add: barrier_phase_def run Let_def)
  then have "pending (fst (barrier_phase exec hw k dm_seg compute_seg s)) = []"
      "dmem (fst (barrier_phase exec hw k dm_seg compute_seg s)) = fold effect as (dmem (fst s))"
    by (simp_all add: Let_def retire_rest as_def exec [symmetric] dma_retire_def pend mem)
  moreover have "set as = ?c ` set ps \<union> set cs"
  proof -
    have "set ps = set (take k ps) \<union> set (drop k ps)" by (metis append_take_drop_id set_append)
    then have "?c ` set ps = ?c ` set (take k ps) \<union> ?c ` set (drop k ps)" by (simp only: image_Un)
    then show ?thesis unfolding as_def by auto
  qed
  moreover have "\<forall>a\<in>set as. action_ok a"
    unfolding calculation(3) using ok ap copy_action_ok by fastforce
  moreover have "sorted_wrt indep as"
  proof -
    have "map ?c ps = map ?c (take k ps) @ map ?c (drop k ps)" by (simp flip: map_append)
    with ind have "sorted_wrt indep (map ?c (take k ps) @ map ?c (drop k ps) @ cs)" by simp
    then show ?thesis unfolding as_def by (rule sorted_wrt_indep_swap)
  qed
  ultimately show ?thesis by blast
qed

text \<open>Words after independent actions.\<close>

lemma words_keep:
  assumes "\<And>a. a \<in> set as \<Longrightarrow> action_ok a" "\<And>a. a \<in> set as \<Longrightarrow> writes a \<inter> span p (4 * n) = {}"
    and "unat p + 4 * n \<le> 2 ^ 32" "j < n"
  shows "load32 (p + 4 * of_nat j) (fold effect as m) = load32 (p + 4 * of_nat j) m"
  by (rule load32_span_cong [OF assms(3,4)], rule fold_indep_frame) (use assms(1,2) in blast)+

lemma words_hit:
  assumes "\<And>a. a \<in> set as \<Longrightarrow> action_ok a" "sorted_wrt indep as" "a \<in> set as" "writes a = span p (4 * n)"
    and "unat p + 4 * n \<le> 2 ^ 32" "j < n"
  shows "load32 (p + 4 * of_nat j) (fold effect as m) = load32 (p + 4 * of_nat j) (effect a m)"
  by (rule load32_span_cong [OF assms(5,6)], rule fold_indep_hit [OF assms(1,2,3)]) (simp_all add: assms(4))

lemma copy_words:
  assumes "apart d s (4 * n)" "j < n"
  shows "load32 (d + 4 * of_nat j) (effect (copy_action (4 * n) d s) m) = load32 (s + 4 * of_nat j) m"
proof (rule load32_cong)
  fix k assume k: "k < (4 :: nat)"
  have b: "unat d + 4 * n \<le> 2 ^ 32" "unat s + 4 * n \<le> 2 ^ 32" using assms(1) by (simp_all add: apart_def)
  have "unat s + (unat (ucast (d + 4 * of_nat j + of_nat k :: ptr) :: u64) - unat d) = unat s + (4 * j + k)"
    using unat_word_addr [OF b(1) assms(2) k] by simp
  then show "effect (copy_action (4 * n) d s) m (ucast (d + 4 * of_nat j + of_nat k)) = m (ucast (s + 4 * of_nat j + of_nat k))"
    using word_in_span [OF b(1) assms(2) k]
    by (simp add: copy_action_def del: of_nat_add) (simp only: word_addr [OF b(2) assms(2) k])
qed

section \<open>The tiled program\<close>

text \<open>The address of tile \<open>i\<close> of an array, for tiles of \<open>ts\<close> words.\<close>

definition tp :: "u32 \<Rightarrow> ptr \<Rightarrow> nat \<Rightarrow> ptr" where
  "tp ts p i = p + 4 * (of_nat i * ts)"

lemma tp_words: "tp ts p i + 4 * of_nat j = p + 4 * of_nat (i * unat ts + j)"
  by (simp add: tp_def distrib_left)

lemma unat_tp:
  assumes "unat p + 4 * (N * unat ts) \<le> 2 ^ 32" "i < N" "0 < unat ts"
  shows "unat (tp ts p i) = unat p + 4 * (i * unat ts)"
proof -
  have "i * unat ts < N * unat ts" using assms by simp
  then have "unat p + 4 * (i * unat ts) < 2 ^ 32" using assms(1) by linarith
  then have "unat (p + of_nat (4 * (i * unat ts))) = unat p + 4 * (i * unat ts)"
    by (subst unat_add_nowrap) (simp_all add: unat_of_nat_small del: of_nat_mult of_nat_add)
  then show ?thesis by (simp add: tp_def)
qed

lemma tile_end:
  fixes i N T :: nat
  assumes "i < N" shows "i * T + T \<le> N * T"
proof -
  have "(i + 1) * T \<le> N * T" using assms by (intro mult_right_mono) auto
  then show ?thesis by simp
qed

lemma tile_fits:
  assumes "unat p + 4 * (N * unat ts) \<le> 2 ^ 32" "i < N" "0 < unat ts"
  shows "unat (tp ts p i) + 4 * unat ts \<le> 2 ^ 32"
    "span (tp ts p i) (4 * unat ts) \<subseteq> span p (4 * (N * unat ts))"
  using unat_tp [OF assms] tile_end [OF assms(2), of "unat ts"] assms(1) by (simp_all add: span_mono)

lemma tiles_apart:
  assumes "unat p + 4 * (N * unat ts) \<le> 2 ^ 32" "i < N" "j < N" "i \<noteq> j" "0 < unat ts"
  shows "span (tp ts p i) (4 * unat ts) \<inter> span (tp ts p j) (4 * unat ts) = {}"
proof (rule span_disjoint)
  show "unat (tp ts p i) + 4 * unat ts \<le> unat (tp ts p j) \<or> unat (tp ts p j) + 4 * unat ts \<le> unat (tp ts p i)"
    using unat_tp [OF assms(1,2,5)] unat_tp [OF assms(1,3,5)] tile_end [of i j "unat ts"] tile_end [of j i "unat ts"] assms(4)
    by (cases "i < j") auto
qed

lemma tile_not_before:
  assumes "unat p + 4 * (N * unat ts) \<le> 2 ^ 32" "i < N" "0 < unat ts" "k \<le> i"
  shows "span (tp ts p i) (4 * unat ts) \<inter> span p (4 * (k * unat ts)) = {}"
proof (rule span_disjoint)
  show "unat (tp ts p i) + 4 * unat ts \<le> unat p \<or> unat p + 4 * (k * unat ts) \<le> unat (tp ts p i)"
    using unat_tp [OF assms(1,2,3)] assms(4) by (simp add: mult_le_mono1)
qed

text \<open>
  The layout that the program relies on: the vectors in L1 and in L3 fit into the address space, the
  output does not overlap the inputs, and none of them overlaps the buffers in L1. The tile size
  divides the vector length (the warning in the source).
\<close>

definition tiled_layout :: "u32 \<Rightarrow> u32 \<Rightarrow> ptr \<Rightarrow> ptr \<Rightarrow> ptr \<Rightarrow> ptr \<Rightarrow> bool" where
  "tiled_layout VEC_LEN TILE_SIZE l1_next A B OUT_TEST \<longleftrightarrow>
     (let n = 4 * unat VEC_LEN; L = unat l1_next; a = unat A; b = unat B; c = unat OUT_TEST
      in 0 < TILE_SIZE \<and> unat TILE_SIZE dvd unat VEC_LEN \<and> L + 3 * n \<le> 2 ^ 32 \<and>
         a + n \<le> 2 ^ 32 \<and> b + n \<le> 2 ^ 32 \<and> c + n \<le> 2 ^ 32 \<and>
         (a + n \<le> c \<or> c + n \<le> a) \<and> (b + n \<le> c \<or> c + n \<le> b) \<and>
         (a + n \<le> L \<or> L + 3 * n \<le> a) \<and> (b + n \<le> L \<or> L + 3 * n \<le> b) \<and> (c + n \<le> L \<or> L + 3 * n \<le> c))"

text \<open>An array of \<open>N\<close> tiles, and the program's arrays: the buffers in L1, the inputs and the output.\<close>

abbreviation array :: "u32 \<Rightarrow> nat \<Rightarrow> ptr \<Rightarrow> u64 set" where
  "array T N p \<equiv> span p (4 * (N * unat T))"

abbreviation tile :: "u32 \<Rightarrow> ptr \<Rightarrow> nat \<Rightarrow> u64 set" where
  "tile T p i \<equiv> span (tp T p i) (4 * unat T)"

definition fits :: "u32 \<Rightarrow> nat \<Rightarrow> ptr \<Rightarrow> bool" where
  "fits T N p \<longleftrightarrow> 0 < unat T \<and> unat p + 4 * (N * unat T) \<le> 2 ^ 32"

definition arrays :: "u32 \<Rightarrow> nat \<Rightarrow> ptr \<Rightarrow> ptr \<Rightarrow> ptr \<Rightarrow> ptr \<Rightarrow> ptr \<Rightarrow> ptr \<Rightarrow> bool" where
  "arrays T N la lb lo A B OUT \<longleftrightarrow> (\<forall>p\<in>{la, lb, lo, A, B, OUT}. fits T N p) \<and>
     (\<forall>p\<in>{la, lb, lo, OUT}. \<forall>q\<in>{A, B}. array T N p \<inter> array T N q = {}) \<and>
     array T N la \<inter> array T N lb = {} \<and> array T N la \<inter> array T N lo = {} \<and> array T N la \<inter> array T N OUT = {} \<and>
     array T N lb \<inter> array T N lo = {} \<and> array T N lb \<inter> array T N OUT = {} \<and> array T N lo \<inter> array T N OUT = {}"

lemma tile_array: "fits T N p \<Longrightarrow> i < N \<Longrightarrow> tile T p i \<subseteq> array T N p"
  unfolding fits_def using tile_fits(2) by blast

lemma tile_apart: "fits T N p \<Longrightarrow> i < N \<Longrightarrow> j < N \<Longrightarrow> i \<noteq> j \<Longrightarrow> tile T p i \<inter> tile T p j = {}"
  unfolding fits_def using tiles_apart by blast

lemma disjoint_apart:
  assumes "span d n \<inter> span s n = {}" "unat d + n \<le> 2 ^ 32" "unat s + n \<le> 2 ^ 32"
  shows "apart d s n"
proof (rule ccontr)
  assume "\<not> apart d s n"
  then have lt: "unat s < unat d + n" "unat d < unat s + n" "0 < n" using assms by (auto simp: apart_def)
  have "max (unat d) (unat s) < 2 ^ 64" using unat_bound [of d] unat_bound [of s] by simp
  then have "unat (of_nat (max (unat d) (unat s)) :: u64) = max (unat d) (unat s)" by (intro unat_of_nat_small) simp
  then have "of_nat (max (unat d) (unat s)) \<in> span d n \<inter> span s n" using lt by (simp add: span_def)
  then show False using assms(1) by blast
qed

lemma tile_apart_arrays:
  assumes "fits T N p" "fits T N q" "array T N p \<inter> array T N q = {}" "i < N" "j < N"
  shows "tile T p i \<inter> tile T q j = {}" "apart (tp T p i) (tp T q j) (4 * unat T)"
proof -
  show *: "tile T p i \<inter> tile T q j = {}"
    using tile_array [OF assms(1,4)] tile_array [OF assms(2,5)] assms(3) by blast
  show "apart (tp T p i) (tp T q j) (4 * unat T)"
    using assms tile_fits(1) by (intro disjoint_apart *) (auto simp: fits_def)
qed

text \<open>An action that fills tile \<open>k\<close> extends what is known of the first \<open>k\<close> tiles.\<close>

lemma array_extend:
  assumes ok: "\<And>a. a \<in> set as \<Longrightarrow> action_ok a" and ind: "sorted_wrt indep as" and p: "fits T N p" "k < N"
    and a: "a \<in> set as" "writes a = tile T p k"
    and others: "\<And>b. b \<in> set as \<Longrightarrow> b \<noteq> a \<Longrightarrow> writes b \<inter> array T N p = {}"
    and old: "\<forall>j < k * unat T. load32 (p + 4 * of_nat j) m = F j"
    and new: "\<And>r. r < unat T \<Longrightarrow> load32 (tp T p k + 4 * of_nat r) (effect a m) = F (k * unat T + r)"
  shows "\<forall>j < Suc k * unat T. load32 (p + 4 * of_nat j) (fold effect as m) = F j"
proof (intro allI impI)
  fix j assume j: "j < Suc k * unat T"
  have pf: "unat p + 4 * (N * unat T) \<le> 2 ^ 32" "0 < unat T" using p(1) by (simp_all add: fits_def)
  show "load32 (p + 4 * of_nat j) (fold effect as m) = F j"
  proof (cases "j < k * unat T")
    case True
    have kN: "k * unat T \<le> N * unat T" using p(2) by (intro mult_right_mono) auto
    have "writes b \<inter> span p (4 * (k * unat T)) = {}" if "b \<in> set as" for b
    proof (cases "b = a")
      case True then show ?thesis using tile_not_before [OF pf(1) p(2) pf(2), of k] a(2) by simp
    next
      case False then show ?thesis using others [OF that] span_mono [of p p "4 * (k * unat T)" "4 * (N * unat T)"] kN by auto
    qed
    from this have "load32 (p + 4 * of_nat j) (fold effect as m) = load32 (p + 4 * of_nat j) m"
      by (intro words_keep [OF ok _ _ True]) (use kN pf(1) in \<open>simp_all, linarith\<close>)
    then show ?thesis using old True by simp
  next
    case False
    then obtain r where r: "j = k * unat T + r" "r < unat T" using j by (metis add.commute add_less_cancel_left le_Suc_ex mult_Suc not_less)
    have "load32 (tp T p k + 4 * of_nat r) (fold effect as m) = load32 (tp T p k + 4 * of_nat r) (effect a m)"
      using tile_fits(1) [OF pf(1) p(2) pf(2)] r(2) by (intro words_hit [OF ok ind a])
    then show ?thesis using new [OF r(2)] by (simp add: tp_words r(1))
  qed
qed

lemma array_keep:
  assumes ok: "\<And>a. a \<in> set as \<Longrightarrow> action_ok a" and p: "fits T N p" "k \<le> N"
    and others: "\<And>b. b \<in> set as \<Longrightarrow> writes b \<inter> array T N p = {}"
    and old: "\<forall>j < k * unat T. load32 (p + 4 * of_nat j) m = F j"
  shows "\<forall>j < k * unat T. load32 (p + 4 * of_nat j) (fold effect as m) = F j"
proof (intro allI impI)
  fix j assume j: "j < k * unat T"
  then have "j < N * unat T" using p(2) by (meson less_le_trans mult_le_mono1)
  then have "load32 (p + 4 * of_nat j) (fold effect as m) = load32 (p + 4 * of_nat j) m"
    using p(1) by (intro words_keep [where n = "N * unat T"] ok others) (auto simp: fits_def)
  then show "load32 (p + 4 * of_nat j) (fold effect as m) = F j" using old j by simp
qed

text \<open>The segments of an iteration on the data mover and on the compute core.\<close>

definition tile_transfers :: "u32 \<Rightarrow> nat \<Rightarrow> ptr \<Rightarrow> ptr \<Rightarrow> ptr \<Rightarrow> ptr \<Rightarrow> ptr \<Rightarrow> ptr \<Rightarrow> nat \<Rightarrow> (ptr \<times> ptr) list" where
  "tile_transfers T N la lb lo A B OUT i =
     (if i < N then [(tp T la i, tp T A i), (tp T lb i, tp T B i)] else []) @
     (if 1 < i then [(tp T OUT (i - 2), tp T lo (i - 2))] else [])"

lemma word_index:
  fixes it :: u32
  assumes "N = unat it" "N + 2 < 2 ^ 32" "i < N + 2"
  shows "of_nat i < it \<longleftrightarrow> i < N" "of_nat i < it + 1 \<longleftrightarrow> i \<le> N" "(of_nat i :: u32) > 0 \<longleftrightarrow> 0 < i"
    "(of_nat i :: u32) > 1 \<longleftrightarrow> 1 < i" "0 < i \<Longrightarrow> (of_nat i - 1 :: u32) = of_nat (i - 1)" "1 < i \<Longrightarrow> (of_nat i - 2 :: u32) = of_nat (i - 2)"
proof -
  have u: "unat (of_nat i :: u32) = i" using assms by (intro unat_of_nat_small) simp
  have v: "unat (it + 1) = N + 1" using assms by (subst unat_add_nowrap [of it 1]) simp_all
  show "of_nat i < it \<longleftrightarrow> i < N" "of_nat i < it + 1 \<longleftrightarrow> i \<le> N" "(of_nat i :: u32) > 0 \<longleftrightarrow> 0 < i" "(of_nat i :: u32) > 1 \<longleftrightarrow> 1 < i"
    using u v assms(1) by (auto simp: word_less_nat_alt)
  show "0 < i \<Longrightarrow> (of_nat i - 1 :: u32) = of_nat (i - 1)" "1 < i \<Longrightarrow> (of_nat i - 2 :: u32) = of_nat (i - 2)"
    by (simp_all add: of_nat_diff)
qed

lemma tiled_iter_dm:
  assumes "is_dm c" "\<not> is_compute c" and N: "N = unat it" "N + 2 < 2 ^ 32" "i < N + 2"
    and T: "N \<noteq> 0 \<Longrightarrow> 0 < T * 4"
  shows "issues (tiled_iter c T it la lb lo A B OUT (of_nat i)) (T * 4) (tile_transfers T N la lb lo A B OUT i)"
proof -
  have *: "issues (only (i < N) (start_1d (tp T lb i) (tp T B i) (T * 4) \<circ> start_1d (tp T la i) (tp T A i) (T * 4))) (T * 4)
      (if i < N then [(tp T la i, tp T A i)] @ [(tp T lb i, tp T B i)] else [])"
    using T by (cases "i < N") (simp_all only: only_def if_True if_False issues_id, intro issues_comp issues_start_1d, auto)
  have **: "issues (only (1 < i) (start_1d (tp T OUT (i - 2)) (tp T lo (i - 2)) (T * 4))) (T * 4)
      (if 1 < i then [(tp T OUT (i - 2), tp T lo (i - 2))] else [])"
    using T N(3) by (cases "1 < i") (simp_all only: only_def if_True if_False issues_id, intro issues_start_1d, auto)
  have "tiled_iter c T it la lb lo A B OUT (of_nat i) =
      only (1 < i) (start_1d (tp T OUT (i - 2)) (tp T lo (i - 2)) (T * 4)) \<circ>
      only (i < N) (start_1d (tp T lb i) (tp T B i) (T * 4) \<circ> start_1d (tp T la i) (tp T A i) (T * 4))"
    using assms(1,2) word_index [OF N] by (auto simp: tiled_iter_def only_def tp_def Let_def)
  then show ?thesis using issues_comp [OF * **] by (simp only: tile_transfers_def append.simps)
qed

lemma tiled_iter_compute:
  assumes "\<not> is_dm c" "is_compute c" and N: "N = unat it" "N + 2 < 2 ^ 32" "i < N + 2"
  shows "tiled_iter c T it la lb lo A B OUT (of_nat i) =
    only (0 < i \<and> i \<le> N) (csr (snax_mac_setup_simple_mult (tp T la (i - 1)) (tp T lb (i - 1)) (tp T lo (i - 1)) T @
      snax_mac_launch @ snax_mac_sw_barrier))"
  using assms(1,2) word_index [OF N] by (auto simp: tiled_iter_def only_def tp_def Let_def)

text \<open>The engine's action in iteration \<open>i\<close>, and that the actions of an iteration are independent.\<close>

definition mac_actions ::
  "((u32 \<Rightarrow> u32) \<Rightarrow> mem \<Rightarrow> mem) \<Rightarrow> (u32 \<Rightarrow> u32) \<Rightarrow> u32 \<Rightarrow> nat \<Rightarrow> ptr \<Rightarrow> ptr \<Rightarrow> ptr \<Rightarrow> nat \<Rightarrow> action list" where
  "mac_actions hw f T N la lb lo i =
     (if 0 < i \<and> i \<le> N then [mac_action hw (mult_regs (tp T la (i - 1)) (tp T lb (i - 1)) (tp T lo (i - 1)) T f)] else [])"

lemma tiled_run_csr:
  "\<exists>f'. \<forall>d m. csr_run hw (acsr (only (0 < i \<and> i \<le> N) (csr (snax_mac_setup_simple_mult (tp T la (i - 1)) (tp T lb (i - 1)) (tp T lo (i - 1)) T @
      snax_mac_launch @ snax_mac_sw_barrier)) \<lparr>adma = d, acsr = []\<rparr>)) (f, m) =
    (f', fold effect (mac_actions hw f T N la lb lo i) m)"
  by (cases "0 < i \<and> i \<le> N") (auto simp: only_def csr_def mac_actions_def csr_run_mult simp del: One_nat_def)

lemma arrays_tiles:
  assumes "arrays T N la lb lo A B OUT" "j < N" "k < N"
  shows "tile T la j \<inter> tile T lb k = {}" "tile T la j \<inter> tile T lo k = {}" "tile T la j \<inter> tile T OUT k = {}"
    "tile T la j \<inter> tile T A k = {}" "tile T la j \<inter> tile T B k = {}" "tile T lb j \<inter> tile T lo k = {}"
    "tile T lb j \<inter> tile T OUT k = {}" "tile T lb j \<inter> tile T A k = {}" "tile T lb j \<inter> tile T B k = {}"
    "tile T lo j \<inter> tile T OUT k = {}" "tile T lo j \<inter> tile T A k = {}" "tile T lo j \<inter> tile T B k = {}"
    "tile T OUT j \<inter> tile T A k = {}" "tile T OUT j \<inter> tile T B k = {}"
    "j \<noteq> k \<Longrightarrow> tile T la j \<inter> tile T la k = {}" "j \<noteq> k \<Longrightarrow> tile T lb j \<inter> tile T lb k = {}"
    "j \<noteq> k \<Longrightarrow> tile T lo j \<inter> tile T lo k = {}"
  using assms unfolding arrays_def by (simp_all add: tile_apart [of T N] tile_apart_arrays [of T N])

lemma iteration_apart:
  assumes ar: "arrays T N la lb lo A B OUT" and i: "i < N + 2" and ds: "(d, s) \<in> set (tile_transfers T N la lb lo A B OUT i)"
  shows "apart d s (4 * unat T)"
proof -
  have fit: "unat (tp T p j) + 4 * unat T \<le> 2 ^ 32" if "p \<in> {la, lb, lo, A, B, OUT}" "j < N" for p j
    using that ar by (intro tile_fits(1)) (auto simp: arrays_def fits_def)
  consider "i < N" "d = tp T la i" "s = tp T A i" | "i < N" "d = tp T lb i" "s = tp T B i"
    | "i - 2 < N" "d = tp T OUT (i - 2)" "s = tp T lo (i - 2)"
    using ds i by (auto simp: tile_transfers_def split: if_splits)
  then have "span d (4 * unat T) \<inter> span s (4 * unat T) = {}"
      "unat d + 4 * unat T \<le> 2 ^ 32" "unat s + 4 * unat T \<le> 2 ^ 32"
    by (cases; use arrays_tiles(4,9,10) [OF ar] fit in \<open>simp add: Int_commute\<close>)+
  then show ?thesis by (rule disjoint_apart)
qed

lemma iteration_indep:
  assumes ar: "arrays T N la lb lo A B OUT" and i: "i < N + 2"
  shows "sorted_wrt indep (map (\<lambda>(d, s). copy_action (4 * unat T) d s) (tile_transfers T N la lb lo A B OUT i) @
    mac_actions hw f T N la lb lo i)"
proof -
  note d = arrays_tiles [OF ar]
  have n: "1 < i \<Longrightarrow> i - 2 < N" using i by auto
  define a where "a = copy_action (4 * unat T) (tp T la i) (tp T A i)"
  define b where "b = copy_action (4 * unat T) (tp T lb i) (tp T B i)"
  define c where "c = copy_action (4 * unat T) (tp T OUT (i - 2)) (tp T lo (i - 2))"
  define m where "m = mac_action hw (mult_regs (tp T la (i - 1)) (tp T lb (i - 1)) (tp T lo (i - 1)) T f)"
  note defs = a_def b_def c_def m_def copy_action_simps mac_action_regs
  have "indep a b" if "i < N"
    using d(1,5,8) [OF that that] unfolding indep_def defs by blast
  moreover have "indep a c \<and> indep b c" if "i < N" "1 < i"
    using d(2,3,6,7) [OF that(1) n [OF that(2)]] d(13,14) [OF n [OF that(2)] that(1)]
    unfolding indep_def defs by blast
  moreover have "indep a m \<and> indep b m" if "i < N" "0 < i"
  proof -
    have lt: "i - 1 < N" "i \<noteq> i - 1" using that by auto
    show ?thesis
      using d(1,2,6,15,16) [OF that(1) lt(1)] d(1,11,12) [OF lt(1) that(1)] lt(2)
      unfolding indep_def defs by blast
  qed
  moreover have "indep c m" if "1 < i" "i \<le> N"
  proof -
    have lt: "i - 2 < N" "i - 1 < N" "i - 1 \<noteq> i - 2" using that by auto
    show ?thesis
      using d(3,7,10,17) [OF lt(2,1)] lt(3) unfolding indep_def defs by blast
  qed
  moreover have "map (\<lambda>(d, s). copy_action (4 * unat T) d s) (tile_transfers T N la lb lo A B OUT i) @ mac_actions hw f T N la lb lo i =
      (if i < N then [a, b] else []) @ (if 1 < i then [c] else []) @ (if 0 < i \<and> i \<le> N then [m] else [])"
    by (simp add: tile_transfers_def mac_actions_def a_def b_def c_def m_def)
  ultimately show ?thesis by simp
qed

text \<open>
  What the memory holds before iteration \<open>i\<close>, for the memory \<open>m0\<close> at the start: the inputs, the
  tiles loaded, the tiles computed and the tiles stored.
\<close>

definition prod_words :: "ptr \<Rightarrow> ptr \<Rightarrow> mem \<Rightarrow> nat \<Rightarrow> u32" where
  "prod_words A B m j = load32 (A + 4 * of_nat j) m * load32 (B + 4 * of_nat j) m"

definition tiled_inv :: "u32 \<Rightarrow> nat \<Rightarrow> ptr \<Rightarrow> ptr \<Rightarrow> ptr \<Rightarrow> ptr \<Rightarrow> ptr \<Rightarrow> ptr \<Rightarrow> mem \<Rightarrow> nat \<Rightarrow> mem \<Rightarrow> bool" where
  "tiled_inv T N la lb lo A B OUT m0 i m \<longleftrightarrow>
     (\<forall>j < N * unat T. load32 (A + 4 * of_nat j) m = load32 (A + 4 * of_nat j) m0) \<and>
     (\<forall>j < N * unat T. load32 (B + 4 * of_nat j) m = load32 (B + 4 * of_nat j) m0) \<and>
     (\<forall>j < min i N * unat T. load32 (la + 4 * of_nat j) m = load32 (A + 4 * of_nat j) m0) \<and>
     (\<forall>j < min i N * unat T. load32 (lb + 4 * of_nat j) m = load32 (B + 4 * of_nat j) m0) \<and>
     (\<forall>j < min (i - 1) N * unat T. load32 (lo + 4 * of_nat j) m = prod_words A B m0 j) \<and>
     (\<forall>j < (i - 2) * unat T. load32 (OUT + 4 * of_nat j) m = prod_words A B m0 j)"

text \<open>The actions of an iteration, and what each does to a word of its tile.\<close>

definition iteration_actions ::
  "((u32 \<Rightarrow> u32) \<Rightarrow> mem \<Rightarrow> mem) \<Rightarrow> (u32 \<Rightarrow> u32) \<Rightarrow> u32 \<Rightarrow> nat \<Rightarrow> ptr \<Rightarrow> ptr \<Rightarrow> ptr \<Rightarrow> ptr \<Rightarrow> ptr \<Rightarrow> ptr \<Rightarrow> nat \<Rightarrow> action set" where
  "iteration_actions hw f T N la lb lo A B OUT i =
     (\<lambda>(d, s). copy_action (4 * unat T) d s) ` set (tile_transfers T N la lb lo A B OUT i) \<union> set (mac_actions hw f T N la lb lo i)"

lemma iteration_action_cases:
  assumes "a \<in> iteration_actions hw f T N la lb lo A B OUT i" "i < N + 2"
  obtains "i < N" "a = copy_action (4 * unat T) (tp T la i) (tp T A i)"
  | "i < N" "a = copy_action (4 * unat T) (tp T lb i) (tp T B i)"
  | "1 < i" "i - 2 < N" "a = copy_action (4 * unat T) (tp T OUT (i - 2)) (tp T lo (i - 2))"
  | "0 < i" "i - 1 < N" "a = mac_action hw (mult_regs (tp T la (i - 1)) (tp T lb (i - 1)) (tp T lo (i - 1)) T f)"
  using assms by (auto simp: iteration_actions_def tile_transfers_def mac_actions_def split: if_splits)

lemma tile_off:
  assumes "fits T N q" "k < N"
  shows "array T N p \<inter> array T N q = {} \<Longrightarrow> tile T q k \<inter> array T N p = {}"
    and "array T N q \<inter> array T N p = {} \<Longrightarrow> tile T q k \<inter> array T N p = {}"
  using tile_array [OF assms] by blast+

lemma arrays_tile_array:
  assumes "arrays T N la lb lo A B OUT" "k < N"
  shows "tile T la k \<inter> array T N lb = {}" "tile T la k \<inter> array T N lo = {}" "tile T la k \<inter> array T N OUT = {}"
    "tile T la k \<inter> array T N A = {}" "tile T la k \<inter> array T N B = {}" "tile T lb k \<inter> array T N la = {}"
    "tile T lb k \<inter> array T N lo = {}" "tile T lb k \<inter> array T N OUT = {}" "tile T lb k \<inter> array T N A = {}"
    "tile T lb k \<inter> array T N B = {}" "tile T lo k \<inter> array T N la = {}" "tile T lo k \<inter> array T N lb = {}"
    "tile T lo k \<inter> array T N OUT = {}" "tile T lo k \<inter> array T N A = {}" "tile T lo k \<inter> array T N B = {}"
    "tile T OUT k \<inter> array T N la = {}" "tile T OUT k \<inter> array T N lb = {}" "tile T OUT k \<inter> array T N lo = {}"
    "tile T OUT k \<inter> array T N A = {}" "tile T OUT k \<inter> array T N B = {}"
  using assms unfolding arrays_def by (simp_all add: tile_off)

text \<open>Which arrays the actions of an iteration leave alone.\<close>

lemma iteration_frame:
  assumes ar: "arrays T N la lb lo A B OUT" and i: "i < N + 2" and a: "a \<in> iteration_actions hw f T N la lb lo A B OUT i"
  shows "writes a \<inter> array T N A = {} \<and> writes a \<inter> array T N B = {} \<and>
    (writes a \<inter> array T N la = {} \<or> i < N \<and> a = copy_action (4 * unat T) (tp T la i) (tp T A i)) \<and>
    (writes a \<inter> array T N lb = {} \<or> i < N \<and> a = copy_action (4 * unat T) (tp T lb i) (tp T B i)) \<and>
    (writes a \<inter> array T N lo = {} \<or> 0 < i \<and> i \<le> N \<and>
      a = mac_action hw (mult_regs (tp T la (i - 1)) (tp T lb (i - 1)) (tp T lo (i - 1)) T f)) \<and>
    (writes a \<inter> array T N OUT = {} \<or> 1 < i \<and> a = copy_action (4 * unat T) (tp T OUT (i - 2)) (tp T lo (i - 2)))"
  by (rule iteration_action_cases [OF a i]) (auto simp: arrays_tile_array [OF ar])

lemma iteration_step_inputs:
  assumes ar: "arrays T N la lb lo A B OUT" and i: "i < N + 2"
    and as: "set as = iteration_actions hw f T N la lb lo A B OUT i" "\<forall>a\<in>set as. action_ok a" "sorted_wrt indep as"
    and inv: "tiled_inv T N la lb lo A B OUT m0 i m"
  shows "(\<forall>j < N * unat T. load32 (A + 4 * of_nat j) (fold effect as m) = load32 (A + 4 * of_nat j) m0) \<and>
    (\<forall>j < N * unat T. load32 (B + 4 * of_nat j) (fold effect as m) = load32 (B + 4 * of_nat j) m0)"
  using inv ar iteration_frame [OF ar i] as(1,2) unfolding tiled_inv_def arrays_def
  by (intro conjI array_keep [where N = N]) auto

lemma iteration_step_loads:
  assumes ar: "arrays T N la lb lo A B OUT" and i: "i < N + 2"
    and as: "set as = iteration_actions hw f T N la lb lo A B OUT i" "\<forall>a\<in>set as. action_ok a" "sorted_wrt indep as"
    and inv: "tiled_inv T N la lb lo A B OUT m0 i m"
  shows "(\<forall>j < min (Suc i) N * unat T. load32 (la + 4 * of_nat j) (fold effect as m) = load32 (A + 4 * of_nat j) m0) \<and>
    (\<forall>j < min (Suc i) N * unat T. load32 (lb + 4 * of_nat j) (fold effect as m) = load32 (B + 4 * of_nat j) m0)"
proof (cases "i < N")
  case True
  let ?a = "copy_action (4 * unat T) (tp T la i) (tp T A i)" and ?b = "copy_action (4 * unat T) (tp T lb i) (tp T B i)"
  have mem: "?a \<in> set as" "?b \<in> set as" using True by (simp_all add: as(1) iteration_actions_def tile_transfers_def)
  have ap: "apart (tp T la i) (tp T A i) (4 * unat T)" "apart (tp T lb i) (tp T B i) (4 * unat T)"
    using iteration_apart [OF ar i] True by (simp_all add: tile_transfers_def)
  have lt: "i * unat T + r < N * unat T" if "r < unat T" for r using tile_end [OF True, of "unat T"] that by simp
  have fr: "writes b \<inter> array T N la = {} \<or> b = ?a" "writes b \<inter> array T N lb = {} \<or> b = ?b" if "b \<in> set as" for b
    using iteration_frame [OF ar i that [unfolded as(1)]] by blast+
  have ft: "fits T N la" "fits T N lb" using ar by (simp_all add: arrays_def)
  have "\<forall>j < Suc i * unat T. load32 (la + 4 * of_nat j) (fold effect as m) = load32 (A + 4 * of_nat j) m0"
  proof (rule array_extend [OF _ as(3) ft(1) True mem(1)])
    show "load32 (tp T la i + 4 * of_nat r) (effect ?a m) = load32 (A + 4 * of_nat (i * unat T + r)) m0" if "r < unat T" for r
      unfolding copy_words [OF ap(1) that] unfolding tp_words using inv lt [OF that] unfolding tiled_inv_def by blast
  qed (use as(2) in blast, simp, use fr in blast, use inv True in \<open>simp add: tiled_inv_def\<close>)
  moreover have "\<forall>j < Suc i * unat T. load32 (lb + 4 * of_nat j) (fold effect as m) = load32 (B + 4 * of_nat j) m0"
  proof (rule array_extend [OF _ as(3) ft(2) True mem(2)])
    show "load32 (tp T lb i + 4 * of_nat r) (effect ?b m) = load32 (B + 4 * of_nat (i * unat T + r)) m0" if "r < unat T" for r
      unfolding copy_words [OF ap(2) that] unfolding tp_words using inv lt [OF that] unfolding tiled_inv_def by blast
  qed (use as(2) in blast, simp, use fr in blast, use inv True in \<open>simp add: tiled_inv_def\<close>)
  ultimately show ?thesis using True by (simp add: min_def)
next
  case False
  then have "min (Suc i) N = N" "min i N = N" by auto
  with False show ?thesis
    using inv ar iteration_frame [OF ar i] as(1,2) unfolding tiled_inv_def arrays_def
    by (intro conjI array_keep [where N = N]) auto
qed

lemma iteration_step_compute:
  assumes "mac_engine hw" and ar: "arrays T N la lb lo A B OUT" and i: "i < N + 2"
    and as: "set as = iteration_actions hw f T N la lb lo A B OUT i" "\<forall>a\<in>set as. action_ok a" "sorted_wrt indep as"
    and inv: "tiled_inv T N la lb lo A B OUT m0 i m"
  shows "\<forall>j < min i N * unat T. load32 (lo + 4 * of_nat j) (fold effect as m) = prod_words A B m0 j"
proof (cases "0 < i \<and> i \<le> N")
  case True
  define k where "k = i - 1"
  have k: "k < N" "i = Suc k" using True by (auto simp: k_def)
  define g where "g = mult_regs (tp T la k) (tp T lb k) (tp T lo k) T f"
  have mem: "mac_action hw g \<in> set as" using k by (simp add: as(1) iteration_actions_def mac_actions_def g_def)
  have "apart (tp T lo k) (tp T la k) (4 * unat T)" "apart (tp T lo k) (tp T lb k) (4 * unat T)"
    using ar k(1) by (auto simp: arrays_def Int_commute intro!: tile_apart_arrays(2))
  then have g: "mult_setup g" by (simp add: g_def mult_setup_regs)
  have lt: "k * unat T + r < min i N * unat T" if "r < unat T" for r
    using tile_end [of k "min i N" "unat T"] k that by simp
  have fr: "writes b \<inter> array T N lo = {} \<or> b = mac_action hw g" if "b \<in> set as" for b
    using iteration_frame [OF ar i that [unfolded as(1)]] unfolding g_def k_def by blast
  have ft: "fits T N lo" using ar by (simp add: arrays_def)
  have "\<forall>j < Suc k * unat T. load32 (lo + 4 * of_nat j) (fold effect as m) = prod_words A B m0 j"
  proof (rule array_extend [OF _ as(3) ft k(1) mem])
    fix r assume r: "r < unat T"
    have "load32 (tp T lo k + 4 * of_nat r) (hw g m) =
        load32 (tp T la k + 4 * of_nat r) m * load32 (tp T lb k + 4 * of_nat r) m"
      using mac_engine.hw_product [OF assms(1) g, of r m] r by (simp add: g_def mult_regs_def)
    also have "\<dots> = prod_words A B m0 (k * unat T + r)"
      unfolding tp_words prod_words_def using inv lt [OF r] by (simp add: tiled_inv_def del: of_nat_add of_nat_mult)
    finally show "load32 (tp T lo k + 4 * of_nat r) (effect (mac_action hw g) m) = prod_words A B m0 (k * unat T + r)"
      by simp
  qed (use as(2) in blast, simp add: g_def, use fr in blast, use inv k in \<open>simp add: tiled_inv_def\<close>)
  then show ?thesis using k by simp
next
  case False
  then have eq: "min i N = min (i - 1) N" by auto
  have fr: "writes b \<inter> array T N lo = {}" if "b \<in> set as" for b
    using iteration_frame [OF ar i that [unfolded as(1)]] False by blast
  show ?thesis
    unfolding eq
  proof (rule array_keep [OF _ _ _ fr])
    show "fits T N lo" using ar by (simp add: arrays_def)
    show "\<forall>j < min (i - 1) N * unat T. load32 (lo + 4 * of_nat j) m = prod_words A B m0 j"
      using inv unfolding tiled_inv_def by blast
  qed (use as(2) in auto)
qed

lemma iteration_step_stores:
  assumes ar: "arrays T N la lb lo A B OUT" and i: "i < N + 2"
    and as: "set as = iteration_actions hw f T N la lb lo A B OUT i" "\<forall>a\<in>set as. action_ok a" "sorted_wrt indep as"
    and inv: "tiled_inv T N la lb lo A B OUT m0 i m"
  shows "\<forall>j < (Suc i - 2) * unat T. load32 (OUT + 4 * of_nat j) (fold effect as m) = prod_words A B m0 j"
proof (cases "1 < i")
  case True
  define k where "k = i - 2"
  have k: "k < N" "i = k + 2" using True i by (auto simp: k_def)
  let ?a = "copy_action (4 * unat T) (tp T OUT k) (tp T lo k)"
  have mem: "?a \<in> set as" using k by (simp add: as(1) iteration_actions_def tile_transfers_def)
  have ap: "apart (tp T OUT k) (tp T lo k) (4 * unat T)"
    using iteration_apart [OF ar i] k by (simp add: tile_transfers_def)
  have lt: "k * unat T + r < min (i - 1) N * unat T" if "r < unat T" for r
    using tile_end [of k "min (i - 1) N" "unat T"] k that by simp
  have fr: "writes b \<inter> array T N OUT = {} \<or> b = ?a" if "b \<in> set as" for b
    using iteration_frame [OF ar i that [unfolded as(1)]] unfolding k_def by blast
  have ft: "fits T N OUT" using ar by (simp add: arrays_def)
  have "\<forall>j < Suc k * unat T. load32 (OUT + 4 * of_nat j) (fold effect as m) = prod_words A B m0 j"
  proof (rule array_extend [OF _ as(3) ft k(1) mem])
    show "load32 (tp T OUT k + 4 * of_nat r) (effect ?a m) = prod_words A B m0 (k * unat T + r)" if "r < unat T" for r
      unfolding copy_words [OF ap that] unfolding tp_words using inv lt [OF that] unfolding tiled_inv_def by blast
  qed (use as(2) in blast, simp, use fr in blast, use inv k in \<open>simp add: tiled_inv_def\<close>)
  then show ?thesis using k by simp
qed simp

lemma tiled_inv_step:
  assumes "mac_engine hw" and ar: "arrays T N la lb lo A B OUT" and i: "i < N + 2"
    and as: "set as = iteration_actions hw f T N la lb lo A B OUT i" "\<forall>a\<in>set as. action_ok a" "sorted_wrt indep as"
    and inv: "tiled_inv T N la lb lo A B OUT m0 i m"
  shows "tiled_inv T N la lb lo A B OUT m0 (Suc i) (fold effect as m)"
  using iteration_step_inputs [OF ar i as inv] iteration_step_loads [OF ar i as inv]
    iteration_step_compute [OF assms(1) ar i as inv] iteration_step_stores [OF ar i as inv]
  unfolding tiled_inv_def by simp

lemma tiled_phase:
  assumes ex: "dma_backend exec" and hw: "mac_engine hw" and ar: "arrays T N la lb lo A B OUT"
    and cd: "is_dm cd" "\<not> is_compute cd" and cc: "\<not> is_dm cc" "is_compute cc"
    and N: "N = unat it" "N + 2 < 2 ^ 32" "0 < N" and T4: "unat (T * 4) = 4 * unat T" and i: "i < N + 2"
    and pend: "pending (fst s) = []" and inv: "tiled_inv T N la lb lo A B OUT m0 i (dmem (fst s))"
  shows "pending (fst (barrier_phase exec hw k (tiled_iter cd T it la lb lo A B OUT (of_nat i))
      (tiled_iter cc T it la lb lo A B OUT (of_nat i)) s)) = [] \<and>
    tiled_inv T N la lb lo A B OUT m0 (Suc i) (dmem (fst (barrier_phase exec hw k (tiled_iter cd T it la lb lo A B OUT (of_nat i))
      (tiled_iter cc T it la lb lo A B OUT (of_nat i)) s)))"
proof -
  let ?dm = "tiled_iter cd T it la lb lo A B OUT (of_nat i)" and ?c = "tiled_iter cc T it la lb lo A B OUT (of_nat i)"
  let ?cs = "mac_actions hw (snd s) T N la lb lo i"
  have "0 < unat T" using ar by (simp add: arrays_def fits_def)
  then have "0 < T * 4" using T4 by (simp add: word_less_nat_alt)
  then have iss: "issues ?dm (T * 4) (tile_transfers T N la lb lo A B OUT i)"
    using cd N i by (intro tiled_iter_dm) auto
  obtain f' where run: "csr_run hw (acsr (?c \<lparr>adma = d, acsr = []\<rparr>)) (snd s, m) = (f', fold effect ?cs m)" for d m
    using tiled_run_csr [of hw i N T la lb lo "snd s"] unfolding tiled_iter_compute [OF cc N(1,2) i] by blast
  have ok: "action_ok c" if "c \<in> set ?cs" for c
  proof -
    have "0 < i \<and> i \<le> N" and c: "c = mac_action hw (mult_regs (tp T la (i - 1)) (tp T lb (i - 1)) (tp T lo (i - 1)) T (snd s))"
      using that by (auto simp: mac_actions_def split: if_splits)
    then have lt: "i - 1 < N" by auto
    have "mult_setup (mult_regs (tp T la (i - 1)) (tp T lb (i - 1)) (tp T lo (i - 1)) T (snd s))"
      unfolding mult_setup_regs using ar lt
      by (auto simp: arrays_def Int_commute intro!: tile_apart_arrays(2))
    then show ?thesis unfolding c by (rule mac_engine.mac_action_ok [OF hw])
  qed
  have "\<exists>as. pending (fst (barrier_phase exec hw k ?dm ?c s)) = [] \<and>
    dmem (fst (barrier_phase exec hw k ?dm ?c s)) = fold effect as (dmem (fst s)) \<and>
    set as = (\<lambda>(d, s). copy_action (unat (T * 4)) d s) ` set (tile_transfers T N la lb lo A B OUT i) \<union> set ?cs \<and>
    (\<forall>a\<in>set as. action_ok a) \<and> sorted_wrt indep as"
  proof (rule barrier_phase_memory [OF ex pend iss, where f' = f' and cs = ?cs])
    show "apart d s (unat (T * 4))" if "(d, s) \<in> set (tile_transfers T N la lb lo A B OUT i)" for d s
      unfolding T4 by (rule iteration_apart [OF ar i that])
    show "sorted_wrt indep (map (\<lambda>(d, s). copy_action (unat (T * 4)) d s) (tile_transfers T N la lb lo A B OUT i) @ ?cs)"
      unfolding T4 by (rule iteration_indep [OF ar i])
  qed (fact run, rule ok)
  then obtain as where as: "set as = iteration_actions hw (snd s) T N la lb lo A B OUT i" "\<forall>a\<in>set as. action_ok a" "sorted_wrt indep as"
    and "pending (fst (barrier_phase exec hw k ?dm ?c s)) = []"
    and "dmem (fst (barrier_phase exec hw k ?dm ?c s)) = fold effect as (dmem (fst s))"
    unfolding T4 iteration_actions_def by blast
  then show ?thesis using tiled_inv_step [OF hw ar i as inv] by simp
qed

lemma layout_arrays:
  assumes "tiled_layout V T l1 A B OUT" "0 < V"
  defines "N \<equiv> unat (V div T)"
  shows "arrays T N l1 (l1 + 4 * V) (l1 + 4 * V + 4 * V) A B OUT" "N * unat T = unat V" "0 < N" "N + 2 < 2 ^ 32"
    "unat (T * 4) = 4 * unat T" "unat (V * 4) = 4 * unat V"
proof -
  define n where "n = 4 * unat V"
  have L: "0 < T" "unat T dvd unat V" "unat l1 + 3 * n \<le> 2 ^ 32"
    using assms(1) by (simp_all add: tiled_layout_def n_def Let_def)
  have V0: "0 < unat V" using assms(2) by (simp add: word_less_nat_alt)
  show NT: "N * unat T = unat V" using L(2) by (simp add: N_def unat_div)
  have TV: "unat T \<le> unat V" using L(2) V0 by (simp add: dvd_imp_le)
  have V4: "unat V \<le> 2 ^ 30" using L(3) by (simp add: n_def)
  show N0: "0 < N" using NT V0 by (metis mult_0 not_gr_zero)
  have T0: "0 < unat T" using L(1) by (simp add: word_less_nat_alt)
  have "N \<le> N * unat T" using T0 by simp
  then have "N \<le> 2 ^ 30" using NT V4 by linarith
  then show "N + 2 < 2 ^ 32" by simp
  have u4: "unat (4 * x :: u32) = 4 * unat x" if "unat x \<le> unat V" for x
    using that L(3) V0 by (subst unat_mult_nowrap [of 4 x]) (simp_all add: n_def)
  show "unat (T * 4) = 4 * unat T" "unat (V * 4) = 4 * unat V" using u4 [OF TV] u4 [of V] by (simp_all add: mult.commute)
  have lb: "unat (l1 + 4 * V) = unat l1 + n"
    using L(3) V0 by (subst unat_add_nowrap [of l1 "4 * V"]) (simp_all add: u4 n_def)
  have lo: "unat (l1 + 4 * V + 4 * V) = unat l1 + n + n"
    using L(3) V0 by (subst unat_add_nowrap [of "l1 + 4 * V" "4 * V"]) (simp_all add: u4 lb, simp_all add: n_def)
  have n: "4 * (N * unat T) = n" by (simp add: NT n_def)
  have lay: "unat A + n \<le> 2 ^ 32 \<and> unat B + n \<le> 2 ^ 32 \<and> unat OUT + n \<le> 2 ^ 32"
      "unat A + n \<le> unat OUT \<or> unat OUT + n \<le> unat A" "unat B + n \<le> unat OUT \<or> unat OUT + n \<le> unat B"
      "unat A + n \<le> unat l1 \<or> unat l1 + 3 * n \<le> unat A" "unat B + n \<le> unat l1 \<or> unat l1 + 3 * n \<le> unat B"
      "unat OUT + n \<le> unat l1 \<or> unat l1 + 3 * n \<le> unat OUT"
    using assms(1) by (simp_all add: tiled_layout_def n_def Let_def)
  have off: "span l1 n \<inter> span p n = {}" "span (l1 + 4 * V) n \<inter> span p n = {}" "span (l1 + 4 * V + 4 * V) n \<inter> span p n = {}"
    if "unat p + n \<le> unat l1 \<or> unat l1 + 3 * n \<le> unat p" for p
    using that by (intro span_disjoint; simp only: lb lo; linarith)+
  have l1: "span l1 n \<inter> span (l1 + 4 * V) n = {}" "span l1 n \<inter> span (l1 + 4 * V + 4 * V) n = {}"
      "span (l1 + 4 * V) n \<inter> span (l1 + 4 * V + 4 * V) n = {}"
    by (intro span_disjoint; simp only: lb lo; linarith)+
  have lof: "unat (l1 + 4 * V + 4 * V) + n \<le> 2 ^ 32" using L(3) by (simp only: lo)
  have out: "span OUT n \<inter> span A n = {}" "span OUT n \<inter> span B n = {}"
    using lay(2,3) by (auto intro!: span_disjoint)
  show "arrays T N l1 (l1 + 4 * V) (l1 + 4 * V + 4 * V) A B OUT"
    unfolding arrays_def fits_def n ball_simps using off [OF lay(4)] off [OF lay(5)] off [OF lay(6)] l1 out lay(1) L(3) T0 lof
    by (simp add: lb)
qed

text \<open>The iterations of the loop, then the copy of the output back into L1.\<close>

lemma tiled_loop:
  fixes f :: "u32 \<Rightarrow> u32" and ks :: "nat \<Rightarrow> nat"
  assumes ex: "dma_backend exec" and hw: "mac_engine hw" and ar: "arrays T N la lb lo A B OUT"
    and cd: "is_dm cd" "\<not> is_compute cd" and cc: "\<not> is_dm cc" "is_compute cc"
    and N: "N = unat it" "N + 2 < 2 ^ 32" "0 < N" and T4: "unat (T * 4) = 4 * unat T" and pend: "pending d = []"
  defines "s \<equiv> for_upto (N + 2) (\<lambda>i. barrier_phase exec hw (ks i) (tiled_iter cd T it la lb lo A B OUT (of_nat i))
      (tiled_iter cc T it la lb lo A B OUT (of_nat i))) (d, f)"
  shows "pending (fst s) = [] \<and> tiled_inv T N la lb lo A B OUT (dmem d) (N + 2) (dmem (fst s))"
  unfolding s_def
proof (rule for_upto_invariant [where P = "\<lambda>i s. pending (fst s) = [] \<and> tiled_inv T N la lb lo A B OUT (dmem d) i (dmem (fst s))"])
  show "pending (fst (d, f)) = [] \<and> tiled_inv T N la lb lo A B OUT (dmem d) 0 (dmem (fst (d, f)))"
    by (simp add: pend tiled_inv_def)
qed (use tiled_phase [OF ex hw ar cd cc N T4] in blast)

lemma tiled_copy_back:
  fixes hw :: "(u32 \<Rightarrow> u32) \<Rightarrow> mem \<Rightarrow> mem" and k :: nat
  assumes ex: "dma_backend exec" and pend: "pending (fst s) = []" and V: "0 < V" "unat (V * 4) = 4 * unat V"
    and ap: "apart lo OUT (4 * unat V)"
  defines "m \<equiv> dmem (fst (barrier_phase exec hw k (start_1d lo OUT (V * 4)) id s))"
  shows "j < unat V \<Longrightarrow> load32 (lo + 4 * of_nat j) m = load32 (OUT + 4 * of_nat j) (dmem (fst s))"
    and "apart p lo (4 * unat V) \<Longrightarrow> j < unat V \<Longrightarrow> load32 (p + 4 * of_nat j) m = load32 (p + 4 * of_nat j) (dmem (fst s))"
proof -
  have "0 < V * 4" using V by (simp add: word_less_nat_alt)
  then have iss: "issues (start_1d lo OUT (V * 4)) (V * 4) [(lo, OUT)]" by (rule issues_start_1d)
  have "\<exists>as. pending (fst (barrier_phase exec hw k (start_1d lo OUT (V * 4)) id s)) = [] \<and> m = fold effect as (dmem (fst s)) \<and>
    set as = (\<lambda>(d, s). copy_action (unat (V * 4)) d s) ` set [(lo, OUT)] \<union> set [] \<and>
    (\<forall>a\<in>set as. action_ok a) \<and> sorted_wrt indep as"
    unfolding m_def
    by (rule barrier_phase_memory [OF ex pend iss, where f' = "snd s"]) (simp_all add: V ap)
  then obtain as where m: "m = fold effect as (dmem (fst s))" and as: "set as = {copy_action (4 * unat V) lo OUT}"
    "\<And>a. a \<in> set as \<Longrightarrow> action_ok a" "sorted_wrt indep as" unfolding V(2) by auto
  have lo: "unat lo + 4 * unat V \<le> 2 ^ 32" using ap by (simp add: apart_def)
  show "load32 (lo + 4 * of_nat j) m = load32 (OUT + 4 * of_nat j) (dmem (fst s))" if "j < unat V"
    using words_hit [OF as(2,3) _ _ lo that, of "copy_action (4 * unat V) lo OUT"] copy_words [OF ap that] by (simp add: m as(1))
  show "load32 (p + 4 * of_nat j) m = load32 (p + 4 * of_nat j) (dmem (fst s))" if "apart p lo (4 * unat V)" "j < unat V"
    unfolding m using that by (intro words_keep [where n = "unat V"]) (auto simp: as apart_def intro!: span_disjoint)
qed

lemma check_simple_mult_zero:
  assumes "unat n < 2 ^ 31"
  shows "check_simple_mult x y n + check_simple_mult z y n = 0 \<longleftrightarrow> (\<forall>j < unat n. x j = y j \<and> z j = y j)"
proof -
  define c where "c w = card {i. i < unat n \<and> w i \<noteq> y i}" for w :: "nat \<Rightarrow> u32"
  have le: "c w \<le> unat n" for w
    unfolding c_def using card_mono [of "{..<unat n}" "{i. i < unat n \<and> w i \<noteq> y i}"] by auto
  have "check_simple_mult x y n + check_simple_mult z y n = of_nat (c x + c z)"
    by (simp add: check_simple_mult_def for_upto_count c_def)
  moreover have "(of_nat (c x + c z) :: u32) = of_nat 0 \<longleftrightarrow> c x + c z = 0"
    using le [of x] le [of z] assms by (intro of_nat_inject_small) simp_all
  moreover have "c w = 0 \<longleftrightarrow> (\<forall>j < unat n. w j = y j)" for w by (auto simp: c_def)
  ultimately show ?thesis by auto
qed

lemma is_dm_iff: "is_dm c \<longleftrightarrow> \<not> is_compute c"
  by (simp add: is_dm_def is_compute_def snrt_is_dm_core_def)

lemma run_phases_snoc:
  assumes "length xs = length ys"
  shows "run_phases exec hw ks (xs @ [x]) (ys @ [y]) s =
    barrier_phase exec hw (ks (length xs)) x y (run_phases exec hw ks xs ys s)"
proof -
  have "for_upto (length xs) (\<lambda>i. barrier_phase exec hw (ks i) ((xs @ [x]) ! i) ((ys @ [y]) ! i)) s = run_phases exec hw ks xs ys s"
    unfolding run_phases_def using assms by (intro for_upto_cong) (simp add: nth_append)
  then show ?thesis using assms by (simp add: run_phases_def for_upto_Suc nth_append)
qed

text \<open>The memory when \<open>tiled.c\<close> checks its result.\<close>

definition tiled_memory ::
  "(dma_req \<Rightarrow> mem \<Rightarrow> mem) \<Rightarrow> ((u32 \<Rightarrow> u32) \<Rightarrow> mem \<Rightarrow> mem) \<Rightarrow> (nat \<Rightarrow> nat) \<Rightarrow> core \<Rightarrow> core \<Rightarrow> u32 \<Rightarrow> u32 \<Rightarrow>
     ptr \<Rightarrow> ptr \<Rightarrow> ptr \<Rightarrow> ptr \<Rightarrow> dma_state \<Rightarrow> (u32 \<Rightarrow> u32) \<Rightarrow> mem" where
  "tiled_memory exec hw ks cd cc VEC_LEN TILE_SIZE l1_next A B OUT_TEST d f =
     (let segs = \<lambda>c. fst (tiled_main c VEC_LEN TILE_SIZE l1_next A B OUT_TEST (\<lambda>_. 0) (\<lambda>_. 0))
      in dmem (fst (run_phases exec hw ks (segs cd) (segs cc) (d, f))))"

lemma tiled_memory_eq:
  assumes cd: "is_dm cd" and cc: "is_compute cc" and N: "N = unat (V div T)" "N + 2 < 2 ^ 32"
  shows "tiled_memory exec hw ks cd cc V T l1 A B OUT d f =
    dmem (fst (barrier_phase exec hw (ks (N + 2)) (start_1d (l1 + 4 * V + 4 * V) OUT (V * 4)) id
      (for_upto (N + 2) (\<lambda>i. barrier_phase exec hw (ks i)
        (tiled_iter cd T (V div T) l1 (l1 + 4 * V) (l1 + 4 * V + 4 * V) A B OUT (of_nat i))
        (tiled_iter cc T (V div T) l1 (l1 + 4 * V) (l1 + 4 * V + 4 * V) A B OUT (of_nat i))) (d, f))))"
proof -
  have n: "unat (V div T + 2) = N + 2" using N by (subst unat_add_nowrap [of "V div T" 2]) simp_all
  have run: "run_phases exec hw ks (map g [0..<n]) (map h [0..<n]) s =
      for_upto n (\<lambda>i. barrier_phase exec hw (ks i) (g i) (h i)) s" for g h s n
    unfolding run_phases_def by (simp, intro for_upto_cong) simp
  show ?thesis
    using cd cc unfolding tiled_memory_def tiled_main_def Let_def fst_conv n
    by (simp add: run_phases_snoc run only_def is_dm_iff del: upt_Suc add_2_eq_Suc')
qed

lemma tiled_result:
  fixes ks :: "nat \<Rightarrow> nat" and f :: "u32 \<Rightarrow> u32"
  assumes ex: "dma_backend exec" and hw: "mac_engine hw" and cd: "is_dm cd" and cc: "is_compute cc"
    and lay: "tiled_layout V T l1 A B OUT" and V: "0 < V" and pend: "pending d = []" and j: "j < unat V"
  defines "m \<equiv> tiled_memory exec hw ks cd cc V T l1 A B OUT d f"
  shows "load32 (OUT + 4 * of_nat j) m = prod_words A B (dmem d) j"
    "load32 (l1 + 4 * V + 4 * V + 4 * of_nat j) m = prod_words A B (dmem d) j"
    "load32 (l1 + 4 * of_nat j) m = load32 (A + 4 * of_nat j) (dmem d)"
    "load32 (l1 + 4 * V + 4 * of_nat j) m = load32 (B + 4 * of_nat j) (dmem d)"
proof -
  let ?N = "unat (V div T)" and ?la = l1 and ?lb = "l1 + 4 * V" and ?lo = "l1 + 4 * V + 4 * V"
  note l = layout_arrays [OF lay V]
  define s where "s = for_upto (?N + 2) (\<lambda>i. barrier_phase exec hw (ks i)
      (tiled_iter cd T (V div T) ?la ?lb ?lo A B OUT (of_nat i)) (tiled_iter cc T (V div T) ?la ?lb ?lo A B OUT (of_nat i))) (d, f)"
  have s: "pending (fst s) = []" "tiled_inv T ?N ?la ?lb ?lo A B OUT (dmem d) (?N + 2) (dmem (fst s))"
    using tiled_loop [OF ex hw l(1) _ _ _ _ refl l(4,3,5) pend] cd cc unfolding s_def by (auto simp: is_dm_iff)
  have m: "m = dmem (fst (barrier_phase exec hw (ks (?N + 2)) (start_1d ?lo OUT (V * 4)) id s))"
    unfolding m_def s_def by (rule tiled_memory_eq [OF cd cc refl l(4)])
  have n: "?N * unat T = unat V" by (rule l(2))
  have ft: "unat p + 4 * unat V \<le> 2 ^ 32" if "p \<in> {?la, ?lb, ?lo, OUT}" for p
    using that l(1) unfolding arrays_def fits_def n by blast
  have ap: "apart ?lo OUT (4 * unat V)" "apart ?la ?lo (4 * unat V)" "apart ?lb ?lo (4 * unat V)" "apart OUT ?lo (4 * unat V)"
    using l(1) unfolding arrays_def n by (intro disjoint_apart ft; blast)+
  have bk: "load32 (?lo + 4 * of_nat j) m = load32 (OUT + 4 * of_nat j) (dmem (fst s))"
      "apart p ?lo (4 * unat V) \<Longrightarrow> load32 (p + 4 * of_nat j) m = load32 (p + 4 * of_nat j) (dmem (fst s))" for p
    using tiled_copy_back [OF ex s(1) V l(6) ap(1)] j unfolding m by blast+
  have i: "min (?N + 2) ?N = ?N" "min (?N + 2 - 1) ?N = ?N" "?N + 2 - 2 = ?N" by auto
  have inv: "load32 (?la + 4 * of_nat j) (dmem (fst s)) = load32 (A + 4 * of_nat j) (dmem d)"
      "load32 (?lb + 4 * of_nat j) (dmem (fst s)) = load32 (B + 4 * of_nat j) (dmem d)"
      "load32 (OUT + 4 * of_nat j) (dmem (fst s)) = prod_words A B (dmem d) j"
    using s(2) j unfolding tiled_inv_def i n by blast+
  show "load32 (OUT + 4 * of_nat j) m = prod_words A B (dmem d) j" "load32 (?lo + 4 * of_nat j) m = prod_words A B (dmem d) j"
    "load32 (?la + 4 * of_nat j) m = load32 (A + 4 * of_nat j) (dmem d)"
    "load32 (?lb + 4 * of_nat j) m = load32 (B + 4 * of_nat j) (dmem d)"
    using bk(1) bk(2) [OF ap(2)] bk(2) [OF ap(3)] bk(2) [OF ap(4)] inv by simp_all
qed

lemma cpu_simple_mult_words: "j < unat n \<Longrightarrow> cpu_simple_mult a b n oo j = a j * b j"
  unfolding cpu_simple_mult_def using for_upto_writes_hit [of id "unat n" j "\<lambda>i. a i * b i" oo] by simp

section \<open>Properties\<close>



end
