(* ===== verification/Fpu.thy ===== *)
theory Fpu
  imports Prelude
begin

text \<open>
  Double-precision numbers as the C code and the FPU hold them: 64-bit patterns. The FPU is not
  part of the repository; its operations are the fields of a record that the definitions take
  as an argument. Constants are written as their patterns.
\<close>

type_synonym f64 = u64

record fp_ops =
  fadd :: "f64 \<Rightarrow> f64 \<Rightarrow> f64"
  fsub :: "f64 \<Rightarrow> f64 \<Rightarrow> f64"
  fmul :: "f64 \<Rightarrow> f64 \<Rightarrow> f64"
  fdiv :: "f64 \<Rightarrow> f64 \<Rightarrow> f64"
  fmadd :: "f64 \<Rightarrow> f64 \<Rightarrow> f64 \<Rightarrow> f64"
  fsqrt :: "f64 \<Rightarrow> f64"
  fabs :: "f64 \<Rightarrow> f64"
  flt :: "f64 \<Rightarrow> f64 \<Rightarrow> bool"
  feq :: "f64 \<Rightarrow> f64 \<Rightarrow> bool"
  of_u32 :: "u32 \<Rightarrow> f64"

definition f64_0 :: f64 where "f64_0 = 0"
definition f64_1 :: f64 where "f64_1 = 0x3FF0000000000000"

end
