(* ===== verification/Prng.thy ===== *)
theory Prng
  imports Fpu Team
begin

text \<open>
  The parallel random number generator of \<open>sw/apps/prng/lcg.h\<close> and the Monte Carlo estimation of
  \<open>sw/apps/montecarlo/pi_estimation\<close>. The cores take the elements of one linear congruential
  sequence in turn (leapfrog): core \<open>p\<close> starts at its own element and advances by the number of
  sequences at once.
\<close>

section \<open>The generator\<close>

definition LCG_A :: u32 where "LCG_A = 1664525"
definition LCG_C :: u32 where "LCG_C = 1013904223"

definition MAX_UINT_PLUS1 :: f64 where "MAX_UINT_PLUS1 = 0x41F0000000000000"

definition max_uint_plus_1_inverse :: "fp_ops \<Rightarrow> f64" where
  "max_uint_plus_1_inverse F = fdiv F f64_1 MAX_UINT_PLUS1"

definition leapfrog_constants :: "u32 \<Rightarrow> u32 \<Rightarrow> u32 \<Rightarrow> u32 \<times> u32" where
  "leapfrog_constants num_sequences a c =
     (let (Ap_tmp, Cp_tmp) = for_upto (unat num_sequences) (\<lambda>p (Ap_tmp, Cp_tmp). (Ap_tmp * a, Cp_tmp + Ap_tmp)) (1, 0)
      in (Ap_tmp, Cp_tmp * c))"

text \<open>\<open>None\<close>: the loop condition \<open>p <= sequence_idx\<close> never fails for the largest index.\<close>

definition right_seed :: "u32 \<Rightarrow> u32 \<Rightarrow> u32 \<Rightarrow> u32 \<Rightarrow> u32 option" where
  "right_seed left_seed a c sequence_idx =
     (if sequence_idx = - 1 then None else Some (for_upto (unat sequence_idx) (\<lambda>p seed. seed * a + c) left_seed))"

definition lcg :: "u32 \<Rightarrow> u32 \<Rightarrow> u32 \<Rightarrow> u32" where
  "lcg a c previous = previous * a + c"

definition normalize_lcg :: "fp_ops \<Rightarrow> u32 \<Rightarrow> f64" where
  "normalize_lcg F x = fmul F (of_u32 F x) (max_uint_plus_1_inverse F)"

definition init_2d_lcg_params :: "snrt_defs \<Rightarrow> u32 \<Rightarrow> u32 \<Rightarrow> u32 \<Rightarrow> u32 \<Rightarrow> u32 \<Rightarrow> (u32 \<times> u32 \<times> u32 \<times> u32) option" where
  "init_2d_lcg_params d hartid num_sequences seed a c =
     (case (right_seed seed a c (2 * snrt_global_compute_core_idx d hartid),
            right_seed seed a c (2 * snrt_global_compute_core_idx d hartid + 1)) of
        (Some seed0, Some seed1) \<Rightarrow>
          let (Ap, Cp) = leapfrog_constants num_sequences a c in Some (seed0, seed1, Ap, Cp)
      | _ \<Rightarrow> None)"

section \<open>Monte Carlo\<close>

definition calculate_partial_sum :: "fp_ops \<Rightarrow> u32 \<Rightarrow> u32 \<Rightarrow> u32 \<Rightarrow> u32 \<Rightarrow> u32 \<Rightarrow> u32" where
  "calculate_partial_sum F seed0 seed1 Ap Cp n_samples =
     fst (for_upto (unat n_samples) (\<lambda>i (result, x1, x2).
       let u1 = normalize_lcg F x1; u2 = normalize_lcg F x2
       in (if flt F (fadd F (fmul F u1 u1) (fmul F u2 u2)) f64_1 then result + 1 else result,
           lcg Ap Cp x1, lcg Ap Cp x2)) (0, seed0, seed1))"

definition estimate_pi :: "fp_ops \<Rightarrow> u32 \<Rightarrow> u32 \<Rightarrow> f64" where
  "estimate_pi F sm n_samples = fdiv F (of_u32 F (4 * sm)) (of_u32 F n_samples)"

definition N_SAMPLES :: u32 where "N_SAMPLES = 1024"

definition mc_init :: "snrt_defs \<Rightarrow> u32 \<Rightarrow> (u32 \<times> u32 \<times> u32 \<times> u32) option" where
  "mc_init d hartid =
     (let num_sequences = 2 * snrt_cluster_compute_core_num d
      in init_2d_lcg_params d hartid num_sequences 0 LCG_A LCG_C)"

text \<open>
  What hart \<open>hartid\<close> stores into the reduction array before the barrier; the thread-local seeds of
  a data mover core keep their initial value 0.
\<close>

definition pi_partial :: "fp_ops \<Rightarrow> snrt_defs \<Rightarrow> u32 \<Rightarrow> u32 option" where
  "pi_partial F d hartid =
     (let n_samples_per_core = N_SAMPLES div snrt_cluster_compute_core_num d
      in map_option (\<lambda>(seed0, seed1, Ap, Cp). calculate_partial_sum F seed0 seed1 Ap Cp n_samples_per_core)
           (if snrt_is_compute_core d hartid then mc_init d hartid else Some (0, 0, 0, 0)))"

definition pi_sum :: "snrt_defs \<Rightarrow> (nat \<Rightarrow> u32) \<Rightarrow> u32" where
  "pi_sum d reduction_array =
     for_upto (unat (snrt_cluster_compute_core_num d)) (\<lambda>i sm. sm + reduction_array i) 0"

text \<open>After the barrier: the result of \<open>main\<close>. The constants are \<open>M_PI\<close> and 0.05.\<close>

definition pi_main :: "fp_ops \<Rightarrow> snrt_defs \<Rightarrow> (nat \<Rightarrow> u32) \<Rightarrow> u32 \<Rightarrow> s32" where
  "pi_main F d reduction_array hartid =
     (if snrt_cluster_core_idx d hartid = 0 then
        let pi_estimate = estimate_pi F (pi_sum d reduction_array) N_SAMPLES;
            err = fabs F (fsub F pi_estimate 0x400921FB54442D18)
        in if flt F 0x3FA999999999999A err then 1 else 0
      else 0)"

section \<open>Leapfrog\<close>

text \<open>The sequential generator.\<close>

definition lcg_seq :: "u32 \<Rightarrow> u32 \<Rightarrow> u32 \<Rightarrow> nat \<Rightarrow> u32" where
  "lcg_seq a c seed n = (lcg a c ^^ n) seed"

lemma unat_max_u32: "unat (- 1 :: u32) = 2 ^ 32 - 1"
  by (simp add: unsigned_minus_1_eq_mask mask_eq_exp_minus_1)

lemma right_seed_seq: "sequence_idx \<noteq> - 1 \<Longrightarrow> right_seed seed a c sequence_idx = Some (lcg_seq a c seed (unat sequence_idx))"
proof -
  have "for_upto n (\<lambda>p seed. seed * a + c) seed = (lcg a c ^^ n) seed" for n
    by (induction n) (simp_all add: for_upto_Suc lcg_def)
  then show "sequence_idx \<noteq> - 1 \<Longrightarrow> ?thesis" by (simp add: right_seed_def lcg_seq_def)
qed

lemma leapfrog_constants_seq:
  assumes "leapfrog_constants k a c = (Ap, Cp)"
  shows "lcg Ap Cp x = (lcg a c ^^ unat k) x"
proof -
  have "\<exists>A C. for_upto n (\<lambda>p (Ap_tmp, Cp_tmp). (Ap_tmp * a, Cp_tmp + Ap_tmp)) (1, 0) = (A, C) \<and>
      (lcg a c ^^ n) x = x * A + C * c \<and> C * a + 1 = C + A" for n
  proof (induction n)
    case (Suc n)
    then obtain A C where AC: "for_upto n (\<lambda>p (Ap_tmp, Cp_tmp). (Ap_tmp * a, Cp_tmp + Ap_tmp)) (1, 0) = (A, C)"
      "(lcg a c ^^ n) x = x * A + C * c" and geom: "C * a + 1 = C + A" by blast
    have "(lcg a c ^^ Suc n) x = x * (A * a) + (C * a + 1) * c" by (simp add: AC(2) lcg_def algebra_simps)
    moreover have "(C + A) * a + 1 = (C * a + 1) + A * a" by (simp add: algebra_simps)
    ultimately show ?case using AC(1) geom by (simp add: for_upto_Suc)
  qed simp
  from this [of "unat k"] show ?thesis using assms by (auto simp: leapfrog_constants_def lcg_def)
qed

lemma lcg_seq_leap: "((lcg a c ^^ k) ^^ i) (lcg_seq a c seed n) = lcg_seq a c seed (n + k * i)"
  unfolding lcg_seq_def funpow_mult add.commute [of n] funpow_add by simp

text \<open>Whether a pair of random numbers is a point inside the circle.\<close>

definition inside :: "fp_ops \<Rightarrow> u32 \<Rightarrow> u32 \<Rightarrow> bool" where
  "inside F x1 x2 = flt F (fadd F (fmul F (normalize_lcg F x1) (normalize_lcg F x1)) (fmul F (normalize_lcg F x2) (normalize_lcg F x2))) f64_1"

lemma calculate_partial_sum_count:
  "calculate_partial_sum F s0 s1 Ap Cp n =
    of_nat (card {i. i < unat n \<and> inside F ((lcg Ap Cp ^^ i) s0) ((lcg Ap Cp ^^ i) s1)})"
proof -
  let ?Q = "\<lambda>i. inside F ((lcg Ap Cp ^^ i) s0) ((lcg Ap Cp ^^ i) s1)"
  have "for_upto n (\<lambda>i (result, x1, x2).
       let u1 = normalize_lcg F x1; u2 = normalize_lcg F x2
       in (if flt F (fadd F (fmul F u1 u1) (fmul F u2 u2)) f64_1 then result + 1 else result,
           lcg Ap Cp x1, lcg Ap Cp x2)) (0 :: u32, s0, s1) =
      (of_nat (card {i. i < n \<and> ?Q i}), (lcg Ap Cp ^^ n) s0, (lcg Ap Cp ^^ n) s1)" for n
  proof (induction n)
    case (Suc n)
    have "{i. i < Suc n \<and> ?Q i} = (if ?Q n then insert n {i. i < n \<and> ?Q i} else {i. i < n \<and> ?Q i})"
      by (auto simp: less_Suc_eq)
    then show ?case using Suc by (simp add: for_upto_Suc Let_def flip: inside_def)
  qed simp
  then show ?thesis by (simp add: calculate_partial_sum_def)
qed

text \<open>Distributing the indices \<open>t < P * n\<close> over \<open>P\<close> cores by their remainder.\<close>

lemma card_leapfrog:
  fixes P n :: nat
  shows "(\<Sum>p<P. card {i. i < n \<and> Q (p + P * i)}) = card {t. t < P * n \<and> Q t}"
proof -
  let ?S = "\<lambda>p. {i. i < n \<and> Q (p + P * i)}"
  have "bij_betw (\<lambda>(p, i). p + P * i) (Sigma {..<P} ?S) {t. t < P * n \<and> Q t}"
  proof (rule bij_betw_imageI)
    show "inj_on (\<lambda>(p, i). p + P * i) (Sigma {..<P} ?S)"
      by (auto simp: inj_on_def) (metis mod_less mod_mult_self2, metis div_mult_self2 less_nat_zero_code mod_less mod_mult_self2 add_left_cancel mult_cancel1)
    have "p + P * i < P * n" if "p < P" "i < n" for p i
      using row_major_less [OF that(2,1)] by (simp add: mult.commute add.commute)
    moreover have "t \<in> (\<lambda>(p, i). p + P * i) ` Sigma {..<P} ?S" if "t < P * n" "Q t" for t
    proof (rule image_eqI [where x = "(t mod P, t div P)"])
      have "0 < P" using that(1) by (cases P) auto
      then show "(t mod P, t div P) \<in> Sigma {..<P} ?S" using that by (simp add: less_mult_imp_div_less mult.commute)
    qed simp
    ultimately show "(\<lambda>(p, i). p + P * i) ` Sigma {..<P} ?S = {t. t < P * n \<and> Q t}" by auto
  qed
  then have "card (Sigma {..<P} ?S) = card {t. t < P * n \<and> Q t}" by (rule bij_betw_same_card)
  then show ?thesis by (subst (asm) card_SigmaI) auto
qed

lemma pi_partial_core:
  assumes wf: "wf_defs d" and one: "SNRT_CLUSTER_NUM d = 1" and p: "p < unat (snrt_cluster_compute_core_num d)"
    and fit: "unat (snrt_cluster_compute_core_num d) \<le> 1024"
  defines "P \<equiv> unat (snrt_cluster_compute_core_num d)" and "x \<equiv> lcg_seq LCG_A LCG_C 0"
  shows "pi_partial F d (hart_of d 0 p) =
    Some (of_nat (card {i. i < 1024 div P \<and> inside F (x (2 * (p + P * i))) (x (2 * (p + P * i) + 1))}))"
proof -
  have pc: "p < unat (SNRT_CLUSTER_CORE_NUM d) - unat (SNRT_CLUSTER_DM_CORE_NUM d)"
    using p unat_compute_core_num [OF wf] by simp
  define g where "g = snrt_global_compute_core_idx d (hart_of d 0 p)"
  have g: "unat g = p" using unat_global_compute_core_idx [OF wf _ pc, of 0] one by (simp add: g_def)
  have u: "unat (2 * g) = 2 * p" "unat (2 * g + 1) = 2 * p + 1"
    using g p fit by (simp_all add: unat_word_ariths)
  then have ne: "2 * g \<noteq> - 1" "2 * g + 1 \<noteq> - 1" using p fit by (auto simp: word_unat_eq_iff unat_max_u32)
  obtain Ap Cp where AC: "leapfrog_constants (2 * snrt_cluster_compute_core_num d) LCG_A LCG_C = (Ap, Cp)" by force
  have k: "unat (2 * snrt_cluster_compute_core_num d) = 2 * P" using fit by (simp add: unat_word_ariths P_def)
  have step: "lcg Ap Cp = lcg LCG_A LCG_C ^^ (2 * P)"
    by (rule ext) (simp only: leapfrog_constants_seq [OF AC] k)
  have "snrt_is_compute_core d (hart_of d 0 p)" using is_compute_core_hart_of [OF wf, of 0 p] one pc by simp
  moreover have "mc_init d (hart_of d 0 p) = Some (x (2 * p), x (2 * p + 1), Ap, Cp)"
    by (simp add: mc_init_def init_2d_lcg_params_def right_seed_seq ne u AC x_def flip: g_def)
  moreover have "unat (N_SAMPLES div snrt_cluster_compute_core_num d) = 1024 div P"
    by (simp add: N_SAMPLES_def unat_div P_def)
  ultimately show ?thesis
    by (simp add: pi_partial_def Let_def calculate_partial_sum_count step lcg_seq_leap x_def)
       (simp add: algebra_simps)
qed

lemma pi_sum_of_nat:
  "pi_sum d (\<lambda>p. of_nat (f p)) = of_nat (\<Sum>p < unat (snrt_cluster_compute_core_num d). f p)"
proof -
  have "for_upto n (\<lambda>i sm. sm + of_nat (f i)) (0 :: u32) = of_nat (\<Sum>p<n. f p)" for n
    by (induction n) (simp_all add: for_upto_Suc)
  then show ?thesis by (simp add: pi_sum_def)
qed

section \<open>Properties\<close>

text \<open>
  C28. On one cluster whose compute cores divide the number of samples, the parallel Monte Carlo
  program counts exactly what a sequential program would count: the partial sums of the cores add
  up to the number of points inside the circle among the 1024 consecutive pairs of the one linear
  congruential sequence, whatever the floating-point unit computes.
\<close>

theorem monte_carlo_leapfrog:
  assumes "wf_defs d" and "SNRT_CLUSTER_NUM d = 1" and "unat (snrt_cluster_compute_core_num d) dvd 1024"
  shows "\<exists>reduction_array.
    (\<forall>p < unat (snrt_cluster_compute_core_num d). pi_partial F d (hart_of d 0 p) = Some (reduction_array p)) \<and>
    pi_sum d reduction_array =
      of_nat (card {t. t < 1024 \<and> inside F (lcg_seq LCG_A LCG_C 0 (2 * t)) (lcg_seq LCG_A LCG_C 0 (2 * t + 1))})"
proof -
  let ?P = "unat (snrt_cluster_compute_core_num d)" and ?x = "lcg_seq LCG_A LCG_C 0"
  let ?f = "\<lambda>p. card {i. i < 1024 div ?P \<and> inside F (?x (2 * (p + ?P * i))) (?x (2 * (p + ?P * i) + 1))}"
  have "?P \<le> 1024" using assms(3) by (simp add: dvd_imp_le)
  then have "pi_partial F d (hart_of d 0 p) = Some (of_nat (?f p))" if "p < ?P" for p
    using pi_partial_core [OF assms(1,2) that] by simp
  moreover have "(\<Sum>p<?P. ?f p) = card {t. t < ?P * (1024 div ?P) \<and> inside F (?x (2 * t)) (?x (2 * t + 1))}"
    by (rule card_leapfrog)
  moreover have "?P * (1024 div ?P) = 1024" using assms(3) by simp
  ultimately show ?thesis
    by (intro exI [of _ "\<lambda>p. of_nat (?f p)"]) (simp add: pi_sum_of_nat)
qed

theorem monte_carlo_leapfrog_witness:
  "\<forall>F. \<exists>reduction_array.
    (\<forall>p < 8. pi_partial F (snitch_cluster_defs example_cfg) (hart_of (snitch_cluster_defs example_cfg) 0 p) = Some (reduction_array p)) \<and>
    pi_sum (snitch_cluster_defs example_cfg) reduction_array =
      of_nat (card {t. t < 1024 \<and> inside F (lcg_seq LCG_A LCG_C 0 (2 * t)) (lcg_seq LCG_A LCG_C 0 (2 * t + 1))})"
proof
  fix F
  have "wf_defs (snitch_cluster_defs example_cfg)" "SNRT_CLUSTER_NUM (snitch_cluster_defs example_cfg) = 1"
    and n: "unat (snrt_cluster_compute_core_num (snitch_cluster_defs example_cfg)) = 8"
    by (simp_all add: wf_defs_def snitch_cluster_defs_def example_cfg_def team_defs)
  with monte_carlo_leapfrog [of "snitch_cluster_defs example_cfg" F]
  show "\<exists>reduction_array.
    (\<forall>p < 8. pi_partial F (snitch_cluster_defs example_cfg) (hart_of (snitch_cluster_defs example_cfg) 0 p) = Some (reduction_array p)) \<and>
    pi_sum (snitch_cluster_defs example_cfg) reduction_array =
      of_nat (card {t. t < 1024 \<and> inside F (lcg_seq LCG_A LCG_C 0 (2 * t)) (lcg_seq LCG_A LCG_C 0 (2 * t + 1))})"
    unfolding n by simp
qed

text \<open>
  With several clusters the sequences overlap: the number of sequences counts the cores of one
  cluster, the seeds the cores of all. The first core of the second cluster starts where the first
  core of the first cluster continues after one step.
\<close>

lemma leapfrog_clusters_overlap:
  assumes wf: "wf_defs d" and two: "1 < unat (SNRT_CLUSTER_NUM d)" and small: "unat (SNRT_CLUSTER_CORE_NUM d) < 2 ^ 30"
  shows "\<exists>s0 s1 t0 t1 Ap Cp. mc_init d (hart_of d 0 0) = Some (s0, s1, Ap, Cp) \<and>
    mc_init d (hart_of d 1 0) = Some (lcg Ap Cp s0, lcg Ap Cp s1, Ap, Cp)"
proof -
  let ?P = "unat (snrt_cluster_compute_core_num d)"
  have P: "?P = unat (SNRT_CLUSTER_CORE_NUM d) - unat (SNRT_CLUSTER_DM_CORE_NUM d)" by (rule unat_compute_core_num [OF wf])
  have pos: "0 < ?P" "?P < 2 ^ 30" using wf small P by (auto simp: wf_defs_def)
  obtain Ap Cp where AC: "leapfrog_constants (2 * snrt_cluster_compute_core_num d) LCG_A LCG_C = (Ap, Cp)" by force
  have k: "unat (2 * snrt_cluster_compute_core_num d) = 2 * ?P" using pos by (simp add: unat_word_ariths)
  have seeds: "mc_init d (hart_of d c 0) = Some (lcg_seq LCG_A LCG_C 0 (2 * (c * ?P)), lcg_seq LCG_A LCG_C 0 (2 * (c * ?P) + 1), Ap, Cp)"
    if "c < 2" for c
  proof -
    define g where "g = snrt_global_compute_core_idx d (hart_of d c 0)"
    have g: "unat g = c * ?P" using unat_global_compute_core_idx [OF wf, of c 0] that two pos P by (simp add: g_def)
    have "c * ?P \<le> ?P" using that by (cases c) auto
    then have le: "c * ?P < 2 ^ 30" using pos by linarith
    have u: "unat (2 * g) = 2 * (c * ?P)" "unat (2 * g + 1) = 2 * (c * ?P) + 1"
      using le by (simp_all add: unat_word_ariths g)
    then have ne: "2 * g \<noteq> - 1" "2 * g + 1 \<noteq> - 1" using le pos by (auto simp: word_unat_eq_iff unat_max_u32)
    show ?thesis by (simp add: mc_init_def init_2d_lcg_params_def right_seed_seq ne u AC flip: g_def)
  qed
  have "lcg Ap Cp (lcg_seq LCG_A LCG_C 0 n) = lcg_seq LCG_A LCG_C 0 (n + 2 * ?P)" for n
    using lcg_seq_leap [where i = 1] by (simp add: leapfrog_constants_seq [OF AC] k)
  then show ?thesis using seeds [of 0] seeds [of 1] by (auto simp: add.commute)
qed

end
