(* ===== verification/Doubles.thy ===== *)
theory Doubles
  imports Actions Fpu Dma
begin

text \<open>
  Arrays of doubles in memory: reading and writing elements, and the two-dimensional DMA tiles of
  \<open>sw/snRuntime/src/dma.h\<close> as they act on the elements of a matrix.
\<close>

section \<open>Doubles in memory\<close>

definition load64 :: "ptr \<Rightarrow> mem \<Rightarrow> f64" where
  "load64 p m = word_rcat (map (\<lambda>i. m (ucast (p + of_nat i))) [7, 6, 5, 4, 3, 2, 1, 0 :: nat])"

definition store64 :: "ptr \<Rightarrow> f64 \<Rightarrow> mem \<Rightarrow> mem" where
  "store64 p v m = for_upto 8 (\<lambda>i m. m(ucast (p + of_nat i) := ucast (drop_bit (8 * i) v))) m"

text \<open>Element \<open>i\<close> of the array of doubles at a pointer.\<close>

definition dbl :: "ptr \<Rightarrow> u32 \<Rightarrow> ptr" where
  "dbl p i = p + 8 * i"


section \<open>Arrays of doubles\<close>

text \<open>Element \<open>i\<close> of the array at \<open>p\<close>.\<close>

definition elt :: "mem \<Rightarrow> ptr \<Rightarrow> nat \<Rightarrow> f64" where
  "elt m p i = load64 (dbl p (of_nat i)) m"

lemma bit_load64:
  "bit (load64 p m) n \<longleftrightarrow> n < 64 \<and> bit (m (ucast (p + of_nat (n div 8)))) (n mod 8)"
proof -
  define bs where "bs = map (\<lambda>i. m (ucast (p + of_nat i))) [0, 1, 2, 3, 4, 5, 6, 7 :: nat]"
  have "load64 p m = word_of_int (horner_sum uint (2 ^ LENGTH(8)) bs)"
    unfolding load64_def word_rcat_def bs_def by (simp only: comp_def list.map rev.simps append.simps)
  then have "bit (load64 p m) n \<longleftrightarrow> n < 64 \<and> n div 8 < length bs \<and> bit (bs ! (n div 8)) (n mod 8)"
    using bit_horner_sum_uint_exp_iff [of bs n] by (simp only: bit_word_of_int_iff) simp
  moreover have "length bs = 8" by (simp add: bs_def)
  moreover have "bs ! j = m (ucast (p + of_nat j))" if "j < 8" for j
  proof -
    have "bs = map (\<lambda>i. m (ucast (p + of_nat i))) [0..<8]" by (simp add: bs_def upt_rec)
    then show ?thesis using that by simp
  qed
  ultimately show ?thesis by auto
qed

lemma load64_cong:
  assumes "\<And>b. b < 8 \<Longrightarrow> m (ucast (p + of_nat b)) = m' (ucast (p' + of_nat b))"
  shows "load64 p m = load64 p' m'"
  by (rule bit_word_eqI) (simp add: bit_load64 assms)

text \<open>The array of \<open>n\<close> doubles at \<open>p\<close> lies in the address space.\<close>

definition holds :: "ptr \<Rightarrow> nat \<Rightarrow> bool" where
  "holds p n \<longleftrightarrow> unat p + 8 * n \<le> 2 ^ 32"

lemma elt_byte:
  assumes "holds p n" "i < n" "b < 8"
  shows "(ucast (dbl p (of_nat i) + of_nat b) :: u64) = ucast p + of_nat (i * 8 + b)"
proof -
  have "(ucast (p + of_nat (i * 8 + b)) :: u64) = ucast p + of_nat (i * 8 + b)"
    using assms by (intro ucast_offset_nowrap) (simp add: holds_def)
  then show ?thesis by (simp add: dbl_def mult.commute add.assoc)
qed

lemma elt_in_span:
  assumes "holds p n" "i < n" "b < 8"
  shows "(ucast (dbl p (of_nat i) + of_nat b) :: u64) \<in> span p (8 * n)"
  unfolding elt_byte [OF assms] span_def mem_Collect_eq using assms
  by (subst (1 2) unat_offset_u64) (auto simp: holds_def)

lemma elt_span_cong:
  assumes "holds p n" "i < n" "\<And>y. y \<in> span p (8 * n) \<Longrightarrow> m y = m' y"
  shows "elt m p i = elt m' p i"
  unfolding elt_def by (rule load64_cong) (use assms elt_in_span in blast)

lemma elt_cong:
  assumes "holds p n" "i < n" "holds q k" "j < k"
    and "\<And>b. b < 8 \<Longrightarrow> m (ucast p + of_nat (i * 8 + b)) = m' (ucast q + of_nat (j * 8 + b))"
  shows "elt m p i = elt m' q j"
  unfolding elt_def by (rule load64_cong) (simp only: elt_byte [OF assms(1,2)] elt_byte [OF assms(3,4)] assms(5))

text \<open>Storing an element.\<close>

lemma store64_bytes:
  assumes "holds p n" "i < n"
  shows "store64 (dbl p (of_nat i)) v m = for_upto 8 (\<lambda>b m. m(ucast p + of_nat (i * 8 + b) := ucast (drop_bit (8 * b) v))) m"
  unfolding store64_def by (rule for_upto_cong) (simp only: elt_byte [OF assms])

lemma store64_frame:
  assumes "holds p n" "i < n" "y \<notin> span p (8 * n)"
  shows "store64 (dbl p (of_nat i)) v m y = m y"
  unfolding store64_def by (rule for_upto_writes_miss) (use assms elt_in_span in blast)

lemma elt_store64:
  assumes p: "holds p n" "i < n" "j < n"
  shows "elt (store64 (dbl p (of_nat i)) v m) p j = (if i = j then v else elt m p j)"
proof (cases "i = j")
  case True
  have inj: "inj_on (\<lambda>b. (ucast p :: u64) + of_nat (i * 8 + b)) {..<8}"
    using p by (intro inj_onI) (subst (asm) ucast_offset_inject, auto simp: holds_def)
  show ?thesis
  proof (rule bit_word_eqI)
    fix k assume k: "k < LENGTH(64)"
    have "store64 (dbl p (of_nat i)) v m (ucast p + of_nat (i * 8 + k div 8)) = ucast (drop_bit (8 * (k div 8)) v)"
      unfolding store64_bytes [OF p(1,2)] by (rule for_upto_writes_hit [OF inj]) (use k in simp)
    then show "bit (elt (store64 (dbl p (of_nat i)) v m) p j) k = bit (if i = j then v else elt m p j) k"
      using k True by (simp only: elt_def bit_load64 elt_byte [OF p(1,3)]) (simp add: elt_byte [OF p(1,3)] bit_simps)
  qed
next
  case False
  have "store64 (dbl p (of_nat i)) v m (ucast p + of_nat (j * 8 + b)) = m (ucast p + of_nat (j * 8 + b))" if "b < 8" for b
    unfolding store64_bytes [OF p(1,2)]
  proof (rule for_upto_writes_miss)
    fix c :: nat assume "c < 8"
    moreover have "i * 8 + c \<noteq> j * 8 + b" using row_major_inject [of c 8 b 8 i j] False \<open>c < 8\<close> that by blast
    moreover have "i * 8 + c < 2 ^ 63" "j * 8 + b < 2 ^ 63" using p that \<open>c < 8\<close> by (simp_all add: holds_def)
    ultimately show "(ucast p :: u64) + of_nat (i * 8 + c) \<noteq> ucast p + of_nat (j * 8 + b)"
      by (subst ucast_offset_inject) simp_all
  qed
  then have "elt (store64 (dbl p (of_nat i)) v m) p j = elt m p j" by (rule elt_cong [OF p(1,3) p(1,3)])
  then show ?thesis using False by simp
qed

section \<open>Tiles of doubles\<close>

text \<open>The requests of the tile functions, whatever else is queued.\<close>

definition load_req :: "u32 \<Rightarrow> ptr \<Rightarrow> ptr \<Rightarrow> nat \<Rightarrow> nat \<Rightarrow> nat \<Rightarrow> nat \<Rightarrow> nat \<Rightarrow> nat \<Rightarrow> dma_req" where
  "load_req n dst src i1 i0 h w W pr =
     req_2d n (ucast dst) (ucast (src + of_nat (tile_offset i1 i0 h w W pr))) (of_nat (w * pr)) (of_nat (w * pr)) (of_nat (W * pr)) (of_nat h)"

definition store_req :: "u32 \<Rightarrow> ptr \<Rightarrow> ptr \<Rightarrow> nat \<Rightarrow> nat \<Rightarrow> nat \<Rightarrow> nat \<Rightarrow> nat \<Rightarrow> nat \<Rightarrow> dma_req" where
  "store_req n dst src i1 i0 h w W pr =
     req_2d n (ucast (dst + of_nat (tile_offset i1 i0 h w W pr))) (ucast src) (of_nat (w * pr)) (of_nat (W * pr)) (of_nat (w * pr)) (of_nat h)"

lemma settled_load_2d_tile:
  fixes dst src :: ptr and st :: dma_state
  assumes "tile_ok src i1 i0 h w H W pr"
  defines "st1 \<equiv> snd (snrt_dma_load_2d_tile dst src (of_nat i1) (of_nat i0) (of_nat h) (of_nat w) (of_nat W) (of_nat pr) st)"
  shows "dma_settled exec st1 = exec (load_req (next_id st) dst src i1 i0 h w W pr) (dma_settled exec st)"
    and "length (pending st1) = Suc (length (pending st))"
  using tile_row_nonempty [OF assms(1)]
  by (simp_all add: st1_def snrt_dma_load_2d_tile_def dma_start_simps tile_offset_def dma_settled_def load_req_def)

lemma settled_store_2d_tile:
  fixes dst src :: ptr and st :: dma_state
  assumes "tile_ok dst i1 i0 h w H W pr"
  defines "st1 \<equiv> snd (snrt_dma_store_2d_tile dst src (of_nat i1) (of_nat i0) (of_nat h) (of_nat w) (of_nat W) (of_nat pr) st)"
  shows "dma_settled exec st1 = exec (store_req (next_id st) dst src i1 i0 h w W pr) (dma_settled exec st)"
    and "length (pending st1) = Suc (length (pending st))"
  using tile_row_nonempty [OF assms(1)]
  by (simp_all add: st1_def snrt_dma_store_2d_tile_def dma_start_simps tile_offset_def dma_settled_def store_req_def)

text \<open>Element \<open>(r, c)\<close> of a tile, as an index of the matrix.\<close>

definition tile_elt :: "nat \<Rightarrow> nat \<Rightarrow> nat \<Rightarrow> nat \<Rightarrow> nat \<Rightarrow> nat \<Rightarrow> nat \<Rightarrow> nat" where
  "tile_elt i1 i0 h w W r c = (i1 * h + r) * W + (i0 * w + c)"

lemma tile_elt_byte: "tile_byte i1 i0 h w W 8 r c b = tile_elt i1 i0 h w W r c * 8 + b"
  by (simp add: tile_byte_def tile_elt_def)

lemma tile_elt_bound:
  assumes "tile_ok p i1 i0 h w H W pr" "r < h" "c < w"
  shows "tile_elt i1 i0 h w W r c < H * W"
proof -
  have "i1 * h + r < H" "i0 * w + c < W"
    using assms row_major_less [of i1 "i1 + 1" r h] row_major_less [of i0 "i0 + 1" c w]
    unfolding tile_ok_def by linarith+
  then show ?thesis unfolding tile_elt_def by (intro row_major_less)
qed

lemma tile_holds: "tile_ok p i1 i0 h w H W 8 \<Longrightarrow> holds p (H * W)"
  by (simp add: tile_ok_def holds_def)

context dma_backend
begin

lemma load_req_elt:
  assumes ok: "tile_ok src i1 i0 h w H W 8" and ap: "tile_apart dst src h w H W 8"
    and fit: "holds dst (h * w)" and rc: "r < h" "c < w"
  shows "elt (exec (load_req n dst src i1 i0 h w W 8) m) dst (r * w + c) = elt m src (tile_elt i1 i0 h w W r c)"
proof (rule elt_cong [OF fit row_major_less [OF rc] tile_holds [OF ok] tile_elt_bound [OF ok rc]])
  fix b :: nat assume b: "b < 8"
  note bnd = tile_ok_bounds [OF ok] and sz = tile_sizes [OF ok]
  have "exec (load_req n dst src i1 i0 h w W 8) m (ucast dst + of_nat (packed_byte w 8 r c b)) =
      m (ucast src + of_nat (tile_byte i1 i0 h w W 8 r c b))"
    using exec_2d [OF load_req_def [of n dst src i1 i0 h w W 8], unfolded sz, where r = r and i = "c * 8 + b" and m = m]
      bnd tile_apart_bytes [OF ok ap] row_major_less [OF rc(2) b] rc(1)
    by (simp add: packed_byte_split tile_ptr(2) [OF ok, symmetric])
  then show "exec (load_req n dst src i1 i0 h w W 8) m (ucast dst + of_nat ((r * w + c) * 8 + b)) =
      m (ucast src + of_nat (tile_elt i1 i0 h w W r c * 8 + b))"
    by (simp only: packed_byte_def tile_elt_byte)
qed

lemma load_req_frame:
  assumes ok: "tile_ok src i1 i0 h w H W 8" and fit: "holds dst (h * w)" and y: "y \<notin> span dst (8 * (h * w))"
  shows "exec (load_req n dst src i1 i0 h w W 8) m y = m y"
proof (rule exec_outside)
  note bnd = tile_ok_bounds [OF ok] and sz = tile_sizes [OF ok]
  fix r i assume *: "r < dma_rows (load_req n dst src i1 i0 h w W 8)" "i < unat (req_size (load_req n dst src i1 i0 h w W 8))"
  then have ri: "r < h" "i < w * 8" unfolding load_req_def dma_req_2d_simps sz by auto
  have "dma_dst_addr (load_req n dst src i1 i0 h w W 8) r i = ucast dst + of_nat (r * (w * 8) + i)"
    by (rule dma_dst_addr_2d [OF load_req_def [of n dst src i1 i0 h w W 8], unfolded sz]) (rule bnd(7))
  moreover have "r * (w * 8) + i < 8 * (h * w)" using row_major_less [OF ri] by (simp add: ac_simps)
  then have "(ucast dst :: u64) + of_nat (r * (w * 8) + i) \<in> span dst (8 * (h * w))"
    using fit unfolding span_def mem_Collect_eq by (subst (1 2) unat_offset_u64) (auto simp: holds_def)
  ultimately show "dma_dst_addr (load_req n dst src i1 i0 h w W 8) r i \<noteq> y" using y by metis
qed

lemma store_req_elt:
  assumes ok: "tile_ok dst i1 i0 h w H W 8" and ap: "tile_apart src dst h w H W 8"
    and fit: "holds src (h * w)" and rc: "r < h" "c < w"
  shows "elt (exec (store_req n dst src i1 i0 h w W 8) m) dst (tile_elt i1 i0 h w W r c) = elt m src (r * w + c)"
proof (rule elt_cong [OF tile_holds [OF ok] tile_elt_bound [OF ok rc] fit row_major_less [OF rc]])
  fix b :: nat assume b: "b < 8"
  note bnd = tile_ok_bounds [OF ok] and sz = tile_sizes [OF ok]
  have "exec (store_req n dst src i1 i0 h w W 8) m (ucast dst + of_nat (tile_byte i1 i0 h w W 8 r c b)) =
      m (ucast src + of_nat (packed_byte w 8 r c b))"
    using exec_2d [OF store_req_def [of n dst src i1 i0 h w W 8], unfolded sz, where r = r and i = "c * 8 + b" and m = m]
      bnd tile_apart_bytes [OF ok ap, symmetric] row_major_less [OF rc(2) b] rc(1)
    by (simp add: packed_byte_split tile_ptr(2) [OF ok, symmetric])
  then show "exec (store_req n dst src i1 i0 h w W 8) m (ucast dst + of_nat (tile_elt i1 i0 h w W r c * 8 + b)) =
      m (ucast src + of_nat ((r * w + c) * 8 + b))"
    by (simp only: packed_byte_def tile_elt_byte)
qed

lemma store_req_byte:
  assumes ok: "tile_ok dst i1 i0 h w H W 8"
    and y: "\<And>r c b. r < h \<Longrightarrow> c < w \<Longrightarrow> b < 8 \<Longrightarrow> y \<noteq> ucast dst + of_nat (tile_elt i1 i0 h w W r c * 8 + b)"
  shows "exec (store_req n dst src i1 i0 h w W 8) m y = m y"
proof (rule exec_outside)
  note bnd = tile_ok_bounds [OF ok] and sz = tile_sizes [OF ok]
  fix r i assume *: "r < dma_rows (store_req n dst src i1 i0 h w W 8)" "i < unat (req_size (store_req n dst src i1 i0 h w W 8))"
  then have ri: "r < h" "i < w * 8" unfolding store_req_def dma_req_2d_simps sz by auto
  have "dma_dst_addr (store_req n dst src i1 i0 h w W 8) r i = ucast (dst + of_nat (tile_offset i1 i0 h w W 8)) + of_nat (r * (W * 8) + i)"
    by (rule dma_dst_addr_2d [OF store_req_def [of n dst src i1 i0 h w W 8], unfolded sz]) (rule bnd(5))
  then have "dma_dst_addr (store_req n dst src i1 i0 h w W 8) r i = ucast dst + of_nat (tile_byte i1 i0 h w W 8 r (i div 8) (i mod 8))"
    using tile_ptr(2) [OF ok, of r "i div 8" "i mod 8"] row_byte_elem(3) [OF ri(2)] by simp
  then show "dma_dst_addr (store_req n dst src i1 i0 h w W 8) r i \<noteq> y"
    unfolding tile_elt_byte using y [OF ri(1) row_byte_elem(1,2) [OF ri(2)]] by metis
qed

lemma store_req_frame:
  assumes ok: "tile_ok dst i1 i0 h w H W 8" and y: "y \<notin> span dst (8 * (H * W))"
  shows "exec (store_req n dst src i1 i0 h w W 8) m y = m y"
proof (rule store_req_byte [OF ok])
  fix r c b :: nat assume "r < h" "c < w" and b: "b < 8"
  then have e: "tile_elt i1 i0 h w W r c < H * W" using tile_elt_bound [OF ok] by simp
  show "y \<noteq> ucast dst + of_nat (tile_elt i1 i0 h w W r c * 8 + b)"
    using elt_in_span [OF tile_holds [OF ok] e b] elt_byte [OF tile_holds [OF ok] e b] y by metis
qed

lemma store_req_other:
  assumes ok: "tile_ok dst i1 i0 h w H W 8" and j: "j < H * W"
    and other: "\<And>r c. r < h \<Longrightarrow> c < w \<Longrightarrow> j \<noteq> tile_elt i1 i0 h w W r c"
  shows "elt (exec (store_req n dst src i1 i0 h w W 8) m) dst j = elt m dst j"
proof (rule elt_cong [OF tile_holds [OF ok] j tile_holds [OF ok] j], rule store_req_byte [OF ok])
  fix b r c b' :: nat assume *: "b < 8" "r < h" "c < w" "b' < 8"
  have "j * 8 + b \<noteq> tile_elt i1 i0 h w W r c * 8 + b'"
    using other [OF *(2,3)] * row_major_inject [of b 8 b' 8] by blast
  moreover have "j * 8 + b < 2 ^ 63" "tile_elt i1 i0 h w W r c * 8 + b' < 2 ^ 63"
    using j * tile_holds [OF ok] tile_elt_bound [OF ok *(2,3)] by (auto simp: holds_def)
  ultimately show "(ucast dst :: u64) + of_nat (j * 8 + b) \<noteq> ucast dst + of_nat (tile_elt i1 i0 h w W r c * 8 + b')"
    by (subst ucast_offset_inject) simp_all
qed

end

end
