(* ===== verification/Gemm.thy ===== *)
theory Gemm
  imports Doubles
begin

text \<open>
  General matrix multiplication, \<open>sw/blas/gemm/src\<close>: the double-precision kernel, the distribution of
  the rows over the compute cores of a cluster (\<open>sc_st_gemm\<close>) and the tiled driver (\<open>gemm\<close>), which moves
  the tiles between L3 and L1 by DMA. Between two barriers the compute cores run their kernels one after the
  other, in any order: they write disjoint rows and read nothing that another core writes.
\<close>

section \<open>The kernel\<close>

datatype precision_t = FP64 | FP32 | FP16 | FP8

fun prec_size :: "precision_t \<Rightarrow> u32" where
  "prec_size FP64 = 8"
| "prec_size FP32 = 4"
| "prec_size FP16 = 2"
| "prec_size FP8 = 1"

definition multiply_opt :: "fp_ops \<Rightarrow> f64 \<Rightarrow> f64 \<Rightarrow> f64" where
  "multiply_opt F multiplicand multiplier =
     (if \<not> feq F multiplier f64_0 then fmul F multiplicand multiplier else f64_0)"

text \<open>The four variants of the loop nest differ in how they index \<open>A\<close> and \<open>B\<close>.\<close>

definition index_a :: "bool \<Rightarrow> u32 \<Rightarrow> u32 \<Rightarrow> u32 \<Rightarrow> u32 \<Rightarrow> u32" where
  "index_a ta M ldA m k = (if ta then k * M * ldA + m * ldA else k + m * ldA)"

definition index_b :: "bool \<Rightarrow> u32 \<Rightarrow> u32 \<Rightarrow> u32 \<Rightarrow> u32" where
  "index_b tb ldB k n = (if tb then k + n * ldB else k * ldB + n)"

definition gemm_fp64_naive ::
  "fp_ops \<Rightarrow> u32 \<Rightarrow> u32 \<Rightarrow> u32 \<Rightarrow> ptr \<Rightarrow> u32 \<Rightarrow> bool \<Rightarrow> ptr \<Rightarrow> u32 \<Rightarrow> bool \<Rightarrow> ptr \<Rightarrow> u32 \<Rightarrow> f64 \<Rightarrow> mem \<Rightarrow> mem" where
  "gemm_fp64_naive F M N K A ldA ta B ldB tb C ldC BETA mm =
     for_upto (unat M) (\<lambda>m mm. for_upto (unat N) (\<lambda>n mm.
       let c0 = multiply_opt F (load64 (dbl C (of_nat m * ldC + of_nat n)) mm) BETA;
           c0 = for_upto (unat K) (\<lambda>k c0. fadd F c0
             (fmul F (load64 (dbl A (index_a ta M ldA (of_nat m) (of_nat k))) mm)
                     (load64 (dbl B (index_b tb ldB (of_nat k) (of_nat n))) mm))) c0
       in store64 (dbl C (of_nat m * ldC + of_nat n)) c0 mm) mm) mm"

section \<open>One tile on the cores of a cluster\<close>

datatype gemm_kernel = gemm_fp64_naive_k | gemm_fp64_opt_k | gemm_fp32_naive_k | gemm_fp32_opt_k |
  gemm_fp16_ex_opt_k | gemm_fp16_opt_k | gemm_fp8_naive_k | gemm_fp8_ex_opt_k

text \<open>The arguments of a kernel; the kernels for FP16, FP8 and \<open>gemm_fp32_opt\<close> take no transposition flags.\<close>

record kernel_args =
  kM :: u32
  kN :: u32
  kK :: u32
  kA :: ptr
  kldA :: u32
  kta :: bool
  kB :: ptr
  kldB :: u32
  ktb :: bool
  kC :: ptr
  kldC :: u32
  kbeta :: u32
  ksetup_ssr :: bool

text \<open>The kernel that \<open>sc_st_gemm\<close> calls on a core, if it calls one.\<close>

definition sc_st_gemm ::
  "snrt_defs \<Rightarrow> u32 \<Rightarrow> precision_t \<Rightarrow> bool \<Rightarrow> bool \<Rightarrow> bool \<Rightarrow> bool \<Rightarrow> u32 \<Rightarrow> u32 \<Rightarrow> u32 \<Rightarrow> ptr \<Rightarrow> u32 \<Rightarrow> ptr \<Rightarrow> u32 \<Rightarrow>
     u32 \<Rightarrow> ptr \<Rightarrow> u32 \<Rightarrow> bool \<Rightarrow> (gemm_kernel \<times> kernel_args) option" where
  "sc_st_gemm d hartid prec expand setup_ssr transa transb m n k a lda b ldb beta c ldc baseline =
     (if snrt_is_compute_core d hartid then
        let compute_num = snrt_cluster_compute_core_num d;
            compute_id = snrt_cluster_core_idx d hartid;
            lda_strided = compute_num * lda;
            ldc_strided = compute_num * ldc;
            offsetA = compute_id * lda;
            offsetC = compute_id * ldc;
            frac_m = m div compute_num;
            kern = (case prec of
                FP64 \<Rightarrow> if baseline then gemm_fp64_naive_k else gemm_fp64_opt_k
              | FP32 \<Rightarrow> if baseline then gemm_fp32_naive_k else gemm_fp32_opt_k
              | FP16 \<Rightarrow> if expand then gemm_fp16_ex_opt_k else gemm_fp16_opt_k
              | FP8 \<Rightarrow> if baseline then gemm_fp8_naive_k else gemm_fp8_ex_opt_k)
        in Some (kern, \<lparr>kM = frac_m, kN = n, kK = k, kA = a + prec_size prec * offsetA, kldA = lda_strided, kta = transa,
             kB = b, kldB = ldb, ktb = transb, kC = c + prec_size prec * offsetC, kldC = ldc_strided,
             kbeta = beta, ksetup_ssr = setup_ssr\<rparr>)
      else None)"

text \<open>
  Running a kernel: the baseline kernel for doubles is \<open>gemm_fp64_naive\<close>; \<open>other\<close> stands for the
  kernels that are not modelled.
\<close>

definition run_kernel ::
  "fp_ops \<Rightarrow> (gemm_kernel \<Rightarrow> kernel_args \<Rightarrow> mem \<Rightarrow> mem) \<Rightarrow> (gemm_kernel \<times> kernel_args) option \<Rightarrow> mem \<Rightarrow> mem" where
  "run_kernel F other call mm =
     (case call of
        None \<Rightarrow> mm
      | Some (kern, x) \<Rightarrow>
          if kern = gemm_fp64_naive_k
          then gemm_fp64_naive F (kM x) (kN x) (kK x) (kA x) (kldA x) (kta x) (kB x) (kldB x) (ktb x) (kC x) (kldC x)
                 (of_u32 F (kbeta x)) mm
          else other kern x mm)"

section \<open>Tiles\<close>

record gemm_args =
  gprec :: precision_t
  gexpand :: bool
  gsetup_ssr :: bool
  parallelize_m :: bool
  parallelize_k :: bool
  m_tiles :: u32
  n_tiles :: u32
  k_tiles :: u32
  load_a_flag :: bool
  load_b_flag :: bool
  load_c_flag :: bool
  gtransa :: bool
  gtransb :: bool
  gm :: u32
  gn :: u32
  gk :: u32
  ga :: ptr
  gb :: ptr
  gbeta :: u32
  gc :: ptr
  gbaseline :: bool

definition frac_m :: "gemm_args \<Rightarrow> u32" where "frac_m x = gm x div m_tiles x"
definition frac_n :: "gemm_args \<Rightarrow> u32" where "frac_n x = gn x div n_tiles x"
definition frac_k :: "gemm_args \<Rightarrow> u32" where "frac_k x = gk x div k_tiles x"

text \<open>The buffers \<open>local_a\<close>, \<open>local_b\<close>, \<open>local_c_partial\<close> and \<open>local_c\<close>.\<close>

definition gemm_buffers :: "gemm_args \<Rightarrow> ptr \<Rightarrow> ptr \<times> ptr \<times> ptr \<times> ptr" where
  "gemm_buffers x l1_next =
     (let size_frac_a = frac_m x * frac_k x * prec_size (gprec x);
          size_frac_b = frac_k x * frac_n x * prec_size (gprec x);
          size_frac_c = frac_m x * frac_n x * prec_size (gprec x);
          heap_ptr = l1_next;
          (local_a, heap_ptr) = (if load_a_flag x then (heap_ptr, heap_ptr + size_frac_a) else (ga x, heap_ptr));
          (local_b, heap_ptr) = (if load_b_flag x then (heap_ptr, heap_ptr + size_frac_b) else (gb x, heap_ptr));
          (local_c_partial, heap_ptr) = (if load_c_flag x then (heap_ptr, heap_ptr + size_frac_c) else (gc x, heap_ptr));
          local_c = (if parallelize_k x then heap_ptr else local_c_partial)
      in (local_a, local_b, local_c_partial, local_c))"

definition m_tiles_per_cluster :: "snrt_defs \<Rightarrow> gemm_args \<Rightarrow> u32" where
  "m_tiles_per_cluster d x = (if parallelize_m x then m_tiles x div snrt_cluster_num d else m_tiles x)"

definition k_tiles_per_cluster :: "snrt_defs \<Rightarrow> gemm_args \<Rightarrow> u32" where
  "k_tiles_per_cluster d x = (if parallelize_k x then k_tiles x div snrt_cluster_num d else k_tiles x)"

definition abs_m_tile_idx :: "snrt_defs \<Rightarrow> u32 \<Rightarrow> gemm_args \<Rightarrow> u32 \<Rightarrow> u32" where
  "abs_m_tile_idx d hartid x m_tile =
     (if \<not> parallelize_m x then m_tile else snrt_cluster_idx d hartid * m_tiles_per_cluster d x + m_tile)"

definition abs_k_tile_idx :: "snrt_defs \<Rightarrow> u32 \<Rightarrow> gemm_args \<Rightarrow> u32 \<Rightarrow> u32" where
  "abs_k_tile_idx d hartid x k_tile =
     (if \<not> parallelize_k x then k_tile else snrt_cluster_idx d hartid * k_tiles_per_cluster d x + k_tile)"

text \<open>The transfers that the data mover core issues before an iteration of the accumulation loop.\<close>

definition gemm_copy_in ::
  "gen_cfg \<Rightarrow> snrt_defs \<Rightarrow> u32 \<Rightarrow> gemm_args \<Rightarrow> ptr \<Rightarrow> u32 \<Rightarrow> u32 \<Rightarrow> u32 \<Rightarrow> dma_state \<Rightarrow> dma_state" where
  "gemm_copy_in g d hartid x l1_next m_tile n_tile k_tile st =
     (let (local_a, local_b, local_c_partial, local_c) = gemm_buffers x l1_next;
          mi = abs_m_tile_idx d hartid x m_tile; ki = abs_k_tile_idx d hartid x k_tile;
          prec = prec_size (gprec x);
          st = (if load_a_flag x then snd (snrt_dma_load_2d_tile local_a (ga x) mi ki (frac_m x) (frac_k x) (gk x) prec st) else st);
          st = (if load_b_flag x then snd (snrt_dma_load_2d_tile local_b (gb x) ki n_tile (frac_k x) (frac_n x) (gn x) prec st) else st)
      in if load_c_flag x then
           if ki = 0 then snd (snrt_dma_load_2d_tile local_c_partial (gc x) mi n_tile (frac_m x) (frac_n x) (gn x) prec st)
           else if k_tile = 0 then snd (snrt_dma_start_1d local_c_partial (snrt_zero_memory_ptr g) (frac_m x * frac_n x * prec) st)
           else st
         else st)"

text \<open>The kernel that a core runs in an iteration.\<close>

definition gemm_compute :: "snrt_defs \<Rightarrow> u32 \<Rightarrow> gemm_args \<Rightarrow> ptr \<Rightarrow> u32 \<Rightarrow> (gemm_kernel \<times> kernel_args) option" where
  "gemm_compute d hartid x l1_next k_tile =
     (let (local_a, local_b, local_c_partial, local_c) = gemm_buffers x l1_next;
          lda = frac_k x;
          ldb = (if gtransb x then frac_k x else frac_n x);
          ldc = frac_n x;
          beta_k = (if abs_k_tile_idx d hartid x k_tile = 0 then gbeta x else 1)
      in if \<not> snrt_is_dm_core d hartid
         then sc_st_gemm d hartid (gprec x) (gexpand x) (gsetup_ssr x) (gtransa x) (gtransb x) (frac_m x) (frac_n x) (frac_k x)
                local_a lda local_b ldb beta_k local_c_partial ldc (gbaseline x)
         else None)"

definition gemm_copy_out :: "snrt_defs \<Rightarrow> u32 \<Rightarrow> gemm_args \<Rightarrow> ptr \<Rightarrow> u32 \<Rightarrow> u32 \<Rightarrow> dma_state \<Rightarrow> dma_state" where
  "gemm_copy_out d hartid x l1_next m_tile n_tile st =
     (let (local_a, local_b, local_c_partial, local_c) = gemm_buffers x l1_next
      in snd (snrt_dma_store_2d_tile (gc x) local_c (abs_m_tile_idx d hartid x m_tile) n_tile (frac_m x) (frac_n x) (gn x)
           (prec_size (gprec x)) st))"

text \<open>
  How the cluster runs the program: the data mover core, the schedules of its waits for the DMA engine,
  and the order in which the compute cores run their kernels between two barriers.
\<close>

record gemm_run =
  dm_hart :: u32
  wait_in :: "nat \<Rightarrow> nat \<Rightarrow> nat \<Rightarrow> nat list"
  wait_out :: "nat \<Rightarrow> nat \<Rightarrow> nat list"
  core_order :: "nat \<Rightarrow> nat \<Rightarrow> nat \<Rightarrow> u32 list"

definition gemm_iter ::
  "(dma_req \<Rightarrow> mem \<Rightarrow> mem) \<Rightarrow> ((gemm_kernel \<times> kernel_args) option \<Rightarrow> mem \<Rightarrow> mem) \<Rightarrow> gemm_run \<Rightarrow> gen_cfg \<Rightarrow> snrt_defs \<Rightarrow>
     gemm_args \<Rightarrow> ptr \<Rightarrow> nat \<Rightarrow> nat \<Rightarrow> nat \<Rightarrow> dma_state \<Rightarrow> dma_state option" where
  "gemm_iter exec run r g d x l1_next m_tile n_tile k_tile st =
     map_option (\<lambda>st. st\<lparr>dmem := fold (\<lambda>h. run (gemm_compute d h x l1_next (of_nat k_tile))) (core_order r m_tile n_tile k_tile) (dmem st)\<rparr>)
       (snrt_dma_wait_all exec (wait_in r m_tile n_tile k_tile)
         (gemm_copy_in g d (dm_hart r) x l1_next (of_nat m_tile) (of_nat n_tile) (of_nat k_tile) st))"

text \<open>
  One output tile. \<open>reduce\<close> stands for the collective \<open>snrt_global_reduction_dma\<close> with the other clusters,
  which is called when the accumulation is distributed over the clusters.
\<close>

definition gemm_tile ::
  "(dma_req \<Rightarrow> mem \<Rightarrow> mem) \<Rightarrow> ((gemm_kernel \<times> kernel_args) option \<Rightarrow> mem \<Rightarrow> mem) \<Rightarrow> (ptr \<Rightarrow> ptr \<Rightarrow> u32 \<Rightarrow> dma_state \<Rightarrow> dma_state) \<Rightarrow>
     gemm_run \<Rightarrow> gen_cfg \<Rightarrow> snrt_defs \<Rightarrow> gemm_args \<Rightarrow> ptr \<Rightarrow> nat \<Rightarrow> nat \<Rightarrow> dma_state \<Rightarrow> dma_state option" where
  "gemm_tile exec run reduce r g d x l1_next m_tile n_tile st =
     (let (local_a, local_b, local_c_partial, local_c) = gemm_buffers x l1_next
      in case for_upto (unat (k_tiles_per_cluster d x))
             (\<lambda>k_tile st. Option.bind st (gemm_iter exec run r g d x l1_next m_tile n_tile k_tile)) (Some st) of
           None \<Rightarrow> None
         | Some st \<Rightarrow>
             let st = (if parallelize_k x then reduce local_c local_c_partial (frac_m x * frac_n x) st else st)
             in if snrt_cluster_idx d (dm_hart r) = 0 \<or> \<not> parallelize_k x
                then snrt_dma_wait_all exec (wait_out r m_tile n_tile) (gemm_copy_out d (dm_hart r) x l1_next (of_nat m_tile) (of_nat n_tile) st)
                else Some st)"

definition gemm ::
  "(dma_req \<Rightarrow> mem \<Rightarrow> mem) \<Rightarrow> ((gemm_kernel \<times> kernel_args) option \<Rightarrow> mem \<Rightarrow> mem) \<Rightarrow> (ptr \<Rightarrow> ptr \<Rightarrow> u32 \<Rightarrow> dma_state \<Rightarrow> dma_state) \<Rightarrow>
     gemm_run \<Rightarrow> gen_cfg \<Rightarrow> snrt_defs \<Rightarrow> gemm_args \<Rightarrow> ptr \<Rightarrow> dma_state \<Rightarrow> dma_state option" where
  "gemm exec run reduce r g d x l1_next st =
     for_upto (unat (m_tiles_per_cluster d x)) (\<lambda>m_tile st. for_upto (unat (n_tiles x))
       (\<lambda>n_tile st. Option.bind st (gemm_tile exec run reduce r g d x l1_next m_tile n_tile)) st) (Some st)"

section \<open>The kernel on the cells of a matrix\<close>

text \<open>The accumulation over \<open>K\<close> products, and the value of one element of the result.\<close>

definition gemm_acc :: "fp_ops \<Rightarrow> nat \<Rightarrow> (nat \<Rightarrow> f64) \<Rightarrow> (nat \<Rightarrow> f64) \<Rightarrow> f64 \<Rightarrow> f64" where
  "gemm_acc F K a b c = for_upto K (\<lambda>k c. fadd F c (fmul F (a k) (b k))) c"

lemma gemm_acc_cong:
  assumes "\<And>k. k < K \<Longrightarrow> a k = a' k" "\<And>k. k < K \<Longrightarrow> b k = b' k"
  shows "gemm_acc F K a b c = gemm_acc F K a' b' c"
  unfolding gemm_acc_def by (rule for_upto_cong) (simp add: assms)

lemma gemm_acc_add: "gemm_acc F (K + L) a b c = gemm_acc F L (\<lambda>k. a (K + k)) (\<lambda>k. b (K + k)) (gemm_acc F K a b c)"
  unfolding gemm_acc_def by (induction L) (simp_all add: for_upto_Suc)

text \<open>Every accumulation but an empty one ends with an addition.\<close>

lemma gemm_acc_fadd: "0 < K \<Longrightarrow> \<exists>x y. gemm_acc F K a b c = fadd F x y"
  unfolding gemm_acc_def by (cases K) (auto simp: for_upto_Suc)

definition gemm_elem ::
  "fp_ops \<Rightarrow> f64 \<Rightarrow> nat \<Rightarrow> ptr \<Rightarrow> nat \<Rightarrow> ptr \<Rightarrow> nat \<Rightarrow> ptr \<Rightarrow> nat \<Rightarrow> mem \<Rightarrow> nat \<times> nat \<Rightarrow> f64" where
  "gemm_elem F beta K A lda B ldb C ldc m = (\<lambda>(i, j).
     gemm_acc F K (\<lambda>k. elt m A (i * lda + k)) (\<lambda>k. elt m B (k * ldb + j)) (multiply_opt F (elt m C (i * ldc + j)) beta))"

definition gemm_cell ::
  "fp_ops \<Rightarrow> f64 \<Rightarrow> nat \<Rightarrow> ptr \<Rightarrow> nat \<Rightarrow> ptr \<Rightarrow> nat \<Rightarrow> ptr \<Rightarrow> nat \<Rightarrow> nat \<times> nat \<Rightarrow> mem \<Rightarrow> mem" where
  "gemm_cell F beta K A lda B ldb C ldc x m =
     store64 (dbl C (of_nat (fst x * ldc + snd x))) (gemm_elem F beta K A lda B ldb C ldc m x) m"

text \<open>The kernel, started at row \<open>q\<close> with the leading dimensions multiplied by \<open>P\<close>, visits every \<open>P\<close>-th row.\<close>

lemma naive_cells:
  "gemm_fp64_naive F M N K (dbl A (of_nat q * lda)) (of_nat P * lda) False B ldb False
      (dbl C (of_nat q * ldc)) (of_nat P * ldc) beta mm =
    fold (gemm_cell F beta (unat K) A (unat lda) B (unat ldb) C (unat ldc))
      (map (\<lambda>(r, n). (r * P + q, n)) (upto_pairs (unat M) (unat N))) mm"
proof -
  have C: "dbl (dbl C (of_nat q * ldc)) (of_nat m * (of_nat P * ldc) + of_nat n) =
      dbl C (of_nat ((m * P + q) * unat ldc + n))" for m n
    by (simp add: dbl_def algebra_simps)
  have A: "dbl (dbl A (of_nat q * lda)) (index_a False M (of_nat P * lda) (of_nat m) (of_nat k)) =
      dbl A (of_nat ((m * P + q) * unat lda + k))" for m k
    by (simp add: dbl_def index_a_def algebra_simps)
  have B: "dbl B (index_b False ldb (of_nat k) (of_nat n)) = dbl B (of_nat (k * unat ldb + n))" for k n
    by (simp add: dbl_def index_b_def algebra_simps)
  show ?thesis
    unfolding gemm_fp64_naive_def nest2 fold_map C A B
    by (rule fold_cong) (auto simp: Let_def gemm_cell_def gemm_elem_def gemm_acc_def elt_def)
qed

text \<open>
  Computing a list of distinct cells: each takes its value from the memory before, and nothing outside
  the result changes, when the result overlaps neither factor.
\<close>

definition gemm_fits :: "nat \<Rightarrow> nat \<Rightarrow> nat \<Rightarrow> ptr \<Rightarrow> ptr \<Rightarrow> ptr \<Rightarrow> bool" where
  "gemm_fits M N K A B C \<longleftrightarrow> holds A (M * K) \<and> holds B (K * N) \<and> holds C (M * N) \<and>
     span A (8 * (M * K)) \<inter> span C (8 * (M * N)) = {} \<and> span B (8 * (K * N)) \<inter> span C (8 * (M * N)) = {}"

lemma gemm_elem_cong:
  assumes g: "gemm_fits M N K A B C" and ij: "i < M" "j < N"
    and eq: "\<And>y. y \<notin> span C (8 * (M * N)) \<Longrightarrow> m y = m' y" and c: "elt m C (i * N + j) = elt m' C (i * N + j)"
  shows "gemm_elem F beta K A K B N C N m (i, j) = gemm_elem F beta K A K B N C N m' (i, j)"
proof -
  have "elt m A (i * K + k) = elt m' A (i * K + k)" "elt m B (k * N + j) = elt m' B (k * N + j)" if "k < K" for k
    using g row_major_less [OF ij(1) that] row_major_less [OF that ij(2)] eq
    by (auto simp: gemm_fits_def intro!: elt_span_cong [of A "M * K"] elt_span_cong [of B "K * N"])
  then show ?thesis unfolding gemm_elem_def prod.case c by (rule gemm_acc_cong)
qed

lemma gemm_cell_effect:
  assumes g: "gemm_fits M N K A B C" and x: "x \<in> {..<M} \<times> {..<N}"
  shows "y \<notin> span C (8 * (M * N)) \<Longrightarrow> gemm_cell F beta K A K B N C N x m y = m y"
    and "i < M \<Longrightarrow> j < N \<Longrightarrow> elt (gemm_cell F beta K A K B N C N x m) C (i * N + j) =
      (if x = (i, j) then gemm_elem F beta K A K B N C N m (i, j) else elt m C (i * N + j))"
proof -
  have C: "holds C (M * N)" using g by (simp add: gemm_fits_def)
  have xi: "fst x * N + snd x < M * N" using x by (intro row_major_less) auto
  show "gemm_cell F beta K A K B N C N x m y = m y" if "y \<notin> span C (8 * (M * N))"
    unfolding gemm_cell_def by (rule store64_frame [OF C xi that])
  show "elt (gemm_cell F beta K A K B N C N x m) C (i * N + j) =
      (if x = (i, j) then gemm_elem F beta K A K B N C N m (i, j) else elt m C (i * N + j))" if ij: "i < M" "j < N"
  proof -
    have "fst x * N + snd x = i * N + j \<longleftrightarrow> x = (i, j)"
      using x ij row_major_inject [of "snd x" N j N "fst x" i] by auto
    then show ?thesis unfolding gemm_cell_def elt_store64 [OF C xi row_major_less [OF ij]] by simp
  qed
qed

lemma fold_gemm_cells:
  fixes F :: fp_ops and beta :: f64 and m :: mem
  assumes g: "gemm_fits M N K A B C" and xs: "distinct xs" "set xs \<subseteq> {..<M} \<times> {..<N}"
  defines "m' \<equiv> fold (gemm_cell F beta K A K B N C N) xs m"
  shows "y \<notin> span C (8 * (M * N)) \<Longrightarrow> m' y = m y"
    and "i < M \<Longrightarrow> j < N \<Longrightarrow> elt m' C (i * N + j) =
      (if (i, j) \<in> set xs then gemm_elem F beta K A K B N C N m (i, j) else elt m C (i * N + j))"
  unfolding m'_def using xs
proof (induction xs arbitrary: m)
  case (Cons x xs)
  note step = gemm_cell_effect [OF g, of x]
  {
    case 1
    then have x: "x \<in> {..<M} \<times> {..<N}" by auto
    show ?case using Cons.IH(1) [of "gemm_cell F beta K A K B N C N x m"] step(1) [OF x] 1 by simp
  next
    case 2
    then have x: "x \<in> {..<M} \<times> {..<N}" by auto
    note IH = Cons.IH(2) [of "gemm_cell F beta K A K B N C N x m"] and st = step(2) [OF x 2(1,2)]
    have "gemm_elem F beta K A K B N C N (gemm_cell F beta K A K B N C N x m) (i, j) = gemm_elem F beta K A K B N C N m (i, j)"
      if "x \<noteq> (i, j)"
    proof (rule gemm_elem_cong [OF g 2(1,2)])
      show "gemm_cell F beta K A K B N C N x m y = m y" if "y \<notin> span C (8 * (M * N))" for y by (rule step(1) [OF x that])
      show "elt (gemm_cell F beta K A K B N C N x m) C (i * N + j) = elt m C (i * N + j)" using st that by simp
    qed
    moreover have "distinct xs" "set xs \<subseteq> {..<M} \<times> {..<N}" "x = (i, j) \<Longrightarrow> (i, j) \<notin> set xs" using 2 by auto
    ultimately show ?case using IH [OF 2(1,2)] st by (cases "x = (i, j)") simp_all
  }
qed simp_all

text \<open>The kernel on whole matrices.\<close>

lemma naive_whole:
  fixes F :: fp_ops and beta :: f64 and m :: mem
  assumes "gemm_fits (unat M) (unat N) (unat K) A B C"
  defines "m' \<equiv> gemm_fp64_naive F M N K A K False B N False C N beta m"
  shows "y \<notin> span C (8 * (unat M * unat N)) \<Longrightarrow> m' y = m y"
    and "i < unat M \<Longrightarrow> j < unat N \<Longrightarrow> elt m' C (i * unat N + j) = gemm_elem F beta (unat K) A (unat K) B (unat N) C (unat N) m (i, j)"
proof -
  have "m' = fold (gemm_cell F beta (unat K) A (unat K) B (unat N) C (unat N)) (upto_pairs (unat M) (unat N)) m"
    unfolding m'_def using naive_cells [of F M N K A 0 K 1 B N C N beta m] by (simp add: dbl_def)
  then show "y \<notin> span C (8 * (unat M * unat N)) \<Longrightarrow> m' y = m y"
    and "i < unat M \<Longrightarrow> j < unat N \<Longrightarrow> elt m' C (i * unat N + j) = gemm_elem F beta (unat K) A (unat K) B (unat N) C (unat N) m (i, j)"
    using fold_gemm_cells(1) [OF assms(1), of "upto_pairs (unat M) (unat N)" y F beta m]
      fold_gemm_cells(2) [OF assms(1), of "upto_pairs (unat M) (unat N)" i j F beta m]
    by (simp_all add: distinct_product atLeast0LessThan)
qed

section \<open>One tile on the compute cores\<close>

text \<open>The cells that core \<open>q\<close> of \<open>P\<close> computes, and those of a list of cores.\<close>

definition core_cells :: "nat \<Rightarrow> nat \<Rightarrow> nat \<Rightarrow> nat \<Rightarrow> (nat \<times> nat) list" where
  "core_cells P h w q = map (\<lambda>(r, n). (r * P + q, n)) (upto_pairs (h div P) w)"

lemma set_core_cells: "set (core_cells P h w q) = {(r * P + q, n) |r n. r < h div P \<and> n < w}"
  by (auto simp: core_cells_def)

lemma cells_of_cores:
  assumes P: "0 < P" "P dvd h" and qs: "distinct qs" "set qs = {..<P}"
  shows "distinct (concat (map (core_cells P h w) qs))"
    and "set (concat (map (core_cells P h w) qs)) = {..<h} \<times> {..<w}"
proof -
  have one: "distinct (core_cells P h w q)" for q
    using P(1) by (auto simp: core_cells_def distinct_map distinct_product inj_on_def)
  have two: "set (core_cells P h w q) \<inter> set (core_cells P h w q') = {}" if "q < P" "q' < P" "q \<noteq> q'" for q q'
    using that by (auto simp: set_core_cells dest: row_major_inject [of q P q' P, rotated 3])
  have "set rs \<subseteq> {..<P} \<Longrightarrow> distinct rs \<Longrightarrow> distinct (concat (map (core_cells P h w) rs))" for rs
  proof (induction rs)
    case (Cons q rs)
    then have "set (core_cells P h w q) \<inter> set (core_cells P h w q') = {}" if "q' \<in> set rs" for q'
      using that two [of q q'] by auto
    then show ?case using Cons one by auto
  qed simp
  then show "distinct (concat (map (core_cells P h w) qs))" using qs by blast
  have "(i, n) \<in> set (core_cells P h w (i mod P))" if "i < h" "n < w" for i n
  proof -
    have "i div P < h div P" using that P by (auto simp: dvd_def less_mult_imp_div_less mult.commute)
    moreover have "i = i div P * P + i mod P" by simp
    ultimately show ?thesis using that(2) unfolding set_core_cells by blast
  qed
  moreover have "x \<in> {..<h} \<times> {..<w}" if "q < P" "x \<in> set (core_cells P h w q)" for q x
    using that row_major_less [of _ "h div P" q P] P by (auto simp: set_core_cells)
  ultimately show "set (concat (map (core_cells P h w) qs)) = {..<h} \<times> {..<w}" using P(1) qs(2) by force
qed

text \<open>The configuration that is verified here: doubles, the baseline kernel, all operands moved by DMA.\<close>

definition fp64_tiled :: "gemm_args \<Rightarrow> bool" where
  "fp64_tiled x \<longleftrightarrow> gprec x = FP64 \<and> gbaseline x \<and> load_a_flag x \<and> load_b_flag x \<and> load_c_flag x \<and>
     \<not> gtransa x \<and> \<not> gtransb x \<and> \<not> parallelize_k x"

definition buf_a :: "gemm_args \<Rightarrow> ptr \<Rightarrow> ptr" where "buf_a x l1_next = l1_next"
definition buf_b :: "gemm_args \<Rightarrow> ptr \<Rightarrow> ptr" where "buf_b x l1_next = l1_next + 8 * (frac_m x * frac_k x)"
definition buf_c :: "gemm_args \<Rightarrow> ptr \<Rightarrow> ptr" where
  "buf_c x l1_next = l1_next + 8 * (frac_m x * frac_k x) + 8 * (frac_k x * frac_n x)"

lemma gemm_buffers_fp64:
  "fp64_tiled x \<Longrightarrow> gemm_buffers x l1_next = (buf_a x l1_next, buf_b x l1_next, buf_c x l1_next, buf_c x l1_next)"
  by (simp add: gemm_buffers_def fp64_tiled_def buf_a_def buf_b_def buf_c_def Let_def mult.commute)

lemma run_core:
  fixes x :: gemm_args and F :: fp_ops and k_tile :: u32
  assumes x: "fp64_tiled x" and P: "snrt_cluster_compute_core_num d = of_nat P" "P < 2 ^ 32"
    and q: "unat (snrt_cluster_core_idx d h) = q" "q < P"
  defines "beta \<equiv> of_u32 F (if k_tile = 0 then gbeta x else 1)"
  shows "run_kernel F other (gemm_compute d h x l1_next k_tile) mm =
    fold (gemm_cell F beta (unat (frac_k x)) (buf_a x l1_next) (unat (frac_k x)) (buf_b x l1_next) (unat (frac_n x))
        (buf_c x l1_next) (unat (frac_n x))) (core_cells P (unat (frac_m x)) (unat (frac_n x)) q) mm"
proof -
  have qw: "snrt_cluster_core_idx d h = of_nat q" using q(1) by auto
  have "unat (snrt_cluster_compute_core_num d) = P" using P by (simp add: unat_of_nat_small)
  then have "snrt_is_compute_core d h" "unat (frac_m x div of_nat P) = unat (frac_m x) div P"
    using P q by (simp_all add: snrt_is_compute_core_def word_less_nat_alt unat_div unat_of_nat_small)
  then show ?thesis
    using x naive_cells [of F "frac_m x div of_nat P" "frac_n x" "frac_k x" "buf_a x l1_next" q "frac_k x" P
        "buf_b x l1_next" "frac_n x" "buf_c x l1_next" "frac_n x" beta mm]
    by (simp add: gemm_compute_def gemm_buffers_fp64 [OF x] fp64_tiled_def abs_k_tile_idx_def snrt_is_dm_core_def
        sc_st_gemm_def run_kernel_def P(1) qw dbl_def core_cells_def beta_def Let_def)
qed

text \<open>The compute cores of the cluster, each once, in some order.\<close>

definition all_cores :: "snrt_defs \<Rightarrow> u32 list \<Rightarrow> bool" where
  "all_cores d hs \<longleftrightarrow> distinct (map (snrt_cluster_core_idx d) hs) \<and>
     snrt_cluster_core_idx d ` set hs = {i. i < snrt_cluster_compute_core_num d}"

lemma all_cores_nat:
  assumes "all_cores d hs"
  shows "distinct (map (\<lambda>h. unat (snrt_cluster_core_idx d h)) hs)"
    and "(\<lambda>h. unat (snrt_cluster_core_idx d h)) ` set hs = {..<unat (snrt_cluster_compute_core_num d)}"
proof -
  have "distinct (map unat (map (snrt_cluster_core_idx d) hs))"
    using assms by (subst distinct_map) (auto simp: all_cores_def inj_on_def word_unat_eq_iff)
  then show "distinct (map (\<lambda>h. unat (snrt_cluster_core_idx d h)) hs)" by (simp add: comp_def)
  have "unat ` {i. i < n} = {..<unat n}" for n :: u32
  proof safe
    fix k assume k: "k < unat n"
    then have "unat (of_nat k :: u32) = k" using unat_bound [of n] by (intro unat_of_nat_small) simp
    then show "k \<in> unat ` {i. i < n}" using k by (intro image_eqI [of _ _ "of_nat k"]) (simp_all add: word_less_nat_alt)
  qed (simp add: word_less_nat_alt)
  then show "(\<lambda>h. unat (snrt_cluster_core_idx d h)) ` set hs = {..<unat (snrt_cluster_compute_core_num d)}"
    using assms by (simp add: all_cores_def image_image [symmetric])
qed

lemma fold_cores:
  fixes x :: gemm_args and F :: fp_ops and k_tile :: u32 and m :: mem and other :: "gemm_kernel \<Rightarrow> kernel_args \<Rightarrow> mem \<Rightarrow> mem"
  assumes x: "fp64_tiled x" and P: "0 < unat (snrt_cluster_compute_core_num d)"
      "unat (snrt_cluster_compute_core_num d) dvd unat (frac_m x)"
    and hs: "all_cores d hs"
    and g: "gemm_fits (unat (frac_m x)) (unat (frac_n x)) (unat (frac_k x)) (buf_a x l1_next) (buf_b x l1_next) (buf_c x l1_next)"
  defines "m' \<equiv> fold (\<lambda>h. run_kernel F other (gemm_compute d h x l1_next k_tile)) hs m"
  shows "y \<notin> span (buf_c x l1_next) (8 * (unat (frac_m x) * unat (frac_n x))) \<Longrightarrow> m' y = m y"
    and "i < unat (frac_m x) \<Longrightarrow> j < unat (frac_n x) \<Longrightarrow> elt m' (buf_c x l1_next) (i * unat (frac_n x) + j) =
      gemm_elem F (of_u32 F (if k_tile = 0 then gbeta x else 1)) (unat (frac_k x)) (buf_a x l1_next) (unat (frac_k x))
        (buf_b x l1_next) (unat (frac_n x)) (buf_c x l1_next) (unat (frac_n x)) m (i, j)"
proof -
  define n where "n = unat (snrt_cluster_compute_core_num d)"
  define qs where "qs = map (\<lambda>h. unat (snrt_cluster_core_idx d h)) hs"
  let ?cell = "gemm_cell F (of_u32 F (if k_tile = 0 then gbeta x else 1)) (unat (frac_k x)) (buf_a x l1_next) (unat (frac_k x))
    (buf_b x l1_next) (unat (frac_n x)) (buf_c x l1_next) (unat (frac_n x))"
  have qs: "distinct qs" "set qs = {..<n}" using all_cores_nat [OF hs] by (simp_all add: qs_def n_def)
  have "run_kernel F other (gemm_compute d h x l1_next k_tile) mm =
      fold ?cell (core_cells n (unat (frac_m x)) (unat (frac_n x)) (unat (snrt_cluster_core_idx d h))) mm" if "h \<in> set hs" for h mm
    by (rule run_core [OF x]) (use qs that unat_bound [of "snrt_cluster_compute_core_num d"] in \<open>auto simp: qs_def n_def\<close>)
  then have "m' = fold (\<lambda>h. fold ?cell (core_cells n (unat (frac_m x)) (unat (frac_n x)) (unat (snrt_cluster_core_idx d h)))) hs m"
    unfolding m'_def by (intro fold_cong) auto
  also have "\<dots> = fold ?cell (concat (map (core_cells n (unat (frac_m x)) (unat (frac_n x))) qs)) m"
    unfolding qs_def by (induction hs arbitrary: m) simp_all
  finally have m': "m' = fold ?cell (concat (map (core_cells n (unat (frac_m x)) (unat (frac_n x))) qs)) m" .
  note cells = cells_of_cores [OF P [folded n_def] qs, of "unat (frac_n x)"]
  show "y \<notin> span (buf_c x l1_next) (8 * (unat (frac_m x) * unat (frac_n x))) \<Longrightarrow> m' y = m y"
    unfolding m' by (rule fold_gemm_cells(1) [OF g cells(1)]) (auto simp: cells(2) simp del: set_concat)
  show "i < unat (frac_m x) \<Longrightarrow> j < unat (frac_n x) \<Longrightarrow> elt m' (buf_c x l1_next) (i * unat (frac_n x) + j) =
      gemm_elem F (of_u32 F (if k_tile = 0 then gbeta x else 1)) (unat (frac_k x)) (buf_a x l1_next) (unat (frac_k x))
        (buf_b x l1_next) (unat (frac_n x)) (buf_c x l1_next) (unat (frac_n x)) m (i, j)"
    unfolding m' by (subst fold_gemm_cells(2) [OF g cells(1)]) (simp_all add: cells(2) del: set_concat)
qed

section \<open>Moving tiles\<close>

text \<open>
  The layout that the program relies on: the tile sizes divide the matrix sizes, the matrices and the
  buffers fit into the address space, \<open>C\<close> overlaps neither \<open>A\<close> nor \<open>B\<close>, and the buffers overlap none of them.
\<close>

definition buf_len :: "gemm_args \<Rightarrow> nat" where
  "buf_len x = 8 * (unat (frac_m x) * unat (frac_k x) + unat (frac_k x) * unat (frac_n x) + unat (frac_m x) * unat (frac_n x))"

definition gemm_layout :: "gemm_args \<Rightarrow> ptr \<Rightarrow> bool" where
  "gemm_layout x l1_next \<longleftrightarrow>
     (let M = unat (gm x); N = unat (gn x); K = unat (gk x); a = unat (ga x); b = unat (gb x); c = unat (gc x);
          L = unat l1_next; S = buf_len x
      in 0 < unat (frac_m x) \<and> 0 < unat (frac_n x) \<and> 0 < unat (frac_k x) \<and>
         unat (m_tiles x) * unat (frac_m x) = M \<and> unat (n_tiles x) * unat (frac_n x) = N \<and> unat (k_tiles x) * unat (frac_k x) = K \<and>
         8 * N < 2 ^ 31 \<and> 8 * K < 2 ^ 31 \<and> L + S \<le> 2 ^ 32 \<and>
         a + 8 * (M * K) < 2 ^ 32 \<and> b + 8 * (K * N) < 2 ^ 32 \<and> c + 8 * (M * N) < 2 ^ 32 \<and>
         (a + 8 * (M * K) \<le> c \<or> c + 8 * (M * N) \<le> a) \<and> (b + 8 * (K * N) \<le> c \<or> c + 8 * (M * N) \<le> b) \<and>
         (a + 8 * (M * K) \<le> L \<or> L + S \<le> a) \<and> (b + 8 * (K * N) \<le> L \<or> L + S \<le> b) \<and> (c + 8 * (M * N) \<le> L \<or> L + S \<le> c))"

lemmas layout_unfold = gemm_layout_def [unfolded Let_def]

lemma buf_nat:
  assumes "gemm_layout x l1_next"
  shows "unat (buf_a x l1_next) = unat l1_next"
    and "unat (buf_b x l1_next) = unat l1_next + 8 * (unat (frac_m x) * unat (frac_k x))"
    and "unat (buf_c x l1_next) = unat l1_next + 8 * (unat (frac_m x) * unat (frac_k x)) + 8 * (unat (frac_k x) * unat (frac_n x))"
proof -
  let ?p = "unat (frac_m x) * unat (frac_k x)" and ?q = "unat (frac_k x) * unat (frac_n x)"
  have pos: "0 < unat (frac_m x) * unat (frac_n x)" "0 < ?q" using assms by (simp_all add: layout_unfold)
  moreover have "unat l1_next + buf_len x \<le> 2 ^ 32" using assms by (simp add: layout_unfold)
  moreover have "0 < r \<Longrightarrow> L + 8 * (p + q + r) \<le> B \<Longrightarrow> L + 8 * p + 8 * q < B" for L p q r B :: nat by presburger
  ultimately have b: "unat l1_next + 8 * ?p + 8 * ?q < 2 ^ 32" unfolding buf_len_def by blast
  have off: "unat (l1_next + of_nat n) = unat l1_next + n" if "unat l1_next + n < 2 ^ 32" for n
    using that by (simp add: unat_simps)
  show "unat (buf_a x l1_next) = unat l1_next" by (simp add: buf_a_def)
  show "unat (buf_b x l1_next) = unat l1_next + 8 * ?p"
    using off [of "8 * ?p"] b by (simp add: buf_b_def)
  show "unat (buf_c x l1_next) = unat l1_next + 8 * ?p + 8 * ?q"
    using off [of "8 * ?p + 8 * ?q"] b by (simp add: buf_c_def add.assoc)
qed

abbreviation buffers :: "gemm_args \<Rightarrow> ptr \<Rightarrow> u64 set" where
  "buffers x l1_next \<equiv> span l1_next (buf_len x)"

abbreviation span_a :: "gemm_args \<Rightarrow> ptr \<Rightarrow> u64 set" where
  "span_a x l1_next \<equiv> span (buf_a x l1_next) (8 * (unat (frac_m x) * unat (frac_k x)))"

abbreviation span_b :: "gemm_args \<Rightarrow> ptr \<Rightarrow> u64 set" where
  "span_b x l1_next \<equiv> span (buf_b x l1_next) (8 * (unat (frac_k x) * unat (frac_n x)))"

abbreviation span_c :: "gemm_args \<Rightarrow> ptr \<Rightarrow> u64 set" where
  "span_c x l1_next \<equiv> span (buf_c x l1_next) (8 * (unat (frac_m x) * unat (frac_n x)))"

lemma layout_buffers:
  assumes lay: "gemm_layout x l1_next"
  shows "holds (buf_a x l1_next) (unat (frac_m x) * unat (frac_k x))" "holds (buf_b x l1_next) (unat (frac_k x) * unat (frac_n x))"
    "holds (buf_c x l1_next) (unat (frac_m x) * unat (frac_n x))"
    "span_a x l1_next \<inter> span_b x l1_next = {}" "span_a x l1_next \<inter> span_c x l1_next = {}" "span_b x l1_next \<inter> span_c x l1_next = {}"
    "span_a x l1_next \<subseteq> buffers x l1_next" "span_b x l1_next \<subseteq> buffers x l1_next" "span_c x l1_next \<subseteq> buffers x l1_next"
proof -
  note b = buf_nat [OF lay]
  have fit: "unat l1_next + buf_len x \<le> 2 ^ 32" using lay by (simp add: layout_unfold)
  then show "holds (buf_a x l1_next) (unat (frac_m x) * unat (frac_k x))" "holds (buf_b x l1_next) (unat (frac_k x) * unat (frac_n x))"
    "holds (buf_c x l1_next) (unat (frac_m x) * unat (frac_n x))"
    by (simp_all add: holds_def b buf_len_def)
  show "span_a x l1_next \<inter> span_b x l1_next = {}" "span_a x l1_next \<inter> span_c x l1_next = {}" "span_b x l1_next \<inter> span_c x l1_next = {}"
    by (rule span_disjoint, simp add: b)+
  show "span_a x l1_next \<subseteq> buffers x l1_next" "span_b x l1_next \<subseteq> buffers x l1_next" "span_c x l1_next \<subseteq> buffers x l1_next"
    by (rule span_mono, simp_all add: b buf_len_def)+
qed

lemma layout_fits:
  assumes lay: "gemm_layout x l1_next"
  shows "gemm_fits (unat (frac_m x)) (unat (frac_n x)) (unat (frac_k x)) (buf_a x l1_next) (buf_b x l1_next) (buf_c x l1_next)"
    and "gemm_fits (unat (gm x)) (unat (gn x)) (unat (gk x)) (ga x) (gb x) (gc x)"
  using layout_buffers [OF lay] lay
  by (auto simp: gemm_fits_def layout_unfold holds_def intro!: span_disjoint)

lemma layout_apart:
  assumes lay: "gemm_layout x l1_next"
  shows "buffers x l1_next \<inter> span (ga x) (8 * (unat (gm x) * unat (gk x))) = {}"
    "buffers x l1_next \<inter> span (gb x) (8 * (unat (gk x) * unat (gn x))) = {}"
    "buffers x l1_next \<inter> span (gc x) (8 * (unat (gm x) * unat (gn x))) = {}"
  using lay by (simp_all add: layout_unfold) (rule span_disjoint; auto)+

lemma layout_tile_ok:
  assumes lay: "gemm_layout x l1_next"
  shows "mi < unat (m_tiles x) \<Longrightarrow> ki < unat (k_tiles x) \<Longrightarrow> tile_ok (ga x) mi ki (unat (frac_m x)) (unat (frac_k x)) (unat (gm x)) (unat (gk x)) 8"
    and "ki < unat (k_tiles x) \<Longrightarrow> ni < unat (n_tiles x) \<Longrightarrow> tile_ok (gb x) ki ni (unat (frac_k x)) (unat (frac_n x)) (unat (gk x)) (unat (gn x)) 8"
    and "mi < unat (m_tiles x) \<Longrightarrow> ni < unat (n_tiles x) \<Longrightarrow> tile_ok (gc x) mi ni (unat (frac_m x)) (unat (frac_n x)) (unat (gm x)) (unat (gn x)) 8"
proof -
  have le: "(i + 1) * f \<le> t * f" if "i < t" for i f t :: nat using that by (intro mult_right_mono) auto
  note l = lay [unfolded layout_unfold]
  show "mi < unat (m_tiles x) \<Longrightarrow> ki < unat (k_tiles x) \<Longrightarrow> tile_ok (ga x) mi ki (unat (frac_m x)) (unat (frac_k x)) (unat (gm x)) (unat (gk x)) 8"
    using l le [of mi "unat (m_tiles x)" "unat (frac_m x)"] le [of ki "unat (k_tiles x)" "unat (frac_k x)"]
    unfolding tile_ok_def by auto
  show "ki < unat (k_tiles x) \<Longrightarrow> ni < unat (n_tiles x) \<Longrightarrow> tile_ok (gb x) ki ni (unat (frac_k x)) (unat (frac_n x)) (unat (gk x)) (unat (gn x)) 8"
    using l le [of ni "unat (n_tiles x)" "unat (frac_n x)"] le [of ki "unat (k_tiles x)" "unat (frac_k x)"]
    unfolding tile_ok_def by auto
  show "mi < unat (m_tiles x) \<Longrightarrow> ni < unat (n_tiles x) \<Longrightarrow> tile_ok (gc x) mi ni (unat (frac_m x)) (unat (frac_n x)) (unat (gm x)) (unat (gn x)) 8"
    using l le [of ni "unat (n_tiles x)" "unat (frac_n x)"] le [of mi "unat (m_tiles x)" "unat (frac_m x)"]
    unfolding tile_ok_def by auto
qed

lemma layout_tile_apart:
  assumes lay: "gemm_layout x l1_next"
  shows "tile_apart (buf_a x l1_next) (ga x) (unat (frac_m x)) (unat (frac_k x)) (unat (gm x)) (unat (gk x)) 8"
    "tile_apart (buf_b x l1_next) (gb x) (unat (frac_k x)) (unat (frac_n x)) (unat (gk x)) (unat (gn x)) 8"
    "tile_apart (buf_c x l1_next) (gc x) (unat (frac_m x)) (unat (frac_n x)) (unat (gm x)) (unat (gn x)) 8"
proof -
  note l = lay [unfolded layout_unfold] and b = buf_nat [OF lay]
  show "tile_apart (buf_a x l1_next) (ga x) (unat (frac_m x)) (unat (frac_k x)) (unat (gm x)) (unat (gk x)) 8"
    unfolding tile_apart_def b using l by (auto simp: buf_len_def)
  show "tile_apart (buf_b x l1_next) (gb x) (unat (frac_k x)) (unat (frac_n x)) (unat (gk x)) (unat (gn x)) 8"
    unfolding tile_apart_def b using l by (auto simp: buf_len_def)
  show "tile_apart (buf_c x l1_next) (gc x) (unat (frac_m x)) (unat (frac_n x)) (unat (gm x)) (unat (gn x)) 8"
    unfolding tile_apart_def b using l by (auto simp: buf_len_def)
qed

context dma_backend
begin

text \<open>The memories after the transfers of \<open>A\<close>, \<open>B\<close> and \<open>C\<close>, which is loaded for the first tile of the inner dimension only.\<close>

lemma copy_in_transfers:
  fixes x :: gemm_args and d :: snrt_defs and g :: gen_cfg and h m_tile :: u32 and st :: dma_state and n k :: nat
  assumes x: "fp64_tiled x" and lay: "gemm_layout x l1_next" and mi: "abs_m_tile_idx d h x m_tile = of_nat mi"
    and i: "mi < unat (m_tiles x)" "n < unat (n_tiles x)" "k < unat (k_tiles x)"
  defines "st1 \<equiv> gemm_copy_in g d h x l1_next m_tile (of_nat n) (of_nat k) st"
  shows "length (pending st1) \<le> length (pending st) + 3 \<and>
    (\<exists>na nb nc ma mb mc. dma_settled exec st1 = (if k = 0 then mc else mb) \<and>
      ma = exec (load_req na (buf_a x l1_next) (ga x) mi k (unat (frac_m x)) (unat (frac_k x)) (unat (gk x)) 8) (dma_settled exec st) \<and>
      mb = exec (load_req nb (buf_b x l1_next) (gb x) k n (unat (frac_k x)) (unat (frac_n x)) (unat (gn x)) 8) ma \<and>
      mc = exec (load_req nc (buf_c x l1_next) (gc x) mi n (unat (frac_m x)) (unat (frac_n x)) (unat (gn x)) 8) mb)"
proof -
  note okA = layout_tile_ok(1) [OF lay i(1,3)] and okB = layout_tile_ok(2) [OF lay i(3,2)] and okC = layout_tile_ok(3) [OF lay i(1,2)]
  have k0: "(of_nat k :: u32) = 0 \<longleftrightarrow> k = 0"
    using of_nat_inject_small [of k 0, where 'a = 32] i(3) unat_bound [of "k_tiles x"] by simp
  define sa where "sa = snd (snrt_dma_load_2d_tile (buf_a x l1_next) (ga x) (of_nat mi) (of_nat k)
    (of_nat (unat (frac_m x))) (of_nat (unat (frac_k x))) (of_nat (unat (gk x))) (of_nat 8) st)"
  define sb where "sb = snd (snrt_dma_load_2d_tile (buf_b x l1_next) (gb x) (of_nat k) (of_nat n)
    (of_nat (unat (frac_k x))) (of_nat (unat (frac_n x))) (of_nat (unat (gn x))) (of_nat 8) sa)"
  define sc where "sc = snd (snrt_dma_load_2d_tile (buf_c x l1_next) (gc x) (of_nat mi) (of_nat n)
    (of_nat (unat (frac_m x))) (of_nat (unat (frac_n x))) (of_nat (unat (gn x))) (of_nat 8) sb)"
  note la = settled_load_2d_tile [OF okA, where dst = "buf_a x l1_next" and st = st, folded sa_def]
    and lb = settled_load_2d_tile [OF okB, where dst = "buf_b x l1_next" and st = sa, folded sb_def]
    and lc = settled_load_2d_tile [OF okC, where dst = "buf_c x l1_next" and st = sb, folded sc_def]
  have st1: "st1 = (if k = 0 then sc else sb)"
    using x unfolding st1_def sc_def sb_def sa_def gemm_copy_in_def gemm_buffers_fp64 [OF x] fp64_tiled_def
    by (simp add: abs_k_tile_idx_def mi k0 Let_def)
  have "length (pending st1) \<le> length (pending st) + 3" using la(2) lb(2) lc(2) by (simp add: st1)
  moreover have "dma_settled exec st1 = (if k = 0 then dma_settled exec sc else dma_settled exec sb)" by (simp add: st1)
  ultimately show ?thesis using la(1) lb(1) lc(1) by blast
qed

lemma copy_in_effect:
  fixes x :: gemm_args and d :: snrt_defs and g :: gen_cfg and h m_tile :: u32 and st :: dma_state and n k :: nat
  assumes x: "fp64_tiled x" and lay: "gemm_layout x l1_next" and mi: "abs_m_tile_idx d h x m_tile = of_nat mi"
    and i: "mi < unat (m_tiles x)" "n < unat (n_tiles x)" "k < unat (k_tiles x)"
  defines "st1 \<equiv> gemm_copy_in g d h x l1_next m_tile (of_nat n) (of_nat k) st"
  defines "m \<equiv> dma_settled exec st" and "m1 \<equiv> dma_settled exec st1"
  shows "length (pending st1) \<le> length (pending st) + 3"
    and "y \<notin> buffers x l1_next \<Longrightarrow> m1 y = m y"
    and "r < unat (frac_m x) \<Longrightarrow> c < unat (frac_k x) \<Longrightarrow> elt m1 (buf_a x l1_next) (r * unat (frac_k x) + c) =
      elt m (ga x) (tile_elt mi k (unat (frac_m x)) (unat (frac_k x)) (unat (gk x)) r c)"
    and "r < unat (frac_k x) \<Longrightarrow> c < unat (frac_n x) \<Longrightarrow> elt m1 (buf_b x l1_next) (r * unat (frac_n x) + c) =
      elt m (gb x) (tile_elt k n (unat (frac_k x)) (unat (frac_n x)) (unat (gn x)) r c)"
    and "r < unat (frac_m x) \<Longrightarrow> c < unat (frac_n x) \<Longrightarrow> elt m1 (buf_c x l1_next) (r * unat (frac_n x) + c) =
      (if k = 0 then elt m (gc x) (tile_elt mi n (unat (frac_m x)) (unat (frac_n x)) (unat (gn x)) r c)
       else elt m (buf_c x l1_next) (r * unat (frac_n x) + c))"
proof -
  note okA = layout_tile_ok(1) [OF lay i(1,3)] and okB = layout_tile_ok(2) [OF lay i(3,2)] and okC = layout_tile_ok(3) [OF lay i(1,2)]
  note ap = layout_tile_apart [OF lay] and buf = layout_buffers [OF lay] and far = layout_apart [OF lay]
  obtain na nb nc ma mb mc where m1: "m1 = (if k = 0 then mc else mb)"
    and ma: "ma = exec (load_req na (buf_a x l1_next) (ga x) mi k (unat (frac_m x)) (unat (frac_k x)) (unat (gk x)) 8) m"
    and mb: "mb = exec (load_req nb (buf_b x l1_next) (gb x) k n (unat (frac_k x)) (unat (frac_n x)) (unat (gn x)) 8) ma"
    and mc: "mc = exec (load_req nc (buf_c x l1_next) (gc x) mi n (unat (frac_m x)) (unat (frac_n x)) (unat (gn x)) 8) mb"
    and len: "length (pending st1) \<le> length (pending st) + 3"
    using copy_in_transfers [OF x lay mi i, where g = g and st = st] unfolding st1_def m_def m1_def by blast
  have fa: "ma y = m y" if "y \<notin> span_a x l1_next" for y unfolding ma by (rule load_req_frame [OF okA buf(1) that])
  have fb: "mb y = ma y" if "y \<notin> span_b x l1_next" for y unfolding mb by (rule load_req_frame [OF okB buf(2) that])
  have fc: "mc y = mb y" if "y \<notin> span_c x l1_next" for y unfolding mc by (rule load_req_frame [OF okC buf(3) that])
  have out: "m1 y = m y" "mb y = m y" if "y \<notin> buffers x l1_next" for y
  proof -
    have "y \<notin> span_a x l1_next" "y \<notin> span_b x l1_next" "y \<notin> span_c x l1_next" using that buf(7,8,9) by blast+
    then show "m1 y = m y" "mb y = m y" unfolding m1 by (simp_all add: fa fb fc)
  qed
  show "length (pending st1) \<le> length (pending st) + 3" by (rule len)
  show "y \<notin> buffers x l1_next \<Longrightarrow> m1 y = m y" by (rule out(1))
  show "elt m1 (buf_a x l1_next) (r * unat (frac_k x) + c) =
      elt m (ga x) (tile_elt mi k (unat (frac_m x)) (unat (frac_k x)) (unat (gk x)) r c)"
    if rc: "r < unat (frac_m x)" "c < unat (frac_k x)"
  proof -
    have "y \<in> span_a x l1_next \<Longrightarrow> y \<notin> span_b x l1_next \<and> y \<notin> span_c x l1_next" for y using buf(4,5) by blast
    then have "elt m1 (buf_a x l1_next) (r * unat (frac_k x) + c) = elt ma (buf_a x l1_next) (r * unat (frac_k x) + c)"
      unfolding m1 by (intro elt_span_cong [OF buf(1) row_major_less [OF rc]]) (simp add: fb fc)
    then show ?thesis using load_req_elt [OF okA ap(1) buf(1) rc, of na m] unfolding ma by simp
  qed
  show "elt m1 (buf_b x l1_next) (r * unat (frac_n x) + c) =
      elt m (gb x) (tile_elt k n (unat (frac_k x)) (unat (frac_n x)) (unat (gn x)) r c)"
    if rc: "r < unat (frac_k x)" "c < unat (frac_n x)"
  proof -
    have "y \<in> span_b x l1_next \<Longrightarrow> y \<notin> span_c x l1_next" for y using buf(6) by blast
    then have "elt m1 (buf_b x l1_next) (r * unat (frac_n x) + c) = elt mb (buf_b x l1_next) (r * unat (frac_n x) + c)"
      unfolding m1 by (intro elt_span_cong [OF buf(2) row_major_less [OF rc]]) (simp add: fc)
    also have "\<dots> = elt ma (gb x) (tile_elt k n (unat (frac_k x)) (unat (frac_n x)) (unat (gn x)) r c)"
      unfolding mb by (rule load_req_elt [OF okB ap(2) buf(2) rc])
    also have "\<dots> = elt m (gb x) (tile_elt k n (unat (frac_k x)) (unat (frac_n x)) (unat (gn x)) r c)"
      using fa buf(7) far(2) by (intro elt_span_cong [OF tile_holds [OF okB] tile_elt_bound [OF okB rc]]) blast
    finally show ?thesis .
  qed
  show "elt m1 (buf_c x l1_next) (r * unat (frac_n x) + c) =
      (if k = 0 then elt m (gc x) (tile_elt mi n (unat (frac_m x)) (unat (frac_n x)) (unat (gn x)) r c)
       else elt m (buf_c x l1_next) (r * unat (frac_n x) + c))"
    if rc: "r < unat (frac_m x)" "c < unat (frac_n x)"
  proof (cases "k = 0")
    case True
    have "elt mb (gc x) (tile_elt mi n (unat (frac_m x)) (unat (frac_n x)) (unat (gn x)) r c) =
        elt m (gc x) (tile_elt mi n (unat (frac_m x)) (unat (frac_n x)) (unat (gn x)) r c)"
      using out(2) far(3) by (intro elt_span_cong [OF tile_holds [OF okC] tile_elt_bound [OF okC rc]]) blast
    then show ?thesis using True load_req_elt [OF okC ap(3) buf(3) rc, of nc mb] unfolding m1 mc by simp
  next
    case False
    have "y \<in> span_c x l1_next \<Longrightarrow> y \<notin> span_a x l1_next \<and> y \<notin> span_b x l1_next" for y using buf(5,6) by blast
    then have "elt mb (buf_c x l1_next) (r * unat (frac_n x) + c) = elt m (buf_c x l1_next) (r * unat (frac_n x) + c)"
      by (intro elt_span_cong [OF buf(3) row_major_less [OF rc]]) (simp add: fa fb)
    then show ?thesis using False unfolding m1 by simp
  qed
qed

end

section \<open>The accumulation loop\<close>

text \<open>
  The FPU laws that the tiled accumulation relies on: 1 is not 0, and multiplying a result of an addition by 1
  gives that result.
\<close>

definition fp_unit :: "fp_ops \<Rightarrow> bool" where
  "fp_unit F \<longleftrightarrow> \<not> feq F (of_u32 F 1) f64_0 \<and> (\<forall>a b. fmul F (fadd F a b) (of_u32 F 1) = fadd F a b)"

text \<open>How the cluster runs the program: all waits are long enough, and every compute core takes part in every phase.\<close>

definition gemm_run_ok :: "snrt_defs \<Rightarrow> gemm_args \<Rightarrow> gemm_run \<Rightarrow> bool" where
  "gemm_run_ok d x r \<longleftrightarrow> (\<forall>i j k. 3 \<le> sum_list (wait_in r i j k)) \<and> (\<forall>i j. 1 \<le> sum_list (wait_out r i j)) \<and>
     (\<forall>i j k. all_cores d (core_order r i j k)) \<and> 0 < unat (snrt_cluster_compute_core_num d) \<and>
     unat (snrt_cluster_compute_core_num d) dvd unat (frac_m x)"

text \<open>Element \<open>(i, j)\<close> of tile \<open>(mi, ni)\<close> after the first \<open>t\<close> products.\<close>

definition tile_acc :: "fp_ops \<Rightarrow> gemm_args \<Rightarrow> nat \<Rightarrow> nat \<Rightarrow> nat \<Rightarrow> mem \<Rightarrow> nat \<Rightarrow> nat \<Rightarrow> f64" where
  "tile_acc F x mi ni t m i j =
     gemm_acc F t (\<lambda>k. elt m (ga x) ((mi * unat (frac_m x) + i) * unat (gk x) + k))
       (\<lambda>k. elt m (gb x) (k * unat (gn x) + (ni * unat (frac_n x) + j)))
       (multiply_opt F (elt m (gc x) ((mi * unat (frac_m x) + i) * unat (gn x) + (ni * unat (frac_n x) + j))) (of_u32 F (gbeta x)))"

lemma tile_acc_elem:
  "tile_acc F x mi ni (unat (gk x)) m i j =
    gemm_elem F (of_u32 F (gbeta x)) (unat (gk x)) (ga x) (unat (gk x)) (gb x) (unat (gn x)) (gc x) (unat (gn x)) m
      (mi * unat (frac_m x) + i, ni * unat (frac_n x) + j)"
  by (simp add: tile_acc_def gemm_elem_def)

text \<open>Continuing an accumulation with a coefficient of 1 for what is there.\<close>

lemma tile_acc_step:
  assumes "fp_unit F" "0 < t"
  shows "gemm_acc F L (\<lambda>k. elt m (ga x) ((mi * unat (frac_m x) + i) * unat (gk x) + (t + k)))
      (\<lambda>k. elt m (gb x) ((t + k) * unat (gn x) + (ni * unat (frac_n x) + j)))
      (multiply_opt F (tile_acc F x mi ni t m i j) (of_u32 F 1)) = tile_acc F x mi ni (t + L) m i j"
proof -
  have "multiply_opt F (tile_acc F x mi ni t m i j) (of_u32 F 1) = tile_acc F x mi ni t m i j"
    using assms gemm_acc_fadd [OF assms(2), of F] unfolding fp_unit_def multiply_opt_def tile_acc_def by metis
  then show ?thesis by (simp add: tile_acc_def gemm_acc_add)
qed

text \<open>What an iteration leaves in the buffer of the result.\<close>

definition iter_elem :: "fp_ops \<Rightarrow> gemm_args \<Rightarrow> ptr \<Rightarrow> nat \<Rightarrow> nat \<Rightarrow> nat \<Rightarrow> mem \<Rightarrow> nat \<Rightarrow> nat \<Rightarrow> f64" where
  "iter_elem F x l1_next mi n k m i j =
     gemm_acc F (unat (frac_k x)) (\<lambda>t. elt m (ga x) (tile_elt mi k (unat (frac_m x)) (unat (frac_k x)) (unat (gk x)) i t))
       (\<lambda>t. elt m (gb x) (tile_elt k n (unat (frac_k x)) (unat (frac_n x)) (unat (gn x)) t j))
       (multiply_opt F (if k = 0 then elt m (gc x) (tile_elt mi n (unat (frac_m x)) (unat (frac_n x)) (unat (gn x)) i j)
          else elt m (buf_c x l1_next) (i * unat (frac_n x) + j)) (of_u32 F (if k = 0 then gbeta x else 1)))"

lemma iter_elem_acc:
  assumes lay: "gemm_layout x l1_next" and F: "fp_unit F"
    and t: "mi < unat (m_tiles x)" "n < unat (n_tiles x)" "k < unat (k_tiles x)" and ij: "i < unat (frac_m x)" "j < unat (frac_n x)"
    and eq: "\<And>y. y \<notin> buffers x l1_next \<Longrightarrow> m y = m0 y"
    and c: "0 < k \<Longrightarrow> elt m (buf_c x l1_next) (i * unat (frac_n x) + j) = tile_acc F x mi n (k * unat (frac_k x)) m0 i j"
  shows "iter_elem F x l1_next mi n k m i j = tile_acc F x mi n (Suc k * unat (frac_k x)) m0 i j"
proof -
  note ok = layout_tile_ok [OF lay] and far = layout_apart [OF lay]
  let ?a = "\<lambda>t. tile_elt mi k (unat (frac_m x)) (unat (frac_k x)) (unat (gk x)) i t"
    and ?b = "\<lambda>t. tile_elt k n (unat (frac_k x)) (unat (frac_n x)) (unat (gn x)) t j"
  have a: "elt m (ga x) (?a s) = elt m0 (ga x) (?a s)" and b: "elt m (gb x) (?b s) = elt m0 (gb x) (?b s)" if "s < unat (frac_k x)" for s
    using far(1,2) eq
    by (blast intro: elt_span_cong [OF tile_holds tile_elt_bound, OF ok(1) ok(1)] elt_span_cong [OF tile_holds tile_elt_bound, OF ok(2) ok(2)] t ij that)+
  have c0: "elt m (gc x) (tile_elt mi n (unat (frac_m x)) (unat (frac_n x)) (unat (gn x)) i j) =
      elt m0 (gc x) (tile_elt mi n (unat (frac_m x)) (unat (frac_n x)) (unat (gn x)) i j)"
    using far(3) eq by (blast intro: elt_span_cong [OF tile_holds tile_elt_bound, OF ok(3) ok(3)] t ij)
  have ab: "gemm_acc F (unat (frac_k x)) (\<lambda>s. elt m (ga x) (?a s)) (\<lambda>s. elt m (gb x) (?b s)) v =
      gemm_acc F (unat (frac_k x)) (\<lambda>s. elt m0 (ga x) (?a s)) (\<lambda>s. elt m0 (gb x) (?b s)) v" for v
    by (rule gemm_acc_cong) (use a b in auto)
  show ?thesis
  proof (cases "k = 0")
    case True
    then show ?thesis unfolding iter_elem_def ab c0 by (simp add: tile_acc_def tile_elt_def)
  next
    case False
    then have "0 < k * unat (frac_k x)" using lay by (simp add: layout_unfold)
    from tile_acc_step [OF F this, of "unat (frac_k x)" m0 x mi i n j] False c show ?thesis
      unfolding iter_elem_def ab by (simp add: tile_elt_def add.commute add.left_commute)
  qed
qed

context dma_backend
begin

lemma iter_effect:
  assumes x: "fp64_tiled x" and lay: "gemm_layout x l1_next" and r: "gemm_run_ok d x r"
    and mi: "abs_m_tile_idx d (dm_hart r) x (of_nat m_tile) = of_nat mi"
    and i: "mi < unat (m_tiles x)" "n < unat (n_tiles x)" "k < unat (k_tiles x)" and idle: "pending st = []"
  shows "\<exists>st'. gemm_iter exec (run_kernel F other) r g d x l1_next m_tile n k st = Some st' \<and> pending st' = [] \<and>
    (\<forall>y. y \<notin> buffers x l1_next \<longrightarrow> dmem st' y = dmem st y) \<and>
    (\<forall>i < unat (frac_m x). \<forall>j < unat (frac_n x). elt (dmem st') (buf_c x l1_next) (i * unat (frac_n x) + j) =
       iter_elem F x l1_next mi n k (dmem st) i j)"
proof -
  define s1 where "s1 = gemm_copy_in g d (dm_hart r) x l1_next (of_nat m_tile) (of_nat n) (of_nat k) st"
  note cin = copy_in_effect [OF x lay mi i, where g = g and st = st, folded s1_def]
  have settled: "dma_settled exec st = dmem st" using idle by (simp add: dma_settled_def)
  have "length (pending s1) \<le> sum_list (wait_in r m_tile n k)"
    using cin(1) idle r unfolding gemm_run_ok_def by (metis add_0 le_trans list.size(3))
  then obtain s2 where s2: "snrt_dma_wait_all exec (wait_in r m_tile n k) s1 = Some s2" "pending s2 = []" "dmem s2 = dma_settled exec s1"
    using wait_all_settles by blast
  define m' where "m' = fold (\<lambda>h. run_kernel F other (gemm_compute d h x l1_next (of_nat k))) (core_order r m_tile n k) (dmem s2)"
  have cores: "all_cores d (core_order r m_tile n k)" "0 < unat (snrt_cluster_compute_core_num d)"
      "unat (snrt_cluster_compute_core_num d) dvd unat (frac_m x)" using r by (simp_all add: gemm_run_ok_def)
  note run = fold_cores [OF x cores(2,3,1) layout_fits(1) [OF lay], where F = F and other = other and k_tile = "of_nat k" and m = "dmem s2",
    folded m'_def]
  have k0: "(of_nat k :: u32) = 0 \<longleftrightarrow> k = 0"
    using of_nat_inject_small [of k 0, where 'a = 32] i(3) unat_bound [of "k_tiles x"] by simp
  have "gemm_iter exec (run_kernel F other) r g d x l1_next m_tile n k st = Some (s2\<lparr>dmem := m'\<rparr>)"
    by (simp add: gemm_iter_def s1_def [symmetric] s2(1) m'_def)
  moreover have "m' y = dmem st y" if "y \<notin> buffers x l1_next" for y
    using run(1) [of y] cin(2) [OF that] layout_buffers(9) [OF lay] that s2(3) settled by auto
  moreover have "elt m' (buf_c x l1_next) (i * unat (frac_n x) + j) = iter_elem F x l1_next mi n k (dmem st) i j"
    if ij: "i < unat (frac_m x)" "j < unat (frac_n x)" for i j
  proof -
    have "elt m' (buf_c x l1_next) (i * unat (frac_n x) + j) =
        gemm_acc F (unat (frac_k x)) (\<lambda>t. elt (dmem s2) (buf_a x l1_next) (i * unat (frac_k x) + t))
          (\<lambda>t. elt (dmem s2) (buf_b x l1_next) (t * unat (frac_n x) + j))
          (multiply_opt F (elt (dmem s2) (buf_c x l1_next) (i * unat (frac_n x) + j)) (of_u32 F (if k = 0 then gbeta x else 1)))"
      using run(2) [OF ij] by (simp add: gemm_elem_def k0)
    also have "\<dots> = iter_elem F x l1_next mi n k (dmem st) i j"
      unfolding iter_elem_def cin(5) [OF ij, folded s2(3), unfolded settled]
      by (rule gemm_acc_cong) (use cin(3,4) ij in \<open>simp_all add: s2(3) settled\<close>)
    finally show ?thesis .
  qed
  ultimately show ?thesis using s2(2) by simp
qed

lemma k_loop:
  assumes x: "fp64_tiled x" and lay: "gemm_layout x l1_next" and r: "gemm_run_ok d x r" and F: "fp_unit F"
    and mi: "abs_m_tile_idx d (dm_hart r) x (of_nat m_tile) = of_nat mi"
    and i: "mi < unat (m_tiles x)" "n < unat (n_tiles x)" and idle: "pending st = []"
  shows "k \<le> unat (k_tiles x) \<Longrightarrow>
    \<exists>st'. for_upto k (\<lambda>k st. Option.bind st (gemm_iter exec (run_kernel F other) r g d x l1_next m_tile n k)) (Some st) = Some st' \<and>
      pending st' = [] \<and> (\<forall>y. y \<notin> buffers x l1_next \<longrightarrow> dmem st' y = dmem st y) \<and>
      (0 < k \<longrightarrow> (\<forall>i < unat (frac_m x). \<forall>j < unat (frac_n x). elt (dmem st') (buf_c x l1_next) (i * unat (frac_n x) + j) =
         tile_acc F x mi n (k * unat (frac_k x)) (dmem st) i j))"
proof (induction k)
  case 0 then show ?case using idle by simp
next
  case (Suc k)
  then obtain s where s: "for_upto k (\<lambda>k st. Option.bind st (gemm_iter exec (run_kernel F other) r g d x l1_next m_tile n k)) (Some st) = Some s"
      "pending s = []" "\<And>y. y \<notin> buffers x l1_next \<Longrightarrow> dmem s y = dmem st y"
      "\<And>i j. 0 < k \<Longrightarrow> i < unat (frac_m x) \<Longrightarrow> j < unat (frac_n x) \<Longrightarrow>
         elt (dmem s) (buf_c x l1_next) (i * unat (frac_n x) + j) = tile_acc F x mi n (k * unat (frac_k x)) (dmem st) i j" by auto
  have k: "k < unat (k_tiles x)" using Suc.prems by simp
  obtain s' where s': "gemm_iter exec (run_kernel F other) r g d x l1_next m_tile n k s = Some s'" "pending s' = []"
      "\<And>y. y \<notin> buffers x l1_next \<Longrightarrow> dmem s' y = dmem s y"
      "\<And>i j. i < unat (frac_m x) \<Longrightarrow> j < unat (frac_n x) \<Longrightarrow>
         elt (dmem s') (buf_c x l1_next) (i * unat (frac_n x) + j) = iter_elem F x l1_next mi n k (dmem s) i j"
    using iter_effect [OF x lay r mi i k s(2), of F other g] by blast
  have "iter_elem F x l1_next mi n k (dmem s) i j = tile_acc F x mi n (Suc k * unat (frac_k x)) (dmem st) i j"
    if ij: "i < unat (frac_m x)" "j < unat (frac_n x)" for i j
    by (rule iter_elem_acc [OF lay F i k ij s(3)]) (use s(4) ij in auto)
  then show ?case using s s' by (auto simp: for_upto_Suc)
qed

end

section \<open>All tiles\<close>

text \<open>The first tile row of the cluster.\<close>

definition m_base :: "snrt_defs \<Rightarrow> u32 \<Rightarrow> gemm_args \<Rightarrow> nat" where
  "m_base d hartid x = (if parallelize_m x then unat (snrt_cluster_idx d hartid) * unat (m_tiles_per_cluster d x) else 0)"

lemma abs_m_tile:
  assumes "parallelize_m x \<Longrightarrow> snrt_cluster_idx d h < snrt_cluster_num d" and "i < unat (m_tiles_per_cluster d x)"
  shows "abs_m_tile_idx d h x (of_nat i) = of_nat (m_base d h x + i)" "m_base d h x + i < unat (m_tiles x)"
proof -
  show "abs_m_tile_idx d h x (of_nat i) = of_nat (m_base d h x + i)" by (simp add: abs_m_tile_idx_def m_base_def)
  show "m_base d h x + i < unat (m_tiles x)"
  proof (cases "parallelize_m x")
    case True
    then have "unat (m_tiles_per_cluster d x) = unat (m_tiles x) div unat (snrt_cluster_num d)"
      by (simp add: m_tiles_per_cluster_def unat_div)
    moreover have "unat (snrt_cluster_idx d h) < unat (snrt_cluster_num d)"
      using assms(1) [OF True] by (simp add: word_less_nat_alt)
    ultimately have "unat (snrt_cluster_idx d h) * unat (m_tiles_per_cluster d x) + i
        < unat (snrt_cluster_num d) * (unat (m_tiles x) div unat (snrt_cluster_num d))"
      using assms(2) row_major_less by metis
    also have "\<dots> \<le> unat (m_tiles x)" by simp
    finally show ?thesis using True by (simp add: m_base_def)
  next
    case False then show ?thesis using assms(2) by (simp add: m_base_def m_tiles_per_cluster_def)
  qed
qed

text \<open>The tile that an element of the result belongs to.\<close>

definition tile_of :: "gemm_args \<Rightarrow> nat \<Rightarrow> nat \<Rightarrow> nat \<times> nat" where
  "tile_of x i j = (i div unat (frac_m x), j div unat (frac_n x))"

lemma tile_of_elt:
  assumes "gemm_layout x l1_next" "i < unat (gm x)" "j < unat (gn x)"
  shows "tile_of x i j = (mi, n) \<longleftrightarrow> (\<exists>r < unat (frac_m x). \<exists>c < unat (frac_n x). i = mi * unat (frac_m x) + r \<and> j = n * unat (frac_n x) + c)"
proof
  have pos: "0 < unat (frac_m x)" "0 < unat (frac_n x)" using assms(1) by (simp_all add: layout_unfold)
  assume "tile_of x i j = (mi, n)"
  then have "i = mi * unat (frac_m x) + i mod unat (frac_m x)" "j = n * unat (frac_n x) + j mod unat (frac_n x)"
    by (auto simp: tile_of_def)
  then show "\<exists>r < unat (frac_m x). \<exists>c < unat (frac_n x). i = mi * unat (frac_m x) + r \<and> j = n * unat (frac_n x) + c"
    using pos mod_less_divisor by blast
qed (auto simp: tile_of_def)

text \<open>
  The state between tiles: the tiles in \<open>done\<close> are final, the others hold what they held, and nothing else
  outside the buffers has changed since \<open>m\<close>.
\<close>

definition tiles_done :: "fp_ops \<Rightarrow> gemm_args \<Rightarrow> ptr \<Rightarrow> mem \<Rightarrow> (nat \<times> nat) set \<Rightarrow> dma_state \<Rightarrow> bool" where
  "tiles_done F x l1_next m ready st \<longleftrightarrow> pending st = [] \<and>
     (\<forall>y. y \<notin> buffers x l1_next \<longrightarrow> y \<notin> span (gc x) (8 * (unat (gm x) * unat (gn x))) \<longrightarrow> dmem st y = m y) \<and>
     (\<forall>i < unat (gm x). \<forall>j < unat (gn x). elt (dmem st) (gc x) (i * unat (gn x) + j) =
        (if tile_of x i j \<in> ready
         then gemm_elem F (of_u32 F (gbeta x)) (unat (gk x)) (ga x) (unat (gk x)) (gb x) (unat (gn x)) (gc x) (unat (gn x)) m (i, j)
         else elt m (gc x) (i * unat (gn x) + j)))"

lemma tiles_done_elem:
  assumes lay: "gemm_layout x l1_next" and inv: "tiles_done F x l1_next m ready st" and new: "tile_of x i j \<notin> ready"
    and ij: "i < unat (gm x)" "j < unat (gn x)"
  shows "gemm_elem F beta (unat (gk x)) (ga x) (unat (gk x)) (gb x) (unat (gn x)) (gc x) (unat (gn x)) (dmem st) (i, j) =
    gemm_elem F beta (unat (gk x)) (ga x) (unat (gk x)) (gb x) (unat (gn x)) (gc x) (unat (gn x)) m (i, j)"
proof -
  note g = layout_fits(2) [OF lay] and far = layout_apart [OF lay]
  have f: "dmem st y = m y" if "y \<notin> buffers x l1_next" "y \<notin> span (gc x) (8 * (unat (gm x) * unat (gn x)))" for y
    using inv that by (simp add: tiles_done_def)
  have a: "elt (dmem st) (ga x) (i * unat (gk x) + k) = elt m (ga x) (i * unat (gk x) + k)"
    and b: "elt (dmem st) (gb x) (k * unat (gn x) + j) = elt m (gb x) (k * unat (gn x) + j)" if k: "k < unat (gk x)" for k
    using g far(1,2) unfolding gemm_fits_def
    by (blast intro: f elt_span_cong [OF _ row_major_less [OF ij(1) k]] elt_span_cong [OF _ row_major_less [OF k ij(2)]])+
  have c: "elt (dmem st) (gc x) (i * unat (gn x) + j) = elt m (gc x) (i * unat (gn x) + j)"
    using inv new ij by (simp add: tiles_done_def)
  show ?thesis unfolding gemm_elem_def prod.case c by (rule gemm_acc_cong) (use a b in auto)
qed

context dma_backend
begin

lemma copy_out_effect:
  assumes x: "fp64_tiled x" and lay: "gemm_layout x l1_next" and r: "gemm_run_ok d x r"
    and mi: "abs_m_tile_idx d (dm_hart r) x (of_nat m_tile) = of_nat mi"
    and i: "mi < unat (m_tiles x)" "n < unat (n_tiles x)" and idle: "pending st = []"
  shows "\<exists>st'. snrt_dma_wait_all exec (wait_out r m_tile n) (gemm_copy_out d (dm_hart r) x l1_next (of_nat m_tile) (of_nat n) st) = Some st' \<and>
    pending st' = [] \<and> (\<forall>y. y \<notin> span (gc x) (8 * (unat (gm x) * unat (gn x))) \<longrightarrow> dmem st' y = dmem st y) \<and>
    (\<forall>r < unat (frac_m x). \<forall>c < unat (frac_n x).
       elt (dmem st') (gc x) ((mi * unat (frac_m x) + r) * unat (gn x) + (n * unat (frac_n x) + c)) =
         elt (dmem st) (buf_c x l1_next) (r * unat (frac_n x) + c)) \<and>
    (\<forall>i < unat (gm x). \<forall>j < unat (gn x). tile_of x i j \<noteq> (mi, n) \<longrightarrow>
       elt (dmem st') (gc x) (i * unat (gn x) + j) = elt (dmem st) (gc x) (i * unat (gn x) + j))"
proof -
  note ok = layout_tile_ok(3) [OF lay i] and ap = layout_tile_apart(3) [OF lay] and buf = layout_buffers(3) [OF lay]
  define s1 where "s1 = gemm_copy_out d (dm_hart r) x l1_next (of_nat m_tile) (of_nat n) st"
  have s1: "s1 = snd (snrt_dma_store_2d_tile (gc x) (buf_c x l1_next) (of_nat mi) (of_nat n) (of_nat (unat (frac_m x)))
      (of_nat (unat (frac_n x))) (of_nat (unat (gn x))) (of_nat 8) st)"
    using x unfolding s1_def gemm_copy_out_def gemm_buffers_fp64 [OF x] by (simp add: mi fp64_tiled_def)
  note req = settled_store_2d_tile [OF ok, where st = st and src = "buf_c x l1_next", folded s1]
  have "length (pending s1) \<le> sum_list (wait_out r m_tile n)" using req(2) idle r by (simp add: gemm_run_ok_def)
  then obtain s2 where s2: "snrt_dma_wait_all exec (wait_out r m_tile n) s1 = Some s2" "pending s2 = []" "dmem s2 = dma_settled exec s1"
    using wait_all_settles by blast
  have m: "dmem s2 = exec (store_req (next_id st) (gc x) (buf_c x l1_next) mi n (unat (frac_m x)) (unat (frac_n x)) (unat (gn x)) 8) (dmem st)"
    using s2(3) req(1) idle by (simp add: dma_settled_def)
  have "dmem s2 y = dmem st y" if "y \<notin> span (gc x) (8 * (unat (gm x) * unat (gn x)))" for y
    unfolding m by (rule store_req_frame [OF ok that])
  moreover have "elt (dmem s2) (gc x) ((mi * unat (frac_m x) + r) * unat (gn x) + (n * unat (frac_n x) + c)) =
      elt (dmem st) (buf_c x l1_next) (r * unat (frac_n x) + c)" if "r < unat (frac_m x)" "c < unat (frac_n x)" for r c
    unfolding m using store_req_elt [OF ok ap buf that] by (simp add: tile_elt_def)
  moreover have "elt (dmem s2) (gc x) (i * unat (gn x) + j) = elt (dmem st) (gc x) (i * unat (gn x) + j)"
    if ij: "i < unat (gm x)" "j < unat (gn x)" and other: "tile_of x i j \<noteq> (mi, n)" for i j
    unfolding m
  proof (rule store_req_other [OF ok row_major_less [OF ij]])
    fix r c assume rc: "r < unat (frac_m x)" "c < unat (frac_n x)"
    have "n * unat (frac_n x) + c < unat (gn x)"
      using row_major_less [OF i(2) rc(2)] lay by (simp add: layout_unfold)
    then show "i * unat (gn x) + j \<noteq> tile_elt mi n (unat (frac_m x)) (unat (frac_n x)) (unat (gn x)) r c"
      using other rc ij tile_of_elt [OF lay ij] row_major_inject [of j "unat (gn x)" "n * unat (frac_n x) + c" "unat (gn x)" i]
      unfolding tile_elt_def by blast
  qed
  ultimately show ?thesis using s2 unfolding s1_def by blast
qed

lemma tile_step:
  assumes x: "fp64_tiled x" and lay: "gemm_layout x l1_next" and r: "gemm_run_ok d x r" and F: "fp_unit F"
    and mi: "abs_m_tile_idx d (dm_hart r) x (of_nat m_tile) = of_nat mi"
    and i: "mi < unat (m_tiles x)" "n < unat (n_tiles x)"
    and inv: "tiles_done F x l1_next m ready st" and new: "(mi, n) \<notin> ready"
  shows "\<exists>st'. gemm_tile exec (run_kernel F other) reduce r g d x l1_next m_tile n st = Some st' \<and>
    tiles_done F x l1_next m (insert (mi, n) ready) st'"
proof -
  have idle: "pending st = []" using inv by (simp add: tiles_done_def)
  have pk: "\<not> parallelize_k x" using x by (simp add: fp64_tiled_def)
  have "unat (k_tiles x) * unat (frac_k x) = unat (gk x)" "0 < unat (frac_k x)" using lay by (simp_all add: layout_unfold)
  moreover have "k_tiles x = 0 \<Longrightarrow> frac_k x = 0" by (simp add: frac_k_def)
  ultimately have K: "unat (k_tiles_per_cluster d x) = unat (k_tiles x)" "0 < unat (k_tiles x)" "unat (k_tiles x) * unat (frac_k x) = unat (gk x)"
    using pk by (auto simp: k_tiles_per_cluster_def unat_gt_0)
  obtain s where s: "for_upto (unat (k_tiles x)) (\<lambda>k st. Option.bind st (gemm_iter exec (run_kernel F other) r g d x l1_next m_tile n k)) (Some st) = Some s"
      "pending s = []" "\<And>y. y \<notin> buffers x l1_next \<Longrightarrow> dmem s y = dmem st y"
      "\<And>i j. i < unat (frac_m x) \<Longrightarrow> j < unat (frac_n x) \<Longrightarrow>
         elt (dmem s) (buf_c x l1_next) (i * unat (frac_n x) + j) = tile_acc F x mi n (unat (gk x)) (dmem st) i j"
    using k_loop [OF x lay r F mi i idle, of "unat (k_tiles x)" other g] K by auto
  obtain s' where s': "snrt_dma_wait_all exec (wait_out r m_tile n) (gemm_copy_out d (dm_hart r) x l1_next (of_nat m_tile) (of_nat n) s) = Some s'"
      "pending s' = []" "\<And>y. y \<notin> span (gc x) (8 * (unat (gm x) * unat (gn x))) \<Longrightarrow> dmem s' y = dmem s y"
      "\<And>r c. r < unat (frac_m x) \<Longrightarrow> c < unat (frac_n x) \<Longrightarrow>
         elt (dmem s') (gc x) ((mi * unat (frac_m x) + r) * unat (gn x) + (n * unat (frac_n x) + c)) =
           elt (dmem s) (buf_c x l1_next) (r * unat (frac_n x) + c)"
      "\<And>i j. i < unat (gm x) \<Longrightarrow> j < unat (gn x) \<Longrightarrow> tile_of x i j \<noteq> (mi, n) \<Longrightarrow>
         elt (dmem s') (gc x) (i * unat (gn x) + j) = elt (dmem s) (gc x) (i * unat (gn x) + j)"
    using copy_out_effect [OF x lay r mi i s(2)] by blast
  have "gemm_tile exec (run_kernel F other) reduce r g d x l1_next m_tile n st = Some s'"
    using s(1) s'(1) K(1) pk by (simp add: gemm_tile_def gemm_buffers_fp64 [OF x])
  moreover have "elt (dmem s') (gc x) (i * unat (gn x) + j) =
      (if tile_of x i j \<in> insert (mi, n) ready
       then gemm_elem F (of_u32 F (gbeta x)) (unat (gk x)) (ga x) (unat (gk x)) (gb x) (unat (gn x)) (gc x) (unat (gn x)) m (i, j)
       else elt m (gc x) (i * unat (gn x) + j))" if ij: "i < unat (gm x)" "j < unat (gn x)" for i j
  proof (cases "tile_of x i j = (mi, n)")
    case True
    then obtain r c where rc: "r < unat (frac_m x)" "c < unat (frac_n x)" "i = mi * unat (frac_m x) + r" "j = n * unat (frac_n x) + c"
      using tile_of_elt [OF lay ij] by auto
    then show ?thesis
      using s'(4) [OF rc(1,2)] s(4) [OF rc(1,2)] True new tiles_done_elem [OF lay inv _ ij] by (simp add: tile_acc_elem)
  next
    case False
    have "elt (dmem s) (gc x) (i * unat (gn x) + j) = elt (dmem st) (gc x) (i * unat (gn x) + j)"
      using layout_fits(2) [OF lay] layout_apart(3) [OF lay] s(3)
      by (intro elt_span_cong [OF _ row_major_less [OF ij]]) (auto simp: gemm_fits_def)
    then show ?thesis using s'(5) [OF ij False] False inv ij by (simp add: tiles_done_def)
  qed
  moreover have "dmem s' y = m y" if "y \<notin> buffers x l1_next" "y \<notin> span (gc x) (8 * (unat (gm x) * unat (gn x)))" for y
    using s'(3) [OF that(2)] s(3) [OF that(1)] inv that by (simp add: tiles_done_def)
  ultimately show ?thesis using s'(2) by (auto simp: tiles_done_def)
qed

lemma n_loop:
  assumes x: "fp64_tiled x" and lay: "gemm_layout x l1_next" and r: "gemm_run_ok d x r" and F: "fp_unit F"
    and mi: "abs_m_tile_idx d (dm_hart r) x (of_nat m_tile) = of_nat mi" "mi < unat (m_tiles x)"
    and inv: "tiles_done F x l1_next m ready st" and new: "\<And>n. (mi, n) \<notin> ready"
  shows "k \<le> unat (n_tiles x) \<Longrightarrow>
    \<exists>st'. for_upto k (\<lambda>n st. Option.bind st (gemm_tile exec (run_kernel F other) reduce r g d x l1_next m_tile n)) (Some st) = Some st' \<and>
      tiles_done F x l1_next m (ready \<union> {mi} \<times> {..<k}) st'"
proof (induction k)
  case (Suc k)
  then obtain s where s: "for_upto k (\<lambda>n st. Option.bind st (gemm_tile exec (run_kernel F other) reduce r g d x l1_next m_tile n)) (Some st) = Some s"
    "tiles_done F x l1_next m (ready \<union> {mi} \<times> {..<k}) s" by auto
  have "insert (mi, k) (ready \<union> {mi} \<times> {..<k}) = ready \<union> {mi} \<times> {..<Suc k}" by auto
  then show ?case
    using tile_step [OF x lay r F mi, of k m "ready \<union> {mi} \<times> {..<k}" s other reduce g] Suc.prems s new by (auto simp: for_upto_Suc)
qed (use inv in simp)

lemma m_loop:
  assumes x: "fp64_tiled x" and lay: "gemm_layout x l1_next" and r: "gemm_run_ok d x r" and F: "fp_unit F"
    and cl: "parallelize_m x \<Longrightarrow> snrt_cluster_idx d (dm_hart r) < snrt_cluster_num d" and idle: "pending st = []"
  shows "k \<le> unat (m_tiles_per_cluster d x) \<Longrightarrow>
    \<exists>st'. for_upto k (\<lambda>m_tile st. for_upto (unat (n_tiles x))
        (\<lambda>n_tile st. Option.bind st (gemm_tile exec (run_kernel F other) reduce r g d x l1_next m_tile n_tile)) st) (Some st) = Some st' \<and>
      tiles_done F x l1_next (dmem st) ({m_base d (dm_hart r) x..<m_base d (dm_hart r) x + k} \<times> {..<unat (n_tiles x)}) st'"
proof (induction k)
  case 0 then show ?case using idle by (simp add: tiles_done_def)
next
  case (Suc k)
  let ?b = "m_base d (dm_hart r) x" and ?n = "unat (n_tiles x)"
  obtain s where s: "for_upto k (\<lambda>m_tile st. for_upto ?n
        (\<lambda>n_tile st. Option.bind st (gemm_tile exec (run_kernel F other) reduce r g d x l1_next m_tile n_tile)) st) (Some st) = Some s"
      "tiles_done F x l1_next (dmem st) ({?b..<?b + k} \<times> {..<?n}) s" using Suc by auto
  have "{?b..<?b + k} \<times> {..<?n} \<union> {?b + k} \<times> {..<?n} = {?b..<?b + Suc k} \<times> {..<?n}" by auto
  then show ?case
    using n_loop [OF x lay r F abs_m_tile [OF cl] s(2), of k ?n other reduce g] Suc.prems s(1) by (auto simp: for_upto_Suc)
qed

end

section \<open>Properties\<close>

text \<open>
  C2. The tiled, parallel matrix product in double precision computes what the plain triple loop computes. \<open>gemm\<close>
  cuts the matrices into tiles, moves each tile into L1 by DMA, lets the compute cores work on interleaved rows,
  accumulates over the tiles of the inner dimension, and stores the result tile by tile. If the tile sizes divide the
  matrix sizes and the number of cores divides the rows of a tile, and the matrices and buffers do not overlap, then
  it returns, every element of \<open>C\<close> in the rows of the cluster holds bit for bit the value that
  \<open>gemm_fp64_naive\<close> on the whole matrices gives it, the other elements are unchanged, and nothing else outside the
  L1 buffers has changed: for every DMA engine that obeys the transfer laws, every order of the cores in every phase,
  and every floating-point unit in which multiplying a sum by 1 leaves it unchanged.
\<close>

theorem gemm_fp64_tiled_naive:
  assumes "dma_backend exec" and "fp64_tiled x" and "gemm_layout x l1_next" and "gemm_run_ok d x r" and "fp_unit F"
    and "parallelize_m x \<Longrightarrow> snrt_cluster_idx d (dm_hart r) < snrt_cluster_num d" and "pending st = []"
  shows "\<exists>st'. gemm exec (run_kernel F other) reduce r g d x l1_next st = Some st' \<and> pending st' = [] \<and>
    (\<forall>i < unat (gm x). \<forall>j < unat (gn x). elt (dmem st') (gc x) (i * unat (gn x) + j) =
       (if m_base d (dm_hart r) x \<le> i div unat (frac_m x) \<and>
           i div unat (frac_m x) < m_base d (dm_hart r) x + unat (m_tiles_per_cluster d x)
        then elt (gemm_fp64_naive F (gm x) (gn x) (gk x) (ga x) (gk x) False (gb x) (gn x) False (gc x) (gn x)
               (of_u32 F (gbeta x)) (dmem st)) (gc x) (i * unat (gn x) + j)
        else elt (dmem st) (gc x) (i * unat (gn x) + j))) \<and>
    (\<forall>y. y \<notin> buffers x l1_next \<longrightarrow> y \<notin> span (gc x) (8 * (unat (gm x) * unat (gn x))) \<longrightarrow> dmem st' y = dmem st y)"
proof -
  let ?b = "m_base d (dm_hart r) x"
  obtain st' where st': "gemm exec (run_kernel F other) reduce r g d x l1_next st = Some st'"
    and inv: "tiles_done F x l1_next (dmem st) ({?b..<?b + unat (m_tiles_per_cluster d x)} \<times> {..<unat (n_tiles x)}) st'"
    using dma_backend.m_loop [OF assms(1-7) order_refl, of other reduce g] unfolding gemm_def by blast
  have "tile_of x i j \<in> {?b..<?b + unat (m_tiles_per_cluster d x)} \<times> {..<unat (n_tiles x)} \<longleftrightarrow>
      ?b \<le> i div unat (frac_m x) \<and> i div unat (frac_m x) < ?b + unat (m_tiles_per_cluster d x)" if "j < unat (gn x)" for i j
    using that assms(3) by (auto simp: tile_of_def layout_unfold less_mult_imp_div_less)
  then show ?thesis
    using st' inv naive_whole(2) [OF layout_fits(2) [OF assms(3)]] by (intro exI [of _ st']) (simp add: tiles_done_def, blast)
qed

text \<open>A floating-point unit for the witness: integer arithmetic on the patterns.\<close>

definition int_fpu :: fp_ops where
  "int_fpu = \<lparr>fadd = (+), fsub = (-), fmul = (*), fdiv = (div), fmadd = (\<lambda>a b c. a * b + c), fsqrt = id, fabs = id,
     flt = (<), feq = (=), of_u32 = ucast\<rparr>"

definition example_args :: gemm_args where
  "example_args = \<lparr>gprec = FP64, gexpand = False, gsetup_ssr = False, parallelize_m = True, parallelize_k = False,
     m_tiles = 2, n_tiles = 2, k_tiles = 2, load_a_flag = True, load_b_flag = True, load_c_flag = True, gtransa = False, gtransb = False,
     gm = 8, gn = 8, gk = 8, ga = 0x80000000, gb = 0x80010000, gbeta = 3, gc = 0x80020000, gbaseline = True\<rparr>"

text \<open>Two clusters of two compute cores and a data mover; the second cluster takes the second tile row.\<close>

definition example_defs :: snrt_defs where
  "example_defs = \<lparr>SNRT_BASE_HARTID = 0, SNRT_CLUSTER_CORE_NUM = 3, SNRT_CLUSTER_NUM = 2, SNRT_CLUSTER_DM_CORE_NUM = 1,
     SNRT_TCDM_START_ADDR = 0x10000000, SNRT_TCDM_SIZE = 0x20000, SNRT_CLUSTER_OFFSET = 0x40000, SNRT_CLUSTER_HW_BARRIER_ADDR = 0, SNRT_LOG2_STACK_SIZE = 10\<rparr>"

definition example_run :: gemm_run where
  "example_run = \<lparr>dm_hart = 5, wait_in = (\<lambda>_ _ _. [1, 2]), wait_out = (\<lambda>_ _. [0, 1]), core_order = (\<lambda>_ _ _. [4, 3])\<rparr>"

lemma example_run_ok: "gemm_run_ok example_defs example_args example_run"
proof -
  have "i = 0 \<or> i = 1" if "i < 2" for i :: u32
    using that by (auto simp: word_less_nat_alt word_unat_eq_iff)
  then have "{i :: u32. i < 2} = {0, 1}" by auto
  then show ?thesis
    by (simp add: gemm_run_ok_def example_run_def all_cores_def example_defs_def team_defs frac_m_def example_args_def) auto
qed

theorem gemm_fp64_tiled_naive_witness:
  "\<exists>st'. gemm copy_seq (run_kernel int_fpu (\<lambda>_ _. id)) (\<lambda>_ _ _. id) example_run example_cfg example_defs example_args 0x10000000 dma_reset = Some st' \<and>
    pending st' = [] \<and>
    (\<forall>i < 8. \<forall>j < 8. elt (dmem st') 0x80020000 (i * 8 + j) =
       (if 4 \<le> i then elt (gemm_fp64_naive int_fpu 8 8 8 0x80000000 8 False 0x80010000 8 False 0x80020000 8 3 (dmem dma_reset)) 0x80020000 (i * 8 + j)
        else elt (dmem dma_reset) 0x80020000 (i * 8 + j)))"
proof -
  have x: "fp64_tiled example_args" "gemm_layout example_args 0x10000000" "fp_unit int_fpu"
    by (simp_all add: fp64_tiled_def example_args_def layout_unfold buf_len_def frac_m_def frac_n_def frac_k_def fp_unit_def int_fpu_def f64_0_def)
  have "snrt_cluster_idx example_defs (dm_hart example_run) < snrt_cluster_num example_defs" "pending dma_reset = []"
    by (simp_all add: example_defs_def example_run_def team_defs dma_reset_def)
  with gemm_fp64_tiled_naive [OF seq_engine.dma_backend_axioms x(1,2) example_run_ok x(3), of dma_reset "\<lambda>_ _. id" "\<lambda>_ _ _. id" example_cfg]
  show ?thesis
    by (auto simp: m_base_def m_tiles_per_cluster_def example_args_def example_defs_def example_run_def team_defs frac_m_def int_fpu_def)
qed

end
