(* ===== verification/Concat.thy ===== *)
theory Concat
  imports Gemm
begin

text \<open>
  The concatenation layer of \<open>sw/dnn/concat/src/concat.h\<close>: the data mover core of cluster \<open>k\<close> copies input \<open>k\<close> into its
  columns of the output, all clusters at the same time; the global barrier at the end (\<open>Sync\<close>) keeps every core until all
  have arrived.
\<close>

section \<open>The layer\<close>

record concat_layer_t =
  num_inputs :: u32
  input_shape_0 :: u32
  input_shape_1 :: u32
  inputs :: "ptr list"
  concat_output :: ptr
  concat_dtype :: precision_t

text \<open>The transfer of a cluster.\<close>

definition concat_transfer :: "snrt_defs \<Rightarrow> u32 \<Rightarrow> concat_layer_t \<Rightarrow> dma_state \<Rightarrow> dma_state" where
  "concat_transfer d hartid l st =
     (let row_size = input_shape_1 l * 8;
          concatenated_row_size = row_size * num_inputs l;
          input = inputs l ! unat (snrt_cluster_idx d hartid);
          output = concat_output l + snrt_cluster_idx d hartid * row_size
      in snd (snrt_dma_start_2d output input row_size concatenated_row_size row_size (input_shape_0 l) st))"

text \<open>What a core does up to the barrier, and what it returns.\<close>

definition concat_layer ::
  "(dma_req \<Rightarrow> mem \<Rightarrow> mem) \<Rightarrow> nat list \<Rightarrow> snrt_defs \<Rightarrow> u32 \<Rightarrow> concat_layer_t \<Rightarrow> dma_state \<Rightarrow> (u32 \<times> dma_state) option" where
  "concat_layer exec sched d hartid l st =
     (if num_inputs l > snrt_cluster_num d then Some (1, st)
      else if snrt_is_dm_core d hartid \<and> snrt_cluster_idx d hartid < num_inputs l
      then map_option (Pair 0) (snrt_dma_wait_all exec sched (concat_transfer d hartid l st))
      else Some (0, st))"

text \<open>
  All cores: \<open>dma h\<close> is the DMA front end of core \<open>h\<close> when it starts, the memory is shared. The result lists what the
  cores return and the memory when the last one has reached the barrier.
\<close>

definition concat_core ::
  "(dma_req \<Rightarrow> mem \<Rightarrow> mem) \<Rightarrow> (u32 \<Rightarrow> nat list) \<Rightarrow> (u32 \<Rightarrow> dma_state) \<Rightarrow> snrt_defs \<Rightarrow> concat_layer_t \<Rightarrow> u32 \<Rightarrow>
     (u32 list \<times> mem) option \<Rightarrow> (u32 list \<times> mem) option" where
  "concat_core exec sched dma d l h res =
     Option.bind res (\<lambda>(rets, m). map_option (\<lambda>(ret, st). (rets @ [ret], dmem st))
       (concat_layer exec (sched h) d h l ((dma h)\<lparr>dmem := m\<rparr>)))"

definition concat_cores ::
  "(dma_req \<Rightarrow> mem \<Rightarrow> mem) \<Rightarrow> (u32 \<Rightarrow> nat list) \<Rightarrow> (u32 \<Rightarrow> dma_state) \<Rightarrow> snrt_defs \<Rightarrow> concat_layer_t \<Rightarrow> u32 list \<Rightarrow> mem \<Rightarrow>
     (u32 list \<times> mem) option" where
  "concat_cores exec sched dma d l hs m = fold (concat_core exec sched dma d l) hs (Some ([], m))"

section \<open>One cluster\<close>

text \<open>The tensors fit into the address space, and the output overlaps no input.\<close>

definition concat_layout :: "concat_layer_t \<Rightarrow> bool" where
  "concat_layout l \<longleftrightarrow>
     (let h = unat (input_shape_0 l); w = unat (input_shape_1 l); n = unat (num_inputs l); out = unat (concat_output l)
      in 0 < h \<and> 0 < w \<and> length (inputs l) = n \<and> 8 * (w * n) < 2 ^ 31 \<and> out + 8 * (h * (w * n)) < 2 ^ 32 \<and>
         (\<forall>p \<in> set (inputs l). unat p + 8 * (h * w) \<le> 2 ^ 32 \<and> (unat p + 8 * (h * w) \<le> out \<or> out + 8 * (h * (w * n)) \<le> unat p)))"

text \<open>Element \<open>(r, c)\<close> of input \<open>k\<close>, as an index of the output.\<close>

definition concat_elt :: "concat_layer_t \<Rightarrow> nat \<Rightarrow> nat \<Rightarrow> nat \<Rightarrow> nat" where
  "concat_elt l k r c = r * (unat (input_shape_1 l) * unat (num_inputs l)) + (k * unat (input_shape_1 l) + c)"

lemma concat_elt_inject:
  assumes "k < unat (num_inputs l)" "k' < unat (num_inputs l)" "c < unat (input_shape_1 l)" "c' < unat (input_shape_1 l)"
    and "concat_elt l k r c = concat_elt l k' r' c'"
  shows "k = k' \<and> r = r' \<and> c = c'"
proof -
  let ?w = "unat (input_shape_1 l)" and ?n = "unat (num_inputs l)"
  have "k * ?w + c < ?w * ?n" "k' * ?w + c' < ?w * ?n"
    using row_major_less [OF assms(1,3)] row_major_less [OF assms(2,4)] by (simp_all add: mult.commute)
  then have "r = r' \<and> k * ?w + c = k' * ?w + c'"
    using assms(5) row_major_inject [of "k * ?w + c" "?w * ?n" "k' * ?w + c'" "?w * ?n" r r'] by (simp add: concat_elt_def)
  then show ?thesis using row_major_inject [of c ?w c' ?w k k'] assms by auto
qed

lemma concat_tile:
  assumes lay: "concat_layout l" and k: "k < unat (num_inputs l)"
  defines "w \<equiv> unat (input_shape_1 l)" and "h \<equiv> unat (input_shape_0 l)"
  shows "tile_ok (concat_output l) 0 k h w h (w * unat (num_inputs l)) 8"
    and "tile_apart (inputs l ! k) (concat_output l) h w h (w * unat (num_inputs l)) 8"
    and "holds (inputs l ! k) (h * w)"
proof -
  have "(k + 1) * w \<le> unat (num_inputs l) * w" using k by (intro mult_right_mono) auto
  then show "tile_ok (concat_output l) 0 k h w h (w * unat (num_inputs l)) 8"
    using lay by (simp add: concat_layout_def tile_ok_def w_def h_def Let_def mult.commute mult.left_commute)
  have "inputs l ! k \<in> set (inputs l)" using lay k by (auto simp: concat_layout_def Let_def)
  then show "tile_apart (inputs l ! k) (concat_output l) h w h (w * unat (num_inputs l)) 8" "holds (inputs l ! k) (h * w)"
    using lay by (auto simp: concat_layout_def tile_apart_def holds_def w_def h_def Let_def mult.commute mult.left_commute)
qed

lemma concat_request:
  assumes lay: "concat_layout l" and k: "unat (snrt_cluster_idx d hart) = k" "k < unat (num_inputs l)"
  shows "dma_settled exec (concat_transfer d hart l st) =
      exec (store_req (next_id st) (concat_output l) (inputs l ! k) 0 k (unat (input_shape_0 l)) (unat (input_shape_1 l))
        (unat (input_shape_1 l) * unat (num_inputs l)) 8) (dma_settled exec st)"
    and "length (pending (concat_transfer d hart l st)) = Suc (length (pending st))"
proof -
  have idx: "snrt_cluster_idx d hart = of_nat k" using k(1) by auto
  have "0 < input_shape_1 l * 8" using tile_row_nonempty [OF concat_tile(1) [OF lay k(2)]] by simp
  then show "dma_settled exec (concat_transfer d hart l st) =
      exec (store_req (next_id st) (concat_output l) (inputs l ! k) 0 k (unat (input_shape_0 l)) (unat (input_shape_1 l))
        (unat (input_shape_1 l) * unat (num_inputs l)) 8) (dma_settled exec st)"
    and "length (pending (concat_transfer d hart l st)) = Suc (length (pending st))"
    unfolding concat_transfer_def k(1)
    by (simp_all add: dma_start_simps dma_settled_def store_req_def tile_offset_def idx Let_def ac_simps)
qed

context dma_backend
begin

lemma concat_cluster:
  assumes lay: "concat_layout l" and k: "unat (snrt_cluster_idx d hart) = k" "k < unat (num_inputs l)"
    and dm: "snrt_is_dm_core d hart" and n: "\<not> num_inputs l > snrt_cluster_num d"
    and idle: "pending st = []" and sched: "0 < sum_list sched"
  shows "\<exists>st'. concat_layer exec sched d hart l st = Some (0, st') \<and>
    (\<forall>y. y \<notin> span (concat_output l) (8 * (unat (input_shape_0 l) * (unat (input_shape_1 l) * unat (num_inputs l)))) \<longrightarrow> dmem st' y = dmem st y) \<and>
    (\<forall>k' r c. k' < unat (num_inputs l) \<longrightarrow> r < unat (input_shape_0 l) \<longrightarrow> c < unat (input_shape_1 l) \<longrightarrow>
       elt (dmem st') (concat_output l) (concat_elt l k' r c) =
         (if k' = k then elt (dmem st) (inputs l ! k) (r * unat (input_shape_1 l) + c)
          else elt (dmem st) (concat_output l) (concat_elt l k' r c)))"
proof -
  note tile = concat_tile [OF lay k(2)] and req = concat_request [OF lay k]
  have idx: "snrt_cluster_idx d hart < num_inputs l" using k by (simp add: word_less_nat_alt)
  obtain s where s: "snrt_dma_wait_all exec sched (concat_transfer d hart l st) = Some s" "dmem s = dma_settled exec (concat_transfer d hart l st)"
    using wait_all_settles [of "concat_transfer d hart l st" sched exec] req(2) [of st] idle sched by auto
  have m: "dmem s = exec (store_req (next_id st) (concat_output l) (inputs l ! k) 0 k (unat (input_shape_0 l)) (unat (input_shape_1 l))
      (unat (input_shape_1 l) * unat (num_inputs l)) 8) (dmem st)"
    using s(2) req(1) [of exec st] idle by (simp add: dma_settled_def)
  have te: "tile_elt 0 k (unat (input_shape_0 l)) (unat (input_shape_1 l)) (unat (input_shape_1 l) * unat (num_inputs l)) r c = concat_elt l k r c" for r c
    by (simp add: tile_elt_def concat_elt_def)
  have "elt (dmem s) (concat_output l) (concat_elt l k' r c) =
         (if k' = k then elt (dmem st) (inputs l ! k) (r * unat (input_shape_1 l) + c)
          else elt (dmem st) (concat_output l) (concat_elt l k' r c))"
    if kr: "k' < unat (num_inputs l)" "r < unat (input_shape_0 l)" "c < unat (input_shape_1 l)" for k' r c
  proof (cases "k' = k")
    case True then show ?thesis using store_req_elt [OF tile kr(2,3)] unfolding m te by simp
  next
    case False
    have "concat_elt l k' r c < unat (input_shape_0 l) * (unat (input_shape_1 l) * unat (num_inputs l))"
      unfolding concat_elt_def using kr row_major_less [OF kr(1,3)] by (intro row_major_less) (simp_all add: mult.commute)
    then show ?thesis
      using False store_req_other [OF tile(1), unfolded te] concat_elt_inject [OF kr(1) k(2) kr(3)] unfolding m by metis
  qed
  moreover have "dmem s y = dmem st y"
    if "y \<notin> span (concat_output l) (8 * (unat (input_shape_0 l) * (unat (input_shape_1 l) * unat (num_inputs l))))" for y
    unfolding m by (rule store_req_frame [OF tile(1) that])
  moreover have "concat_layer exec sched d hart l st = Some (0, s)" using n dm idx s(1) by (simp add: concat_layer_def)
  ultimately show ?thesis by blast
qed

text \<open>Any number of cores, in any order: input \<open>k\<close> is in place once a data mover of cluster \<open>k\<close> has run.\<close>

lemma concat_all:
  assumes lay: "concat_layout l" and n: "\<not> num_inputs l > snrt_cluster_num d"
    and idle: "\<And>h. pending (dma h) = []" and sched: "\<And>h. 0 < sum_list (sched h)"
  shows "\<exists>m'. concat_cores exec sched dma d l hs m = Some (replicate (length hs) 0, m') \<and>
    (\<forall>y. y \<notin> span (concat_output l) (8 * (unat (input_shape_0 l) * (unat (input_shape_1 l) * unat (num_inputs l)))) \<longrightarrow> m' y = m y) \<and>
    (\<forall>k r c. k < unat (num_inputs l) \<longrightarrow> r < unat (input_shape_0 l) \<longrightarrow> c < unat (input_shape_1 l) \<longrightarrow>
       (\<exists>h \<in> set hs. snrt_is_dm_core d h \<and> unat (snrt_cluster_idx d h) = k) \<longrightarrow>
       elt m' (concat_output l) (concat_elt l k r c) = elt m (inputs l ! k) (r * unat (input_shape_1 l) + c))"
proof (induction hs rule: rev_induct)
  case Nil then show ?case by (simp add: concat_cores_def)
next
  case (snoc h hs)
  let ?out = "span (concat_output l) (8 * (unat (input_shape_0 l) * (unat (input_shape_1 l) * unat (num_inputs l))))"
  obtain m1 where m1: "concat_cores exec sched dma d l hs m = Some (replicate (length hs) 0, m1)"
      "\<And>y. y \<notin> ?out \<Longrightarrow> m1 y = m y"
      "\<And>k r c. k < unat (num_inputs l) \<Longrightarrow> r < unat (input_shape_0 l) \<Longrightarrow> c < unat (input_shape_1 l) \<Longrightarrow>
         \<exists>h \<in> set hs. snrt_is_dm_core d h \<and> unat (snrt_cluster_idx d h) = k \<Longrightarrow>
         elt m1 (concat_output l) (concat_elt l k r c) = elt m (inputs l ! k) (r * unat (input_shape_1 l) + c)"
    using snoc by blast
  have cores: "concat_cores exec sched dma d l (hs @ [h]) m =
      map_option (\<lambda>(ret, st). (replicate (length hs) 0 @ [ret], dmem st)) (concat_layer exec (sched h) d h l ((dma h)\<lparr>dmem := m1\<rparr>))"
    using m1(1) by (simp add: concat_cores_def concat_core_def)
  show ?case
  proof (cases "snrt_is_dm_core d h \<and> unat (snrt_cluster_idx d h) < unat (num_inputs l)")
    case True
    let ?k = "unat (snrt_cluster_idx d h)"
    obtain s where s: "concat_layer exec (sched h) d h l ((dma h)\<lparr>dmem := m1\<rparr>) = Some (0, s)"
        "\<And>y. y \<notin> ?out \<Longrightarrow> dmem s y = m1 y"
        "\<And>k r c. k < unat (num_inputs l) \<Longrightarrow> r < unat (input_shape_0 l) \<Longrightarrow> c < unat (input_shape_1 l) \<Longrightarrow>
           elt (dmem s) (concat_output l) (concat_elt l k r c) =
             (if k = ?k then elt m1 (inputs l ! ?k) (r * unat (input_shape_1 l) + c) else elt m1 (concat_output l) (concat_elt l k r c))"
      using concat_cluster [OF lay refl, of d h "(dma h)\<lparr>dmem := m1\<rparr>" "sched h"] True n idle sched by auto
    have "span (inputs l ! ?k) (8 * (unat (input_shape_0 l) * unat (input_shape_1 l))) \<inter> ?out = {}"
      using concat_tile(2) [OF lay] True by (intro span_disjoint) (auto simp: tile_apart_def mult.commute mult.left_commute)
    then have "elt m1 (inputs l ! ?k) (r * unat (input_shape_1 l) + c) = elt m (inputs l ! ?k) (r * unat (input_shape_1 l) + c)"
      if "r < unat (input_shape_0 l)" "c < unat (input_shape_1 l)" for r c
      using elt_span_cong [OF concat_tile(3) [OF lay] row_major_less [OF that]] True m1(2) by blast
    then show ?thesis
      using cores s(1,2) m1(2) s(3) m1(3) by (auto simp: replicate_append_same)
  next
    case False
    then have "concat_layer exec (sched h) d h l ((dma h)\<lparr>dmem := m1\<rparr>) = Some (0, (dma h)\<lparr>dmem := m1\<rparr>)"
      using n unfolding concat_layer_def word_less_nat_alt by auto
    then show ?thesis using cores m1(2,3) False by (auto simp: replicate_append_same)
  qed
qed

end

lemma concat_error:
  assumes "num_inputs l > snrt_cluster_num d"
  shows "concat_cores exec sched dma d l hs m = Some (replicate (length hs) 1, m)"
  by (induction hs rule: rev_induct)
    (use assms in \<open>simp_all add: concat_cores_def concat_core_def concat_layer_def replicate_append_same\<close>)

section \<open>Properties\<close>

text \<open>
  C24. The concatenation layer reports an error on every core, and moves nothing, if there are more inputs than clusters.
  Otherwise every core returns 0, and when all cores have arrived at the final barrier, the rows of the output are the
  rows of the inputs one after the other, and nothing outside the output has changed: for every order in which the cores
  of all clusters run, every DMA engine that obeys the transfer laws, and tensors of doubles that do not overlap the output.
\<close>

theorem concat_layer_correct:
  assumes "dma_backend exec" and "\<And>h. pending (dma h) = []" and "\<And>h. 0 < sum_list (sched h)"
    and "\<And>k. k < unat (snrt_cluster_num d) \<Longrightarrow> \<exists>h \<in> set hs. snrt_is_dm_core d h \<and> unat (snrt_cluster_idx d h) = k"
    and "\<not> num_inputs l > snrt_cluster_num d \<Longrightarrow> concat_layout l"
  shows "if num_inputs l > snrt_cluster_num d
    then concat_cores exec sched dma d l hs m = Some (replicate (length hs) 1, m)
    else \<exists>m'. concat_cores exec sched dma d l hs m = Some (replicate (length hs) 0, m') \<and>
      (\<forall>k < unat (num_inputs l). \<forall>r < unat (input_shape_0 l). \<forall>c < unat (input_shape_1 l).
         elt m' (concat_output l) (concat_elt l k r c) = elt m (inputs l ! k) (r * unat (input_shape_1 l) + c)) \<and>
      (\<forall>y. y \<notin> span (concat_output l) (8 * (unat (input_shape_0 l) * (unat (input_shape_1 l) * unat (num_inputs l)))) \<longrightarrow> m' y = m y)"
proof (cases "num_inputs l > snrt_cluster_num d")
  case True then show ?thesis by (simp add: concat_error)
next
  case False
  then have "unat (num_inputs l) \<le> unat (snrt_cluster_num d)" by (simp add: word_less_nat_alt)
  then have "\<exists>h \<in> set hs. snrt_is_dm_core d h \<and> unat (snrt_cluster_idx d h) = k" if "k < unat (num_inputs l)" for k
    using assms(4) that by simp
  then show ?thesis using False dma_backend.concat_all [OF assms(1), of l d dma sched hs m] assms(2,3) assms(5) [OF False] by simp blast
qed

text \<open>Two clusters of three cores; the inputs are 4 by 3.\<close>

definition example_layer :: concat_layer_t where
  "example_layer = \<lparr>num_inputs = 2, input_shape_0 = 4, input_shape_1 = 3, inputs = [0x80000000, 0x80010000],
     concat_output = 0x80020000, concat_dtype = FP64\<rparr>"

theorem concat_layer_correct_witness:
  "\<exists>m'. concat_cores copy_seq (\<lambda>_. [1]) (\<lambda>_. dma_reset) example_defs example_layer [5, 0, 1, 2, 3, 4] ucast = Some ([0, 0, 0, 0, 0, 0], m') \<and>
     (\<forall>k < 2. \<forall>r < 4. \<forall>c < 3. elt m' 0x80020000 (concat_elt example_layer k r c) =
        elt ucast ([0x80000000, 0x80010000] ! k) (r * 3 + c))"
proof -
  have "\<exists>h \<in> set [5, 0, 1, 2, 3, 4]. snrt_is_dm_core example_defs h \<and> unat (snrt_cluster_idx example_defs h) = k"
    if "k < unat (snrt_cluster_num example_defs)" for k
  proof -
    have "k = 0 \<or> k = 1" using that by (auto simp: example_defs_def team_defs)
    moreover have "snrt_is_dm_core example_defs 2" "snrt_is_dm_core example_defs 5"
        "unat (snrt_cluster_idx example_defs 2) = 0" "unat (snrt_cluster_idx example_defs 5) = 1"
      by (simp_all add: example_defs_def team_defs snrt_is_dm_core_def snrt_is_compute_core_def)
    ultimately show ?thesis by auto
  qed
  moreover have "concat_layout example_layer" by (simp add: concat_layout_def example_layer_def)
  moreover have "pending dma_reset = []" by (simp add: dma_reset_def)
  moreover have "num_inputs example_layer = 2" "input_shape_0 example_layer = 4" "input_shape_1 example_layer = 3"
      "inputs example_layer = [0x80000000, 0x80010000]" "concat_output example_layer = 0x80020000" "snrt_cluster_num example_defs = 2"
    by (simp_all add: example_layer_def example_defs_def team_defs)
  ultimately show ?thesis
    using concat_layer_correct [OF seq_engine.dma_backend_axioms, of "\<lambda>_. dma_reset" "\<lambda>_. [1]" example_defs "[5, 0, 1, 2, 3, 4]" example_layer ucast]
    by auto
qed

end
