(* ===== verification/Kernels.thy ===== *)
theory Kernels
  imports Gemm Boot
begin

text \<open>
  What the data-parallel applications on one cluster have in common (\<open>sw/apps/atax\<close>, \<open>sw/apps/covariance\<close>, \<open>sw/apps/correlation\<close>):
  the static distribution of rows or columns over the compute cores, the transfers of whole arrays between L3 and L1, and the final
  comparison with the golden model. The cores of a phase between two barriers run one after the other, in any order: they write
  disjoint parts of memory, and read nothing that another core writes in the same phase. What they store is taken to be in memory
  when they pass the barrier; of the three kernels only \<open>kernel_covariance\<close> makes sure of it with \<open>snrt_fpu_fence\<close>.
\<close>

section \<open>Shares\<close>

text \<open>\<open>core_range\<close> and \<open>core_offset\<close> are \<open>int\<close> variables: loops up to them compare signed numbers.\<close>

definition core_range :: "snrt_defs \<Rightarrow> u32 \<Rightarrow> u32" where
  "core_range d n = n div snrt_cluster_compute_core_num d"

definition core_offset :: "snrt_defs \<Rightarrow> u32 \<Rightarrow> u32 \<Rightarrow> u32" where
  "core_offset d hartid n = snrt_cluster_core_idx d hartid * core_range d n"

definition for_share :: "snrt_defs \<Rightarrow> u32 \<Rightarrow> u32 \<Rightarrow> (u32 \<Rightarrow> mem \<Rightarrow> mem) \<Rightarrow> mem \<Rightarrow> mem" where
  "for_share d hartid n body m =
     (if snrt_is_compute_core d hartid
      then for_upto (nat (sint (core_range d n))) (\<lambda>i1. body (core_offset d hartid n + of_nat i1)) m
      else m)"

section \<open>Shares cover the range\<close>

definition share_items :: "nat \<Rightarrow> nat \<Rightarrow> nat list" where
  "share_items r q = [q * r..<q * r + r]"

lemma share_items_cover:
  assumes P: "0 < P" "P dvd n" and qs: "distinct qs" "set qs = {..<P}"
  shows "distinct (concat (map (share_items (n div P)) qs))" "set (concat (map (share_items (n div P)) qs)) = {..<n}"
proof -
  let ?r = "n div P"
  have n: "n = P * ?r" using P by simp
  have end_le: "q * ?r + ?r \<le> q' * ?r" if "q < q'" for q q' :: nat
  proof -
    have "(q + 1) * ?r \<le> q' * ?r" using that by (intro mult_right_mono) auto
    then show ?thesis by simp
  qed
  have dis: "set (share_items ?r q) \<inter> set (share_items ?r q') = {}" if "q \<noteq> q'" for q q'
    using that end_le [of q q'] end_le [of q' q] by (cases "q < q'") (auto simp: share_items_def)
  have "distinct qs \<Longrightarrow> distinct (concat (map (share_items ?r) qs))"
  proof (induction qs)
    case (Cons q qs)
    have "set (share_items ?r q) \<inter> set (share_items ?r q') = {}" if "q' \<in> set qs" for q'
      by (rule dis) (use Cons.prems that in auto)
    then have "set (share_items ?r q) \<inter> set (concat (map (share_items ?r) qs)) = {}" by auto
    moreover have "distinct (share_items ?r q)" by (simp add: share_items_def)
    ultimately show ?case using Cons by simp
  qed simp
  then show "distinct (concat (map (share_items ?r) qs))" using qs by blast
  have "i \<in> set (share_items ?r (i div ?r)) \<and> i div ?r < P" if "i < n" for i
  proof -
    have "0 < ?r" using that n by (cases "?r = 0") auto
    then have "i div ?r * ?r \<le> i" "i < i div ?r * ?r + ?r" by (auto simp: dividend_less_div_times add.commute)
    moreover have "i div ?r < P" using that n \<open>0 < ?r\<close> by (metis less_mult_imp_div_less)
    ultimately show ?thesis by (auto simp: share_items_def)
  qed
  moreover have "i < n" if "q < P" "i \<in> set (share_items ?r q)" for q i
    using that end_le [of q P] n by (auto simp: share_items_def)
  ultimately show "set (concat (map (share_items ?r) qs)) = {..<n}" using qs(2) by force
qed

lemma sint_of_nat_small:
  assumes "n < 2 ^ 31" shows "sint (of_nat n :: u32) = int n"
proof -
  have "(int n + 2 ^ 31) mod 2 ^ 32 = int n + 2 ^ 31" using assms by (intro mod_pos_pos_trivial) auto
  then have "sint (word_of_int (int n) :: u32) = int n" unfolding int_word_sint by simp
  then show ?thesis by simp
qed

text \<open>A phase on all compute cores, as one pass over the range in some order.\<close>

lemma fold_shares:
  assumes hs: "all_cores d hs" and P: "0 < unat (snrt_cluster_compute_core_num d)" "unat (snrt_cluster_compute_core_num d) dvd unat n"
    and n: "unat n < 2 ^ 31"
  shows "\<exists>xs. distinct xs \<and> set xs = {..<unat n} \<and> fold (\<lambda>h. for_share d h n body) hs m = fold (\<lambda>i. body (of_nat i)) xs m"
proof -
  define p where "p = unat (snrt_cluster_compute_core_num d)"
  define r where "r = unat n div p"
  define qs where "qs = map (\<lambda>h. unat (snrt_cluster_core_idx d h)) hs"
  have qs: "distinct qs" "set qs = {..<p}" using all_cores_nat [OF hs] by (simp_all add: qs_def p_def)
  have cr: "unat (core_range d n) = r" by (simp add: core_range_def r_def p_def unat_div)
  have "r \<le> unat n" by (simp add: r_def)
  moreover have cw: "core_range d n = of_nat r" using cr by auto
  ultimately have len: "nat (sint (core_range d n)) = r" using n sint_of_nat_small [of r] by simp
  have "for_share d h n body mm = fold (\<lambda>i. body (of_nat i)) (share_items r (unat (snrt_cluster_core_idx d h))) mm" if "h \<in> set hs" for h mm
  proof -
    have "unat (snrt_cluster_core_idx d h) < p" using that qs(2) by (auto simp: qs_def)
    then have "snrt_is_compute_core d h" by (simp add: snrt_is_compute_core_def word_less_nat_alt p_def)
    moreover have off: "core_offset d h n + of_nat i = of_nat (unat (snrt_cluster_core_idx d h) * r + i)" for i
      by (simp add: core_offset_def cw)
    moreover have items: "share_items r (unat (snrt_cluster_core_idx d h)) = map (\<lambda>i. unat (snrt_cluster_core_idx d h) * r + i) [0..<r]"
      unfolding share_items_def by (rule nth_equalityI) auto
    ultimately show ?thesis unfolding for_share_def len for_upto_def off items fold_map by (simp add: comp_def)
  qed
  then have "fold (\<lambda>h. for_share d h n body) hs m = fold (\<lambda>h. fold (\<lambda>i. body (of_nat i)) (share_items r (unat (snrt_cluster_core_idx d h)))) hs m"
    by (intro fold_cong) auto
  also have "\<dots> = fold (\<lambda>i. body (of_nat i)) (concat (map (share_items r) qs)) m"
    unfolding qs_def by (induction hs arbitrary: m) simp_all
  finally show ?thesis
    using share_items_cover [OF P [folded p_def] qs] unfolding r_def by blast
qed

text \<open>The compute cores run in both phases, and their number divides both dimensions.\<close>

definition cores_ok :: "snrt_defs \<Rightarrow> u32 list \<Rightarrow> u32 \<Rightarrow> bool" where
  "cores_ok d hs n \<longleftrightarrow> all_cores d hs \<and> 0 < unat (snrt_cluster_compute_core_num d) \<and> unat (snrt_cluster_compute_core_num d) dvd unat n"

lemma phase_items:
  assumes "cores_ok d hs n" "unat n < 2 ^ 31"
  obtains xs where "distinct xs" "set xs = {..<unat n}" "fold (\<lambda>h. for_share d h n body) hs m = fold (\<lambda>i. body (of_nat i)) xs m"
  using fold_shares [of d hs n body m] assms by (auto simp: cores_ok_def)

section \<open>Passes over memory\<close>

text \<open>
  Storing elements of an array whose values depend only on memory outside the array: in every order, and even if an element
  is stored twice, each ends up with the value that the memory before the pass gives it.
\<close>

lemma fold_stores:
  fixes m :: mem and V :: "nat \<Rightarrow> mem \<Rightarrow> f64"
  assumes C: "holds C n" and xs: "set xs \<subseteq> {..<n}"
    and V: "\<And>i m m'. i < n \<Longrightarrow> (\<And>y. y \<notin> span C (8 * n) \<Longrightarrow> m y = m' y) \<Longrightarrow> V i m = V i m'"
  defines "m' \<equiv> fold (\<lambda>i m. store64 (dbl C (of_nat i)) (V i m) m) xs m"
  shows "y \<notin> span C (8 * n) \<Longrightarrow> m' y = m y"
    and "j < n \<Longrightarrow> elt m' C j = (if j \<in> set xs then V j m else elt m C j)"
  unfolding m'_def using xs
proof (induction xs arbitrary: m)
  case (Cons i xs)
  {
    case 1
    let ?m = "store64 (dbl C (of_nat i)) (V i m) m"
    have "fold (\<lambda>i m. store64 (dbl C (of_nat i)) (V i m) m) xs ?m y = ?m y" using 1 by (intro Cons.IH(1)) simp_all
    also have "\<dots> = m y" using 1 by (intro store64_frame [OF C]) simp_all
    finally show ?case by simp
  next
    case 2
    let ?m = "store64 (dbl C (of_nat i)) (V i m) m"
    from 2 have i: "i < n" by simp
    have "V j ?m = V j m" using store64_frame [OF C i] 2(1) by (intro V) simp_all
    then show ?case using Cons.IH(2) [of ?m] 2 elt_store64 [OF C i 2(1), of "V i m" m] by auto
  }
qed simp_all

text \<open>The bytes of an element.\<close>

definition cell :: "ptr \<Rightarrow> nat \<Rightarrow> u64 set" where
  "cell p i = (\<lambda>b. ucast (dbl p (of_nat i) + of_nat b)) ` {..<8 :: nat}"

lemma elt_cell: "(\<And>y. y \<in> cell p i \<Longrightarrow> m y = m' y) \<Longrightarrow> elt m p i = elt m' p i"
  unfolding elt_def by (rule load64_cong) (auto simp: cell_def)

lemma cell_span: "holds p n \<Longrightarrow> i < n \<Longrightarrow> cell p i \<subseteq> span p (8 * n)"
  using elt_in_span by (auto simp: cell_def)

lemma cells_disjoint:
  assumes p: "holds p n" "i < n" "j < n" "i \<noteq> j"
  shows "cell p i \<inter> cell p j = {}"
proof -
  have "(ucast (dbl p (of_nat i) + of_nat b) :: u64) \<noteq> ucast (dbl p (of_nat j) + of_nat c)" if "b < 8" "c < 8" for b c :: nat
  proof -
    have ne: "i * 8 + b \<noteq> j * 8 + c" using row_major_inject [of b 8 c 8 i j] p(4) that by blast
    moreover have "i * 8 + b < 2 ^ 63" "j * 8 + c < 2 ^ 63" using p that by (simp_all add: holds_def)
    ultimately show ?thesis
      unfolding elt_byte [OF p(1,2) that(1)] elt_byte [OF p(1,3) that(2)] by (subst ucast_offset_inject) simp_all
  qed
  then show ?thesis by (auto simp: cell_def)
qed

lemma store_cell_miss: "y \<notin> cell p i \<Longrightarrow> store64 (dbl p (of_nat i)) v m y = m y"
  unfolding store64_def by (rule for_upto_writes_miss) (auto simp: cell_def)

lemma for_upto_writes_any:
  "y \<in> addr ` {..<n} \<Longrightarrow> for_upto n (\<lambda>i m. m(addr i := u i)) m y = for_upto n (\<lambda>i m. m(addr i := u i)) m' y"
  by (induction n) (auto simp: for_upto_Suc lessThan_Suc)

lemma store_cell_hit: "y \<in> cell p i \<Longrightarrow> store64 (dbl p (of_nat i)) v m y = store64 (dbl p (of_nat i)) v m' y"
  unfolding store64_def cell_def by (rule for_upto_writes_any)

text \<open>Steps that read and write one region only, as actions.\<close>

lemma local_store:
  fixes V :: "mem \<Rightarrow> f64"
  assumes "cell p i \<subseteq> R" and V: "\<And>m m'. (\<And>y. y \<in> R \<Longrightarrow> m y = m' y) \<Longrightarrow> V m = V m'"
  shows "action_ok (R, R, \<lambda>m. store64 (dbl p (of_nat i)) (V m) m)"
  unfolding action_ok_def action_simps
proof (intro conjI allI impI ballI)
  show "y \<notin> R \<Longrightarrow> store64 (dbl p (of_nat i)) (V m) m y = m y" for m y using assms(1) by (intro store_cell_miss) blast
  fix m m' :: mem and y assume eq: "\<forall>y\<in>R. m y = m' y" and "y \<in> R"
  then have "V m = V m'" using V by blast
  then show "store64 (dbl p (of_nat i)) (V m) m y = store64 (dbl p (of_nat i)) (V m') m' y"
    using store_cell_hit store_cell_miss eq \<open>y \<in> R\<close> by (cases "y \<in> cell p i") metis+
qed

lemma local_id: "action_ok (R, R, \<lambda>m. m)"
  by (simp add: action_ok_def)

lemma local_comp:
  assumes f: "action_ok (R, R, f)" and g: "action_ok (R, R, g)"
  shows "action_ok (R, R, \<lambda>m. g (f m))"
  unfolding action_ok_def action_simps
proof (intro conjI allI impI ballI)
  show "g (f m) y = m y" if "y \<notin> R" for m y
    using f g that by (simp add: action_ok_def)
  fix m m' :: mem and y assume "\<forall>y\<in>R. m y = m' y" and "y \<in> R"
  then have "\<forall>y\<in>R. f m y = f m' y" using f by (simp add: action_ok_def)
  then show "g (f m) y = g (f m') y" using g \<open>y \<in> R\<close> by (simp add: action_ok_def)
qed

lemma local_for: "(\<And>k. k < n \<Longrightarrow> action_ok (R, R, f k)) \<Longrightarrow> action_ok (R, R, for_upto n f)"
proof (induction n)
  case (Suc n)
  then have "action_ok (R, R, \<lambda>m. f n (for_upto n f m))" by (intro local_comp [of R "for_upto n f" "f n"]) simp_all
  then show ?case by (simp add: for_upto_Suc)
qed (simp add: action_ok_def for_upto_def)

lemma local_let:
  fixes f :: "'a \<Rightarrow> mem \<Rightarrow> mem" and g :: "mem \<Rightarrow> 'a"
  assumes f: "\<And>v. action_ok (R, R, f v)" and g: "\<And>m m'. (\<And>y. y \<in> R \<Longrightarrow> m y = m' y) \<Longrightarrow> g m = g m'"
  shows "action_ok (R, R, \<lambda>m. f (g m) m)"
  unfolding action_ok_def action_simps
proof (intro conjI allI impI ballI)
  show "f (g m) m y = m y" if "y \<notin> R" for m y using f [of "g m"] that by (simp add: action_ok_def)
  fix m m' :: mem and y assume eq: "\<forall>y\<in>R. m y = m' y" and "y \<in> R"
  then have "g m = g m'" using g by blast
  then show "f (g m) m y = f (g m') m' y" using f [of "g m'"] eq \<open>y \<in> R\<close> by (simp add: action_ok_def)
qed

lemma fold_local:
  fixes body :: "'a \<Rightarrow> mem \<Rightarrow> mem"
  assumes ok: "\<And>i. i \<in> set xs \<Longrightarrow> action_ok (R i, R i, body i)" and xs: "distinct xs"
    and dis: "\<And>i j. i \<in> set xs \<Longrightarrow> j \<in> set xs \<Longrightarrow> i \<noteq> j \<Longrightarrow> R i \<inter> R j = {}"
  shows "i \<in> set xs \<Longrightarrow> y \<in> R i \<Longrightarrow> fold body xs m y = body i m y"
    and "(\<And>i. i \<in> set xs \<Longrightarrow> y \<notin> R i) \<Longrightarrow> fold body xs m y = m y"
proof -
  let ?as = "map (\<lambda>i. (R i, R i, body i)) xs"
  have f: "fold body xs m = fold effect ?as m" by (simp add: fold_map comp_def)
  have ind: "sorted_wrt indep ?as"
    using xs dis by (induction xs) (auto simp: indep_def)
  have oks: "action_ok a" if "a \<in> set ?as" for a using that ok by auto
  show "fold body xs m y = body i m y" if "i \<in> set xs" "y \<in> R i"
    unfolding f using fold_indep_hit [of ?as "(R i, R i, body i)" y m] ind oks that by simp
  show "fold body xs m y = m y" if "\<And>i. i \<in> set xs \<Longrightarrow> y \<notin> R i"
    unfolding f by (rule fold_indep_frame) (use oks that in auto)
qed

lemma holds_small: "holds p n \<Longrightarrow> n < 2 ^ 31"
  by (simp add: holds_def)

lemma gemm_acc_conj_cong:
  assumes "\<And>k. k < K \<Longrightarrow> a k = a' k \<and> b k = b' k"
  shows "gemm_acc F K a b c = gemm_acc F K a' b' c"
  using assms by (intro gemm_acc_cong) simp_all

section \<open>Arrays by DMA\<close>

text \<open>Arrays \<open>p\<close> and \<open>q\<close> of \<open>n\<close> and \<open>k\<close> elements, one before the other.\<close>

definition beside :: "ptr \<Rightarrow> nat \<Rightarrow> ptr \<Rightarrow> nat \<Rightarrow> bool" where
  "beside p n q k \<longleftrightarrow> unat p + 8 * n \<le> unat q \<or> unat q + 8 * k \<le> unat p"

lemma beside_span: "beside p n q k \<Longrightarrow> span p (8 * n) \<inter> span q (8 * k) = {}"
  unfolding beside_def by (rule span_disjoint)

lemma beside_sym: "beside p n q k \<longleftrightarrow> beside q k p n"
  by (auto simp: beside_def)

text \<open>What is beside a region is beside every part of it.\<close>

lemma beside_part: "beside p n q k \<Longrightarrow> unat p \<le> unat p' \<Longrightarrow> unat p' + 8 * n' \<le> unat p + 8 * n \<Longrightarrow> beside p' n' q k"
  unfolding beside_def by linarith

lemma span_sub: "unat p \<le> unat q \<Longrightarrow> unat q + 8 * k \<le> unat p + 8 * n \<Longrightarrow> span q (8 * k) \<subseteq> span p (8 * n)"
  by (rule span_mono) simp_all

text \<open>An array of \<open>n\<close> doubles whose size in bytes is a 32-bit number.\<close>

definition array_ok :: "ptr \<Rightarrow> nat \<Rightarrow> bool" where
  "array_ok p n \<longleftrightarrow> holds p n \<and> 8 * n < 2 ^ 32"

lemma start_1d_pending: "length (pending (snd (snrt_dma_start_1d d s sz st))) \<le> Suc (length (pending st))"
  by (cases "sz = 0") (simp_all add: snrt_dma_start_1d_def start_1d_wideptr_effect start_zero_size word_gt_0)

context dma_backend
begin

lemma transfer_frame:
  assumes p: "array_ok p n" and y: "y \<notin> span p (8 * n)"
  shows "dma_settled exec (snd (snrt_dma_start_1d p s (of_nat (8 * n)) st)) y = dma_settled exec st y"
proof (cases "(of_nat (8 * n) :: u32) > 0")
  case True
  have sz: "unat (of_nat (8 * n) :: u32) = 8 * n" using p by (intro unat_of_nat_small) (simp add: array_ok_def)
  have "(ucast p :: u64) + of_nat j \<in> span p (8 * n)" if "j < 8 * n" for j
    using that p unat_offset_u64 [of j p] by (simp add: span_def array_ok_def)
  then have "y \<notin> fst ` set (dma_pairs (req_1d (next_id st) (ucast p) (ucast s) (of_nat (8 * n)) st))"
    using y unfolding req_1d_pairs sz by auto
  then show ?thesis
    by (simp add: dma_settled_def snrt_dma_start_1d_def start_1d_wideptr_effect [OF True] exec_frame del: of_nat_mult)
next
  case False
  then have "(of_nat (8 * n) :: u32) = 0" by (simp add: word_gt_0)
  then show ?thesis by (simp only: snrt_dma_start_1d_def start_zero_size) simp
qed

lemma transfer_elt:
  assumes p: "array_ok p n" and q: "holds q n" and apart: "beside p n q n" and i: "i < n"
  shows "elt (dma_settled exec (snd (snrt_dma_start_1d p q (of_nat (8 * n)) st))) p i = elt (dma_settled exec st) q i"
proof (rule elt_cong)
  fix b :: nat assume b: "b < 8"
  have sz: "unat (of_nat (8 * n) :: u32) = 8 * n" using p by (intro unat_of_nat_small) (simp add: array_ok_def)
  have j: "i * 8 + b < 8 * n" using i b by simp
  let ?m' = "dma_settled exec (snd (snrt_dma_start_1d p q (of_nat (8 * n)) st))"
  have "rd ?m' (unat p + (i * 8 + b)) = rd (dma_settled exec st) (unat q + (i * 8 + b))"
    by (subst settled_start_1d) (use p q apart j in \<open>simp_all only: sz array_ok_def holds_def beside_def\<close>, simp_all)
  then show "?m' (ucast p + of_nat (i * 8 + b)) = dma_settled exec st (ucast q + of_nat (i * 8 + b))"
    by (simp add: rd_def)
qed (use assms in \<open>simp_all add: array_ok_def\<close>)

end

text \<open>A list of transfers, each with its destination, its number of elements and its source.\<close>

definition transfers :: "(ptr \<times> nat \<times> ptr) list \<Rightarrow> dma_state \<Rightarrow> dma_state" where
  "transfers = fold (\<lambda>(p, n, q) st. snd (snrt_dma_start_1d p q (of_nat (8 * n)) st))"

lemma transfers_simps [simp]:
  "transfers [] st = st"
  "transfers ((p, n, q) # ts) st = transfers ts (snd (snrt_dma_start_1d p q (of_nat (8 * n)) st))"
  "transfers (ts @ us) st = transfers us (transfers ts st)"
  by (simp_all add: transfers_def del: of_nat_mult)

lemma transfers_pending: "length (pending (transfers ts st)) \<le> length ts + length (pending st)"
proof (induction ts arbitrary: st)
  case (Cons t ts)
  obtain p n q where t: "t = (p, n, q)" by (cases t)
  show ?case
    using Cons [of "snd (snrt_dma_start_1d p q (of_nat (8 * n)) st)"] start_1d_pending [of p q "of_nat (8 * n)" st] unfolding t transfers_simps by simp
qed simp

context dma_backend
begin

lemma transfers_frame:
  assumes "\<forall>(p, n, q) \<in> set ts. array_ok p n \<and> y \<notin> span p (8 * n)"
  shows "dma_settled exec (transfers ts st) y = dma_settled exec st y"
  using assms
proof (induction ts arbitrary: st)
  case (Cons t ts)
  obtain p n q where t: "t = (p, n, q)" by (cases t)
  show ?case using Cons transfer_frame [of p n y q st] unfolding t transfers_simps by simp
qed simp

lemma transfers_elt:
  assumes p: "array_ok p n" "holds q n" "beside p n q n"
    and before: "\<forall>(p', n', q') \<in> set ts. array_ok p' n' \<and> beside p' n' q n"
    and after: "\<forall>(p', n', q') \<in> set us. array_ok p' n' \<and> beside p' n' p n" and i: "i < n"
  shows "elt (dma_settled exec (transfers (ts @ (p, n, q) # us) st)) p i = elt (dma_settled exec st) q i"
proof -
  let ?s = "transfers ts st" and ?t = "snd (snrt_dma_start_1d p q (of_nat (8 * n)) (transfers ts st))"
  have "y \<notin> span p' (8 * n')" if "beside p' n' p n" "y \<in> span p (8 * n)" for p' n' y using beside_span [OF that(1)] that(2) by blast
  then have "elt (dma_settled exec (transfers us ?t)) p i = elt (dma_settled exec ?t) p i"
    using p(1) i after by (intro elt_span_cong [of p n] transfers_frame) (auto simp: array_ok_def)
  also have "\<dots> = elt (dma_settled exec ?s) q i" by (rule transfer_elt [OF p i])
  also have "y \<notin> span p' (8 * n')" if "beside p' n' q n" "y \<in> span q (8 * n)" for p' n' y using beside_span [OF that(1)] that(2) by blast
  then have "elt (dma_settled exec ?s) q i = elt (dma_settled exec st) q i"
    using p(2) i before by (intro elt_span_cong [of q n] transfers_frame) auto
  finally show ?thesis by simp
qed

text \<open>One transfer and the wait for it.\<close>

lemma transfer_wait:
  assumes idle: "pending st = []" and sched: "1 \<le> sum_list sched" and p: "array_ok p n" "holds q n" "beside p n q n"
  obtains st' where "snrt_dma_wait_all exec sched (snd (snrt_dma_start_1d p q (of_nat (8 * n)) st)) = Some st'" "pending st' = []"
    "\<And>i. i < n \<Longrightarrow> elt (dmem st') p i = elt (dmem st) q i" "\<And>y. y \<notin> span p (8 * n) \<Longrightarrow> dmem st' y = dmem st y"
proof -
  let ?t = "snd (snrt_dma_start_1d p q (of_nat (8 * n)) st)"
  have "length (pending ?t) \<le> sum_list sched" using start_1d_pending [of p q "of_nat (8 * n)" st] idle sched by simp
  then obtain st' where st': "snrt_dma_wait_all exec sched ?t = Some st'" "pending st' = []" "dmem st' = dma_settled exec ?t"
    using wait_all_settles by blast
  have m: "dma_settled exec st = dmem st" by (simp add: dma_settled_def idle)
  show thesis
  proof (rule that [OF st'(1,2)])
    show "elt (dmem st') p i = elt (dmem st) q i" if "i < n" for i unfolding st'(3) transfer_elt [OF p that] m ..
    show "dmem st' y = dmem st y" if "y \<notin> span p (8 * n)" for y unfolding st'(3) transfer_frame [OF p(1) that] m ..
  qed
qed

end

lemma elt_beside:
  assumes "holds p n" "i < n" "beside q k p n" "\<And>y. y \<notin> span q (8 * k) \<Longrightarrow> m y = m' y"
  shows "elt m p i = elt m' p i"
proof (rule elt_span_cong [OF assms(1,2)])
  fix y assume "y \<in> span p (8 * n)"
  then have "y \<notin> span q (8 * k)" using beside_span [OF assms(3)] by blast
  then show "m y = m' y" by (rule assms(4))
qed

text \<open>The steps that several applications have in common: an input array to L1, a kernel, an output array from L1.\<close>

definition offload ::
  "(dma_req \<Rightarrow> mem \<Rightarrow> mem) \<Rightarrow> nat list \<Rightarrow> nat list \<Rightarrow> ptr \<times> nat \<times> ptr \<Rightarrow> (mem \<Rightarrow> mem) \<Rightarrow> ptr \<times> nat \<times> ptr \<Rightarrow> dma_state \<Rightarrow> dma_state option" where
  "offload exec sched_in sched_out = (\<lambda>(p, n, q) K (r, k, s) st.
     Option.bind (snrt_dma_wait_all exec sched_in (snd (snrt_dma_start_1d p q (of_nat (8 * n)) st))) (\<lambda>st.
       snrt_dma_wait_all exec sched_out (snd (snrt_dma_start_1d r s (of_nat (8 * k)) (st\<lparr>dmem := K (dmem st)\<rparr>)))))"

context dma_backend
begin

lemma offload_result:
  assumes idle: "pending st = []" and sched: "1 \<le> sum_list sched_in" "1 \<le> sum_list sched_out"
    and p: "array_ok p n" "holds q n" "n \<le> t" "beside p t q n" and r: "array_ok r k" "beside p t r k"
    and s: "holds s k" "unat p \<le> unat s" "unat s + 8 * k \<le> unat p + 8 * t"
    and gd: "holds gd k" "beside p t gd k" "beside r k gd k"
    and kernel: "\<And>m. (\<And>i. i < n \<Longrightarrow> elt m p i = elt (dmem st) q i) \<Longrightarrow>
      (\<forall>j<k. elt (K m) s j = V j) \<and> (\<forall>z. z \<notin> span p (8 * t) \<longrightarrow> K m z = m z)"
  shows "\<exists>st'. offload exec sched_in sched_out (p, n, q) K (r, k, s) st = Some st' \<and>
    (\<forall>j<k. elt (dmem st') r j = V j \<and> elt (dmem st') s j = V j \<and> elt (dmem st') gd j = elt (dmem st) gd j) \<and>
    (\<forall>z. z \<notin> span p (8 * t) \<union> span r (8 * k) \<longrightarrow> dmem st' z = dmem st z)"
proof -
  have pq: "beside p n q n" by (rule beside_part [OF p(4)]) (use p(3) in simp_all)
  obtain s1 where s1: "snrt_dma_wait_all exec sched_in (snd (snrt_dma_start_1d p q (of_nat (8 * n)) st)) = Some s1" "pending s1 = []"
      "\<And>i. i < n \<Longrightarrow> elt (dmem s1) p i = elt (dmem st) q i" "\<And>y. y \<notin> span p (8 * n) \<Longrightarrow> dmem s1 y = dmem st y"
    by (rule transfer_wait [OF idle sched(1) p(1,2) pq]) blast
  define s2 where "s2 = s1\<lparr>dmem := K (dmem s1)\<rparr>"
  have rs: "beside r k s k" using beside_part [OF r(2) s(2,3)] by (rule beside_sym [THEN iffD1])
  have idle2: "pending s2 = []" using s1(2) by (simp add: s2_def)
  obtain s3 where s3: "snrt_dma_wait_all exec sched_out (snd (snrt_dma_start_1d r s (of_nat (8 * k)) s2)) = Some s3"
      "\<And>i. i < k \<Longrightarrow> elt (dmem s3) r i = elt (dmem s2) s i" "\<And>y. y \<notin> span r (8 * k) \<Longrightarrow> dmem s3 y = dmem s2 y"
    using transfer_wait [OF idle2 sched(2) r(1) s(1) rs] by metis
  note kr = kernel [OF s1(3), folded s2_def]
  have keep: "dmem s2 z = dmem st z" if z: "z \<notin> span p (8 * t)" for z
  proof -
    have "z \<notin> span p (8 * n)" using z span_mono [of p p "8 * n" "8 * t"] p(3) by auto
    then show ?thesis using kr z s1(4) by (simp add: s2_def)
  qed
  have V: "elt (dmem s2) s j = V j" if "j < k" for j using kr that by (simp add: s2_def)
  have "elt (dmem s3) s j = V j" if "j < k" for j
    using elt_beside [OF s(1) that rs, of "dmem s3" "dmem s2"] s3(3) V [OF that] by simp
  moreover have "elt (dmem s3) gd j = elt (dmem st) gd j" if "j < k" for j
    using elt_beside [OF gd(1) that gd(3), of "dmem s3" "dmem s2"] elt_beside [OF gd(1) that gd(2), of "dmem s2" "dmem st"] s3(3) keep by simp
  ultimately show ?thesis
    using s1(1) s3 V keep by (intro exI [of _ s3]) (simp add: offload_def s2_def)
qed

end

text \<open>Arrays one after the other.\<close>

lemma dbl_next:
  assumes "unat p + 8 * (n + k) < 2 ^ 32"
  shows "unat (dbl p (of_nat n)) = unat p + 8 * n" "array_ok (dbl p (of_nat n)) k"
proof -
  have "unat (of_nat (8 * n) :: u32) = 8 * n" using assms by (intro unat_of_nat_small) simp
  then have "unat (p + of_nat (8 * n)) = unat p + 8 * n" using assms by (subst unat_add_nowrap) simp_all
  moreover have "dbl p (of_nat n) = p + of_nat (8 * n)" by (simp add: dbl_def)
  ultimately show *: "unat (dbl p (of_nat n)) = unat p + 8 * n" by (simp del: of_nat_mult)
  show "array_ok (dbl p (of_nat n)) k" using assms by (simp add: array_ok_def holds_def *)
qed

text \<open>Errors above the threshold, as the check at the end of the applications counts them.\<close>

definition MAX_ERROR :: f64 where "MAX_ERROR = 0x3DDB7CDFD9D7BDBB"

definition wrong :: "fp_ops \<Rightarrow> f64 \<Rightarrow> f64 \<Rightarrow> bool" where
  "wrong F golden v \<longleftrightarrow> flt F MAX_ERROR (fabs F (fsub F golden v))"

definition check_vector :: "fp_ops \<Rightarrow> u32 \<Rightarrow> ptr \<Rightarrow> ptr \<Rightarrow> mem \<Rightarrow> u32" where
  "check_vector F N golden res m =
     for_upto (unat N) (\<lambda>i nerr. let diff = fabs F (fsub F (load64 (dbl golden (of_nat i)) m) (load64 (dbl res (of_nat i)) m))
       in if flt F MAX_ERROR diff then nerr + 1 else nerr) 0"

definition check_square :: "fp_ops \<Rightarrow> u32 \<Rightarrow> ptr \<Rightarrow> ptr \<Rightarrow> mem \<Rightarrow> u32" where
  "check_square F M golden res m =
     for_upto (unat M) (\<lambda>i nerr. for_upto (unat M) (\<lambda>j nerr.
       let diff = fabs F (fsub F (load64 (dbl golden (of_nat i * M + of_nat j)) m) (load64 (dbl res (of_nat i * M + of_nat j)) m))
       in if flt F MAX_ERROR diff then nerr + 1 else nerr) nerr) 0"

lemma check_vector_count: "check_vector F N golden res m = of_nat (card {i. i < unat N \<and> wrong F (elt m golden i) (elt m res i)})"
  unfolding check_vector_def Let_def for_upto_count by (simp add: wrong_def elt_def)

lemma for_upto_count2:
  fixes k :: nat and p :: "nat \<Rightarrow> nat \<Rightarrow> bool"
  shows
  "for_upto n (\<lambda>i e. e + of_nat (card {j. j < k \<and> p i j})) (0 :: 'a::len word) = of_nat (card {(i, j). i < n \<and> j < k \<and> p i j})"
proof (induction n)
  case (Suc n)
  have "{(i, j). i < Suc n \<and> j < k \<and> p i j} = {(i, j). i < n \<and> j < k \<and> p i j} \<union> Pair n ` {j. j < k \<and> p n j}"
    by (auto simp: less_Suc_eq)
  moreover have "finite {(i, j). i < n \<and> j < k \<and> p i j}"
    by (rule finite_subset [of _ "{..<n} \<times> {..<k}"]) auto
  ultimately have "card {(i, j). i < Suc n \<and> j < k \<and> p i j} = card {(i, j). i < n \<and> j < k \<and> p i j} + card {j. j < k \<and> p n j}"
    by (simp add: card_Un_disjoint card_image inj_on_def disjoint_iff image_iff)
  then show ?case by (simp add: for_upto_Suc Suc)
qed simp

lemma check_square_count:
  "check_square F M golden res m = of_nat (card {(i, j). i < unat M \<and> j < unat M \<and>
     wrong F (elt m golden (i * unat M + j)) (elt m res (i * unat M + j))})"
proof -
  have idx: "(of_nat i :: u32) * M + of_nat j = of_nat (i * unat M + j)" for i j by simp
  show ?thesis unfolding check_square_def Let_def for_upto_count for_upto_count2 idx wrong_def elt_def ..
qed

section \<open>Example\<close>

text \<open>The two compute cores of a cluster in either order, and a memory that holds something.\<close>

lemma example_cores_ok: "even (unat n) \<Longrightarrow> cores_ok example_defs [1, 0] n" "even (unat n) \<Longrightarrow> cores_ok example_defs [0, 1] n"
proof -
  have "i = 0 \<or> i = 1" if "i < 2" for i :: u32
    using that by (auto simp: word_less_nat_alt word_unat_eq_iff)
  then show "even (unat n) \<Longrightarrow> cores_ok example_defs [1, 0] n" "even (unat n) \<Longrightarrow> cores_ok example_defs [0, 1] n"
    by (auto simp: cores_ok_def all_cores_def example_defs_def team_defs)
qed

definition counting_dma :: dma_state where
  "counting_dma = dma_reset\<lparr>dmem := ucast\<rparr>"

end
