(* ===== verification/FusedConcat.thy ===== *)
theory FusedConcat
  imports Concat Kernels
begin

text \<open>
  \<open>sw/dnn/fused_concat_linear/src/fused_concat_linear.h\<close>: a concatenation followed by a linear layer, on all clusters. The baseline calls
  \<open>concat_layer\<close> of \<open>Concat\<close> and then \<open>gemm\<close> of \<open>Gemm\<close>, and is proved to compute the product of the concatenated inputs. The optimised layer, which
  \<open>fused_concat_linear_layer\<close> selects, is defined on one cluster, with the reduction between clusters as a parameter.
\<close>

section \<open>The layers\<close>

record fused_concat_linear_layer_t =
  fcl_num_inputs :: u32
  fcl_input_shape_0 :: u32
  fcl_input_shape_1 :: u32
  fcl_output_shape_0 :: u32
  fcl_output_shape_1 :: u32
  fcl_inputs :: "ptr list"
  fcl_weights :: ptr
  fcl_concat_output :: ptr
  fcl_linear_output :: ptr
  fcl_dtype :: precision_t
  fcl_baseline :: bool

text \<open>The arguments of \<open>concat_layer\<close> and of \<open>gemm\<close> in \<open>fused_concat_linear_baseline\<close>.\<close>

definition concat_layer_cfg :: "fused_concat_linear_layer_t \<Rightarrow> concat_layer_t" where
  "concat_layer_cfg l = \<lparr>num_inputs = fcl_num_inputs l, input_shape_0 = fcl_input_shape_0 l, input_shape_1 = fcl_input_shape_1 l,
     inputs = fcl_inputs l, concat_output = fcl_concat_output l, concat_dtype = fcl_dtype l\<rparr>"

definition fused_gemm_args :: "snrt_defs \<Rightarrow> fused_concat_linear_layer_t \<Rightarrow> gemm_args" where
  "fused_gemm_args d l =
     (let m = fcl_input_shape_0 l; k = fcl_input_shape_1 l * fcl_num_inputs l; n = fcl_output_shape_1 l
      in \<lparr>gprec = fcl_dtype l, gexpand = False, gsetup_ssr = False, parallelize_m = True, parallelize_k = False,
           m_tiles = snrt_cluster_num d, n_tiles = 1, k_tiles = 1, load_a_flag = True, load_b_flag = True, load_c_flag = True,
           gtransa = False, gtransb = False, gm = m, gn = n, gk = k, ga = fcl_concat_output l, gb = fcl_weights l, gbeta = 0,
           gc = fcl_linear_output l, gbaseline = fcl_baseline l\<rparr>)"

text \<open>
  All clusters. \<open>concat_layer\<close> ends with the global barrier. After it each cluster, given by its data mover core, runs \<open>gemm\<close> with its own L1
  and DMA front end (\<open>dma'\<close> is the front end as \<open>concat_layer\<close> leaves it); the clusters write different rows and run in any order.
  The result is that of \<open>concat_layer\<close>, which is not tested before \<open>gemm\<close>.
\<close>

definition fused_gemm ::
  "(dma_req \<Rightarrow> mem \<Rightarrow> mem) \<Rightarrow> ((gemm_kernel \<times> kernel_args) option \<Rightarrow> mem \<Rightarrow> mem) \<Rightarrow> (ptr \<Rightarrow> ptr \<Rightarrow> u32 \<Rightarrow> dma_state \<Rightarrow> dma_state) \<Rightarrow>
     (u32 \<Rightarrow> gemm_run) \<Rightarrow> gen_cfg \<Rightarrow> snrt_defs \<Rightarrow> gemm_args \<Rightarrow> (u32 \<Rightarrow> ptr) \<Rightarrow> (u32 \<Rightarrow> dma_state) \<Rightarrow> u32 list \<Rightarrow> mem \<Rightarrow> mem option" where
  "fused_gemm exec run reduce r g d x l1_next dma dms m =
     fold (\<lambda>h res. Option.bind res (\<lambda>m. map_option dmem (gemm exec run reduce (r h) g d x (l1_next h) ((dma h)\<lparr>dmem := m\<rparr>)))) dms (Some m)"

definition fused_concat_linear_baseline ::
  "(dma_req \<Rightarrow> mem \<Rightarrow> mem) \<Rightarrow> (u32 \<Rightarrow> nat list) \<Rightarrow> (u32 \<Rightarrow> dma_state) \<Rightarrow> u32 list \<Rightarrow> ((gemm_kernel \<times> kernel_args) option \<Rightarrow> mem \<Rightarrow> mem) \<Rightarrow>
     (ptr \<Rightarrow> ptr \<Rightarrow> u32 \<Rightarrow> dma_state \<Rightarrow> dma_state) \<Rightarrow> (u32 \<Rightarrow> gemm_run) \<Rightarrow> gen_cfg \<Rightarrow> snrt_defs \<Rightarrow> (u32 \<Rightarrow> ptr) \<Rightarrow> (u32 \<Rightarrow> dma_state) \<Rightarrow> u32 list \<Rightarrow>
     fused_concat_linear_layer_t \<Rightarrow> mem \<Rightarrow> (u32 list \<times> mem) option" where
  "fused_concat_linear_baseline exec sched dma hs run reduce r g d l1_next dma' dms l m =
     Option.bind (concat_cores exec sched dma d (concat_layer_cfg l) hs m)
       (\<lambda>(nerr, m). map_option (Pair nerr) (fused_gemm exec run reduce r g d (fused_gemm_args d l) l1_next dma' dms m))"

section \<open>The matrix product on all clusters\<close>

text \<open>What every cluster needs; together the data mover cores \<open>dms\<close> stand for all clusters.\<close>

definition clusters_ok :: "snrt_defs \<Rightarrow> gemm_args \<Rightarrow> (u32 \<Rightarrow> gemm_run) \<Rightarrow> (u32 \<Rightarrow> ptr) \<Rightarrow> (u32 \<Rightarrow> dma_state) \<Rightarrow> u32 list \<Rightarrow> bool" where
  "clusters_ok d x r l1_next dma dms \<longleftrightarrow>
     (\<forall>h\<in>set dms. gemm_layout x (l1_next h) \<and> gemm_run_ok d x (r h) \<and> dm_hart (r h) = h \<and> pending (dma h) = []) \<and>
     distinct (map (snrt_cluster_idx d) dms) \<and> (\<lambda>h. unat (snrt_cluster_idx d h)) ` set dms = {..<unat (snrt_cluster_num d)} \<and> 0 < unat (snrt_cluster_num d)"

definition fused_elem :: "fp_ops \<Rightarrow> gemm_args \<Rightarrow> mem \<Rightarrow> nat \<times> nat \<Rightarrow> f64" where
  "fused_elem F x m = gemm_elem F (of_u32 F (gbeta x)) (unat (gk x)) (ga x) (unat (gk x)) (gb x) (unat (gn x)) (gc x) (unat (gn x)) m"

text \<open>The memory when the clusters with the indices in \<open>D\<close> have run.\<close>

definition clusters_done :: "fp_ops \<Rightarrow> gemm_args \<Rightarrow> u64 set \<Rightarrow> mem \<Rightarrow> nat set \<Rightarrow> mem \<Rightarrow> bool" where
  "clusters_done F x L m0 D m \<longleftrightarrow>
     (\<forall>i<unat (gm x). \<forall>j<unat (gn x). elt m (gc x) (i * unat (gn x) + j) =
        (if i div unat (frac_m x) \<in> D then fused_elem F x m0 (i, j) else elt m0 (gc x) (i * unat (gn x) + j))) \<and>
     (\<forall>y. y \<notin> L \<longrightarrow> y \<notin> span (gc x) (8 * (unat (gm x) * unat (gn x))) \<longrightarrow> m y = m0 y)"

lemma fused_elem_keep:
  assumes lay: "gemm_layout x p" and inv: "clusters_done F x L m0 D m"
    and far: "L \<inter> span (ga x) (8 * (unat (gm x) * unat (gk x))) = {}" "L \<inter> span (gb x) (8 * (unat (gk x) * unat (gn x))) = {}"
    and ij: "i < unat (gm x)" "j < unat (gn x)" and new: "i div unat (frac_m x) \<notin> D"
  shows "fused_elem F x m (i, j) = fused_elem F x m0 (i, j)"
proof -
  note g = layout_fits(2) [OF lay, unfolded gemm_fits_def]
  have keep: "m y = m0 y" if "y \<notin> L" "y \<notin> span (gc x) (8 * (unat (gm x) * unat (gn x)))" for y using inv that by (simp add: clusters_done_def)
  have ab: "elt m (ga x) (i * unat (gk x) + k) = elt m0 (ga x) (i * unat (gk x) + k)" "elt m (gb x) (k * unat (gn x) + j) = elt m0 (gb x) (k * unat (gn x) + j)"
    if "k < unat (gk x)" for k
    by (rule elt_span_cong [OF _ row_major_less [OF ij(1) that]] elt_span_cong [OF _ row_major_less [OF that ij(2)]]; use g far keep in blast)+
  have c: "elt m (gc x) (i * unat (gn x) + j) = elt m0 (gc x) (i * unat (gn x) + j)" using inv ij new by (simp add: clusters_done_def)
  show ?thesis unfolding fused_elem_def gemm_elem_def prod.case c by (rule gemm_acc_cong) (use ab in auto)
qed

lemma fused_step:
  assumes exec: "dma_backend exec" and F: "fp_unit F" and x: "fp64_tiled x" "parallelize_m x" "m_tiles x = snrt_cluster_num d" "n_tiles x = 1"
    and h: "gemm_layout x (l1_next h)" "gemm_run_ok d x (r h)" "dm_hart (r h) = h" "pending (dma h) = []" "snrt_cluster_idx d h < snrt_cluster_num d"
    and inv: "clusters_done F x L m0 D m" and new: "unat (snrt_cluster_idx d h) \<notin> D" and L: "buffers x (l1_next h) \<subseteq> L"
    and far: "L \<inter> span (ga x) (8 * (unat (gm x) * unat (gk x))) = {}" "L \<inter> span (gb x) (8 * (unat (gk x) * unat (gn x))) = {}"
  shows "\<exists>st. gemm exec (run_kernel F other) reduce (r h) g d x (l1_next h) ((dma h)\<lparr>dmem := m\<rparr>) = Some st \<and>
    clusters_done F x L m0 (insert (unat (snrt_cluster_idx d h)) D) (dmem st)"
proof -
  let ?c = "unat (snrt_cluster_idx d h)" and ?st = "(dma h)\<lparr>dmem := m\<rparr>"
  have "snrt_cluster_num d \<noteq> 0" using h(5) by auto
  then have one: "m_tiles_per_cluster d x = 1" using x div_word_self by (simp add: m_tiles_per_cluster_def)
  have base: "m_base d (dm_hart (r h)) x = ?c" using x h(3) by (simp add: m_base_def one)
  obtain st where st: "gemm exec (run_kernel F other) reduce (r h) g d x (l1_next h) ?st = Some st"
      and t: "tiles_done F x (l1_next h) m ({?c..<?c + 1} \<times> {..<1}) st"
    using dma_backend.m_loop [OF exec x(1) h(1,2) F, where st = ?st and k = 1 and other = other and reduce = reduce and g = g] h(3-5) x(4)
    unfolding gemm_def base one by auto
  have row: "tile_of x i j \<in> {?c..<?c + 1} \<times> {..<1} \<longleftrightarrow> i div unat (frac_m x) = ?c" if "j < unat (gn x)" for i j
    using that h(1) x(4) by (auto simp: tile_of_def layout_unfold frac_n_def)
  have "elt (dmem st) (gc x) (i * unat (gn x) + j) =
      (if i div unat (frac_m x) \<in> insert ?c D then fused_elem F x m0 (i, j) else elt m0 (gc x) (i * unat (gn x) + j))" if ij: "i < unat (gm x)" "j < unat (gn x)" for i j
    using t ij row [OF ij(2), of i] fused_elem_keep [OF h(1) inv far ij] inv new
    by (auto simp: tiles_done_def clusters_done_def fused_elem_def)
  moreover have "dmem st y = m0 y" if "y \<notin> L" "y \<notin> span (gc x) (8 * (unat (gm x) * unat (gn x)))" for y
    using t inv that L by (auto simp: tiles_done_def clusters_done_def)
  ultimately show ?thesis using st by (simp add: clusters_done_def)
qed

lemma fused_gemm_result:
  assumes exec: "dma_backend exec" and F: "fp_unit F" and x: "fp64_tiled x" "parallelize_m x" "m_tiles x = snrt_cluster_num d" "n_tiles x = 1"
    and cl: "clusters_ok d x r l1_next dma dms"
  defines "L \<equiv> \<Union>h\<in>set dms. buffers x (l1_next h)"
  shows "\<exists>m'. fused_gemm exec (run_kernel F other) reduce r g d x l1_next dma dms m = Some m' \<and>
    (\<forall>i<unat (gm x). \<forall>j<unat (gn x). elt m' (gc x) (i * unat (gn x) + j) = fused_elem F x m (i, j)) \<and>
    (\<forall>y. y \<notin> L \<longrightarrow> y \<notin> span (gc x) (8 * (unat (gm x) * unat (gn x))) \<longrightarrow> m' y = m y)"
proof -
  note c = cl [unfolded clusters_ok_def]
  have far: "L \<inter> span (ga x) (8 * (unat (gm x) * unat (gk x))) = {}" "L \<inter> span (gb x) (8 * (unat (gk x) * unat (gn x))) = {}"
    using c layout_apart(1,2) unfolding L_def by blast+
  let ?id = "\<lambda>h. unat (snrt_cluster_idx d h)"
  have "\<exists>m'. fused_gemm exec (run_kernel F other) reduce r g d x l1_next dma hs m = Some m' \<and> clusters_done F x L m (?id ` set hs) m'"
    if "distinct (map (snrt_cluster_idx d) hs)" "set hs \<subseteq> set dms" for hs
    using that
  proof (induction hs rule: rev_induct)
    case Nil
    then show ?case by (simp add: fused_gemm_def clusters_done_def)
  next
    case (snoc h hs)
    then obtain m1 where m1: "fused_gemm exec (run_kernel F other) reduce r g d x l1_next dma hs m = Some m1" "clusters_done F x L m (?id ` set hs) m1" by auto
    have h: "h \<in> set dms" "?id h \<notin> ?id ` set hs" using snoc.prems by (auto simp: word_unat_eq_iff)
    then have "?id h \<in> {..<unat (snrt_cluster_num d)}" using c by blast
    then have "snrt_cluster_idx d h < snrt_cluster_num d" by (simp add: word_less_nat_alt)
    then obtain st where "gemm exec (run_kernel F other) reduce (r h) g d x (l1_next h) ((dma h)\<lparr>dmem := m1\<rparr>) = Some st"
        "clusters_done F x L m (insert (?id h) (?id ` set hs)) (dmem st)"
      using fused_step [OF exec F x _ _ _ _ _ m1(2) h(2) _ far, of l1_next r dma other reduce g] c h(1) by (auto simp: L_def)
    then show ?case using m1(1) by (simp add: fused_gemm_def)
  qed
  from this [of dms] c obtain m' where m': "fused_gemm exec (run_kernel F other) reduce r g d x l1_next dma dms m = Some m'"
    "clusters_done F x L m {..<unat (snrt_cluster_num d)} m'" by auto
  have "dms \<noteq> []" using c by auto
  then have "unat (m_tiles x) * unat (frac_m x) = unat (gm x)" using c by (cases dms) (auto simp: layout_unfold)
  then have "i div unat (frac_m x) < unat (snrt_cluster_num d)" if "i < unat (gm x)" for i
    using that x(3) by (simp add: less_mult_imp_div_less)
  then show ?thesis using m' by (simp add: clusters_done_def)
qed


section \<open>The optimised layer on one cluster\<close>

text \<open>
  Without the concatenated tensor: every cluster keeps its own input in L1 and multiplies it with its rows of the weights, and \<open>gemm\<close> adds the products of
  all clusters with the reduction \<open>snrt_global_reduction_dma\<close>, here the parameter \<open>reduce\<close> (\<open>Sync\<close> has what that reduction computes).
\<close>

definition fused_gemm_args_optimized :: "fused_concat_linear_layer_t \<Rightarrow> ptr \<Rightarrow> gemm_args" where
  "fused_gemm_args_optimized l a =
     (let m = fcl_input_shape_0 l; k = fcl_input_shape_1 l; n = fcl_output_shape_1 l; concat_k = k * fcl_num_inputs l
      in \<lparr>gprec = fcl_dtype l, gexpand = False, gsetup_ssr = False, parallelize_m = False, parallelize_k = True,
           m_tiles = 1, n_tiles = 1, k_tiles = fcl_num_inputs l, load_a_flag = False, load_b_flag = True, load_c_flag = True,
           gtransa = False, gtransb = False, gm = m, gn = n, gk = concat_k, ga = a, gb = fcl_weights l, gbeta = 0,
           gc = fcl_linear_output l, gbaseline = fcl_baseline l\<rparr>)"

definition fused_load :: "(dma_req \<Rightarrow> mem \<Rightarrow> mem) \<Rightarrow> nat list \<Rightarrow> snrt_defs \<Rightarrow> u32 \<Rightarrow> fused_concat_linear_layer_t \<Rightarrow> ptr \<Rightarrow> dma_state \<Rightarrow> dma_state option" where
  "fused_load exec sched d hartid l a st =
     (let m = fcl_input_shape_0 l; k = fcl_input_shape_1 l
      in snrt_dma_wait_all exec sched (snd (snrt_dma_load_2d_tile a (fcl_inputs l ! unat (snrt_cluster_idx d hartid)) 0 0 m k k (prec_size (fcl_dtype l)) st)))"

definition fused_concat_linear_optimized ::
  "(dma_req \<Rightarrow> mem \<Rightarrow> mem) \<Rightarrow> nat list \<Rightarrow> ((gemm_kernel \<times> kernel_args) option \<Rightarrow> mem \<Rightarrow> mem) \<Rightarrow> (ptr \<Rightarrow> ptr \<Rightarrow> u32 \<Rightarrow> dma_state \<Rightarrow> dma_state) \<Rightarrow>
     gemm_run \<Rightarrow> gen_cfg \<Rightarrow> snrt_defs \<Rightarrow> ptr \<Rightarrow> fused_concat_linear_layer_t \<Rightarrow> dma_state \<Rightarrow> (u32 \<times> dma_state) option" where
  "fused_concat_linear_optimized exec sched run reduce r g d l1_next l st =
     (let size_a = fcl_input_shape_0 l * fcl_input_shape_1 l * prec_size (fcl_dtype l); a = l1_next
      in Option.bind (fused_load exec sched d (dm_hart r) l a st)
           (\<lambda>st. map_option (Pair 0) (gemm exec run reduce r g d (fused_gemm_args_optimized l a) (a + size_a) st)))"

definition fused_concat_linear_layer ::
  "(dma_req \<Rightarrow> mem \<Rightarrow> mem) \<Rightarrow> nat list \<Rightarrow> ((gemm_kernel \<times> kernel_args) option \<Rightarrow> mem \<Rightarrow> mem) \<Rightarrow> (ptr \<Rightarrow> ptr \<Rightarrow> u32 \<Rightarrow> dma_state \<Rightarrow> dma_state) \<Rightarrow>
     gemm_run \<Rightarrow> gen_cfg \<Rightarrow> snrt_defs \<Rightarrow> ptr \<Rightarrow> fused_concat_linear_layer_t \<Rightarrow> dma_state \<Rightarrow> (u32 \<times> dma_state) option" where
  "fused_concat_linear_layer = fused_concat_linear_optimized"

text \<open>The input of the cluster arrives in L1.\<close>

context dma_backend
begin

lemma fused_load_result:
  fixes l :: fused_concat_linear_layer_t and d :: snrt_defs and h :: u32
  defines "M \<equiv> unat (fcl_input_shape_0 l)" and "w \<equiv> unat (fcl_input_shape_1 l)" and "p \<equiv> fcl_inputs l ! unat (snrt_cluster_idx d h)"
  assumes prec: "fcl_dtype l = FP64" and idle: "pending st = []" and sched: "1 \<le> sum_list sched"
    and ok: "tile_ok p 0 0 M w M w 8" "tile_apart a p M w M w 8" "holds a (M * w)"
  shows "\<exists>st'. fused_load exec sched d h l a st = Some st' \<and> pending st' = [] \<and>
    (\<forall>r<M. \<forall>c<w. elt (dmem st') a (r * w + c) = elt (dmem st) p (r * w + c)) \<and> (\<forall>y. y \<notin> span a (8 * (M * w)) \<longrightarrow> dmem st' y = dmem st y)"
proof -
  let ?s = "snd (snrt_dma_load_2d_tile a p (of_nat 0) (of_nat 0) (of_nat M) (of_nat w) (of_nat w) (of_nat 8) st)"
  note s = settled_load_2d_tile [OF ok(1), where dst = a and st = st]
  have m: "dma_settled exec st = dmem st" by (simp add: dma_settled_def idle)
  have "length (pending ?s) \<le> sum_list sched" using s(2) idle sched by simp
  then obtain st' where st': "snrt_dma_wait_all exec sched ?s = Some st'" "pending st' = []" "dmem st' = dma_settled exec ?s"
    using wait_all_settles by blast
  have "fused_load exec sched d h l a st = Some st'" using st'(1) by (simp add: fused_load_def prec p_def M_def w_def)
  moreover have "tile_elt 0 0 M w w r c = r * w + c" for r c by (simp add: tile_elt_def)
  then have "elt (dmem st') a (r * w + c) = elt (dmem st) p (r * w + c)" if "r < M" "c < w" for r c
    using load_req_elt [OF ok that] unfolding st'(3) s(1) m by simp
  moreover have "dmem st' y = dmem st y" if "y \<notin> span a (8 * (M * w))" for y
    using load_req_frame [OF ok(1,3) that] unfolding st'(3) s(1) m .
  ultimately show ?thesis using st'(2) by blast
qed

end

section \<open>Properties\<close>

text \<open>
  C14. \<open>fused_concat_linear_baseline\<close> on all clusters: \<open>concat_layer\<close> and \<open>gemm\<close> together compute the product of the concatenated inputs with the
  weights, as a function of the original inputs: element \<open>(i, j)\<close> accumulates the products of row \<open>i\<close> of every input, one input after the
  other, with column \<open>j\<close> of the weights, for every order of the cores and of the clusters. If there are more inputs than clusters, every core returns 1, but the product
  is computed nevertheless, of what the memory of the concatenated tensor held before.
\<close>

theorem fused_concat_linear_baseline_correct:
  fixes F :: fp_ops and l :: fused_concat_linear_layer_t
  assumes exec: "dma_backend exec" and F: "fp_unit F" and prec: "fcl_dtype l = FP64" "fcl_baseline l"
    and idle: "\<And>h. pending (dma h) = []" and sched: "\<And>h. 0 < sum_list (sched h)"
    and dms: "\<And>k. k < unat (snrt_cluster_num d) \<Longrightarrow> \<exists>h\<in>set hs. snrt_is_dm_core d h \<and> unat (snrt_cluster_idx d h) = k"
    and lay: "concat_layout (concat_layer_cfg l)" and weights: "beside (fcl_weights l) (unat (gk (fused_gemm_args d l)) * unat (fcl_output_shape_1 l))
      (fcl_concat_output l) (unat (fcl_input_shape_0 l) * unat (gk (fused_gemm_args d l)))"
    and cl: "clusters_ok d (fused_gemm_args d l) r l1_next dma' dms"
  defines "M \<equiv> unat (fcl_input_shape_0 l)" and "w \<equiv> unat (fcl_input_shape_1 l)" and "N \<equiv> unat (fcl_output_shape_1 l)"
  defines "K \<equiv> w * unat (fcl_num_inputs l)"
  shows "\<exists>m'. fused_concat_linear_baseline exec sched dma hs (run_kernel F other) reduce r g d l1_next dma' dms l m =
      Some (replicate (length hs) (if fcl_num_inputs l > snrt_cluster_num d then 1 else 0), m') \<and>
    (\<forall>i<M. \<forall>j<N. elt m' (fcl_linear_output l) (i * N + j) =
       gemm_acc F K (\<lambda>k. if fcl_num_inputs l > snrt_cluster_num d then elt m (fcl_concat_output l) (i * K + k)
           else elt m (fcl_inputs l ! (k div w)) (i * w + k mod w))
         (\<lambda>k. elt m (fcl_weights l) (k * N + j)) (multiply_opt F (elt m (fcl_linear_output l) (i * N + j)) (of_u32 F 0)))"
proof -
  let ?x = "fused_gemm_args d l" and ?c = "concat_layer_cfg l"
  have cf: "num_inputs ?c = fcl_num_inputs l" "input_shape_0 ?c = fcl_input_shape_0 l" "input_shape_1 ?c = fcl_input_shape_1 l" "inputs ?c = fcl_inputs l"
    "concat_output ?c = fcl_concat_output l" by (simp_all add: concat_layer_cfg_def)
  have "8 * K < 2 ^ 31" "0 < w" using lay unfolding concat_layout_def Let_def cf K_def w_def by auto
  then have K: "unat (fcl_input_shape_1 l * fcl_num_inputs l) = K" "0 < w" by (simp_all add: K_def w_def unat_mult_nowrap)
  have xf: "gm ?x = fcl_input_shape_0 l" "gn ?x = fcl_output_shape_1 l" "gk ?x = fcl_input_shape_1 l * fcl_num_inputs l" "ga ?x = fcl_concat_output l"
    "gb ?x = fcl_weights l" "gc ?x = fcl_linear_output l" "gbeta ?x = 0" "m_tiles ?x = snrt_cluster_num d" "n_tiles ?x = 1" "parallelize_m ?x" "fp64_tiled ?x"
    using prec by (simp_all add: fused_gemm_args_def fp64_tiled_def Let_def)
  note g = fused_gemm_result [OF exec F xf(11,10,8,9) cl, where other = other and reduce = reduce and g = g, unfolded xf K(1), folded M_def N_def]
  obtain h where h: "gemm_layout ?x (l1_next h)" using cl unfolding clusters_ok_def by (metis equals0D image_is_empty lessThan_iff set_empty2 all_not_in_conv)
  note fits = layout_fits(2) [OF h, unfolded gemm_fits_def xf K(1), folded M_def N_def]
  define out where "out = span (fcl_concat_output l) (8 * (M * K))"
  have elem: "fused_elem F ?x m1 (i, j) = gemm_acc F K (\<lambda>k. elt m1 (fcl_concat_output l) (i * K + k)) (\<lambda>k. elt m (fcl_weights l) (k * N + j))
      (multiply_opt F (elt m (fcl_linear_output l) (i * N + j)) (of_u32 F 0))"
    if m1: "\<And>y. y \<notin> out \<Longrightarrow> m1 y = m y" and ij: "i < M" "j < N" for m1 i j
  proof -
    have "span (fcl_weights l) (8 * (K * N)) \<inter> out = {}" using weights unfolding xf K(1) out_def M_def N_def by (rule beside_span)
    then have a: "elt m1 (fcl_weights l) (k * N + j) = elt m (fcl_weights l) (k * N + j)" if "k < K" for k
      using fits m1 by (intro elt_span_cong [OF _ row_major_less [OF that ij(2)]]) auto
    have c: "elt m1 (fcl_linear_output l) (i * N + j) = elt m (fcl_linear_output l) (i * N + j)"
      using fits m1 by (intro elt_span_cong [OF _ row_major_less [OF ij]]) (auto simp: out_def)
    show ?thesis unfolding fused_elem_def gemm_elem_def xf K(1) prod.case M_def [symmetric] N_def [symmetric] c
      by (rule gemm_acc_cong) (use a in auto)
  qed
  show ?thesis
  proof (cases "fcl_num_inputs l > snrt_cluster_num d")
    case True
    then have "concat_cores exec sched dma d ?c hs m = Some (replicate (length hs) 1, m)" by (intro concat_error) (simp add: cf)
    then show ?thesis using True g [of m] elem [of m] by (auto simp: fused_concat_linear_baseline_def)
  next
    case False
    then have n: "\<not> num_inputs ?c > snrt_cluster_num d" by (simp add: cf)
    obtain m1 where m1: "concat_cores exec sched dma d ?c hs m = Some (replicate (length hs) 0, m1)" "\<And>y. y \<notin> out \<Longrightarrow> m1 y = m y"
      and e: "\<forall>k r c. k < unat (fcl_num_inputs l) \<longrightarrow> r < M \<longrightarrow> c < w \<longrightarrow> (\<exists>h \<in> set hs. snrt_is_dm_core d h \<and> unat (snrt_cluster_idx d h) = k) \<longrightarrow>
         elt m1 (fcl_concat_output l) (concat_elt ?c k r c) = elt m (fcl_inputs l ! k) (r * w + c)"
      using dma_backend.concat_all [OF exec lay n, where dma = dma and sched = sched and hs = hs and m = m] idle sched unfolding cf M_def w_def out_def K_def by auto
    have row: "elt m1 (fcl_concat_output l) (i * K + k) = elt m (fcl_inputs l ! (k div w)) (i * w + k mod w)" if i: "i < M" and k: "k < K" for i k
    proof -
      have kw: "k div w < unat (fcl_num_inputs l)" "k mod w < w" using k K(2) by (simp_all add: K_def less_mult_imp_div_less mult.commute)
      moreover have "unat (fcl_num_inputs l) \<le> unat (snrt_cluster_num d)" using False by (simp add: word_less_nat_alt)
      then have "\<exists>h \<in> set hs. snrt_is_dm_core d h \<and> unat (snrt_cluster_idx d h) = k div w" using dms kw(1) by simp
      moreover have "concat_elt ?c (k div w) i (k mod w) = i * K + k" by (simp add: concat_elt_def cf K_def w_def)
      ultimately show ?thesis using e i by metis
    qed
    have "fused_elem F ?x m1 (i, j) = gemm_acc F K (\<lambda>k. elt m (fcl_inputs l ! (k div w)) (i * w + k mod w)) (\<lambda>k. elt m (fcl_weights l) (k * N + j))
      (multiply_opt F (elt m (fcl_linear_output l) (i * N + j)) (of_u32 F 0))" if "i < M" "j < N" for i j
      by (subst elem) (use m1(2) that row in \<open>auto intro!: gemm_acc_cong\<close>)
    then show ?thesis using False m1(1) g [of m1] by (auto simp: fused_concat_linear_baseline_def)
  qed
qed

text \<open>Two clusters of two compute cores and a data mover; two inputs of 4 by 3, and weights of 6 by 2.\<close>

definition example_fused :: fused_concat_linear_layer_t where
  "example_fused = \<lparr>fcl_num_inputs = 2, fcl_input_shape_0 = 4, fcl_input_shape_1 = 3, fcl_output_shape_0 = 4, fcl_output_shape_1 = 2,
     fcl_inputs = [0x80000000, 0x80010000], fcl_weights = 0x80030000, fcl_concat_output = 0x80020000, fcl_linear_output = 0x80040000,
     fcl_dtype = FP64, fcl_baseline = True\<rparr>"

definition fused_run :: "u32 \<Rightarrow> gemm_run" where
  "fused_run h = \<lparr>dm_hart = h, wait_in = (\<lambda>_ _ _. [1, 2]), wait_out = (\<lambda>_ _. [1]), core_order = (\<lambda>_ _ _. if h = 2 then [0, 1] else [4, 3])\<rparr>"

theorem fused_concat_linear_baseline_correct_witness:
  "\<exists>m'. fused_concat_linear_baseline copy_seq (\<lambda>_. [1]) (\<lambda>_. dma_reset) [5, 0, 1, 2, 3, 4] (run_kernel int_fpu (\<lambda>_ _. id)) (\<lambda>_ _ _. id) fused_run example_cfg
      example_defs (\<lambda>h. if h = 2 then 0x10000000 else 0x10040000) (\<lambda>_. dma_reset) [5, 2] example_fused ucast = Some ([0, 0, 0, 0, 0, 0], m') \<and>
    (\<forall>i<4. \<forall>j<2. elt m' 0x80040000 (i * 2 + j) = gemm_acc int_fpu 6 (\<lambda>k. elt ucast ([0x80000000, 0x80010000] ! (k div 3)) (i * 3 + k mod 3))
       (\<lambda>k. elt ucast 0x80030000 (k * 2 + j)) f64_0)"
proof -
  let ?l1 = "\<lambda>h :: u32. if h = 2 then 0x10000000 else 0x10040000 :: u32"
  have x: "fused_gemm_args example_defs example_fused = \<lparr>gprec = FP64, gexpand = False, gsetup_ssr = False, parallelize_m = True, parallelize_k = False,
     m_tiles = 2, n_tiles = 1, k_tiles = 1, load_a_flag = True, load_b_flag = True, load_c_flag = True, gtransa = False, gtransb = False,
     gm = 4, gn = 2, gk = 6, ga = 0x80020000, gb = 0x80030000, gbeta = 0, gc = 0x80040000, gbaseline = True\<rparr>"
    by (simp add: fused_gemm_args_def example_fused_def example_defs_def team_defs)
  have defs: "snrt_cluster_num example_defs = 2" "snrt_cluster_compute_core_num example_defs = 2" "snrt_cluster_idx example_defs 2 = 0" "snrt_cluster_idx example_defs 5 = 1"
    by (simp_all add: example_defs_def team_defs)
  have "i = 0 \<or> i = 1" if "i < 2" for i :: u32 using that by (auto simp: word_less_nat_alt word_unat_eq_iff)
  then have two: "{i :: u32. i < 2} = {0, 1}" by auto
  have cores: "all_cores example_defs [0, 1]" "all_cores example_defs [4, 3]" by (auto simp: all_cores_def defs(2) two) (simp_all add: example_defs_def team_defs)
  have run: "gemm_run_ok example_defs (fused_gemm_args example_defs example_fused) (fused_run h)" for h
    using cores by (simp add: gemm_run_ok_def fused_run_def defs x frac_m_def)
  have "{..<2 :: nat} = {1, 0}" by auto
  moreover have "gemm_layout (fused_gemm_args example_defs example_fused) (?l1 h)" for h
    by (simp add: x layout_unfold buf_len_def frac_m_def frac_n_def frac_k_def)
  ultimately have cl: "clusters_ok example_defs (fused_gemm_args example_defs example_fused) fused_run ?l1 (\<lambda>_. dma_reset) [5, 2]"
    using run by (simp add: clusters_ok_def defs dma_reset_def) (simp add: fused_run_def)
  have dms: "\<exists>h \<in> set [5, 0, 1, 2, 3, 4]. snrt_is_dm_core example_defs h \<and> unat (snrt_cluster_idx example_defs h) = k"
    if "k < unat (snrt_cluster_num example_defs)" for k
  proof -
    have "k = 0 \<or> k = 1" using that by (auto simp: defs)
    moreover have "snrt_is_dm_core example_defs 2" "snrt_is_dm_core example_defs 5"
      by (simp_all add: example_defs_def team_defs snrt_is_dm_core_def snrt_is_compute_core_def)
    ultimately show ?thesis using defs by auto
  qed
  have F: "fp_unit int_fpu" "multiply_opt int_fpu v (of_u32 int_fpu 0) = f64_0" for v by (simp_all add: fp_unit_def int_fpu_def f64_0_def multiply_opt_def)
  have f: "fcl_dtype example_fused = FP64" "fcl_baseline example_fused" "fcl_num_inputs example_fused = 2" "fcl_input_shape_0 example_fused = 4" "fcl_input_shape_1 example_fused = 3"
    "fcl_output_shape_1 example_fused = 2" "fcl_inputs example_fused = [0x80000000, 0x80010000]" "fcl_weights example_fused = 0x80030000"
    "fcl_concat_output example_fused = 0x80020000" "fcl_linear_output example_fused = 0x80040000" by (simp_all add: example_fused_def)
  have "concat_layout (concat_layer_cfg example_fused)" by (simp add: concat_layout_def concat_layer_cfg_def f)
  moreover have "beside (fcl_weights example_fused) (unat (gk (fused_gemm_args example_defs example_fused)) * unat (fcl_output_shape_1 example_fused))
      (fcl_concat_output example_fused) (unat (fcl_input_shape_0 example_fused) * unat (gk (fused_gemm_args example_defs example_fused)))"
    by (simp add: beside_def f x)
  moreover have "pending dma_reset = []" by (simp add: dma_reset_def)
  ultimately obtain m' where m': "fused_concat_linear_baseline copy_seq (\<lambda>_. [1]) (\<lambda>_. dma_reset) [5, 0, 1, 2, 3, 4] (run_kernel int_fpu (\<lambda>_ _. id)) (\<lambda>_ _ _. id) fused_run
      example_cfg example_defs ?l1 (\<lambda>_. dma_reset) [5, 2] example_fused ucast =
        Some (replicate (length [5 :: u32, 0, 1, 2, 3, 4]) (if fcl_num_inputs example_fused > snrt_cluster_num example_defs then 1 else 0), m')"
    and e: "\<forall>i<unat (fcl_input_shape_0 example_fused). \<forall>j<unat (fcl_output_shape_1 example_fused).
      elt m' (fcl_linear_output example_fused) (i * unat (fcl_output_shape_1 example_fused) + j) =
       gemm_acc int_fpu (unat (fcl_input_shape_1 example_fused) * unat (fcl_num_inputs example_fused))
         (\<lambda>k. if fcl_num_inputs example_fused > snrt_cluster_num example_defs
            then elt ucast (fcl_concat_output example_fused) (i * (unat (fcl_input_shape_1 example_fused) * unat (fcl_num_inputs example_fused)) + k)
            else elt ucast (fcl_inputs example_fused ! (k div unat (fcl_input_shape_1 example_fused)))
              (i * unat (fcl_input_shape_1 example_fused) + k mod unat (fcl_input_shape_1 example_fused)))
         (\<lambda>k. elt ucast (fcl_weights example_fused) (k * unat (fcl_output_shape_1 example_fused) + j))
         (multiply_opt int_fpu (elt ucast (fcl_linear_output example_fused) (i * unat (fcl_output_shape_1 example_fused) + j)) (of_u32 int_fpu 0))"
    using fused_concat_linear_baseline_correct [OF seq_engine.dma_backend_axioms F(1) f(1,2) _ _ dms _ _ cl,
        where dma = "\<lambda>_. dma_reset" and sched = "\<lambda>_. [1]" and other = "\<lambda>_ _. id" and reduce = "\<lambda>_ _ _. id" and g = example_cfg and m = ucast] by auto
  have "replicate (length [5 :: u32, 0, 1, 2, 3, 4]) (if fcl_num_inputs example_fused > snrt_cluster_num example_defs then 1 else 0) = [0, 0, 0, 0, 0, 0 :: u32]"
    by (simp add: f defs)
  then show ?thesis using m' e by (simp add: F(2) f defs)
qed

end
