(* ===== verification/Ssr.thy ===== *)
theory Ssr
  imports Prelude
begin

text \<open>
  Stream semantic registers: the configuration interface of
  \<open>sw/snRuntime/src/ssr.h\<close> on top of the address generator of
  \<open>hw/snitch_ssr/src/snitch_ssr_addr_gen.sv\<close> (direct streams; indirection, words 10
  to 23 of the register map, is left out). A data mover has an active register set,
  a shadow set that configuration writes go to, and four loop counters; \<open>pw\<close>,
  \<open>iw\<close> and \<open>rw\<close> are the widths \<open>PointerWidth\<close>, \<open>IndexWidth\<close> and \<open>RptWidth\<close> the
  hardware is built with.
  The theorems show that the bounds and stride differences that the
  \<open>snrt_ssr_loop_*\<close> functions write make the hardware walk the affine loop nest
  that their arguments describe.
\<close>

section \<open>The data mover\<close>

record ssr_widths =
  pw :: nat
  iw :: nat
  rw :: nat

record ssr_regs =
  r_done :: bool
  r_write :: bool
  r_dims :: nat
  r_rep :: u32
  r_bound :: "nat \<Rightarrow> u32"
  r_stride :: "nat \<Rightarrow> u32"
  r_ptr :: u32

record ssr_mover =
  act :: ssr_regs
  shd :: ssr_regs
  idx :: "nat \<Rightarrow> u32"

definition num_loops :: nat where
  "num_loops = 4"

text \<open>A configuration write by register word, on the shadow set.\<close>

definition reg_update :: "ssr_widths \<Rightarrow> nat \<Rightarrow> u32 \<Rightarrow> ssr_regs \<Rightarrow> ssr_regs" where
  "reg_update W w v r =
     (if w = 0 then r\<lparr>r_ptr := take_bit (pw W) v, r_done := bit v 31, r_write := bit v 30,
                      r_dims := unat (take_bit 2 (drop_bit 28 v))\<rparr>
      else if w = 1 then r\<lparr>r_rep := take_bit (rw W) v\<rparr>
      else if 2 \<le> w \<and> w < 6 then r\<lparr>r_bound := (r_bound r)(w - 2 := take_bit (iw W) v)\<rparr>
      else if 6 \<le> w \<and> w < 10 then
        r\<lparr>r_stride := (r_stride r)(w - 6 := take_bit (pw W) (v AND NOT 7))\<rparr>
      else if 24 \<le> w \<and> w < 32 then
        r\<lparr>r_ptr := take_bit (pw W) v, r_done := False, r_write := 28 \<le> w, r_dims := w mod 4\<rparr>
      else r)"

text \<open>An idle mover loads the shadow set; the shadow job is then no longer pending.\<close>

definition mover_load :: "ssr_mover \<Rightarrow> ssr_mover" where
  "mover_load m =
     (if r_done (act m) then m\<lparr>act := shd m, shd := (shd m)\<lparr>r_done := True\<rparr>\<rparr> else m)"

text \<open>A write is accepted only while no shadow job is pending.\<close>

definition mover_write :: "ssr_widths \<Rightarrow> nat \<Rightarrow> u32 \<Rightarrow> ssr_mover \<Rightarrow> ssr_mover" where
  "mover_write W w v m =
     (if r_done (shd m) then mover_load (m\<lparr>shd := reg_update W w v (shd m)\<rparr>) else m)"

definition mover_read :: "nat \<Rightarrow> ssr_mover \<Rightarrow> u32" where
  "mover_read w m =
     (let r = act m in
      if w = 0 then take_bit 27 (r_ptr r) OR (if r_done r then push_bit 31 1 else 0) OR
        (if r_write r then push_bit 30 1 else 0) OR push_bit 28 (of_nat (r_dims r))
      else if w = 1 then r_rep r
      else if 2 \<le> w \<and> w < 6 then r_bound r (w - 2)
      else if 6 \<le> w \<and> w < 10 then r_stride r (w - 6)
      else 0)"

section \<open>The address generator\<close>

definition loop_last :: "ssr_mover \<Rightarrow> nat \<Rightarrow> bool" where
  "loop_last m i \<longleftrightarrow> idx m i = r_bound (act m) i \<or> r_dims (act m) < i"

definition loop_enabled :: "ssr_mover \<Rightarrow> nat \<Rightarrow> bool" where
  "loop_enabled m i \<longleftrightarrow> (\<forall>j<i. loop_last m j)"

definition stream_last :: "ssr_mover \<Rightarrow> bool" where
  "stream_last m \<longleftrightarrow> (\<forall>j<num_loops. loop_last m j)"

text \<open>The stride of the highest enabled loop.\<close>

definition selected_stride :: "ssr_mover \<Rightarrow> u32" where
  "selected_stride m =
     fold (\<lambda>i s. s OR (if loop_enabled m i \<and> \<not> (Suc i < num_loops \<and> loop_enabled m (Suc i))
                       then r_stride (act m) i else 0)) [0..<num_loops] 0"

definition index_step :: "ssr_widths \<Rightarrow> ssr_mover \<Rightarrow> nat \<Rightarrow> u32" where
  "index_step W m i =
     (if i < num_loops \<and> loop_enabled m i
      then (if loop_last m i then 0 else take_bit (iw W) (idx m i + 1))
      else idx m i)"

text \<open>One accepted memory request: the address, and the mover after it.\<close>

definition mover_step :: "ssr_widths \<Rightarrow> ssr_mover \<Rightarrow> (u32 \<times> ssr_mover) option" where
  "mover_step W m =
     (if r_done (act m) then None
      else let a = act m;
               a' = a\<lparr>r_ptr := take_bit (pw W) (r_ptr a + selected_stride m),
                      r_done := stream_last m\<rparr>
           in Some (r_ptr a, mover_load (m\<lparr>act := a', idx := index_step W m\<rparr>)))"

fun mover_run :: "ssr_widths \<Rightarrow> nat \<Rightarrow> ssr_mover \<Rightarrow> (u32 list \<times> ssr_mover) option" where
  "mover_run W 0 m = Some ([], m)"
| "mover_run W (Suc n) m =
     (case mover_step W m of None \<Rightarrow> None
      | Some (a, m') \<Rightarrow>
          (case mover_run W n m' of None \<Rightarrow> None | Some (as, m'') \<Rightarrow> Some (a # as, m'')))"

section \<open>The configuration interface\<close>

datatype snrt_ssr_dm = SNRT_SSR_DM0 | SNRT_SSR_DM1 | SNRT_SSR_DM2 | SNRT_SSR_DM_ALL

fun ssr_dm_num :: "snrt_ssr_dm \<Rightarrow> nat" where
  "ssr_dm_num SNRT_SSR_DM0 = 0"
| "ssr_dm_num SNRT_SSR_DM1 = 1"
| "ssr_dm_num SNRT_SSR_DM2 = 2"
| "ssr_dm_num SNRT_SSR_DM_ALL = 31"

datatype snrt_ssr_dim = SNRT_SSR_1D | SNRT_SSR_2D | SNRT_SSR_3D | SNRT_SSR_4D

fun ssr_dim_num :: "snrt_ssr_dim \<Rightarrow> nat" where
  "ssr_dim_num SNRT_SSR_1D = 0"
| "ssr_dim_num SNRT_SSR_2D = 1"
| "ssr_dim_num SNRT_SSR_3D = 2"
| "ssr_dim_num SNRT_SSR_4D = 3"

definition REG_STATUS :: nat where "REG_STATUS = 0"
definition REG_REPEAT :: nat where "REG_REPEAT = 1"
definition REG_BOUNDS :: nat where "REG_BOUNDS = 2"
definition REG_STRIDES :: nat where "REG_STRIDES = 6"
definition REG_RPTR :: nat where "REG_RPTR = 24"
definition REG_WPTR :: nat where "REG_WPTR = 28"

record ssr_state =
  ssr_on :: bool
  movers :: "nat \<Rightarrow> ssr_mover"

definition snrt_ssr_enable :: "ssr_state \<Rightarrow> ssr_state" where
  "snrt_ssr_enable s = s\<lparr>ssr_on := True\<rparr>"

definition snrt_ssr_disable :: "ssr_state \<Rightarrow> ssr_state" where
  "snrt_ssr_disable s = s\<lparr>ssr_on := False\<rparr>"

definition read_ssr_cfg :: "nat \<Rightarrow> nat \<Rightarrow> ssr_state \<Rightarrow> u32" where
  "read_ssr_cfg reg dm s = mover_read reg (movers s dm)"

text \<open>Data mover 31 addresses all of them.\<close>

definition write_ssr_cfg :: "ssr_widths \<Rightarrow> nat \<Rightarrow> nat \<Rightarrow> u32 \<Rightarrow> ssr_state \<Rightarrow> ssr_state" where
  "write_ssr_cfg W reg dm v s =
     s\<lparr>movers := \<lambda>d. if dm = 31 \<or> d = dm then mover_write W reg v (movers s d) else movers s d\<rparr>"

definition snrt_ssr_loop_1d :: "ssr_widths \<Rightarrow> snrt_ssr_dm \<Rightarrow> u32 \<Rightarrow> u32 \<Rightarrow> ssr_state \<Rightarrow> ssr_state" where
  "snrt_ssr_loop_1d W dm b0 s0 s =
     (let d = ssr_dm_num dm;
          b0 = b0 - 1;
          s = write_ssr_cfg W (REG_BOUNDS + 0) d b0 s;
          a = 0;
          s = write_ssr_cfg W (REG_STRIDES + 0) d (s0 - a) s
      in s)"

definition snrt_ssr_loop_2d ::
  "ssr_widths \<Rightarrow> snrt_ssr_dm \<Rightarrow> u32 \<Rightarrow> u32 \<Rightarrow> u32 \<Rightarrow> u32 \<Rightarrow> ssr_state \<Rightarrow> ssr_state" where
  "snrt_ssr_loop_2d W dm b0 b1 s0 s1 s =
     (let d = ssr_dm_num dm;
          b0 = b0 - 1; b1 = b1 - 1;
          s = write_ssr_cfg W (REG_BOUNDS + 0) d b0 s;
          s = write_ssr_cfg W (REG_BOUNDS + 1) d b1 s;
          a = 0;
          s = write_ssr_cfg W (REG_STRIDES + 0) d (s0 - a) s;
          a = a + s0 * b0;
          s = write_ssr_cfg W (REG_STRIDES + 1) d (s1 - a) s
      in s)"

definition snrt_ssr_loop_3d ::
  "ssr_widths \<Rightarrow> snrt_ssr_dm \<Rightarrow> u32 \<Rightarrow> u32 \<Rightarrow> u32 \<Rightarrow> u32 \<Rightarrow> u32 \<Rightarrow> u32 \<Rightarrow> ssr_state \<Rightarrow> ssr_state"
where
  "snrt_ssr_loop_3d W dm b0 b1 b2 s0 s1 s2 s =
     (let d = ssr_dm_num dm;
          b0 = b0 - 1; b1 = b1 - 1; b2 = b2 - 1;
          s = write_ssr_cfg W (REG_BOUNDS + 0) d b0 s;
          s = write_ssr_cfg W (REG_BOUNDS + 1) d b1 s;
          s = write_ssr_cfg W (REG_BOUNDS + 2) d b2 s;
          a = 0;
          s = write_ssr_cfg W (REG_STRIDES + 0) d (s0 - a) s;
          a = a + s0 * b0;
          s = write_ssr_cfg W (REG_STRIDES + 1) d (s1 - a) s;
          a = a + s1 * b1;
          s = write_ssr_cfg W (REG_STRIDES + 2) d (s2 - a) s
      in s)"

definition snrt_ssr_loop_4d ::
  "ssr_widths \<Rightarrow> snrt_ssr_dm \<Rightarrow> u32 \<Rightarrow> u32 \<Rightarrow> u32 \<Rightarrow> u32 \<Rightarrow> u32 \<Rightarrow> u32 \<Rightarrow> u32 \<Rightarrow> u32 \<Rightarrow>
   ssr_state \<Rightarrow> ssr_state"
where
  "snrt_ssr_loop_4d W dm b0 b1 b2 b3 s0 s1 s2 s3 s =
     (let d = ssr_dm_num dm;
          b0 = b0 - 1; b1 = b1 - 1; b2 = b2 - 1; b3 = b3 - 1;
          s = write_ssr_cfg W (REG_BOUNDS + 0) d b0 s;
          s = write_ssr_cfg W (REG_BOUNDS + 1) d b1 s;
          s = write_ssr_cfg W (REG_BOUNDS + 2) d b2 s;
          s = write_ssr_cfg W (REG_BOUNDS + 3) d b3 s;
          a = 0;
          s = write_ssr_cfg W (REG_STRIDES + 0) d (s0 - a) s;
          a = a + s0 * b0;
          s = write_ssr_cfg W (REG_STRIDES + 1) d (s1 - a) s;
          a = a + s1 * b1;
          s = write_ssr_cfg W (REG_STRIDES + 2) d (s2 - a) s;
          a = a + s2 * b2;
          s = write_ssr_cfg W (REG_STRIDES + 3) d (s3 - a) s
      in s)"

definition snrt_ssr_repeat :: "ssr_widths \<Rightarrow> snrt_ssr_dm \<Rightarrow> u32 \<Rightarrow> ssr_state \<Rightarrow> ssr_state" where
  "snrt_ssr_repeat W dm count s = write_ssr_cfg W REG_REPEAT (ssr_dm_num dm) (count - 1) s"

definition snrt_ssr_read :: "ssr_widths \<Rightarrow> snrt_ssr_dm \<Rightarrow> snrt_ssr_dim \<Rightarrow> ptr \<Rightarrow> ssr_state \<Rightarrow> ssr_state"
where
  "snrt_ssr_read W dm dim p s = write_ssr_cfg W (REG_RPTR + ssr_dim_num dim) (ssr_dm_num dm) p s"

definition snrt_ssr_write :: "ssr_widths \<Rightarrow> snrt_ssr_dm \<Rightarrow> snrt_ssr_dim \<Rightarrow> ptr \<Rightarrow> ssr_state \<Rightarrow> ssr_state"
where
  "snrt_ssr_write W dm dim p s = write_ssr_cfg W (REG_WPTR + ssr_dim_num dim) (ssr_dm_num dm) p s"

section \<open>Mixed-radix counting\<close>

text \<open>
  The number of inner iterations per iteration of loop \<open>k\<close>, and the counter of loop
  \<open>k\<close> after \<open>t\<close> requests, for loops with \<open>B j\<close> iterations.
\<close>

definition weight :: "(nat \<Rightarrow> nat) \<Rightarrow> nat \<Rightarrow> nat" where
  "weight B k = (\<Prod>j<k. B j)"

definition digit :: "(nat \<Rightarrow> nat) \<Rightarrow> nat \<Rightarrow> nat \<Rightarrow> nat" where
  "digit B k t = t div weight B k mod B k"

lemma weight_Suc: "weight B (Suc k) = weight B k * B k"
  by (simp add: weight_def)

lemma weight_0 [simp]: "weight B 0 = 1"
  by (simp add: weight_def)

lemma digit_max_iff:
  assumes "\<And>j. 0 < B j"
  shows "(\<forall>j<k. digit B j t = B j - 1) \<longleftrightarrow> weight B k dvd Suc t"
proof (induction k)
  case (Suc k)
  have "digit B k t = B k - 1 \<longleftrightarrow> B k dvd Suc (t div weight B k)"
    unfolding digit_def using assms [of k] by (metis Suc_diff_1 Suc_inject dvd_eq_mod_eq_0 mod_Suc nat.distinct(1))
  moreover have "weight B (Suc k) dvd Suc t \<longleftrightarrow> weight B k dvd Suc t \<and> B k dvd Suc (t div weight B k)"
  proof (cases "weight B k dvd Suc t")
    case True
    then have "Suc t = weight B k * Suc (t div weight B k)"
      by (metis div_Suc dvd_eq_mod_eq_0 dvd_mult_div_cancel)
    moreover have "0 < weight B k" unfolding weight_def using assms by (simp add: prod_pos)
    ultimately show ?thesis
      using True by (metis dvd_times_left_cancel_iff not_gr_zero weight_Suc)
  next
    case False
    then show ?thesis by (metis dvd_mult_left weight_Suc)
  qed
  ultimately show ?case using Suc by (auto simp: less_Suc_eq)
qed simp

lemma digit_Suc:
  assumes "\<And>j. 0 < B j"
  shows "digit B k (Suc t) =
    (if \<forall>j<k. digit B j t = B j - 1
     then (if digit B k t = B k - 1 then 0 else digit B k t + 1)
     else digit B k t)"
proof (cases "\<forall>j<k. digit B j t = B j - 1")
  case True
  then have "Suc t div weight B k = Suc (t div weight B k)"
    using digit_max_iff [of B k t] assms by (simp add: div_Suc dvd_eq_mod_eq_0)
  then show ?thesis using True assms [of k] by (auto simp: digit_def mod_Suc)
next
  case False
  then have "Suc t div weight B k = t div weight B k"
    using digit_max_iff [of B k t] assms by (auto simp: div_Suc dvd_eq_mod_eq_0)
  then show ?thesis using False by (auto simp: digit_def)
qed

section \<open>The walk of an encoded loop nest\<close>

text \<open>
  The affine address of step \<open>t\<close>, and the stride differences of the encoding: loop
  \<open>k\<close> adds its own stride and takes back what the loops inside it have added.
\<close>

definition affine :: "(nat \<Rightarrow> nat) \<Rightarrow> (nat \<Rightarrow> u32) \<Rightarrow> nat \<Rightarrow> nat \<Rightarrow> u32" where
  "affine B S D t = (\<Sum>k<D. of_nat (digit B k t) * S k)"

definition encoded :: "(nat \<Rightarrow> nat) \<Rightarrow> (nat \<Rightarrow> u32) \<Rightarrow> nat \<Rightarrow> u32" where
  "encoded B S k = S k - (\<Sum>j<k. of_nat (B j - 1) * S j)"

lemma affine_Suc:
  assumes pos: "\<And>j. 0 < B j" and k: "k < D"
    and max: "\<forall>j<k. digit B j t = B j - 1" and nmax: "digit B k t \<noteq> B k - 1"
  shows "affine B S D (Suc t) = affine B S D t + encoded B S k"
proof -
  have split: "{..<D} = {..<k} \<union> {k} \<union> {k<..<D}" using k by auto
  have sum: "(\<Sum>j<D. f j) = (\<Sum>j<k. f j) + f k + (\<Sum>j\<in>{k<..<D}. f j)" for f :: "nat \<Rightarrow> u32"
    unfolding split by (subst sum.union_disjoint; auto)+
  have "(\<Sum>j<k. of_nat (digit B j (Suc t)) * S j) = 0"
    using max by (intro sum.neutral) (auto simp: digit_Suc [of B, OF pos])
  moreover have "(\<Sum>j<k. of_nat (digit B j t) * S j) = (\<Sum>j<k. of_nat (B j - 1) * S j)"
    using max by (intro sum.cong) auto
  moreover have "digit B k (Suc t) = digit B k t + 1"
    using max nmax by (simp add: digit_Suc [of B, OF pos])
  moreover have "(\<Sum>j\<in>{k<..<D}. of_nat (digit B j (Suc t)) * S j) =
      (\<Sum>j\<in>{k<..<D}. of_nat (digit B j t) * S j)"
  proof (intro sum.cong refl, goal_cases)
    case (1 j)
    then show ?case using nmax by (auto simp: digit_Suc [of B, OF pos])
  qed
  ultimately show ?thesis
    unfolding affine_def encoded_def sum by (simp add: algebra_simps)
qed

text \<open>
  The mover in the middle of a job: \<open>D\<close> loops of \<open>B j\<close> iterations with the encoded
  strides, after \<open>t\<close> requests.
\<close>

definition walking :: "ssr_widths \<Rightarrow> (nat \<Rightarrow> nat) \<Rightarrow> (nat \<Rightarrow> u32) \<Rightarrow> nat \<Rightarrow> u32 \<Rightarrow> nat \<Rightarrow> ssr_mover \<Rightarrow> bool"
where
  "walking W B S D p t m \<longleftrightarrow>
     \<not> r_done (act m) \<and> r_dims (act m) = D - 1 \<and> 0 < D \<and> D \<le> num_loops \<and> iw W \<le> 32 \<and>
     r_done (shd m) \<and>
     (\<forall>k<D. r_bound (act m) k = of_nat (B k - 1) \<and> B k \<le> 2 ^ iw W) \<and> (\<forall>k. 0 < B k) \<and>
     (\<forall>k<D. r_stride (act m) k = take_bit (pw W) (encoded B S k)) \<and>
     r_ptr (act m) = take_bit (pw W) (p + affine B S D t) \<and>
     (\<forall>k<num_loops. idx m k = (if k < D then of_nat (digit B k t) else 0))"

lemma digit_less: "0 < B k \<Longrightarrow> digit B k t < B k"
  by (simp add: digit_def)

lemma walking_last:
  assumes w: "walking W B S D p t m" and k: "k < num_loops"
  shows "loop_last m k \<longleftrightarrow> (k < D \<longrightarrow> digit B k t = B k - 1)"
proof (cases "k < D")
  case True
  have B: "0 < B k" "B k \<le> 2 ^ iw W" "iw W \<le> 32" using w True by (auto simp: walking_def)
  then have le: "B k \<le> 2 ^ 32" using power_increasing [of "iw W" 32 "2::nat"] by linarith
  have "digit B k t < 2 ^ LENGTH(32)" "B k - 1 < 2 ^ LENGTH(32)"
    using digit_less [of B k t] B le by simp_all
  then have "(of_nat (digit B k t) :: u32) = of_nat (B k - 1) \<longleftrightarrow> digit B k t = B k - 1"
    by (rule of_nat_inject_small)
  then show ?thesis using w True k by (auto simp: loop_last_def walking_def)
next
  case False
  then show ?thesis using w k by (auto simp: loop_last_def walking_def)
qed

lemma num_loops_upt: "[0..<num_loops] = [0, 1, 2, 3]"
  by (simp add: num_loops_def upt_rec)

lemma selected_stride_first:
  assumes "k < num_loops" "\<forall>j<k. loop_last m j" "\<not> loop_last m k"
  shows "selected_stride m = r_stride (act m) k"
proof -
  have en: "loop_enabled m j \<longleftrightarrow> j \<le> k" if "j < num_loops" for j
    using assms that unfolding loop_enabled_def by (meson leD leI le_less_trans)
  consider "k = 0" | "k = 1" | "k = 2" | "k = 3" using assms(1) by (fastforce simp: num_loops_def)
  then show ?thesis
    unfolding selected_stride_def num_loops_upt by cases (simp_all add: en num_loops_def)
qed

lemma take_bit_count:
  assumes "n < 2 ^ i" "i \<le> 32"
  shows "take_bit i (of_nat n :: u32) = of_nat n"
proof -
  have "n < 2 ^ 32" using assms power_increasing [of i 32 "2::nat"] by linarith
  then have "unat (take_bit i (of_nat n :: u32)) = unat (of_nat n :: u32)"
    using assms by (simp add: unsigned_take_bit_eq unat_of_nat_small take_bit_nat_eq_self)
  then show ?thesis by (rule unsigned_word_eqI)
qed

lemma take_bit_word_add:
  fixes a b :: "'a::len word"
  shows "take_bit n (take_bit n a + take_bit n b) = take_bit n (a + b)"
  by transfer (simp add: take_bit_add)

lemma walking_step_last:
  assumes w: "walking W B S D p t m" and t: "Suc t = weight B D"
  shows "\<exists>m'. mover_step W m = Some (take_bit (pw W) (p + affine B S D t), m') \<and>
    r_done (act m') \<and> r_done (shd m')"
proof -
  have pos: "\<And>j. 0 < B j" using w by (simp add: walking_def)
  have "\<forall>j<D. digit B j t = B j - 1" using digit_max_iff [of B D t] pos t by simp
  then have "stream_last m" using walking_last [OF w] by (simp add: stream_last_def)
  then show ?thesis using w by (auto simp: mover_step_def walking_def mover_load_def Let_def)
qed

lemma walking_step:
  assumes w: "walking W B S D p t m" and t: "Suc t < weight B D"
  shows "\<exists>m'. mover_step W m = Some (take_bit (pw W) (p + affine B S D t), m') \<and>
    walking W B S D p (Suc t) m'"
proof -
  have pos: "\<And>j. 0 < B j" and D: "0 < D" "D \<le> num_loops" using w by (auto simp: walking_def)
  have "\<not> (\<forall>j<D. digit B j t = B j - 1)"
    using digit_max_iff [of B D t] pos t by (auto dest: dvd_imp_le)
  then obtain k where k: "k < D" "\<forall>j<k. digit B j t = B j - 1" "digit B k t \<noteq> B k - 1"
    using exists_least_iff [of "\<lambda>k. k < D \<and> digit B k t \<noteq> B k - 1"] by (metis order.strict_trans)
  have last: "\<forall>j<k. loop_last m j" "\<not> loop_last m k"
    using k D walking_last [OF w] by auto
  have sel: "selected_stride m = take_bit (pw W) (encoded B S k)"
    using selected_stride_first [OF _ last] k(1) D w by (auto simp: walking_def)
  have nl: "\<not> stream_last m" using last(2) k(1) D by (auto simp: stream_last_def intro: less_le_trans)
  have ptr: "take_bit (pw W) (r_ptr (act m) + selected_stride m) =
      take_bit (pw W) (p + affine B S D (Suc t))"
    using w unfolding sel affine_Suc [of B, OF pos k]
    by (simp add: walking_def take_bit_word_add add.assoc)
  have idx: "index_step W m i = (if i < D then of_nat (digit B i (Suc t)) else 0)" if i: "i < num_loops" for i
  proof -
    have en: "loop_enabled m i \<longleftrightarrow> (\<forall>j<i. j < D \<longrightarrow> digit B j t = B j - 1)"
      using walking_last [OF w] i by (auto simp: loop_enabled_def)
    show ?thesis
    proof (cases "i < D")
      case True
      then have "take_bit (iw W) (of_nat (digit B i t) + 1 :: u32) = of_nat (digit B i t + 1)"
        if "digit B i t \<noteq> B i - 1"
        using w that digit_less [of B i t] pos take_bit_count [of "digit B i t + 1" "iw W"]
        by (auto simp: walking_def add.commute)
      then show ?thesis
        using w i True en walking_last [OF w i] digit_Suc [of B i t, OF pos]
        by (auto simp: index_step_def walking_def)
    next
      case False
      then show ?thesis using w i walking_last [OF w i] by (auto simp: index_step_def walking_def)
    qed
  qed
  show ?thesis
    using w ptr nl idx by (auto simp: mover_step_def walking_def mover_load_def Let_def)
qed

lemma walking_run:
  assumes "walking W B S D p t m" "t < weight B D"
  shows "\<exists>m'. mover_run W (weight B D - t) m =
      Some (map (\<lambda>t. take_bit (pw W) (p + affine B S D t)) [t..<weight B D], m') \<and>
    r_done (act m') \<and> r_done (shd m')"
  using assms
proof (induction "weight B D - t" arbitrary: t m)
  case (Suc n)
  have n: "n = weight B D - Suc t" and upt: "[t..<weight B D] = t # [Suc t..<weight B D]"
    using Suc.hyps(2) Suc.prems(2) by (simp_all add: upt_conv_Cons)
  show ?case
  proof (cases "Suc t < weight B D")
    case True
    then obtain m' where m': "mover_step W m = Some (take_bit (pw W) (p + affine B S D t), m')"
        "walking W B S D p (Suc t) m'"
      using walking_step [OF Suc.prems(1)] by blast
    from Suc.hyps(1) [OF n m'(2) True] m'(1) show ?thesis
      unfolding Suc.hyps(2) [symmetric] n upt by auto
  next
    case False
    then have t: "Suc t = weight B D" using Suc.prems(2) by simp
    then show ?thesis
      using walking_step_last [OF Suc.prems(1) t] unfolding Suc.hyps(2) [symmetric] n upt by auto
  qed
qed simp

section \<open>What the configuration functions write\<close>

definition mover_idle :: "ssr_mover \<Rightarrow> bool" where
  "mover_idle m \<longleftrightarrow> r_done (act m) \<and> r_done (shd m) \<and> (\<forall>k. idx m k = 0)"

lemma mover_write_idle:
  assumes "r_done (act m)" "r_done (shd m)"
  shows "mover_write W w v m = m\<lparr>act := reg_update W w v (shd m),
    shd := (reg_update W w v (shd m))\<lparr>r_done := True\<rparr>\<rparr>"
  using assms by (simp add: mover_write_def mover_load_def)

lemma movers_write [simp]:
  "d = dm \<Longrightarrow> movers (write_ssr_cfg W reg dm v s) d = mover_write W reg v (movers s d)"
  by (simp add: write_ssr_cfg_def)

lemmas ssr_reg_defs =
  REG_REPEAT_def REG_BOUNDS_def REG_STRIDES_def REG_RPTR_def REG_WPTR_def

text \<open>Loop bounds and strides that the mover can hold: word-aligned, no more than \<open>2 ^ iw\<close> rounds.\<close>

definition loop_ok :: "ssr_widths \<Rightarrow> u32 \<Rightarrow> u32 \<Rightarrow> bool" where
  "loop_ok W b s \<longleftrightarrow> 0 < unat b \<and> unat b \<le> 2 ^ iw W \<and> 8 dvd s"

lemma aligned_and_not_7: "8 dvd (s :: u32) \<Longrightarrow> s AND NOT 7 = s"
proof -
  assume "8 dvd s"
  then obtain k where "s = 8 * k" by (rule dvdE)
  then have "s = push_bit 3 k" by (simp add: push_bit_eq_mult mult.commute)
  moreover have "push_bit 3 k AND NOT (mask 3) = push_bit 3 k"
    by (simp add: bit_eq_iff bit_simps) auto
  ultimately show ?thesis by (simp add: mask_eq_exp_minus_1)
qed

lemma loop_bound_word:
  assumes "loop_ok W b s" shows "of_nat (unat b - Suc 0) = b - 1"
proof -
  have "0 < unat b" using assms by (simp add: loop_ok_def)
  then have "unat (b - 1) = unat b - 1" by (simp add: unat_sub_if')
  then show ?thesis by (metis One_nat_def unat_bound unat_of_nat_small word_unat_eq_iff)
qed

lemma bound_reg:
  assumes "loop_ok W b s" "iw W \<le> 32"
  shows "take_bit (iw W) (b - 1) = of_nat (unat b - 1)"
proof -
  have "unat b - 1 < 2 ^ iw W" using assms(1) unfolding loop_ok_def by linarith
  then have "take_bit (iw W) (of_nat (unat b - 1) :: u32) = of_nat (unat b - 1)"
    using assms(2) by (rule take_bit_count)
  then show ?thesis by (simp add: loop_bound_word [OF assms(1)])
qed

lemma nest_concat:
  "concat (map (\<lambda>i. map (g i) [0..<n]) [0..<m]) = map (\<lambda>t. g (t div n) (t mod n)) [0..<m * n]"
  if "0 < n" for g :: "nat \<Rightarrow> nat \<Rightarrow> 'a"
proof (induction m)
  case (Suc m)
  have "map (g m) [0..<n] = map (\<lambda>t. g (t div n) (t mod n)) [m * n..<m * n + n]"
    using that by (intro nth_equalityI) (auto simp: div_add1_eq)
  moreover have "[0..<Suc m * n] = [0..<m * n] @ [m * n..<m * n + n]"
    using upt_add_eq_append [of 0 "m * n" n] by (simp add: add.commute)
  ultimately show ?case using Suc by simp
qed simp

text \<open>
  The addresses of a nest of counting loops, each given by its number of iterations
  and its stride, outermost loop first.
\<close>

fun nest_addrs :: "(nat \<times> u32) list \<Rightarrow> u32 \<Rightarrow> u32 list" where
  "nest_addrs [] p = [p]"
| "nest_addrs ((b, s) # ls) p = concat (map (\<lambda>i. nest_addrs ls (p + of_nat i * s)) [0..<b])"

lemma digit_mod_weight:
  assumes "k < D"
  shows "digit B k (t mod weight B D) = digit B k t"
proof -
  have "weight B D = weight B k * (B k * (\<Prod>j\<in>{k<..<D}. B j))"
  proof -
    have "prod B {..<D} = prod B ({..<k} \<union> insert k {k<..<D})"
      using assms by (intro prod.cong) auto
    then show ?thesis unfolding weight_def by (subst (asm) prod.union_disjoint) auto
  qed
  then show ?thesis
    unfolding digit_def by (cases "weight B k = 0") (simp_all add: mod_mult2_eq)
qed

lemma nest_addrs_affine:
  assumes pos: "\<And>j. 0 < B j"
  shows "nest_addrs (rev (map (\<lambda>k. (B k, S k)) [0..<D])) p =
    map (\<lambda>t. p + affine B S D t) [0..<weight B D]"
proof (induction D arbitrary: p)
  case 0
  show ?case by (simp add: affine_def)
next
  case (Suc D)
  have w: "0 < weight B D" unfolding weight_def using pos by (simp add: prod_pos)
  have "nest_addrs (rev (map (\<lambda>k. (B k, S k)) [0..<Suc D])) p =
      concat (map (\<lambda>i. map (\<lambda>t. p + of_nat i * S D + affine B S D t) [0..<weight B D]) [0..<B D])"
    using Suc by simp
  also have "\<dots> = map (\<lambda>t. p + of_nat (t div weight B D) * S D + affine B S D (t mod weight B D))
      [0..<B D * weight B D]"
    by (rule nest_concat [OF w])
  also have "\<dots> = map (\<lambda>t. p + affine B S (Suc D) t) [0..<B D * weight B D]"
  proof (intro map_cong refl, goal_cases)
    case (1 t)
    then have "digit B D t = t div weight B D" by (simp add: digit_def less_mult_imp_div_less)
    moreover have "affine B S D (t mod weight B D) = affine B S D t"
      unfolding affine_def by (intro sum.cong) (auto simp: digit_mod_weight)
    ultimately show ?case by (simp add: affine_def)
  qed
  finally show ?case by (simp add: weight_Suc mult.commute)
qed

text \<open>The bounds and strides of a nest, innermost first; loops beyond it run once.\<close>

definition bounds_of :: "u32 list \<Rightarrow> nat \<Rightarrow> nat" where
  "bounds_of bs k = (if k < length bs then unat (bs ! k) else 1)"

definition strides_of :: "u32 list \<Rightarrow> nat \<Rightarrow> u32" where
  "strides_of ss k = (if k < length ss then ss ! k else 0)"

text \<open>A mover that has just been given a job whose registers hold the encoded nest.\<close>

lemma walking_start:
  assumes "length bs = D" "length ss = D" "0 < D" "D \<le> num_loops" "iw W \<le> 32"
    and ok: "\<forall>k<D. loop_ok W (bs ! k) (ss ! k)"
    and regs: "\<forall>k<D. r_bound (act m) k = take_bit (iw W) (bs ! k - 1)"
      "\<forall>k<D. r_stride (act m) k = take_bit (pw W) (encoded (bounds_of bs) (strides_of ss) k AND NOT 7)"
    and job: "\<not> r_done (act m)" "r_dims (act m) = D - 1" "r_ptr (act m) = take_bit (pw W) p"
      "r_done (shd m)" "\<forall>k. idx m k = 0"
  shows "walking W (bounds_of bs) (strides_of ss) D p 0 m"
proof -
  let ?B = "bounds_of bs" and ?S = "strides_of ss"
  have pos: "\<And>k. 0 < ?B k" using assms by (auto simp: bounds_of_def loop_ok_def)
  have al: "8 dvd ?S k" for k using assms by (auto simp: strides_of_def loop_ok_def)
  then have "8 dvd encoded ?B ?S k" for k
    unfolding encoded_def by (intro dvd_diff dvd_sum dvd_mult) auto
  then have "encoded ?B ?S k AND NOT 7 = encoded ?B ?S k" for k by (rule aligned_and_not_7)
  then have "\<forall>k<D. r_stride (act m) k = take_bit (pw W) (encoded ?B ?S k)" using regs(2) by metis
  moreover have "digit ?B k 0 = 0" for k by (simp add: digit_def)
  ultimately show ?thesis
    using assms(1,3-7) job pos bound_reg [OF ok [rule_format]]
    by (simp add: walking_def affine_def) (simp add: bounds_of_def loop_ok_def)
qed

text \<open>A whole job, from the configured registers to the end of the stream.\<close>

lemma stream_of_nest:
  assumes "walking W (bounds_of bs) (strides_of ss) D p 0 m"
  shows "\<exists>m'. mover_run W (weight (bounds_of bs) D) m =
      Some (map (take_bit (pw W))
        (nest_addrs (rev (map (\<lambda>k. (bounds_of bs k, strides_of ss k)) [0..<D])) p), m') \<and>
    r_done (act m') \<and> r_done (shd m')"
proof -
  have pos: "\<And>j. 0 < bounds_of bs j" using assms by (simp add: walking_def)
  then have "0 < weight (bounds_of bs) D" unfolding weight_def by (simp add: prod_pos)
  from walking_run [OF assms this] show ?thesis
    by (simp add: nest_addrs_affine [of "bounds_of bs", OF pos] comp_def)
qed

lemma ssr_upt: "[0..<1] = [0::nat]" "[0..<2] = [0::nat, 1]" "[0..<3] = [0::nat, 1, 2]"
    "[0..<4] = [0::nat, 1, 2, 3]"
  by (simp_all add: upt_rec)

lemma lessThan_small: "{..<0} = ({} :: nat set)" "{..<1} = {0::nat}" "{..<2} = {0::nat, 1}" "{..<3} = {0::nat, 1, 2}"
    "{..<4} = {0::nat, 1, 2, 3}"
  by auto

lemmas ssr_cfg_simps =
  all_less_numeral num_loops_def snrt_ssr_read_def snrt_ssr_write_def snrt_ssr_loop_1d_def
  snrt_ssr_loop_2d_def snrt_ssr_loop_3d_def snrt_ssr_loop_4d_def Let_def mover_write_idle
  mover_idle_def reg_update_def ssr_reg_defs encoded_def lessThan_small bounds_of_def strides_of_def
  loop_bound_word mult.commute add.assoc

lemma loop_1d_walking:
  assumes "loop_ok W b0 s0" "iw W \<le> 32" "mover_idle (movers s (ssr_dm_num dm))"
  shows "walking W (bounds_of [b0]) (strides_of [s0]) 1 p 0
    (movers (snrt_ssr_read W dm SNRT_SSR_1D p (snrt_ssr_loop_1d W dm b0 s0 s)) (ssr_dm_num dm))"
  by (rule walking_start) (use assms in \<open>auto simp: ssr_cfg_simps\<close>)

lemma loop_2d_walking:
  assumes "loop_ok W b0 s0" "loop_ok W b1 s1" "iw W \<le> 32" "mover_idle (movers s (ssr_dm_num dm))"
  shows "walking W (bounds_of [b0, b1]) (strides_of [s0, s1]) 2 p 0
    (movers (snrt_ssr_read W dm SNRT_SSR_2D p (snrt_ssr_loop_2d W dm b0 b1 s0 s1 s)) (ssr_dm_num dm))"
  by (rule walking_start) (use assms in \<open>auto simp: ssr_cfg_simps\<close>)

lemma loop_3d_walking:
  assumes "loop_ok W b0 s0" "loop_ok W b1 s1" "loop_ok W b2 s2" "iw W \<le> 32"
    "mover_idle (movers s (ssr_dm_num dm))"
  shows "walking W (bounds_of [b0, b1, b2]) (strides_of [s0, s1, s2]) 3 p 0
    (movers (snrt_ssr_read W dm SNRT_SSR_3D p (snrt_ssr_loop_3d W dm b0 b1 b2 s0 s1 s2 s))
       (ssr_dm_num dm))"
  by (rule walking_start) (use assms in \<open>auto simp: ssr_cfg_simps\<close>)

lemma loop_4d_walking:
  assumes "loop_ok W b0 s0" "loop_ok W b1 s1" "loop_ok W b2 s2" "loop_ok W b3 s3" "iw W \<le> 32"
    "mover_idle (movers s (ssr_dm_num dm))"
  shows "walking W (bounds_of [b0, b1, b2, b3]) (strides_of [s0, s1, s2, s3]) 4 p 0
    (movers (snrt_ssr_read W dm SNRT_SSR_4D p
       (snrt_ssr_loop_4d W dm b0 b1 b2 b3 s0 s1 s2 s3 s)) (ssr_dm_num dm))"
  by (rule walking_start) (use assms in \<open>auto simp: ssr_cfg_simps\<close>)

section \<open>Properties\<close>

text \<open>
  C18. Programming a data mover with \<open>snrt_ssr_loop_4d\<close> and starting it with
  \<open>snrt_ssr_read\<close> makes the address generator emit, in order, exactly the addresses of
  the four nested loops (innermost \<open>b0\<close>, \<open>s0\<close>) from the pointer on, truncated to the
  pointer width, and then stop, idle again. The bounds must fit the loop counters and
  the strides be multiples of the 8-byte word.
\<close>

theorem snrt_ssr_loop_4d_stream:
  assumes "loop_ok W b0 s0" "loop_ok W b1 s1" "loop_ok W b2 s2" "loop_ok W b3 s3" "iw W \<le> 32"
    "mover_idle (movers s (ssr_dm_num dm))"
  shows "\<exists>m'. mover_run W (unat b0 * unat b1 * unat b2 * unat b3)
      (movers (snrt_ssr_read W dm SNRT_SSR_4D p
         (snrt_ssr_loop_4d W dm b0 b1 b2 b3 s0 s1 s2 s3 s)) (ssr_dm_num dm)) =
    Some (map (take_bit (pw W)) (nest_addrs
      [(unat b3, s3), (unat b2, s2), (unat b1, s1), (unat b0, s0)] p), m') \<and>
    r_done (act m') \<and> r_done (shd m')"
  using stream_of_nest [OF loop_4d_walking [OF assms, of p]]
  by (simp add: weight_def lessThan_small ssr_upt bounds_of_def strides_of_def mult.assoc)

text \<open>The data movers after reset, and the widths of the default cluster.\<close>

definition ssr_reset :: ssr_state where
  "ssr_reset = (let r = \<lparr>r_done = True, r_write = False, r_dims = 0, r_rep = 0, r_bound = \<lambda>_. 0,
       r_stride = \<lambda>_. 0, r_ptr = 0\<rparr>
     in \<lparr>ssr_on = False, movers = \<lambda>_. \<lparr>act = r, shd = r, idx = \<lambda>_. 0\<rparr>\<rparr>)"

definition ssr_default_widths :: ssr_widths where
  "ssr_default_widths = \<lparr>pw = 17, iw = 14, rw = 4\<rparr>"

lemma ssr_reset_idle: "mover_idle (movers ssr_reset d)"
  by (simp add: ssr_reset_def mover_idle_def Let_def)

lemma dvd_8_words: "(8 :: u32) dvd 8" "(8 :: u32) dvd 0x40" "(8 :: u32) dvd 0x100" "(8 :: u32) dvd 0x400"
  using dvd_triv_left [of "8 :: u32" 1] dvd_triv_left [of "8 :: u32" 8] dvd_triv_left [of "8 :: u32" "0x20"]
    dvd_triv_left [of "8 :: u32" "0x80"] by simp_all

theorem snrt_ssr_loop_4d_stream_witness:
  "\<exists>m'. mover_run ssr_default_widths 12
      (movers (snrt_ssr_read ssr_default_widths SNRT_SSR_DM1 SNRT_SSR_4D 0x10000
         (snrt_ssr_loop_4d ssr_default_widths SNRT_SSR_DM1 2 3 1 2 8 0x40 0x100 0x400 ssr_reset)) 1) =
    Some (map (take_bit 17) (nest_addrs [(2, 0x400), (1, 0x100), (3, 0x40), (2, 8)] 0x10000), m') \<and>
    r_done (act m') \<and> r_done (shd m')"
  using snrt_ssr_loop_4d_stream [of ssr_default_widths 2 8 3 "0x40" 1 "0x100" 2 "0x400" ssr_reset
      SNRT_SSR_DM1 "0x10000"]
  by (simp add: loop_ok_def ssr_default_widths_def ssr_reset_idle dvd_8_words)

text \<open>
  The same for the one-, two- and three-dimensional configuration functions with the
  matching start command: the mover emits the addresses of the nest and stops.
\<close>

lemma snrt_ssr_loop_1d_2d_3d_stream:
  assumes "loop_ok W b0 s0" "loop_ok W b1 s1" "loop_ok W b2 s2" "iw W \<le> 32"
    "mover_idle (movers s (ssr_dm_num dm))"
  shows "(\<exists>m'. mover_run W (unat b0) (movers (snrt_ssr_read W dm SNRT_SSR_1D p
        (snrt_ssr_loop_1d W dm b0 s0 s)) (ssr_dm_num dm)) =
      Some (map (take_bit (pw W)) (nest_addrs [(unat b0, s0)] p), m') \<and> r_done (act m')) \<and>
    (\<exists>m'. mover_run W (unat b0 * unat b1) (movers (snrt_ssr_read W dm SNRT_SSR_2D p
        (snrt_ssr_loop_2d W dm b0 b1 s0 s1 s)) (ssr_dm_num dm)) =
      Some (map (take_bit (pw W)) (nest_addrs [(unat b1, s1), (unat b0, s0)] p), m') \<and>
      r_done (act m')) \<and>
    (\<exists>m'. mover_run W (unat b0 * unat b1 * unat b2) (movers (snrt_ssr_read W dm SNRT_SSR_3D p
        (snrt_ssr_loop_3d W dm b0 b1 b2 s0 s1 s2 s)) (ssr_dm_num dm)) =
      Some (map (take_bit (pw W)) (nest_addrs [(unat b2, s2), (unat b1, s1), (unat b0, s0)] p), m') \<and>
      r_done (act m'))"
  using stream_of_nest [OF loop_1d_walking [OF assms(1,4,5), of p]]
    stream_of_nest [OF loop_2d_walking [OF assms(1,2,4,5), of p]]
    stream_of_nest [OF loop_3d_walking [OF assms, of p]]
  by (simp only: weight_def lessThan_small ssr_upt) (auto simp: bounds_of_def strides_of_def mult.assoc)

end
