(* ===== verification/GemmOpt.thy ===== *)
theory GemmOpt
  imports Gemm Ssr
begin

text \<open>
  The optimised double-precision kernel \<open>gemm_fp64_opt\<close> of \<open>sw/blas/gemm/src/gemm_fp64.h\<close>: the elements of \<open>A\<close> and \<open>B\<close>
  arrive through the stream registers \<open>ft0\<close> and \<open>ft1\<close> of two data movers (\<open>Ssr\<close>), and a hardware loop (\<open>frep\<close>) runs eight fused
  multiply-adds per element of \<open>A\<close>.
  The data movers address the TCDM: \<open>T\<close> is its base. A stream element is read from memory when it is first used; the buffer
  between memory and register, which may fetch it earlier, is left out, as nothing that the streams read is written meanwhile.
\<close>

section \<open>Stream registers\<close>

text \<open>
  The data movers of a core and their repetition counters (\<open>hw/snitch_ssr/src/snitch_ssr.sv\<close>): a read of the register
  takes the current element, and moves on after \<open>r_rep + 1\<close> reads. A read of a finished stream never returns.
\<close>

record ssr_core =
  ssr :: ssr_state
  reps :: "nat \<Rightarrow> u32"

definition ft_read :: "ssr_widths \<Rightarrow> ptr \<Rightarrow> nat \<Rightarrow> mem \<Rightarrow> ssr_core \<Rightarrow> (f64 \<times> ssr_core) option" where
  "ft_read W T dm m x =
     (let mv = movers (ssr x) dm
      in if reps x dm = r_rep (act mv) then
           map_option (\<lambda>(a, mv'). (load64 (T + a) m,
             x\<lparr>ssr := (ssr x)\<lparr>movers := (movers (ssr x))(dm := mv')\<rparr>, reps := (reps x)(dm := 0)\<rparr>)) (mover_step W mv)
         else if r_done (act mv) then None
         else Some (load64 (T + r_ptr (act mv)) m, x\<lparr>reps := (reps x)(dm := reps x dm + 1)\<rparr>))"

section \<open>The kernel\<close>

text \<open>\<open>fmadd.d c, ft0, ft1, c\<close> on accumulator \<open>i\<close>, and the hardware loop: \<open>n_frep + 1\<close> rounds over \<open>unroll\<close> instructions.\<close>

definition unroll :: u32 where "unroll = 8"

definition fmadd_ft :: "ssr_widths \<Rightarrow> ptr \<Rightarrow> fp_ops \<Rightarrow> mem \<Rightarrow> nat \<Rightarrow> (nat \<Rightarrow> f64) \<times> ssr_core \<Rightarrow> ((nat \<Rightarrow> f64) \<times> ssr_core) option" where
  "fmadd_ft W T F m i = (\<lambda>(c, x). Option.bind (ft_read W T 0 m x) (\<lambda>(a, x). Option.bind (ft_read W T 1 m x) (\<lambda>(b, x).
     Some (c(i := fmadd F a b (c i)), x))))"

definition frep_fmadd :: "ssr_widths \<Rightarrow> ptr \<Rightarrow> fp_ops \<Rightarrow> mem \<Rightarrow> u32 \<Rightarrow> (nat \<Rightarrow> f64) \<times> ssr_core \<Rightarrow> ((nat \<Rightarrow> f64) \<times> ssr_core) option" where
  "frep_fmadd W T F m n_frep cx =
     for_upto (Suc (unat n_frep)) (\<lambda>_ r. for_upto (unat unroll) (\<lambda>i r. Option.bind r (fmadd_ft W T F m i)) r) (Some cx)"

definition opt_setup :: "ssr_widths \<Rightarrow> u32 \<Rightarrow> u32 \<Rightarrow> u32 \<Rightarrow> u32 \<Rightarrow> bool \<Rightarrow> u32 \<Rightarrow> bool \<Rightarrow> ssr_state \<Rightarrow> ssr_state" where
  "opt_setup W M N K ldA ta ldB tb s =
     (let s = (if ta then snrt_ssr_repeat W SNRT_SSR_DM0 unroll
                 (snrt_ssr_loop_3d W SNRT_SSR_DM0 K (N div unroll) M (8 * ldA) 0 (8 * 8) s)
               else snrt_ssr_repeat W SNRT_SSR_DM0 unroll
                 (snrt_ssr_loop_3d W SNRT_SSR_DM0 K (N div unroll) M 8 0 (8 * ldA) s))
      in if tb then snrt_ssr_loop_4d W SNRT_SSR_DM1 unroll K (N div unroll) M (8 * ldB) 8 (8 * ldB * unroll) 0 s
         else snrt_ssr_loop_4d W SNRT_SSR_DM1 unroll K (N div unroll) M 8 (8 * ldB) (8 * unroll) 0 s)"

text \<open>Eight columns of row \<open>m\<close>, from column \<open>n\<close> on.\<close>

definition opt_block ::
  "ssr_widths \<Rightarrow> ptr \<Rightarrow> fp_ops \<Rightarrow> u32 \<Rightarrow> ptr \<Rightarrow> u32 \<Rightarrow> u32 \<Rightarrow> u32 \<Rightarrow> u32 \<Rightarrow> ssr_core \<times> mem \<Rightarrow> (ssr_core \<times> mem) option" where
  "opt_block W T F K C ldC BETA m n = (\<lambda>(x, mm).
     let c = (\<lambda>i. if BETA \<noteq> 0 then load64 (dbl C (m * ldC + n + of_nat i)) mm else f64_0)
     in map_option (\<lambda>(c, x). (x, for_upto (unat unroll) (\<lambda>i mm. store64 (dbl C (m * ldC + n + of_nat i)) (c i) mm) mm))
          (frep_fmadd W T F mm (K - 1) (c, x)))"

text \<open>The leftover columns of row \<open>m\<close>.\<close>

definition opt_leftover ::
  "fp_ops \<Rightarrow> u32 \<Rightarrow> u32 \<Rightarrow> ptr \<Rightarrow> u32 \<Rightarrow> ptr \<Rightarrow> u32 \<Rightarrow> ptr \<Rightarrow> u32 \<Rightarrow> u32 \<Rightarrow> u32 \<Rightarrow> mem \<Rightarrow> mem" where
  "opt_leftover F N K A ldA B ldB C ldC BETA m mm =
     fold (\<lambda>n mm.
       let c = (if BETA \<noteq> 0 then load64 (dbl C (m * ldC + of_nat n)) mm else f64_0);
           c = for_upto (unat K) (\<lambda>k c. fadd F c (fmul F (load64 (dbl A (of_nat k + m * ldA)) mm) (load64 (dbl B (of_nat k + of_nat n * ldB)) mm))) c
       in store64 (dbl C (m * ldC + of_nat n)) c mm) [unat (N div unroll) * unat unroll..<unat N] mm"

definition gemm_fp64_opt ::
  "ssr_widths \<Rightarrow> ptr \<Rightarrow> fp_ops \<Rightarrow> u32 \<Rightarrow> u32 \<Rightarrow> u32 \<Rightarrow> ptr \<Rightarrow> u32 \<Rightarrow> bool \<Rightarrow> ptr \<Rightarrow> u32 \<Rightarrow> bool \<Rightarrow> ptr \<Rightarrow> u32 \<Rightarrow> u32 \<Rightarrow> bool \<Rightarrow>
     ssr_core \<times> mem \<Rightarrow> (ssr_core \<times> mem) option" where
  "gemm_fp64_opt W T F M N K A ldA ta B ldB tb C ldC BETA setup_SSR = (\<lambda>(x, mm).
     let s = (if setup_SSR then opt_setup W M N K ldA ta ldB tb (ssr x) else ssr x);
         s = snrt_ssr_read W SNRT_SSR_DM0 SNRT_SSR_4D A s;
         s = snrt_ssr_read W SNRT_SSR_DM1 SNRT_SSR_4D B s;
         s = snrt_ssr_enable s
     in map_option (\<lambda>(x, mm). (x\<lparr>ssr := snrt_ssr_disable (ssr x)\<rparr>, mm))
          (for_upto (unat M) (\<lambda>m r.
             map_option (\<lambda>(x, mm). (x\<lparr>ssr := snrt_ssr_enable (snrt_ssr_disable (ssr x))\<rparr>,
                 opt_leftover F N K A ldA B ldB C ldC BETA (of_nat m) mm))
               (for_upto (unat (N div unroll)) (\<lambda>n0 r. Option.bind r (opt_block W T F K C ldC BETA (of_nat m) (of_nat n0 * unroll))) r))
             (Some (x\<lparr>ssr := s\<rparr>, mm))))"

section \<open>Streams by position\<close>

text \<open>The address of element \<open>t\<close> of a stream, and a mover before its element \<open>t\<close> (or at its end).\<close>

definition stream_addr :: "ssr_widths \<Rightarrow> (nat \<Rightarrow> nat) \<Rightarrow> (nat \<Rightarrow> u32) \<Rightarrow> nat \<Rightarrow> u32 \<Rightarrow> nat \<Rightarrow> u32" where
  "stream_addr W B S D p t = take_bit (pw W) (p + affine B S D t)"

definition stream_at :: "ssr_widths \<Rightarrow> (nat \<Rightarrow> nat) \<Rightarrow> (nat \<Rightarrow> u32) \<Rightarrow> nat \<Rightarrow> u32 \<Rightarrow> u32 \<Rightarrow> nat \<Rightarrow> ssr_mover \<Rightarrow> bool" where
  "stream_at W B S D p \<rho> t mv \<longleftrightarrow>
     (if t < weight B D then walking W B S D p t mv \<and> r_rep (act mv) = \<rho> else r_done (act mv) \<and> r_done (shd mv))"

lemma stream_at_head:
  assumes "stream_at W B S D p \<rho> t mv" "t < weight B D"
  shows "\<not> r_done (act mv)" "r_ptr (act mv) = stream_addr W B S D p t" "r_rep (act mv) = \<rho>"
  using assms by (auto simp: stream_at_def walking_def stream_addr_def)

lemma mover_step_rep:
  assumes "mover_step W mv = Some (a, mv')" "\<not> r_done (act mv')"  "r_done (shd mv)"
  shows "r_rep (act mv') = r_rep (act mv)"
  using assms by (auto simp: mover_step_def mover_load_def Let_def split: if_splits)

lemma stream_at_step:
  assumes at: "stream_at W B S D p \<rho> t mv" and t: "t < weight B D"
  shows "\<exists>mv'. mover_step W mv = Some (stream_addr W B S D p t, mv') \<and> stream_at W B S D p \<rho> (Suc t) mv'"
proof -
  have w: "walking W B S D p t mv" "r_rep (act mv) = \<rho>" using at t by (auto simp: stream_at_def)
  show ?thesis
  proof (cases "Suc t < weight B D")
    case True
    obtain mv' where mv': "mover_step W mv = Some (take_bit (pw W) (p + affine B S D t), mv')" "walking W B S D p (Suc t) mv'"
      using walking_step [OF w(1) True] by blast
    moreover have "r_rep (act mv') = \<rho>" using mover_step_rep [OF mv'(1)] mv'(2) w by (auto simp: walking_def)
    ultimately show ?thesis using True by (auto simp: stream_at_def stream_addr_def)
  next
    case False
    then have "Suc t = weight B D" using t by simp
    from walking_step_last [OF w(1) this] this show ?thesis by (auto simp: stream_at_def stream_addr_def)
  qed
qed

section \<open>Two streams in step\<close>

text \<open>
  The loop nests of the two streams, innermost loop first: \<open>A\<close> by the inner dimension, the blocks of eight columns (without moving)
  and the rows; \<open>B\<close> by the eight columns, the inner dimension, the blocks and the rows. The fourth loop of the first stream
  is left from an earlier configuration and runs once.
\<close>

definition bounds_a :: "nat \<Rightarrow> nat \<Rightarrow> nat \<Rightarrow> nat \<Rightarrow> nat" where
  "bounds_a M N8 K k = (if k = 0 then K else if k = 1 then N8 else if k = 2 then M else 1)"

definition strides_a :: "u32 \<Rightarrow> u32 \<Rightarrow> nat \<Rightarrow> u32" where
  "strides_a ldA s3 k = (if k = 0 then 8 else if k = 1 then 0 else if k = 2 then 8 * ldA else if k = 3 then s3 else 0)"

definition bounds_b :: "nat \<Rightarrow> nat \<Rightarrow> nat \<Rightarrow> nat \<Rightarrow> nat" where
  "bounds_b M N8 K k = (if k = 0 then 8 else if k = 1 then K else if k = 2 then N8 else if k = 3 then M else 1)"

definition strides_b :: "u32 \<Rightarrow> nat \<Rightarrow> u32" where
  "strides_b ldB k = (if k = 0 then 8 else if k = 1 then 8 * ldB else if k = 2 then 64 else 0)"

lemma weight_ab: "weight (bounds_a M N8 K) 4 = M * N8 * K" "weight (bounds_b M N8 K) 4 = M * N8 * K * 8"
  by (simp_all add: weight_def lessThan_small bounds_a_def bounds_b_def)

lemma digit_split:
  fixes K t k :: nat
  assumes "k < K" shows "(t * K + k) mod K = k" "(t * K + k) div K = t"
  using assms by simp_all

lemma affine_a:
  assumes "m < M" "n < N8" "k < K"
  shows "affine (bounds_a M N8 K) (strides_a ldA s3) 4 ((m * N8 + n) * K + k) = of_nat k * 8 + of_nat m * (8 * ldA)"
proof -
  let ?t = "(m * N8 + n) * K + k"
  have "?t mod K = k" "?t div K = m * N8 + n" using digit_split [OF assms(3)] by auto
  moreover have "(m * N8 + n) mod N8 = n" "(m * N8 + n) div N8 = m" using digit_split [OF assms(2)] by auto
  moreover have "?t div (K * N8) = m" using calculation by (simp add: div_mult2_eq)
  moreover have "?t div (K * N8 * M) = 0" using calculation assms(1) by (simp add: div_mult2_eq)
  ultimately show ?thesis using assms(1)
    by (simp add: affine_def lessThan_small digit_def weight_def bounds_a_def strides_a_def ac_simps)
qed

lemma affine_b:
  assumes "m < M" "n < N8" "k < K" "i < 8"
  shows "affine (bounds_b M N8 K) (strides_b ldB) 4 (((m * N8 + n) * K + k) * 8 + i) =
    of_nat i * 8 + of_nat k * (8 * ldB) + of_nat n * 64"
proof -
  let ?t = "((m * N8 + n) * K + k) * 8 + i"
  have "?t mod 8 = i" and d1: "?t div 8 = (m * N8 + n) * K + k" by (rule digit_split [OF assms(4)])+
  moreover have "((m * N8 + n) * K + k) mod K = k" and d2: "((m * N8 + n) * K + k) div K = m * N8 + n" using digit_split [OF assms(3)] by auto
  moreover have "(m * N8 + n) mod N8 = n" using digit_split [OF assms(2)] by auto
  moreover have "?t div (8 * K) = m * N8 + n" using d1 d2 by (simp add: div_mult2_eq)
  ultimately show ?thesis
    by (simp add: affine_def lessThan_small digit_def weight_def bounds_b_def strides_b_def ac_simps)
qed

text \<open>The core before its product number \<open>u\<close>: every element of \<open>A\<close> serves eight products.\<close>

definition lanes :: "ssr_widths \<Rightarrow> nat \<Rightarrow> nat \<Rightarrow> nat \<Rightarrow> ptr \<Rightarrow> u32 \<Rightarrow> u32 \<Rightarrow> ptr \<Rightarrow> u32 \<Rightarrow> nat \<Rightarrow> ssr_core \<Rightarrow> bool" where
  "lanes W M N8 K A ldA s3 B ldB u x \<longleftrightarrow>
     stream_at W (bounds_a M N8 K) (strides_a ldA s3) 4 A 7 (u div 8) (movers (ssr x) 0) \<and> reps x 0 = of_nat (u mod 8) \<and>
     stream_at W (bounds_b M N8 K) (strides_b ldB) 4 B 0 u (movers (ssr x) 1) \<and> reps x 1 = 0"

lemma lanes_step:
  assumes l: "lanes W M N8 K A ldA s3 B ldB u x" and u: "u < M * N8 * K * 8"
  shows "\<exists>x' x''. ft_read W T 0 m x = Some (load64 (T + stream_addr W (bounds_a M N8 K) (strides_a ldA s3) 4 A (u div 8)) m, x') \<and>
    ft_read W T 1 m x' = Some (load64 (T + stream_addr W (bounds_b M N8 K) (strides_b ldB) 4 B u) m, x'') \<and>
    lanes W M N8 K A ldA s3 B ldB (Suc u) x''"
proof -
  let ?a = "stream_at W (bounds_a M N8 K) (strides_a ldA s3) 4 A 7" and ?b = "stream_at W (bounds_b M N8 K) (strides_b ldB) 4 B 0"
  have la: "?a (u div 8) (movers (ssr x) 0)" "reps x 0 = of_nat (u mod 8)" and lb: "?b u (movers (ssr x) 1)" "reps x 1 = 0"
    using l by (auto simp: lanes_def)
  have t: "u div 8 < weight (bounds_a M N8 K) 4" "u < weight (bounds_b M N8 K) 4"
    using u by (simp_all add: weight_ab less_mult_imp_div_less)
  note ha = stream_at_head [OF la(1) t(1)] and hb = stream_at_head [OF lb(1) t(2)]
  obtain mb where mb: "mover_step W (movers (ssr x) 1) = Some (stream_addr W (bounds_b M N8 K) (strides_b ldB) 4 B u, mb)" "?b (Suc u) mb"
    using stream_at_step [OF lb(1) t(2)] by blast
  show ?thesis
  proof (cases "u mod 8 = 7")
    case True
    obtain ma where ma: "mover_step W (movers (ssr x) 0) = Some (stream_addr W (bounds_a M N8 K) (strides_a ldA s3) 4 A (u div 8), ma)"
        "?a (Suc (u div 8)) ma" using stream_at_step [OF la(1) t(1)] by blast
    have "Suc u div 8 = Suc (u div 8)" "Suc u mod 8 = 0" using True by (auto simp: div_Suc mod_Suc)
    then show ?thesis using True ma mb la lb ha hb by (auto simp: ft_read_def lanes_def Let_def)
  next
    case False
    have "(of_nat (u mod 8) :: u32) \<noteq> 7"
      using of_nat_inject_small [of "u mod 8" 7, where 'a = 32] False by simp
    moreover have "Suc u div 8 = u div 8" "Suc u mod 8 = Suc (u mod 8)" using False by (auto simp: div_Suc mod_Suc)
    ultimately show ?thesis using mb la lb ha hb by (auto simp: ft_read_def lanes_def Let_def add.commute)
  qed
qed

text \<open>One fused multiply-add of the block \<open>(m, n)\<close>: round \<open>k\<close>, accumulator \<open>i\<close>.\<close>

definition product_no :: "nat \<Rightarrow> nat \<Rightarrow> nat \<Rightarrow> nat \<Rightarrow> nat \<Rightarrow> nat \<Rightarrow> nat" where
  "product_no N8 K m n k i = ((m * N8 + n) * K + k) * 8 + i"

text \<open>The data movers reach the \<open>n\<close> doubles at \<open>p\<close>.\<close>

definition in_tcdm :: "ssr_widths \<Rightarrow> ptr \<Rightarrow> ptr \<Rightarrow> nat \<Rightarrow> bool" where
  "in_tcdm W T p n \<longleftrightarrow> (\<forall>i < n. T + take_bit (pw W) (dbl p (of_nat i)) = dbl p (of_nat i))"

lemma fmadd_ft_step:
  assumes l: "lanes W M N8 K A ldA s3 B ldB (product_no N8 K m n k i) x"
    and b: "m < M" "n < N8" "k < K" "i < 8"
    and A: "in_tcdm W T A (M * unat ldA)" "K \<le> unat ldA" and B: "in_tcdm W T B (K * unat ldB)" "N8 * 8 \<le> unat ldB"
  shows "\<exists>x'. fmadd_ft W T F mm i (c, x) =
      Some (c(i := fmadd F (elt mm A (m * unat ldA + k)) (elt mm B (k * unat ldB + (n * 8 + i))) (c i)), x') \<and>
    lanes W M N8 K A ldA s3 B ldB (Suc (product_no N8 K m n k i)) x'"
proof -
  let ?u = "product_no N8 K m n k i"
  have ud: "?u div 8 = (m * N8 + n) * K + k" using b(4) by (simp add: product_no_def)
  have t: "(m * N8 + n) * K + k < M * N8 * K" using b by (intro row_major_less) auto
  then have u: "?u < M * N8 * K * 8" unfolding product_no_def using b(4) by (rule row_major_less)
  have la: "m * unat ldA + k < M * unat ldA" using b A(2) by (intro row_major_less) auto
  have "n * 8 + i < N8 * 8" using b by (intro row_major_less) auto
  then have lb: "k * unat ldB + (n * 8 + i) < K * unat ldB" using b B(2) by (intro row_major_less) auto
  have "A + affine (bounds_a M N8 K) (strides_a ldA s3) 4 ((m * N8 + n) * K + k) = dbl A (of_nat (m * unat ldA + k))"
    unfolding affine_a [OF b(1,2,3)] by (simp add: dbl_def algebra_simps)
  then have a: "T + stream_addr W (bounds_a M N8 K) (strides_a ldA s3) 4 A (?u div 8) = dbl A (of_nat (m * unat ldA + k))"
    using A(1) la unfolding ud stream_addr_def in_tcdm_def by metis
  have "B + affine (bounds_b M N8 K) (strides_b ldB) 4 ?u = dbl B (of_nat (k * unat ldB + (n * 8 + i)))"
    unfolding product_no_def affine_b [OF b] by (simp add: dbl_def algebra_simps)
  then have bb: "T + stream_addr W (bounds_b M N8 K) (strides_b ldB) 4 B ?u = dbl B (of_nat (k * unat ldB + (n * 8 + i)))"
    using B(1) lb unfolding stream_addr_def in_tcdm_def by metis
  from lanes_step [OF l u, of T mm] show ?thesis
    unfolding a bb fmadd_ft_def elt_def by auto
qed

section \<open>The hardware loop\<close>

definition fma_acc :: "fp_ops \<Rightarrow> nat \<Rightarrow> (nat \<Rightarrow> f64) \<Rightarrow> (nat \<Rightarrow> f64) \<Rightarrow> f64 \<Rightarrow> f64" where
  "fma_acc F K a b c = for_upto K (\<lambda>k c. fmadd F (a k) (b k) c) c"

lemma fma_acc_Suc: "fma_acc F (Suc K) a b c = fmadd F (a K) (b K) (fma_acc F K a b c)"
  by (simp add: fma_acc_def for_upto_Suc)

lemma fma_acc_cong:
  assumes "\<And>k. k < K \<Longrightarrow> a k = a' k" "\<And>k. k < K \<Longrightarrow> b k = b' k"
  shows "fma_acc F K a b c = fma_acc F K a' b' c"
  unfolding fma_acc_def by (rule for_upto_cong) (simp add: assms)

lemma frep_round:
  assumes l: "lanes W M N8 K A ldA s3 B ldB (product_no N8 K m n k 0) x" and b: "m < M" "n < N8" "k < K"
    and A: "in_tcdm W T A (M * unat ldA)" "K \<le> unat ldA" and B: "in_tcdm W T B (K * unat ldB)" "N8 * 8 \<le> unat ldB"
  shows "\<exists>c' x'. for_upto 8 (\<lambda>i r. Option.bind r (fmadd_ft W T F mm i)) (Some (c, x)) = Some (c', x') \<and>
    (\<forall>i < 8. c' i = fmadd F (elt mm A (m * unat ldA + k)) (elt mm B (k * unat ldB + (n * 8 + i))) (c i)) \<and>
    lanes W M N8 K A ldA s3 B ldB (product_no N8 K m n (Suc k) 0) x'"
proof -
  define P where "P i r \<longleftrightarrow> (\<exists>c' x'. r = Some (c', x') \<and>
    (\<forall>j < 8. c' j = (if j < i then fmadd F (elt mm A (m * unat ldA + k)) (elt mm B (k * unat ldB + (n * 8 + j))) (c j) else c j)) \<and>
    lanes W M N8 K A ldA s3 B ldB (product_no N8 K m n k i) x')" for i :: nat and r
  have "P 8 (for_upto 8 (\<lambda>i r. Option.bind r (fmadd_ft W T F mm i)) (Some (c, x)))"
  proof (rule for_upto_invariant)
    show "P 0 (Some (c, x))" using l by (simp add: P_def)
    fix i r assume i: "i < (8 :: nat)" and "P i r"
    then obtain c' x' where r: "r = Some (c', x')" "\<forall>j < 8. c' j = (if j < i then fmadd F (elt mm A (m * unat ldA + k)) (elt mm B (k * unat ldB + (n * 8 + j))) (c j) else c j)"
        "lanes W M N8 K A ldA s3 B ldB (product_no N8 K m n k i) x'" by (auto simp: P_def)
    have "Suc (product_no N8 K m n k i) = product_no N8 K m n k (Suc i)" by (simp add: product_no_def)
    with fmadd_ft_step [OF r(3) b i A B, of F mm c'] r(1,2) i show "P (Suc i) (Option.bind r (fmadd_ft W T F mm i))"
      by (auto simp: P_def less_Suc_eq)
  qed
  moreover have "product_no N8 K m n k 8 = product_no N8 K m n (Suc k) 0" by (simp add: product_no_def)
  ultimately show ?thesis by (auto simp: P_def)
qed

lemma frep_result:
  assumes l: "lanes W M N8 (unat K) A ldA s3 B ldB (product_no N8 (unat K) m n 0 0) x" and b: "m < M" "n < N8" and K: "0 < K"
    and A: "in_tcdm W T A (M * unat ldA)" "unat K \<le> unat ldA" and B: "in_tcdm W T B (unat K * unat ldB)" "N8 * 8 \<le> unat ldB"
  shows "\<exists>c' x'. frep_fmadd W T F mm (K - 1) (c, x) = Some (c', x') \<and>
    (\<forall>i < 8. c' i = fma_acc F (unat K) (\<lambda>k. elt mm A (m * unat ldA + k)) (\<lambda>k. elt mm B (k * unat ldB + (n * 8 + i))) (c i)) \<and>
    lanes W M N8 (unat K) A ldA s3 B ldB (product_no N8 (unat K) m (Suc n) 0 0) x'"
proof -
  define P where "P k r \<longleftrightarrow> (\<exists>c' x'. r = Some (c', x') \<and>
    (\<forall>i < 8. c' i = fma_acc F k (\<lambda>k. elt mm A (m * unat ldA + k)) (\<lambda>k. elt mm B (k * unat ldB + (n * 8 + i))) (c i)) \<and>
    lanes W M N8 (unat K) A ldA s3 B ldB (product_no N8 (unat K) m n k 0) x')" for k r
  have "P (unat K) (for_upto (unat K) (\<lambda>_ r. for_upto 8 (\<lambda>i r. Option.bind r (fmadd_ft W T F mm i)) r) (Some (c, x)))"
  proof (rule for_upto_invariant)
    show "P 0 (Some (c, x))" using l by (simp add: P_def fma_acc_def)
    fix k r assume k: "k < unat K" and "P k r"
    then obtain c' x' where r: "r = Some (c', x')"
        "\<forall>i < 8. c' i = fma_acc F k (\<lambda>k. elt mm A (m * unat ldA + k)) (\<lambda>k. elt mm B (k * unat ldB + (n * 8 + i))) (c i)"
        "lanes W M N8 (unat K) A ldA s3 B ldB (product_no N8 (unat K) m n k 0) x'" by (auto simp: P_def)
    from frep_round [OF r(3) b k A B, of F mm c'] r(2) show "P (Suc k) (for_upto 8 (\<lambda>i r. Option.bind r (fmadd_ft W T F mm i)) r)"
      unfolding P_def r(1) by (auto simp: fma_acc_Suc)
  qed
  moreover have "Suc (unat (K - 1)) = unat K"
    using K by (simp add: unat_sub_if' word_less_nat_alt)
  moreover have "product_no N8 (unat K) m n (unat K) 0 = product_no N8 (unat K) m (Suc n) 0 0" by (simp add: product_no_def)
  ultimately show ?thesis by (auto simp: P_def frep_fmadd_def unroll_def)
qed

section \<open>Blocks\<close>

text \<open>The value that the kernel gives to element \<open>(i, j)\<close>.\<close>

definition opt_elem :: "fp_ops \<Rightarrow> u32 \<Rightarrow> nat \<Rightarrow> ptr \<Rightarrow> nat \<Rightarrow> ptr \<Rightarrow> nat \<Rightarrow> ptr \<Rightarrow> nat \<Rightarrow> mem \<Rightarrow> nat \<Rightarrow> nat \<Rightarrow> f64" where
  "opt_elem F BETA K A lda B ldb C ldc m i j =
     fma_acc F K (\<lambda>k. elt m A (i * lda + k)) (\<lambda>k. elt m B (k * ldb + j)) (if BETA \<noteq> 0 then elt m C (i * ldc + j) else f64_0)"

lemma stores_effect:
  fixes c :: "nat \<Rightarrow> f64" and mm :: mem
  assumes C: "holds C n" and b: "b + 8 \<le> n"
  defines "m' \<equiv> for_upto 8 (\<lambda>i mm. store64 (dbl C (of_nat (b + i))) (c i) mm) mm"
  shows "y \<notin> span C (8 * n) \<Longrightarrow> m' y = mm y"
    and "j < n \<Longrightarrow> elt m' C j = (if b \<le> j \<and> j < b + 8 then c (j - b) else elt mm C j)"
proof -
  show "m' y = mm y" if "y \<notin> span C (8 * n)"
    unfolding m'_def by (rule for_upto_invariant [where P = "\<lambda>_ m. m y = mm y"]) (use store64_frame [OF C _ that] b in \<open>simp_all del: of_nat_add\<close>)
  show "elt m' C j = (if b \<le> j \<and> j < b + 8 then c (j - b) else elt mm C j)" if j: "j < n"
    unfolding m'_def
  proof (rule for_upto_invariant [where P = "\<lambda>i m. elt m C j = (if b \<le> j \<and> j < b + i then c (j - b) else elt mm C j)"])
    fix i m assume "i < (8 :: nat)" and IH: "elt m C j = (if b \<le> j \<and> j < b + i then c (j - b) else elt mm C j)"
    then have "b + i < n" using b by simp
    from elt_store64 [OF C this j] IH
    show "elt (store64 (dbl C (of_nat (b + i))) (c i) m) C j = (if b \<le> j \<and> j < b + Suc i then c (j - b) else elt mm C j)"
      by (auto simp del: of_nat_add)
  qed auto
qed

lemma opt_block_result:
  assumes l: "lanes W M N8 (unat K) A ldA s3 B ldB (product_no N8 (unat K) m n 0 0) x" and b: "m < M" "n < N8" and K: "0 < K"
    and A: "in_tcdm W T A (M * unat ldA)" "unat K \<le> unat ldA" and B: "in_tcdm W T B (unat K * unat ldB)" "N8 * 8 \<le> unat ldB"
    and C: "holds C (M * unat ldC)" "N8 * 8 \<le> unat ldC"
  shows "\<exists>x' m'. opt_block W T F K C ldC BETA (of_nat m) (of_nat n * unroll) (x, mm) = Some (x', m') \<and>
    lanes W M N8 (unat K) A ldA s3 B ldB (product_no N8 (unat K) m (Suc n) 0 0) x' \<and>
    (\<forall>y. y \<notin> span C (8 * (M * unat ldC)) \<longrightarrow> m' y = mm y) \<and>
    (\<forall>i < M. \<forall>j < unat ldC. elt m' C (i * unat ldC + j) =
       (if i = m \<and> j div 8 = n then opt_elem F BETA (unat K) A (unat ldA) B (unat ldB) C (unat ldC) mm i j else elt mm C (i * unat ldC + j)))"
proof -
  let ?b = "m * unat ldC + n * 8"
  let ?c = "\<lambda>i. if BETA \<noteq> 0 then load64 (dbl C (of_nat m * ldC + of_nat n * unroll + of_nat i)) mm else f64_0"
  have idx: "dbl C (of_nat m * ldC + of_nat n * unroll + of_nat i) = dbl C (of_nat (?b + i))" for i by (simp add: unroll_def)
  have c: "?c i = (if BETA \<noteq> 0 then elt mm C (?b + i) else f64_0)" for i unfolding idx elt_def ..
  obtain c' x' where f: "frep_fmadd W T F mm (K - 1) (?c, x) = Some (c', x')"
      "\<And>i. i < 8 \<Longrightarrow> c' i = fma_acc F (unat K) (\<lambda>k. elt mm A (m * unat ldA + k)) (\<lambda>k. elt mm B (k * unat ldB + (n * 8 + i))) (?c i)"
      "lanes W M N8 (unat K) A ldA s3 B ldB (product_no N8 (unat K) m (Suc n) 0 0) x'"
    using frep_result [OF l b K A B, of F mm ?c] by blast
  define m' where "m' = for_upto 8 (\<lambda>i mm. store64 (dbl C (of_nat (?b + i))) (c' i) mm) mm"
  have "n * 8 + 8 \<le> unat ldC" using b(2) C(2) by linarith
  moreover have "Suc m * unat ldC \<le> M * unat ldC" using b(1) by (intro mult_right_mono) auto
  ultimately have fit: "?b + 8 \<le> M * unat ldC" by simp
  note st = stores_effect [OF C(1) fit, where c = c' and mm = mm, folded m'_def]
  have "elt m' C (i * unat ldC + j) =
      (if i = m \<and> j div 8 = n then opt_elem F BETA (unat K) A (unat ldA) B (unat ldB) C (unat ldC) mm i j else elt mm C (i * unat ldC + j))"
    if ij: "i < M" "j < unat ldC" for i j
  proof (cases "i = m \<and> j div 8 = n")
    case True
    then have j: "j = n * 8 + j mod 8" "j mod 8 < 8" by auto
    then have e: "i * unat ldC + j = ?b + j mod 8" using True by simp
    have "elt m' C (i * unat ldC + j) = c' (j mod 8)" using st(2) [OF row_major_less [OF ij]] unfolding e by simp
    also have "\<dots> = opt_elem F BETA (unat K) A (unat ldA) B (unat ldB) C (unat ldC) mm i j"
      unfolding f(2) [OF j(2)] c e [symmetric] j(1) [symmetric] opt_elem_def using True by simp
    finally show ?thesis using True by simp
  next
    case False
    have "\<not> (?b \<le> i * unat ldC + j \<and> i * unat ldC + j < ?b + 8)"
    proof
      assume a: "?b \<le> i * unat ldC + j \<and> i * unat ldC + j < ?b + 8"
      define r where "r = i * unat ldC + j - ?b"
      have r: "r < 8" "i * unat ldC + j = m * unat ldC + (n * 8 + r)" using a by (auto simp: r_def)
      moreover have "n * 8 + r < unat ldC" using r(1) \<open>n * 8 + 8 \<le> unat ldC\<close> by linarith
      ultimately have "i = m \<and> j = n * 8 + r" using row_major_inject [of j "unat ldC" "n * 8 + r" "unat ldC" i m] ij by simp
      then show False using False r(1) by simp
    qed
    then show ?thesis using st(2) [OF row_major_less [OF ij]] False by auto
  qed
  moreover have "opt_block W T F K C ldC BETA (of_nat m) (of_nat n * unroll) (x, mm) = Some (x', m')"
    unfolding opt_block_def Let_def prod.case f(1) unfolding idx m'_def by (simp add: unroll_def)
  ultimately show ?thesis using f(3) st(1) by blast
qed

section \<open>Starting the streams\<close>

text \<open>
  The data movers before the kernel: idle, at the start of an element, the second one not repeating. The fourth loop of the first
  one, which the kernel does not configure, must be one that runs once.
\<close>

definition ssr_ready :: "ssr_widths \<Rightarrow> ssr_core \<Rightarrow> bool" where
  "ssr_ready W x \<longleftrightarrow> (let a = movers (ssr x) 0; b = movers (ssr x) 1
     in mover_idle a \<and> mover_idle b \<and> reps x 0 = 0 \<and> reps x 1 = 0 \<and> r_rep (shd b) = 0 \<and>
        r_bound (shd a) 3 = 0 \<and> 8 dvd r_stride (shd a) 3 \<and> take_bit (pw W) (r_stride (shd a) 3) = r_stride (shd a) 3)"

text \<open>Sizes that the loop counters can hold.\<close>

definition opt_sizes :: "ssr_widths \<Rightarrow> u32 \<Rightarrow> u32 \<Rightarrow> u32 \<Rightarrow> bool" where
  "opt_sizes W M N K \<longleftrightarrow> 3 \<le> iw W \<and> iw W \<le> 32 \<and> 3 \<le> rw W \<and> 0 < unat M \<and> unat M \<le> 2 ^ iw W \<and> 0 < unat K \<and> unat K \<le> 2 ^ iw W \<and>
     8 dvd unat N \<and> 0 < unat N \<and> unat N div 8 \<le> 2 ^ iw W"

lemma movers_write_other [simp]: "dm \<noteq> 31 \<Longrightarrow> d \<noteq> dm \<Longrightarrow> movers (write_ssr_cfg W reg dm v s) d = movers s d"
  by (simp add: write_ssr_cfg_def)

lemma setup_mover_a:
  assumes a: "mover_idle (movers s 0)" and stale: "r_bound (shd (movers s 0)) 3 = 0" "8 dvd r_stride (shd (movers s 0)) 3"
      "take_bit (pw W) (r_stride (shd (movers s 0)) 3) = r_stride (shd (movers s 0)) 3"
    and ok: "loop_ok W K 8" "loop_ok W N8 0" "loop_ok W M (8 * ldA)" "iw W \<le> 32" and rw: "3 \<le> rw W"
  shows "\<exists>s3. walking W (bounds_of [K, N8, M, 1]) (strides_of [8, 0, 8 * ldA, s3]) 4 p 0
      (movers (snrt_ssr_read W SNRT_SSR_DM0 SNRT_SSR_4D p (snrt_ssr_repeat W SNRT_SSR_DM0 8
        (snrt_ssr_loop_3d W SNRT_SSR_DM0 K N8 M 8 0 (8 * ldA) s))) 0) \<and>
    r_rep (act (movers (snrt_ssr_read W SNRT_SSR_DM0 SNRT_SSR_4D p (snrt_ssr_repeat W SNRT_SSR_DM0 8
        (snrt_ssr_loop_3d W SNRT_SSR_DM0 K N8 M 8 0 (8 * ldA) s))) 0)) = 7"
proof -
  define s3 where "s3 = r_stride (shd (movers s 0)) 3 + (of_nat (unat K - 1) * 8 + of_nat (unat M - 1) * (8 * ldA))"
  have s3: "encoded (bounds_of [K, N8, M, 1]) (strides_of [8, 0, 8 * ldA, s3]) 3 = r_stride (shd (movers s 0)) 3"
    by (simp add: encoded_def lessThan_small bounds_of_def strides_of_def s3_def)
  have "8 dvd s3" unfolding s3_def using stale(2) by (intro dvd_add dvd_mult dvd_triv_left) auto
  then have ok3: "loop_ok W 1 s3" by (simp add: loop_ok_def)
  have "walking W (bounds_of [K, N8, M, 1]) (strides_of [8, 0, 8 * ldA, s3]) 4 p 0
      (movers (snrt_ssr_read W SNRT_SSR_DM0 SNRT_SSR_4D p (snrt_ssr_repeat W SNRT_SSR_DM0 8
        (snrt_ssr_loop_3d W SNRT_SSR_DM0 K N8 M 8 0 (8 * ldA) s))) 0)"
  proof (rule walking_start)
    show "\<forall>k<4. r_stride (act (movers (snrt_ssr_read W SNRT_SSR_DM0 SNRT_SSR_4D p (snrt_ssr_repeat W SNRT_SSR_DM0 8
        (snrt_ssr_loop_3d W SNRT_SSR_DM0 K N8 M 8 0 (8 * ldA) s))) 0)) k =
      take_bit (pw W) (encoded (bounds_of [K, N8, M, 1]) (strides_of [8, 0, 8 * ldA, s3]) k AND NOT 7)"
      unfolding all_less_numeral s3 aligned_and_not_7 [OF stale(2)]
      using a stale ok by (auto simp: ssr_cfg_simps snrt_ssr_repeat_def aligned_and_not_7)
  qed (use a stale ok ok3 in \<open>auto simp: ssr_cfg_simps snrt_ssr_repeat_def\<close>)
  moreover have "take_bit (rw W) (7 :: u32) = 7"
  proof -
    have "(8 :: nat) \<le> 2 ^ rw W" using power_increasing [OF rw, of "2 :: nat"] by simp
    then have "unat (take_bit (rw W) (7 :: u32)) = 7" by (simp add: unsigned_take_bit_eq take_bit_nat_eq_self)
    then show ?thesis by (simp add: word_unat_eq_iff)
  qed
  ultimately show ?thesis using a by (intro exI [of _ s3]) (auto simp: ssr_cfg_simps snrt_ssr_repeat_def)
qed

lemma stream_start:
  assumes "walking W B S D p 0 mv" "r_rep (act mv) = \<rho>" "0 < weight B D"
  shows "stream_at W B S D p \<rho> 0 mv"
  using assms by (simp add: stream_at_def)

lemma bounds_ab:
  "bounds_of [K, N8, M, 1] = bounds_a (unat M) (unat N8) (unat K)" "bounds_of [8, K, N8, M] = bounds_b (unat M) (unat N8) (unat K)"
  "strides_of [8, 0, 8 * ldA, s3] = strides_a ldA s3" "strides_of [8, 8 * ldB, 64, 0] = strides_b ldB"
  by (auto simp: fun_eq_iff bounds_of_def bounds_a_def bounds_b_def strides_of_def strides_a_def strides_b_def nth_Cons')

lemma opt_loops_ok:
  assumes "opt_sizes W M N K"
  shows "loop_ok W K 8" "loop_ok W (N div unroll) 0" "loop_ok W M (8 * ldA)" "loop_ok W 8 8" "loop_ok W K (8 * ldB)"
    "loop_ok W (N div unroll) 64" "loop_ok W M 0" "iw W \<le> 32" "3 \<le> rw W" "unat (N div unroll) * 8 = unat N" "0 < unat (N div unroll)"
proof -
  have "(8 :: nat) \<le> 2 ^ iw W" using assms power_increasing [of 3 "iw W" "2 :: nat"] by (simp add: opt_sizes_def)
  moreover have "unat (N div unroll) = unat N div 8" by (simp add: unroll_def unat_div)
  moreover have "(8 :: u32) dvd 64" using dvd_8_words(2) by simp
  ultimately show "loop_ok W K 8" "loop_ok W (N div unroll) 0" "loop_ok W M (8 * ldA)" "loop_ok W 8 8" "loop_ok W K (8 * ldB)"
    "loop_ok W (N div unroll) 64" "loop_ok W M 0" "iw W \<le> 32" "3 \<le> rw W" "unat (N div unroll) * 8 = unat N" "0 < unat (N div unroll)"
    using assms by (auto simp: opt_sizes_def loop_ok_def dest: dvd_imp_le)
qed

text \<open>The configured streams are at their first elements.\<close>

lemma lanes_start:
  assumes x: "ssr_ready W x" and sz: "opt_sizes W M N K"
  shows "\<exists>s3. lanes W (unat M) (unat (N div unroll)) (unat K) A ldA s3 B ldB 0
    (x\<lparr>ssr := snrt_ssr_enable (snrt_ssr_read W SNRT_SSR_DM1 SNRT_SSR_4D B (snrt_ssr_read W SNRT_SSR_DM0 SNRT_SSR_4D A
       (opt_setup W M N K ldA False ldB False (ssr x))))\<rparr>)"
proof -
  note ok = opt_loops_ok [OF sz]
  let ?n = "N div unroll"
  define sa where "sa = snrt_ssr_repeat W SNRT_SSR_DM0 8 (snrt_ssr_loop_3d W SNRT_SSR_DM0 K ?n M 8 0 (8 * ldA) (ssr x))"
  define sb where "sb = snrt_ssr_loop_4d W SNRT_SSR_DM1 8 K ?n M 8 (8 * ldB) 64 0 sa"
  define s where "s = snrt_ssr_enable (snrt_ssr_read W SNRT_SSR_DM1 SNRT_SSR_4D B (snrt_ssr_read W SNRT_SSR_DM0 SNRT_SSR_4D A sb))"
  have r: "mover_idle (movers (ssr x) 0)" "mover_idle (movers (ssr x) 1)" "reps x 0 = 0" "reps x 1 = 0" "r_rep (shd (movers (ssr x) 1)) = 0"
      "r_bound (shd (movers (ssr x) 0)) 3 = 0" "8 dvd r_stride (shd (movers (ssr x) 0)) 3"
      "take_bit (pw W) (r_stride (shd (movers (ssr x) 0)) 3) = r_stride (shd (movers (ssr x) 0)) 3"
    using x by (simp_all add: ssr_ready_def Let_def)
  have s0: "movers s 0 = movers (snrt_ssr_read W SNRT_SSR_DM0 SNRT_SSR_4D A sa) 0"
    by (simp add: s_def sb_def snrt_ssr_enable_def snrt_ssr_read_def snrt_ssr_loop_4d_def Let_def)
  have sa1: "movers sa 1 = movers (ssr x) 1"
    by (simp add: sa_def snrt_ssr_repeat_def snrt_ssr_loop_3d_def Let_def)
  have s1: "movers s 1 = movers (snrt_ssr_read W SNRT_SSR_DM1 SNRT_SSR_4D B sb) 1"
    by (simp add: s_def snrt_ssr_enable_def snrt_ssr_read_def)
  obtain s3 where a: "walking W (bounds_of [K, ?n, M, 1]) (strides_of [8, 0, 8 * ldA, s3]) 4 A 0 (movers s 0)" "r_rep (act (movers s 0)) = 7"
    using setup_mover_a [OF r(1,6,7,8) ok(1,2,3,8,9), of ldA A] unfolding s0 sa_def by blast
  have b: "walking W (bounds_of [8, K, ?n, M]) (strides_of [8, 8 * ldB, 64, 0]) 4 B 0 (movers s 1)"
    using loop_4d_walking [OF ok(4,5,6,7,8), of sa SNRT_SSR_DM1 ldB B] r(2) sa1 unfolding s1 sb_def by simp
  have "r_rep (act (movers s 1)) = 0"
    using r(2,5) sa1 unfolding s1 sb_def by (simp add: ssr_cfg_simps)
  moreover have "0 < unat M * unat ?n * unat K" using sz ok(11) by (simp add: opt_sizes_def)
  ultimately have "lanes W (unat M) (unat ?n) (unat K) A ldA s3 B ldB 0 (x\<lparr>ssr := s\<rparr>)"
    using a b r(3,4) by (auto simp: lanes_def bounds_ab weight_ab intro!: stream_start)
  moreover have "opt_setup W M N K ldA False ldB False (ssr x) = sb"
    by (simp add: opt_setup_def sb_def sa_def unroll_def Let_def)
  ultimately show ?thesis by (auto simp: s_def)
qed

section \<open>All blocks\<close>

text \<open>Where the matrices are: the data movers reach \<open>A\<close> and \<open>B\<close>, and \<open>C\<close> overlaps neither.\<close>

definition opt_layout :: "ssr_widths \<Rightarrow> ptr \<Rightarrow> u32 \<Rightarrow> u32 \<Rightarrow> u32 \<Rightarrow> ptr \<Rightarrow> u32 \<Rightarrow> ptr \<Rightarrow> u32 \<Rightarrow> ptr \<Rightarrow> u32 \<Rightarrow> bool" where
  "opt_layout W T M N K A ldA B ldB C ldC \<longleftrightarrow> unat K \<le> unat ldA \<and> unat N \<le> unat ldB \<and> unat N \<le> unat ldC \<and>
     in_tcdm W T A (unat M * unat ldA) \<and> in_tcdm W T B (unat K * unat ldB) \<and>
     holds A (unat M * unat ldA) \<and> holds B (unat K * unat ldB) \<and> holds C (unat M * unat ldC) \<and>
     span A (8 * (unat M * unat ldA)) \<inter> span C (8 * (unat M * unat ldC)) = {} \<and>
     span B (8 * (unat K * unat ldB)) \<inter> span C (8 * (unat M * unat ldC)) = {}"

text \<open>After the first \<open>b\<close> blocks.\<close>

definition blocks_done ::
  "fp_ops \<Rightarrow> u32 \<Rightarrow> u32 \<Rightarrow> u32 \<Rightarrow> u32 \<Rightarrow> ptr \<Rightarrow> u32 \<Rightarrow> ptr \<Rightarrow> u32 \<Rightarrow> ptr \<Rightarrow> u32 \<Rightarrow> mem \<Rightarrow> nat \<Rightarrow> mem \<Rightarrow> bool" where
  "blocks_done F BETA M N K A ldA B ldB C ldC m0 b mm \<longleftrightarrow>
     (\<forall>y. y \<notin> span C (8 * (unat M * unat ldC)) \<longrightarrow> mm y = m0 y) \<and>
     (\<forall>i < unat M. \<forall>j < unat ldC. elt mm C (i * unat ldC + j) =
        (if j < unat N \<and> i * (unat N div 8) + j div 8 < b
         then opt_elem F BETA (unat K) A (unat ldA) B (unat ldB) C (unat ldC) m0 i j else elt m0 C (i * unat ldC + j)))"

lemma opt_elem_keep:
  assumes lay: "opt_layout W T M N K A ldA B ldB C ldC" and ij: "i < unat M" "j < unat N"
    and eq: "\<And>y. y \<notin> span C (8 * (unat M * unat ldC)) \<Longrightarrow> mm y = m0 y" and c: "elt mm C (i * unat ldC + j) = elt m0 C (i * unat ldC + j)"
  shows "opt_elem F BETA (unat K) A (unat ldA) B (unat ldB) C (unat ldC) mm i j = opt_elem F BETA (unat K) A (unat ldA) B (unat ldB) C (unat ldC) m0 i j"
proof -
  have "elt mm A (i * unat ldA + k) = elt m0 A (i * unat ldA + k)" "elt mm B (k * unat ldB + j) = elt m0 B (k * unat ldB + j)" if "k < unat K" for k
  proof -
    have "i * unat ldA + k < unat M * unat ldA" "k * unat ldB + j < unat K * unat ldB"
      using lay ij that by (auto simp: opt_layout_def intro!: row_major_less)
    then show "elt mm A (i * unat ldA + k) = elt m0 A (i * unat ldA + k)" "elt mm B (k * unat ldB + j) = elt m0 B (k * unat ldB + j)"
      using lay eq by (auto simp: opt_layout_def intro!: elt_span_cong [of A "unat M * unat ldA"] elt_span_cong [of B "unat K * unat ldB"])
  qed
  then show ?thesis unfolding opt_elem_def c by (intro fma_acc_cong)
qed

lemma block_step:
  assumes lay: "opt_layout W T M N K A ldA B ldB C ldC" and sz: "opt_sizes W M N K" and b: "m < unat M" "n < unat N div 8"
    and l: "lanes W (unat M) (unat N div 8) (unat K) A ldA s3 B ldB (product_no (unat N div 8) (unat K) m n 0 0) x"
    and inv: "blocks_done F BETA M N K A ldA B ldB C ldC m0 (m * (unat N div 8) + n) mm"
  shows "\<exists>x' m'. opt_block W T F K C ldC BETA (of_nat m) (of_nat n * unroll) (x, mm) = Some (x', m') \<and>
    lanes W (unat M) (unat N div 8) (unat K) A ldA s3 B ldB (product_no (unat N div 8) (unat K) m (Suc n) 0 0) x' \<and>
    blocks_done F BETA M N K A ldA B ldB C ldC m0 (m * (unat N div 8) + Suc n) m'"
proof -
  have N: "unat N div 8 * 8 = unat N" "0 < K" using sz by (auto simp: opt_sizes_def word_less_nat_alt)
  obtain x' m' where r: "opt_block W T F K C ldC BETA (of_nat m) (of_nat n * unroll) (x, mm) = Some (x', m')"
      "lanes W (unat M) (unat N div 8) (unat K) A ldA s3 B ldB (product_no (unat N div 8) (unat K) m (Suc n) 0 0) x'"
      "\<And>y. y \<notin> span C (8 * (unat M * unat ldC)) \<Longrightarrow> m' y = mm y"
      "\<And>i j. i < unat M \<Longrightarrow> j < unat ldC \<Longrightarrow> elt m' C (i * unat ldC + j) =
         (if i = m \<and> j div 8 = n then opt_elem F BETA (unat K) A (unat ldA) B (unat ldB) C (unat ldC) mm i j else elt mm C (i * unat ldC + j))"
    using opt_block_result [OF l b N(2), of T C ldC F BETA mm] lay by (auto simp: opt_layout_def N(1))
  have f: "mm y = m0 y" if "y \<notin> span C (8 * (unat M * unat ldC))" for y using inv that by (simp add: blocks_done_def)
  have "elt m' C (i * unat ldC + j) = (if j < unat N \<and> i * (unat N div 8) + j div 8 < m * (unat N div 8) + Suc n
      then opt_elem F BETA (unat K) A (unat ldA) B (unat ldB) C (unat ldC) m0 i j else elt m0 C (i * unat ldC + j))"
    if ij: "i < unat M" "j < unat ldC" for i j
  proof (cases "i = m \<and> j div 8 = n")
    case True
    then have "j < unat N" using b(2) N(1) by linarith
    then show ?thesis
      using r(4) [OF ij] True opt_elem_keep [OF lay ij(1) _ f, where F = F and BETA = BETA and j = j] inv ij by (auto simp: blocks_done_def)
  next
    case False
    have "i * (unat N div 8) + j div 8 \<noteq> m * (unat N div 8) + n" if "j < unat N"
    proof -
      have "j div 8 < unat N div 8" using that N(1) by linarith
      then show ?thesis using row_major_inject [of "j div 8" "unat N div 8" n "unat N div 8" i m] b(2) False by blast
    qed
    then show ?thesis using r(4) [OF ij] False inv ij by (auto simp: blocks_done_def less_Suc_eq)
  qed
  then show ?thesis using r(1,2,3) f by (auto simp: blocks_done_def)
qed

lemma opt_leftover_none: "opt_sizes W M N K \<Longrightarrow> opt_leftover F N K A ldA B ldB C ldC BETA m mm = mm"
  using opt_loops_ok(10) by (simp add: opt_leftover_def unroll_def)

lemma lanes_switch [simp]:
  "lanes W M N8 K A ldA s3 B ldB u (x\<lparr>ssr := snrt_ssr_enable (snrt_ssr_disable (ssr x))\<rparr>) \<longleftrightarrow> lanes W M N8 K A ldA s3 B ldB u x"
  by (simp add: lanes_def snrt_ssr_enable_def snrt_ssr_disable_def)

lemma opt_rows:
  assumes lay: "opt_layout W T M N K A ldA B ldB C ldC" and sz: "opt_sizes W M N K"
    and l: "lanes W (unat M) (unat N div 8) (unat K) A ldA s3 B ldB 0 x"
  shows "\<exists>x' m'. for_upto (unat M) (\<lambda>m r.
             map_option (\<lambda>(x, mm). (x\<lparr>ssr := snrt_ssr_enable (snrt_ssr_disable (ssr x))\<rparr>,
                 opt_leftover F N K A ldA B ldB C ldC BETA (of_nat m) mm))
               (for_upto (unat (N div unroll)) (\<lambda>n0 r. Option.bind r (opt_block W T F K C ldC BETA (of_nat m) (of_nat n0 * unroll))) r))
             (Some (x, m0)) = Some (x', m') \<and>
    lanes W (unat M) (unat N div 8) (unat K) A ldA s3 B ldB (unat M * (unat N div 8) * unat K * 8) x' \<and>
    blocks_done F BETA M N K A ldA B ldB C ldC m0 (unat M * (unat N div 8)) m'"
proof -
  let ?n8 = "unat N div 8"
  have n8: "unat (N div unroll) = ?n8" by (simp add: unroll_def unat_div)
  define P where "P m n r \<longleftrightarrow> (\<exists>x' m'. r = Some (x', m') \<and> lanes W (unat M) ?n8 (unat K) A ldA s3 B ldB (product_no ?n8 (unat K) m n 0 0) x' \<and>
    blocks_done F BETA M N K A ldA B ldB C ldC m0 (m * ?n8 + n) m')" for m n r
  have inner: "P m ?n8 (for_upto ?n8 (\<lambda>n0 r. Option.bind r (opt_block W T F K C ldC BETA (of_nat m) (of_nat n0 * unroll))) r)"
    if "m < unat M" "P m 0 r" for m r
  proof (rule for_upto_invariant)
    fix n r assume "n < ?n8" "P m n r"
    then show "P m (Suc n) (Option.bind r (opt_block W T F K C ldC BETA (of_nat m) (of_nat n * unroll)))"
      using block_step [OF lay sz that(1)] by (fastforce simp: P_def)
  qed (rule that(2))
  have "P (unat M) 0 (for_upto (unat M) (\<lambda>m r.
             map_option (\<lambda>(x, mm). (x\<lparr>ssr := snrt_ssr_enable (snrt_ssr_disable (ssr x))\<rparr>,
                 opt_leftover F N K A ldA B ldB C ldC BETA (of_nat m) mm))
               (for_upto ?n8 (\<lambda>n0 r. Option.bind r (opt_block W T F K C ldC BETA (of_nat m) (of_nat n0 * unroll))) r)) (Some (x, m0)))"
  proof (rule for_upto_invariant)
    show "P 0 0 (Some (x, m0))" using l by (simp add: P_def product_no_def blocks_done_def)
    fix m r assume "m < unat M" "P m 0 r"
    from inner [OF this] show "P (Suc m) 0 (map_option (\<lambda>(x, mm). (x\<lparr>ssr := snrt_ssr_enable (snrt_ssr_disable (ssr x))\<rparr>,
                 opt_leftover F N K A ldA B ldB C ldC BETA (of_nat m) mm))
               (for_upto ?n8 (\<lambda>n0 r. Option.bind r (opt_block W T F K C ldC BETA (of_nat m) (of_nat n0 * unroll))) r))"
      by (auto simp: P_def opt_leftover_none [OF sz] product_no_def add.commute)
  qed
  then show ?thesis unfolding n8 by (simp add: P_def product_no_def)
qed

text \<open>An array inside the TCDM, which is aligned to its size: the data movers reach it.\<close>

lemma in_tcdm_array:
  assumes T: "2 ^ pw W dvd unat T" and p: "p = T + of_nat off" "off + 8 * n \<le> 2 ^ pw W" and fit: "unat T + 2 ^ pw W \<le> 2 ^ 32"
  shows "in_tcdm W T p n"
  unfolding in_tcdm_def
proof (intro allI impI)
  fix i assume "i < n"
  then have lt: "off + 8 * i < 2 ^ pw W" using p(2) by linarith
  have d: "dbl p (of_nat i) = T + of_nat (off + 8 * i)" by (simp add: dbl_def p(1) add.assoc)
  have "unat (T + of_nat (off + 8 * i)) = unat T + (off + 8 * i)" using lt fit by (simp add: unat_simps del: of_nat_add of_nat_mult)
  moreover have "(unat T + (off + 8 * i)) mod 2 ^ pw W = off + 8 * i" using T lt by (metis add.commute dvd_imp_mod_0 mod_add_right_eq mod_less add_0_right)
  ultimately have "unat (take_bit (pw W) (dbl p (of_nat i))) = off + 8 * i" unfolding d unsigned_take_bit_eq by (simp only: take_bit_eq_mod)
  moreover have "unat (of_nat (off + 8 * i) :: u32) = off + 8 * i" using lt fit by (intro unat_of_nat_small) simp
  ultimately have "take_bit (pw W) (dbl p (of_nat i)) = of_nat (off + 8 * i)" by (metis unsigned_word_eqI)
  then show "T + take_bit (pw W) (dbl p (of_nat i)) = dbl p (of_nat i)" using d by simp
qed

section \<open>Properties\<close>

text \<open>
  C3. The optimised kernel \<open>gemm_fp64_opt\<close>, which programs two data movers, reads \<open>A\<close> and \<open>B\<close> through stream registers and
  runs a hardware loop over eight accumulators, returns and gives every element of the \<open>M\<close> by \<open>N\<close> result the fused
  multiply-add accumulation over the row of \<open>A\<close> and the column of \<open>B\<close>, in the order of the inner index, starting from the
  element itself if \<open>BETA\<close> is not 0 and from 0 otherwise. Nothing else in memory changes, and both streams have been read to their ends. The number of
  columns must be a multiple of the unrolling factor, neither matrix transposed, the loop counts must fit the data movers, the
  data movers must be idle, and the result must not overlap the factors.
\<close>

theorem gemm_fp64_opt_correct:
  assumes "opt_layout W T M N K A ldA B ldB C ldC" and "opt_sizes W M N K" and "ssr_ready W x"
  shows "\<exists>x' m'. gemm_fp64_opt W T F M N K A ldA False B ldB False C ldC BETA True (x, mm) = Some (x', m') \<and>
    r_done (act (movers (ssr x') 0)) \<and> r_done (act (movers (ssr x') 1)) \<and>
    (\<forall>i < unat M. \<forall>j < unat ldC. elt m' C (i * unat ldC + j) =
       (if j < unat N
        then fma_acc F (unat K) (\<lambda>k. elt mm A (i * unat ldA + k)) (\<lambda>k. elt mm B (k * unat ldB + j))
               (if BETA \<noteq> 0 then elt mm C (i * unat ldC + j) else f64_0)
        else elt mm C (i * unat ldC + j))) \<and>
    (\<forall>y. y \<notin> span C (8 * (unat M * unat ldC)) \<longrightarrow> m' y = mm y)"
proof -
  have n8: "unat (N div unroll) = unat N div 8" by (simp add: unroll_def unat_div)
  obtain s3 where l: "lanes W (unat M) (unat N div 8) (unat K) A ldA s3 B ldB 0
    (x\<lparr>ssr := snrt_ssr_enable (snrt_ssr_read W SNRT_SSR_DM1 SNRT_SSR_4D B (snrt_ssr_read W SNRT_SSR_DM0 SNRT_SSR_4D A
       (opt_setup W M N K ldA False ldB False (ssr x))))\<rparr>)" using lanes_start [OF assms(3,2), of A ldA B ldB] unfolding n8 by blast
  from opt_rows [OF assms(1,2) l, of F BETA mm] obtain x' m' where
    r: "gemm_fp64_opt W T F M N K A ldA False B ldB False C ldC BETA True (x, mm) = Some (x'\<lparr>ssr := snrt_ssr_disable (ssr x')\<rparr>, m')"
      "lanes W (unat M) (unat N div 8) (unat K) A ldA s3 B ldB (unat M * (unat N div 8) * unat K * 8) x'"
      "blocks_done F BETA M N K A ldA B ldB C ldC mm (unat M * (unat N div 8)) m'"
    unfolding gemm_fp64_opt_def by (auto simp: Let_def)
  have "i * (unat N div 8) + j div 8 < unat M * (unat N div 8)" if "i < unat M" "j < unat N" for i j
    using that assms(2) by (intro row_major_less) (auto simp: opt_sizes_def less_mult_imp_div_less)
  then show ?thesis
    using r by (auto simp: lanes_def stream_at_def weight_ab blocks_done_def opt_elem_def snrt_ssr_disable_def)
qed

theorem gemm_fp64_opt_correct_witness:
  "\<exists>x' m'. gemm_fp64_opt ssr_default_widths 0x10000000 int_fpu 2 16 3 0x10000000 3 False 0x10001000 16 False 0x10002000 16 1 True
      (\<lparr>ssr = ssr_reset, reps = \<lambda>_. 0\<rparr>, ucast) = Some (x', m') \<and>
    (\<forall>i < 2. \<forall>j < 16. elt m' 0x10002000 (i * 16 + j) =
       fma_acc int_fpu 3 (\<lambda>k. elt ucast 0x10000000 (i * 3 + k)) (\<lambda>k. elt ucast 0x10001000 (k * 16 + j)) (elt ucast 0x10002000 (i * 16 + j)))"
proof -
  have "in_tcdm ssr_default_widths 0x10000000 0x10000000 6"
    by (rule in_tcdm_array [of _ _ _ 0]) (simp_all add: ssr_default_widths_def)
  moreover have "in_tcdm ssr_default_widths 0x10000000 0x10001000 48"
    by (rule in_tcdm_array [of _ _ _ "0x1000"]) (simp_all add: ssr_default_widths_def)
  ultimately have "opt_layout ssr_default_widths 0x10000000 2 16 3 0x10000000 3 0x10001000 16 0x10002000 16"
    by (auto simp: opt_layout_def holds_def intro!: span_disjoint)
  moreover have "opt_sizes ssr_default_widths 2 16 3" by (simp add: opt_sizes_def ssr_default_widths_def)
  moreover have "ssr_ready ssr_default_widths \<lparr>ssr = ssr_reset, reps = \<lambda>_. 0\<rparr>"
    using ssr_reset_idle by (simp add: ssr_ready_def Let_def) (simp add: ssr_reset_def Let_def)
  ultimately show ?thesis
    using gemm_fp64_opt_correct [of ssr_default_widths "0x10000000" 2 16 3 "0x10000000" 3 "0x10001000" 16 "0x10002000" 16
      "\<lparr>ssr = ssr_reset, reps = \<lambda>_. 0\<rparr>" int_fpu 1 ucast] by fastforce
qed

end
