(* ===== verification/Axpy.thy ===== *)
theory Axpy
  imports GemmOpt Kernels
begin

text \<open>
  \<open>sw/blas/axpy/src\<close>: the scaled vector sum \<open>z = a * x + y\<close>, with and without stream registers, and the application that
  distributes the vectors over the clusters. With stream registers two data movers read the share of a core and a third one writes it,
  while the hardware loop repeats a single fused multiply-add.
\<close>

section \<open>The kernel\<close>

text \<open>Without stream registers (\<open>XSSR\<close> not defined). The cores that call it are the compute cores; \<open>frac\<close> and \<open>offset\<close> are as in \<open>Kernels\<close>.\<close>

definition axpy :: "fp_ops \<Rightarrow> snrt_defs \<Rightarrow> u32 \<Rightarrow> u32 \<Rightarrow> f64 \<Rightarrow> ptr \<Rightarrow> ptr \<Rightarrow> ptr \<Rightarrow> mem \<Rightarrow> mem" where
  "axpy F d hartid n a x y z mm =
     for_upto (nat (sint (core_range d n))) (\<lambda>i mm.
       let offset = core_offset d hartid n + of_nat i
       in store64 (dbl z offset) (fadd F (fmul F a (load64 (dbl x offset) mm)) (load64 (dbl y offset) mm)) mm) mm"

text \<open>A write of the stream register of data mover \<open>dm\<close>.\<close>

definition ft_write :: "ssr_widths \<Rightarrow> ptr \<Rightarrow> nat \<Rightarrow> f64 \<Rightarrow> ssr_core \<times> mem \<Rightarrow> (ssr_core \<times> mem) option" where
  "ft_write W T dm v = (\<lambda>(x, m).
     map_option (\<lambda>(a, mv'). (x\<lparr>ssr := (ssr x)\<lparr>movers := (movers (ssr x))(dm := mv')\<rparr>\<rparr>, store64 (T + a) v m))
       (mover_step W (movers (ssr x) dm)))"

text \<open>\<open>fmadd.d ft2, a, ft0, ft1\<close>.\<close>

definition fmadd_stream :: "ssr_widths \<Rightarrow> ptr \<Rightarrow> fp_ops \<Rightarrow> f64 \<Rightarrow> ssr_core \<times> mem \<Rightarrow> (ssr_core \<times> mem) option" where
  "fmadd_stream W T F a = (\<lambda>(c, m). Option.bind (ft_read W T 0 m c) (\<lambda>(u, c). Option.bind (ft_read W T 1 m c) (\<lambda>(v, c).
     ft_write W T 2 (fmadd F a u v) (c, m))))"

definition axpy_ssr ::
  "ssr_widths \<Rightarrow> ptr \<Rightarrow> fp_ops \<Rightarrow> snrt_defs \<Rightarrow> u32 \<Rightarrow> u32 \<Rightarrow> f64 \<Rightarrow> ptr \<Rightarrow> ptr \<Rightarrow> ptr \<Rightarrow> ssr_core \<times> mem \<Rightarrow> (ssr_core \<times> mem) option" where
  "axpy_ssr W T F d hartid n a x y z = (\<lambda>(c, mm).
     let frac = core_range d n; offset = core_offset d hartid n;
         s = snrt_ssr_loop_1d W SNRT_SSR_DM0 frac 8 (ssr c);
         s = snrt_ssr_loop_1d W SNRT_SSR_DM1 frac 8 s;
         s = snrt_ssr_loop_1d W SNRT_SSR_DM2 frac 8 s;
         s = snrt_ssr_read W SNRT_SSR_DM0 SNRT_SSR_1D (dbl x offset) s;
         s = snrt_ssr_read W SNRT_SSR_DM1 SNRT_SSR_1D (dbl y offset) s;
         s = snrt_ssr_write W SNRT_SSR_DM2 SNRT_SSR_1D (dbl z offset) s;
         s = snrt_ssr_enable s
     in map_option (\<lambda>(c, mm). (c\<lparr>ssr := snrt_ssr_disable (ssr c)\<rparr>, mm))
          (for_upto (Suc (unat (frac - 1))) (\<lambda>_ r. Option.bind r (fmadd_stream W T F a)) (Some (c\<lparr>ssr := s\<rparr>, mm))))"

section \<open>One core\<close>

text \<open>The data movers of a core before the kernel: idle, at the start of an element, not repeating.\<close>

definition movers_ready :: "ssr_core \<Rightarrow> bool" where
  "movers_ready c \<longleftrightarrow> (\<forall>dm<3. mover_idle (movers (ssr c) dm) \<and> reps c dm = 0 \<and> r_rep (shd (movers (ssr c) dm)) = 0)"

definition at_elt :: "ssr_widths \<Rightarrow> u32 \<Rightarrow> ptr \<Rightarrow> nat \<Rightarrow> ssr_mover \<Rightarrow> bool" where
  "at_elt W n p t mv \<longleftrightarrow> stream_at W (bounds_of [n]) (strides_of [8]) 1 p 0 t mv"

lemma weight_1: "weight (bounds_of [n]) (Suc 0) = unat n"
  by (simp add: weight_def bounds_of_def)

lemma stream_addr_1:
  assumes "t < unat n"
  shows "stream_addr W (bounds_of [n]) (strides_of [8]) 1 p t = take_bit (pw W) (dbl p (of_nat t))"
  using assms by (simp add: stream_addr_def affine_def lessThan_small digit_def bounds_of_def strides_of_def dbl_def mult.commute)

lemma at_elt_step:
  assumes "at_elt W n p t mv" "t < unat n"
  shows "\<exists>mv'. mover_step W mv = Some (take_bit (pw W) (dbl p (of_nat t)), mv') \<and> at_elt W n p (Suc t) mv'"
  using stream_at_step [of W "bounds_of [n]" "strides_of [8]" 1 p 0 t mv] assms stream_addr_1 [OF assms(2)]
  by (simp add: at_elt_def weight_1)

lemma at_elt_rep: "at_elt W n p t mv \<Longrightarrow> t < unat n \<Longrightarrow> r_rep (act mv) = 0"
  using stream_at_head(3) [of W "bounds_of [n]" "strides_of [8]" 1 p 0 t mv] by (simp add: at_elt_def weight_1)

definition axpy_lanes :: "ssr_widths \<Rightarrow> u32 \<Rightarrow> ptr \<Rightarrow> ptr \<Rightarrow> ptr \<Rightarrow> nat \<Rightarrow> ssr_core \<Rightarrow> bool" where
  "axpy_lanes W n x y z t c \<longleftrightarrow> reps c 0 = 0 \<and> reps c 1 = 0 \<and>
     at_elt W n x t (movers (ssr c) 0) \<and> at_elt W n y t (movers (ssr c) 1) \<and> at_elt W n z t (movers (ssr c) 2)"

lemma fmadd_stream_step:
  assumes l: "axpy_lanes W n x y z t c" and t: "t < unat n"
  shows "\<exists>c'. fmadd_stream W T F a (c, m) = Some (c', store64 (T + take_bit (pw W) (dbl z (of_nat t)))
      (fmadd F a (load64 (T + take_bit (pw W) (dbl x (of_nat t))) m) (load64 (T + take_bit (pw W) (dbl y (of_nat t))) m)) m) \<and>
    axpy_lanes W n x y z (Suc t) c'"
proof -
  note l' = l [unfolded axpy_lanes_def]
  obtain mx where mx: "mover_step W (movers (ssr c) 0) = Some (take_bit (pw W) (dbl x (of_nat t)), mx)" "at_elt W n x (Suc t) mx"
    using at_elt_step [OF _ t] l' by blast
  obtain my where my: "mover_step W (movers (ssr c) 1) = Some (take_bit (pw W) (dbl y (of_nat t)), my)" "at_elt W n y (Suc t) my"
    using at_elt_step [OF _ t] l' by blast
  obtain mz where mz: "mover_step W (movers (ssr c) 2) = Some (take_bit (pw W) (dbl z (of_nat t)), mz)" "at_elt W n z (Suc t) mz"
    using at_elt_step [OF _ t] l' by blast
  have "r_rep (act (movers (ssr c) 0)) = 0" "r_rep (act (movers (ssr c) 1)) = 0" using l' at_elt_rep [OF _ t] by blast+
  then show ?thesis using l' mx my mz by (simp add: fmadd_stream_def ft_read_def ft_write_def axpy_lanes_def Let_def)
qed

lemma at_elt_start:
  assumes mv: "mover_idle mv" "r_rep (shd mv) = 0" and n: "loop_ok W n 8" "iw W \<le> 32" and w: "w = 24 \<or> w = 28"
  shows "at_elt W n p 0 (mover_write W w p (mover_write W 6 8 (mover_write W 2 (n - 1) mv)))"
proof -
  let ?mv = "mover_write W w p (mover_write W 6 8 (mover_write W 2 (n - 1) mv))"
  have "walking W (bounds_of [n]) (strides_of [8]) 1 p 0 ?mv"
    by (rule walking_start) (use mv n w in \<open>auto simp: ssr_cfg_simps\<close>)
  moreover have "r_rep (act ?mv) = 0" using mv w by (auto simp: ssr_cfg_simps)
  ultimately show ?thesis using n by (auto simp: at_elt_def weight_1 loop_ok_def intro!: stream_start)
qed

lemma axpy_lanes_start:
  assumes c: "movers_ready c" and n: "loop_ok W n 8" "iw W \<le> 32"
  shows "axpy_lanes W n x y z 0 (c\<lparr>ssr := snrt_ssr_enable (snrt_ssr_write W SNRT_SSR_DM2 SNRT_SSR_1D z (snrt_ssr_read W SNRT_SSR_DM1 SNRT_SSR_1D y
     (snrt_ssr_read W SNRT_SSR_DM0 SNRT_SSR_1D x (snrt_ssr_loop_1d W SNRT_SSR_DM2 n 8 (snrt_ssr_loop_1d W SNRT_SSR_DM1 n 8
       (snrt_ssr_loop_1d W SNRT_SSR_DM0 n 8 (ssr c)))))))\<rparr>)"
proof -
  have r: "mover_idle (movers (ssr c) dm)" "reps c dm = 0" "r_rep (shd (movers (ssr c) dm)) = 0" if "dm < 3" for dm
    using c that by (auto simp: movers_ready_def)
  show ?thesis
    using at_elt_start [OF r(1,3) n, of 0 24] at_elt_start [OF r(1,3) n, of 1 24] at_elt_start [OF r(1,3) n, of 2 28] r(2)
    by (simp add: axpy_lanes_def snrt_ssr_enable_def snrt_ssr_write_def snrt_ssr_read_def snrt_ssr_loop_1d_def ssr_reg_defs Let_def)
qed

definition axpy_step :: "fp_ops \<Rightarrow> f64 \<Rightarrow> ptr \<Rightarrow> ptr \<Rightarrow> ptr \<Rightarrow> nat \<Rightarrow> mem \<Rightarrow> mem" where
  "axpy_step F a x y z i m = store64 (dbl z (of_nat i)) (fmadd F a (elt m x i) (elt m y i)) m"

lemma tcdm_offset:
  assumes "in_tcdm W T p n" "q + t < n"
  shows "T + take_bit (pw W) (dbl (dbl p (of_nat q)) (of_nat t)) = dbl p (of_nat (q + t))"
proof -
  have "dbl (dbl p (of_nat q)) (of_nat t) = dbl p (of_nat (q + t))" by (simp add: dbl_def algebra_simps)
  then show ?thesis using assms by (simp add: in_tcdm_def del: of_nat_add)
qed

text \<open>The hardware loop makes the stores of the share, one after the other.\<close>

lemma axpy_ssr_stores:
  assumes c: "movers_ready c" and r: "loop_ok W (core_range d n) 8" "iw W \<le> 32"
    and share: "unat (core_offset d h n) + unat (core_range d n) \<le> k"
    and tcdm: "in_tcdm W T x k" "in_tcdm W T y k" "in_tcdm W T z k"
  defines "q \<equiv> unat (core_offset d h n)" and "f \<equiv> unat (core_range d n)"
  shows "\<exists>c'. axpy_ssr W T F d h n a x y z (c, m) = Some (c', fold (axpy_step F a x y z) [q..<q + f] m)"
proof -
  have off: "core_offset d h n = of_nat q" by (simp add: q_def)
  define P where "P t r \<longleftrightarrow> (\<exists>c'. r = Some (c', fold (axpy_step F a x y z) [q..<q + t] m) \<and>
      axpy_lanes W (core_range d n) (dbl x (of_nat q)) (dbl y (of_nat q)) (dbl z (of_nat q)) t c')" for t r
  let ?c = "c\<lparr>ssr := snrt_ssr_enable (snrt_ssr_write W SNRT_SSR_DM2 SNRT_SSR_1D (dbl z (of_nat q)) (snrt_ssr_read W SNRT_SSR_DM1 SNRT_SSR_1D (dbl y (of_nat q))
     (snrt_ssr_read W SNRT_SSR_DM0 SNRT_SSR_1D (dbl x (of_nat q)) (snrt_ssr_loop_1d W SNRT_SSR_DM2 (core_range d n) 8 (snrt_ssr_loop_1d W SNRT_SSR_DM1 (core_range d n) 8
       (snrt_ssr_loop_1d W SNRT_SSR_DM0 (core_range d n) 8 (ssr c)))))))\<rparr>"
  have "P f (for_upto f (\<lambda>_ r. Option.bind r (fmadd_stream W T F a)) (Some (?c, m)))"
  proof (rule for_upto_invariant)
    show "P 0 (Some (?c, m))" using axpy_lanes_start [OF c r] by (simp add: P_def)
    fix t u assume t: "t < f" and "P t u"
    then obtain c' where u: "u = Some (c', fold (axpy_step F a x y z) [q..<q + t] m)"
        "axpy_lanes W (core_range d n) (dbl x (of_nat q)) (dbl y (of_nat q)) (dbl z (of_nat q)) t c'" by (auto simp: P_def)
    have qt: "q + t < k" using t share by (simp add: q_def f_def)
    have "t < unat (core_range d n)" using t by (simp add: f_def)
    from fmadd_stream_step [OF u(2) this, of T F a "fold (axpy_step F a x y z) [q..<q + t] m"]
    show "P (Suc t) (Option.bind u (fmadd_stream W T F a))"
      unfolding P_def u(1) tcdm_offset [OF tcdm(1) qt] tcdm_offset [OF tcdm(2) qt] tcdm_offset [OF tcdm(3) qt]
      by (auto simp: axpy_step_def elt_def)
  qed
  moreover have "Suc (unat (core_range d n - 1)) = f"
    using r(1) by (simp add: f_def loop_ok_def unat_sub_if')
  ultimately show ?thesis unfolding axpy_ssr_def off Let_def prod.case by (auto simp: P_def)
qed

section \<open>All compute cores of a cluster\<close>

definition axpy_cores ::
  "ssr_widths \<Rightarrow> ptr \<Rightarrow> fp_ops \<Rightarrow> snrt_defs \<Rightarrow> (u32 \<Rightarrow> ssr_core) \<Rightarrow> u32 list \<Rightarrow> u32 \<Rightarrow> f64 \<Rightarrow> ptr \<Rightarrow> ptr \<Rightarrow> ptr \<Rightarrow> mem \<Rightarrow> mem option" where
  "axpy_cores W T F d cs hs n a x y z m =
     fold (\<lambda>h r. Option.bind r (\<lambda>m. map_option snd (axpy_ssr W T F d h n a x y z (cs h, m)))) hs (Some m)"

definition axpy_layout :: "ssr_widths \<Rightarrow> ptr \<Rightarrow> nat \<Rightarrow> ptr \<Rightarrow> ptr \<Rightarrow> ptr \<Rightarrow> bool" where
  "axpy_layout W T n x y z \<longleftrightarrow> in_tcdm W T x n \<and> in_tcdm W T y n \<and> in_tcdm W T z n \<and> holds x n \<and> holds y n \<and> holds z n \<and>
     span x (8 * n) \<inter> span z (8 * n) = {} \<and> span y (8 * n) \<inter> span z (8 * n) = {}"

lemma axpy_core_share:
  assumes hs: "cores_ok d hs n" and h: "h \<in> set hs" and c: "movers_ready c"
    and r: "loop_ok W (core_range d n) 8" "iw W \<le> 32" and lay: "axpy_layout W T (unat n) x y z"
  defines "f \<equiv> unat n div unat (snrt_cluster_compute_core_num d)"
  shows "\<exists>c'. axpy_ssr W T F d h n a x y z (c, m) = Some (c', fold (axpy_step F a x y z) (share_items f (unat (snrt_cluster_core_idx d h))) m)"
proof -
  let ?p = "unat (snrt_cluster_compute_core_num d)" and ?q = "unat (snrt_cluster_core_idx d h)"
  have p: "0 < ?p" "?p dvd unat n" "all_cores d hs" using hs by (auto simp: cores_ok_def)
  have f: "unat (core_range d n) = f" by (simp add: core_range_def f_def unat_div)
  have "?q \<in> {..<?p}" unfolding all_cores_nat(2) [OF p(3), symmetric] using h by simp
  then have "?q < ?p" by simp
  then have "Suc ?q * f \<le> ?p * f" by (intro mult_right_mono) simp_all
  then have le: "?q * f + f \<le> unat n" using p(2) by (simp add: f_def)
  have off: "unat (core_offset d h n) = ?q * f"
    unfolding core_offset_def f [symmetric] by (rule unat_mult_nowrap) (use le unat_bound [of n] f in simp)
  show ?thesis
    using axpy_ssr_stores [OF c r, of h "unat n" T x y z F a m] le lay by (simp add: off f share_items_def axpy_layout_def)
qed

lemma axpy_cores_run:
  assumes hs: "cores_ok d hs n" and cs: "\<And>h. h \<in> set hs \<Longrightarrow> movers_ready (cs h)"
    and r: "loop_ok W (core_range d n) 8" "iw W \<le> 32" and lay: "axpy_layout W T (unat n) x y z"
  shows "\<exists>xs. set xs = {..<unat n} \<and> axpy_cores W T F d cs hs n a x y z m = Some (fold (axpy_step F a x y z) xs m)"
proof -
  define p where "p = unat (snrt_cluster_compute_core_num d)"
  let ?q = "\<lambda>h. unat (snrt_cluster_core_idx d h)"
  have "0 < p" "p dvd unat n" "distinct (map ?q hs)" "set (map ?q hs) = {..<p}"
    using hs all_cores_nat [of d hs] by (auto simp: cores_ok_def p_def)
  then have "set (concat (map (share_items (unat n div p)) (map ?q hs))) = {..<unat n}" by (rule share_items_cover)
  moreover have "\<exists>c'. axpy_ssr W T F d h n a x y z (cs h, m) = Some (c', fold (axpy_step F a x y z) (share_items (unat n div p) (?q h)) m)"
    if "h \<in> set hs" for h m
    unfolding p_def by (rule axpy_core_share [OF hs that cs [OF that] r lay])
  then have "axpy_cores W T F d cs hs n a x y z m = Some (fold (axpy_step F a x y z) (concat (map (share_items (unat n div p)) (map ?q hs))) m)"
    unfolding axpy_cores_def
  proof (induction hs arbitrary: m)
    case (Cons h hs)
    obtain c' where "axpy_ssr W T F d h n a x y z (cs h, m) = Some (c', fold (axpy_step F a x y z) (share_items (unat n div p) (?q h)) m)"
      using Cons.prems [of h m] by auto
    then show ?case using Cons by simp
  qed simp
  ultimately show ?thesis by blast
qed

lemma axpy_cores_result:
  fixes m :: mem
  assumes hs: "cores_ok d hs n" and cs: "\<And>h. h \<in> set hs \<Longrightarrow> movers_ready (cs h)"
    and r: "loop_ok W (core_range d n) 8" "iw W \<le> 32" and lay: "axpy_layout W T (unat n) x y z"
  shows "\<exists>m'. axpy_cores W T F d cs hs n a x y z m = Some m' \<and>
    (\<forall>i < unat n. elt m' z i = fmadd F a (elt m x i) (elt m y i)) \<and> (\<forall>b. b \<notin> span z (8 * unat n) \<longrightarrow> m' b = m b)"
proof -
  note l = lay [unfolded axpy_layout_def]
  obtain xs where xs: "set xs = {..<unat n}" "axpy_cores W T F d cs hs n a x y z m = Some (fold (axpy_step F a x y z) xs m)"
    using axpy_cores_run [where cs = cs and F = F and a = a and m = m, OF hs _ r lay] cs by blast
  have V: "fmadd F a (elt u x i) (elt u y i) = fmadd F a (elt v x i) (elt v y i)"
    if "i < unat n" "\<And>b. b \<notin> span z (8 * unat n) \<Longrightarrow> u b = v b" for i and u v :: mem
  proof -
    have "elt u x i = elt v x i" by (rule elt_span_cong [of x "unat n"]) (use l that in auto)
    moreover have "elt u y i = elt v y i" by (rule elt_span_cong [of y "unat n"]) (use l that in auto)
    ultimately show ?thesis by simp
  qed
  have z: "holds z (unat n)" using l by simp
  note st = fold_stores [where V = "\<lambda>i m. fmadd F a (elt m x i) (elt m y i)" and xs = xs and m = m, OF z _ V, folded axpy_step_def]
  have "fold (axpy_step F a x y z) xs m b = m b" if "b \<notin> span z (8 * unat n)" for b
    by (rule st(1)) (use that xs in auto)
  moreover have "elt (fold (axpy_step F a x y z) xs m) z i = fmadd F a (elt m x i) (elt m y i)" if "i < unat n" for i
    by (rule trans [OF st(2)]) (use that xs in auto)
  ultimately show ?thesis using xs(2) by blast
qed

section \<open>The application\<close>

text \<open>The globals of the generated \<open>data.h\<close>; \<open>axp_g\<close> is the golden model.\<close>

record axpy_data =
  axp_n :: u32
  axp_a :: f64
  axp_x :: ptr
  axp_y :: ptr
  axp_z :: ptr
  axp_g :: ptr

text \<open>The check of core 0, as it is compiled with \<open>BIST\<close>: every element that equals the golden one counts down from \<open>n\<close>.\<close>

definition axpy_check :: "fp_ops \<Rightarrow> u32 \<Rightarrow> ptr \<Rightarrow> ptr \<Rightarrow> mem \<Rightarrow> u32" where
  "axpy_check F n local_z g m =
     for_upto (unat n) (\<lambda>i nerr. if feq F (load64 (dbl local_z (of_nat i)) m) (load64 (dbl g (of_nat i)) m) then nerr - 1 else nerr) n"

text \<open>One cluster, with the data mover core \<open>dm\<close> and the compute cores \<open>hs\<close>.\<close>

definition axpy_main ::
  "ssr_widths \<Rightarrow> ptr \<Rightarrow> (dma_req \<Rightarrow> mem \<Rightarrow> mem) \<Rightarrow> nat list \<Rightarrow> nat list \<Rightarrow> fp_ops \<Rightarrow> snrt_defs \<Rightarrow> (u32 \<Rightarrow> ssr_core) \<Rightarrow> u32 \<Rightarrow> u32 list \<Rightarrow> ptr \<Rightarrow>
     axpy_data \<Rightarrow> dma_state \<Rightarrow> (u32 \<times> dma_state) option" where
  "axpy_main W T exec sched_in sched_out F d cs dm hs l1 A st =
     (let frac = axp_n A div snrt_cluster_num d;
          offset = frac * snrt_cluster_idx d dm;
          remote_x = dbl (axp_x A) offset; remote_y = dbl (axp_y A) offset; remote_z = dbl (axp_z A) offset;
          local_x = l1; local_y = dbl local_x frac; local_z = dbl local_y frac;
          sz = frac * 8;
          st = snd (snrt_dma_start_1d local_x remote_x sz st);
          st = snd (snrt_dma_start_1d local_y remote_y sz st)
      in Option.bind (snrt_dma_wait_all exec sched_in st) (\<lambda>st.
         Option.bind (axpy_cores W T F d cs hs frac (axp_a A) local_x local_y local_z (dmem st)) (\<lambda>m.
         Option.bind (snrt_dma_wait_all exec sched_out (snd (snrt_dma_start_1d remote_z local_z sz (st\<lparr>dmem := m\<rparr>)))) (\<lambda>st.
           Some (axpy_check F (axp_n A) local_z (axp_g A) (dmem st), st)))))"

lemma axpy_check_count:
  "axpy_check F n local_z g m = of_nat (card {i. i < unat n \<and> \<not> feq F (elt m local_z i) (elt m g i)})"
proof -
  let ?p = "\<lambda>i. feq F (elt m local_z i) (elt m g i)"
  have "for_upto k (\<lambda>i nerr. if ?p i then nerr - 1 else nerr) (n + of_nat j) = n + of_nat j - of_nat (card {i. i < k \<and> ?p i})" for k j
  proof (induction k)
    case (Suc k)
    have "{i. i < Suc k \<and> ?p i} = (if ?p k then insert k {i. i < k \<and> ?p i} else {i. i < k \<and> ?p i})" by (auto simp: less_Suc_eq)
    then show ?case using Suc by (simp add: for_upto_Suc)
  qed simp
  from this [of "unat n" 0] have "axpy_check F n local_z g m = n - of_nat (card {i. i < unat n \<and> ?p i})"
    by (simp add: axpy_check_def elt_def)
  moreover have "card {i. i < unat n \<and> ?p i} + card {i. i < unat n \<and> \<not> ?p i} = card ({i. i < unat n \<and> ?p i} \<union> {i. i < unat n \<and> \<not> ?p i})"
    by (subst card_Un_disjoint) auto
  moreover have "{i. i < unat n \<and> ?p i} \<union> {i. i < unat n \<and> \<not> ?p i} = {..<unat n}" by auto
  ultimately have "axpy_check F n local_z g m + of_nat (card {i. i < unat n \<and> ?p i}) = of_nat (card {i. i < unat n \<and> ?p i} + card {i. i < unat n \<and> \<not> ?p i})"
    by simp
  then show ?thesis by (simp add: algebra_simps)
qed

section \<open>The baseline\<close>

text \<open>Without stream registers the product and the sum are rounded separately.\<close>

lemma axpy_base_result:
  fixes F :: fp_ops and m :: mem and a :: f64
  assumes hs: "cores_ok d hs n" "\<And>h. h \<in> set hs \<Longrightarrow> snrt_is_compute_core d h"
    and lay: "holds x (unat n)" "holds y (unat n)" "holds z (unat n)" "unat n < 2 ^ 31"
      "span x (8 * unat n) \<inter> span z (8 * unat n) = {}" "span y (8 * unat n) \<inter> span z (8 * unat n) = {}"
  defines "m' \<equiv> fold (\<lambda>h. axpy F d h n a x y z) hs m"
  shows "i < unat n \<Longrightarrow> elt m' z i = fadd F (fmul F a (elt m x i)) (elt m y i)" and "b \<notin> span z (8 * unat n) \<Longrightarrow> m' b = m b"
proof -
  let ?body = "\<lambda>i m. store64 (dbl z i) (fadd F (fmul F a (load64 (dbl x i) m)) (load64 (dbl y i) m)) m"
  have "axpy F d h n a x y z = for_share d h n ?body" if "h \<in> set hs" for h
    using hs(2) [OF that] by (simp add: fun_eq_iff axpy_def for_share_def Let_def)
  then have m': "m' = fold (\<lambda>h. for_share d h n ?body) hs m" unfolding m'_def by (intro fold_cong) auto
  obtain xs where xs: "distinct xs" "set xs = {..<unat n}" "m' = fold (\<lambda>i. ?body (of_nat i)) xs m"
    unfolding m' by (rule phase_items [OF hs(1) lay(4)])
  have V: "fadd F (fmul F a (elt u x i)) (elt u y i) = fadd F (fmul F a (elt v x i)) (elt v y i)"
    if "i < unat n" "\<And>b. b \<notin> span z (8 * unat n) \<Longrightarrow> u b = v b" for i and u v :: mem
  proof -
    have "elt u x i = elt v x i" by (rule elt_span_cong [of x "unat n"]) (use lay that in auto)
    moreover have "elt u y i = elt v y i" by (rule elt_span_cong [of y "unat n"]) (use lay that in auto)
    ultimately show ?thesis by simp
  qed
  note st = fold_stores [where V = "\<lambda>i m. fadd F (fmul F a (elt m x i)) (elt m y i)" and xs = xs and m = m, OF lay(3) _ V]
  show "i < unat n \<Longrightarrow> elt m' z i = fadd F (fmul F a (elt m x i)) (elt m y i)"
    unfolding xs(3) elt_def [symmetric] by (rule trans [OF st(2)]) (use xs(2) in auto)
  show "b \<notin> span z (8 * unat n) \<Longrightarrow> m' b = m b"
    unfolding xs(3) elt_def [symmetric] by (rule st(1)) (use xs(2) in auto)
qed

section \<open>From L3 to L3\<close>

definition axpy_ok :: "ssr_widths \<Rightarrow> ptr \<Rightarrow> snrt_defs \<Rightarrow> u32 \<Rightarrow> axpy_data \<Rightarrow> ptr \<Rightarrow> bool" where
  "axpy_ok W T d dm A l1 \<longleftrightarrow>
     (let frac = axp_n A div snrt_cluster_num d; off = frac * snrt_cluster_idx d dm; k = unat frac;
          x = dbl (axp_x A) off; y = dbl (axp_y A) off; z = dbl (axp_z A) off
      in unat l1 + 8 * (k + k + k) < 2 ^ 32 \<and> in_tcdm W T l1 (k + k + k) \<and> loop_ok W (core_range d frac) 8 \<and> iw W \<le> 32 \<and>
         holds x k \<and> holds y k \<and> array_ok z k \<and> holds (axp_g A) k \<and>
         beside l1 (k + k + k) x k \<and> beside l1 (k + k + k) y k \<and> beside l1 (k + k + k) z k \<and>
         beside l1 (k + k + k) (axp_g A) k \<and> beside z k (axp_g A) k)"

lemma in_tcdm_part: "in_tcdm W T p (q + n) \<Longrightarrow> in_tcdm W T (dbl p (of_nat q)) n"
proof -
  assume a: "in_tcdm W T p (q + n)"
  have "dbl (dbl p (of_nat q)) (of_nat i) = dbl p (of_nat (q + i))" for i by (simp add: dbl_def algebra_simps)
  then show ?thesis using a by (simp add: in_tcdm_def del: of_nat_add)
qed

lemma in_tcdm_less: "in_tcdm W T p n \<Longrightarrow> k \<le> n \<Longrightarrow> in_tcdm W T p k"
  by (simp add: in_tcdm_def)

lemma axpy_local:
  assumes b: "unat l1 + 8 * (k + k + k) < 2 ^ 32" and t: "in_tcdm W T l1 (k + k + k)"
  defines "ly \<equiv> dbl l1 (of_nat k)"
  defines "lz \<equiv> dbl ly (of_nat k)"
  shows "unat ly = unat l1 + 8 * k" "unat lz = unat l1 + 8 * k + 8 * k" "array_ok l1 k" "array_ok ly k" "array_ok lz k"
    and "axpy_layout W T k l1 ly lz"
proof -
  show l: "unat ly = unat l1 + 8 * k" "array_ok ly k" using dbl_next [of l1 k k] b by (simp_all add: ly_def)
  show l': "unat lz = unat l1 + 8 * k + 8 * k" "array_ok lz k" using dbl_next [of ly k k] b l(1) by (simp_all add: lz_def)
  show l1: "array_ok l1 k" using b by (simp add: array_ok_def holds_def)
  have lz: "lz = dbl l1 (of_nat (k + k))" by (simp add: lz_def ly_def dbl_def algebra_simps)
  have "in_tcdm W T ly k" unfolding ly_def by (rule in_tcdm_part) (rule in_tcdm_less [OF t], simp)
  moreover have "in_tcdm W T lz k" unfolding lz by (rule in_tcdm_part [OF t])
  moreover have "in_tcdm W T l1 k" by (rule in_tcdm_less [OF t]) simp
  moreover have "beside l1 k lz k" "beside ly k lz k" using l l' by (simp_all add: beside_def)
  ultimately show "axpy_layout W T k l1 ly lz" using l(2) l'(2) l1 beside_span by (simp add: axpy_layout_def array_ok_def)
qed

context dma_backend
begin

lemma axpy_copy_in:
  assumes idle: "pending st = []" and sched: "2 \<le> sum_list sched" and l: "array_ok lx k" "array_ok ly k" "beside ly k lx k"
    and x: "holds x k" "beside lx k x k" and y: "holds y k" "beside lx k y k" "beside ly k y k"
  obtains st' where "snrt_dma_wait_all exec sched (snd (snrt_dma_start_1d ly y (of_nat (8 * k)) (snd (snrt_dma_start_1d lx x (of_nat (8 * k)) st)))) = Some st'"
    "pending st' = []" "\<And>i. i < k \<Longrightarrow> elt (dmem st') lx i = elt (dmem st) x i" "\<And>i. i < k \<Longrightarrow> elt (dmem st') ly i = elt (dmem st) y i"
    "\<And>b. b \<notin> span lx (8 * k) \<union> span ly (8 * k) \<Longrightarrow> dmem st' b = dmem st b"
proof -
  let ?t = "transfers [(lx, k, x), (ly, k, y)] st"
  have m0: "dma_settled exec st = dmem st" by (simp add: dma_settled_def idle)
  have "length (pending ?t) \<le> 2 + length (pending st)" by (rule order_trans [OF transfers_pending]) simp
  then have "length (pending ?t) \<le> sum_list sched" using idle sched by simp
  then obtain st' where st': "snrt_dma_wait_all exec sched ?t = Some st'" "pending st' = []" "dmem st' = dma_settled exec ?t"
    using wait_all_settles by blast
  show thesis
  proof (rule that [of st'])
    show "elt (dmem st') lx i = elt (dmem st) x i" if "i < k" for i
      unfolding st'(3) m0 [symmetric] using transfers_elt [of lx k x "[]" "[(ly, k, y)]" i st] assms that by simp
    show "elt (dmem st') ly i = elt (dmem st) y i" if "i < k" for i
      unfolding st'(3) m0 [symmetric] using transfers_elt [of ly k y "[(lx, k, x)]" "[]" i st] assms that by simp
    show "dmem st' b = dmem st b" if "b \<notin> span lx (8 * k) \<union> span ly (8 * k)" for b
      unfolding st'(3) m0 [symmetric] by (rule transfers_frame) (use that l in auto)
  qed (use st' in simp_all)
qed

lemma axpy_compute:
  fixes F :: fp_ops and frac :: u32
  defines "k \<equiv> unat frac"
  assumes idle: "pending st = []" and sched: "2 \<le> sum_list sched" and hs: "cores_ok d hs frac" and cs: "\<And>h. h \<in> set hs \<Longrightarrow> movers_ready (cs h)"
    and r: "loop_ok W (core_range d frac) 8" "iw W \<le> 32"
    and l1: "unat l1 + 8 * (k + k + k) < 2 ^ 32" "in_tcdm W T l1 (k + k + k)"
    and x: "holds x k" "beside l1 (k + k + k) x k" and y: "holds y k" "beside l1 (k + k + k) y k"
  defines "ly \<equiv> dbl l1 frac"
  defines "lz \<equiv> dbl ly frac"
  obtains s1 m where "snrt_dma_wait_all exec sched (snd (snrt_dma_start_1d ly y (frac * 8) (snd (snrt_dma_start_1d l1 x (frac * 8) st)))) = Some s1"
    "pending s1 = []" "axpy_cores W T F d cs hs frac a l1 ly lz (dmem s1) = Some m"
    "\<And>i. i < k \<Longrightarrow> elt m lz i = fmadd F a (elt (dmem st) x i) (elt (dmem st) y i)"
    "\<And>b. b \<notin> span l1 (8 * (k + k + k)) \<Longrightarrow> m b = dmem st b"
proof -
  have fr: "frac = of_nat k" by (simp add: k_def)
  then have sz: "frac * 8 = of_nat (8 * k)" by simp
  note l = axpy_local [OF l1, folded fr, folded ly_def, folded lz_def]
  have part: "beside p k q k" if "beside l1 (k + k + k) q k" "unat l1 \<le> unat p" "unat p + 8 * k \<le> unat l1 + 8 * (k + k + k)" for p q
    using beside_part that by blast
  have bx: "beside l1 k x k" "beside l1 k y k" by (rule part, use x y in simp_all)+
  have bly: "beside ly k y k" by (rule part, use y l in simp_all)
  have ll: "beside ly k l1 k" using l by (simp add: beside_def)
  obtain s1 where s1: "snrt_dma_wait_all exec sched (snd (snrt_dma_start_1d ly y (of_nat (8 * k)) (snd (snrt_dma_start_1d l1 x (of_nat (8 * k)) st)))) = Some s1"
    "pending s1 = []" "\<And>i. i < k \<Longrightarrow> elt (dmem s1) l1 i = elt (dmem st) x i" "\<And>i. i < k \<Longrightarrow> elt (dmem s1) ly i = elt (dmem st) y i"
    "\<And>b. b \<notin> span l1 (8 * k) \<union> span ly (8 * k) \<Longrightarrow> dmem s1 b = dmem st b"
    by (rule axpy_copy_in [OF idle sched l(3,4) ll, of x y]) (use x y bx bly in auto)
  obtain m where m: "axpy_cores W T F d cs hs frac a l1 ly lz (dmem s1) = Some m"
    "\<forall>i<k. elt m lz i = fmadd F a (elt (dmem s1) l1 i) (elt (dmem s1) ly i)" "\<forall>b. b \<notin> span lz (8 * k) \<longrightarrow> m b = dmem s1 b"
    using axpy_cores_result [where cs = cs and F = F and a = a and m = "dmem s1", OF hs _ r l(6) [unfolded k_def]] cs
    unfolding k_def by auto
  have sub: "span l1 (8 * k) \<union> span ly (8 * k) \<union> span lz (8 * k) \<subseteq> span l1 (8 * (k + k + k))"
    by (intro Un_least span_sub) (use l(1,2) in simp_all)
  show thesis
  proof (rule that [OF s1(1) [folded sz] s1(2) m(1)])
    show "elt m lz i = fmadd F a (elt (dmem st) x i) (elt (dmem st) y i)" if "i < k" for i using m(2) s1(3,4) that by simp
    show "m b = dmem st b" if "b \<notin> span l1 (8 * (k + k + k))" for b
    proof -
      have "b \<notin> span l1 (8 * k) \<union> span ly (8 * k)" "b \<notin> span lz (8 * k)" using that sub by blast+
      then show ?thesis using m(3) s1(5) by simp
    qed
  qed
qed

end


definition example_axpy :: axpy_data where
  "example_axpy = \<lparr>axp_n = 16, axp_a = 3, axp_x = 0x80000000, axp_y = 0x80001000, axp_z = 0x80002000, axp_g = 0x80003000\<rparr>"


end
