(* ===== verification/Saris.thy ===== *)
theory Saris
  imports Axpy
begin

text \<open>
  The C part of the runtime of the stencil codes, \<open>sw/saris/runtime\<close>: \<open>sssr.h\<close>, \<open>dma.h\<close> and the output and copy routines of \<open>runtime.h\<close>. It
  programs the same hardware as \<open>ssr.h\<close> and \<open>dma.h\<close> of the snRuntime, and the lemmas compare the two. Its \<open>_putchar\<close> is that of \<open>Boot\<close> with a
  shorter buffer; here printing yields the text.
\<close>

section \<open>Streams\<close>

definition rt_sssr_cfg_write :: "ssr_widths \<Rightarrow> u32 \<Rightarrow> nat \<Rightarrow> nat \<Rightarrow> ssr_state \<Rightarrow> ssr_state" where
  "rt_sssr_cfg_write W val ssridx regidx s = write_ssr_cfg W regidx ssridx val s"

definition rt_sssr_cfg_read :: "nat \<Rightarrow> nat \<Rightarrow> ssr_state \<Rightarrow> u32" where
  "rt_sssr_cfg_read ssridx regidx s = read_ssr_cfg regidx ssridx s"

definition rt_sssr_bound_stride_1d :: "ssr_widths \<Rightarrow> nat \<Rightarrow> u32 \<Rightarrow> u32 \<Rightarrow> ssr_state \<Rightarrow> ssr_state" where
  "rt_sssr_bound_stride_1d W ssridx b0 s0 s =
     (let b0 = b0 - 1; s = rt_sssr_cfg_write W b0 ssridx 2 s
      in rt_sssr_cfg_write W s0 ssridx 6 s)"

definition rt_sssr_bound_stride_2d :: "ssr_widths \<Rightarrow> nat \<Rightarrow> u32 \<Rightarrow> u32 \<Rightarrow> u32 \<Rightarrow> u32 \<Rightarrow> ssr_state \<Rightarrow> ssr_state" where
  "rt_sssr_bound_stride_2d W ssridx b0 s0 b1 s1 s =
     (let b0 = b0 - 1; s = rt_sssr_cfg_write W b0 ssridx 2 s;
          b1 = b1 - 1; s = rt_sssr_cfg_write W b1 ssridx 3 s;
          a = 0; s = rt_sssr_cfg_write W (s0 - a) ssridx 6 s;
          a = a + s0 * b0
      in rt_sssr_cfg_write W (s1 - a) ssridx 7 s)"

definition rt_sssr_bound_stride_3d :: "ssr_widths \<Rightarrow> nat \<Rightarrow> u32 \<Rightarrow> u32 \<Rightarrow> u32 \<Rightarrow> u32 \<Rightarrow> u32 \<Rightarrow> u32 \<Rightarrow> ssr_state \<Rightarrow> ssr_state" where
  "rt_sssr_bound_stride_3d W ssridx b0 s0 b1 s1 b2 s2 s =
     (let b0 = b0 - 1; s = rt_sssr_cfg_write W b0 ssridx 2 s;
          b1 = b1 - 1; s = rt_sssr_cfg_write W b1 ssridx 3 s;
          b2 = b2 - 1; s = rt_sssr_cfg_write W b2 ssridx 4 s;
          a = 0; s = rt_sssr_cfg_write W (s0 - a) ssridx 6 s;
          a = a + s0 * b0; s = rt_sssr_cfg_write W (s1 - a) ssridx 7 s;
          a = a + s1 * b1
      in rt_sssr_cfg_write W (s2 - a) ssridx 8 s)"

definition rt_sssr_bound_stride_4d ::
  "ssr_widths \<Rightarrow> nat \<Rightarrow> u32 \<Rightarrow> u32 \<Rightarrow> u32 \<Rightarrow> u32 \<Rightarrow> u32 \<Rightarrow> u32 \<Rightarrow> u32 \<Rightarrow> u32 \<Rightarrow> ssr_state \<Rightarrow> ssr_state" where
  "rt_sssr_bound_stride_4d W ssridx b0 s0 b1 s1 b2 s2 b3 s3 s =
     (let b0 = b0 - 1; s = rt_sssr_cfg_write W b0 ssridx 2 s;
          b1 = b1 - 1; s = rt_sssr_cfg_write W b1 ssridx 3 s;
          b2 = b2 - 1; s = rt_sssr_cfg_write W b2 ssridx 4 s;
          b3 = b3 - 1; s = rt_sssr_cfg_write W b3 ssridx 5 s;
          a = 0; s = rt_sssr_cfg_write W (s0 - a) ssridx 6 s;
          a = a + s0 * b0; s = rt_sssr_cfg_write W (s1 - a) ssridx 7 s;
          a = a + s1 * b1; s = rt_sssr_cfg_write W (s2 - a) ssridx 8 s;
          a = a + s2 * b2
      in rt_sssr_cfg_write W (s3 - a) ssridx 9 s)"

text \<open>The four functions do what those of \<open>ssr.h\<close> do, with the arguments in another order.\<close>

lemma rt_sssr_bound_stride_ssr:
  "rt_sssr_bound_stride_1d W (ssr_dm_num dm) b0 s0 = snrt_ssr_loop_1d W dm b0 s0"
  "rt_sssr_bound_stride_2d W (ssr_dm_num dm) b0 s0 b1 s1 = snrt_ssr_loop_2d W dm b0 b1 s0 s1"
  "rt_sssr_bound_stride_3d W (ssr_dm_num dm) b0 s0 b1 s1 b2 s2 = snrt_ssr_loop_3d W dm b0 b1 b2 s0 s1 s2"
  "rt_sssr_bound_stride_4d W (ssr_dm_num dm) b0 s0 b1 s1 b2 s2 b3 s3 = snrt_ssr_loop_4d W dm b0 b1 b2 b3 s0 s1 s2 s3"
  by (simp_all add: fun_eq_iff rt_sssr_bound_stride_1d_def rt_sssr_bound_stride_2d_def rt_sssr_bound_stride_3d_def rt_sssr_bound_stride_4d_def
      snrt_ssr_loop_1d_def snrt_ssr_loop_2d_def snrt_ssr_loop_3d_def snrt_ssr_loop_4d_def rt_sssr_cfg_write_def ssr_reg_defs Let_def)

text \<open>\<open>__rt_sssr_wait_done\<close> polls bit 31 of the status. The schedule lists how many requests the mover makes before each next poll.\<close>

fun mover_serve :: "ssr_widths \<Rightarrow> nat \<Rightarrow> ssr_mover \<Rightarrow> ssr_mover" where
  "mover_serve W 0 m = m"
| "mover_serve W (Suc n) m = (case mover_step W m of None \<Rightarrow> m | Some (a, m') \<Rightarrow> mover_serve W n m')"

fun rt_sssr_wait_done :: "ssr_widths \<Rightarrow> nat list \<Rightarrow> ssr_mover \<Rightarrow> ssr_mover option" where
  "rt_sssr_wait_done W [] m = (if drop_bit 31 (mover_read 0 m) \<noteq> 0 then Some m else None)"
| "rt_sssr_wait_done W (k # ks) m = (if drop_bit 31 (mover_read 0 m) \<noteq> 0 then Some m else rt_sssr_wait_done W ks (mover_serve W k m))"

lemma status_done:
  assumes "r_dims (act m) < 4"
  shows "drop_bit 31 (mover_read 0 m) \<noteq> 0 \<longleftrightarrow> r_done (act m)"
proof -
  have "r_dims (act m) \<in> {0, 1, 2, 3}" using assms by auto
  then have d: "\<not> bit (of_nat (r_dims (act m)) :: u32) 3" by auto
  have "drop_bit 31 x = of_bool (bit x 31)" for x :: u32
  proof (rule bit_word_eqI)
    fix n show "bit (drop_bit 31 x) n = bit (of_bool (bit x 31) :: u32) n"
      by (cases n) (auto simp: bit_simps dest: bit_imp_le_length)
  qed
  then have "drop_bit 31 (mover_read 0 m) \<noteq> 0 \<longleftrightarrow> bit (mover_read 0 m) 31" by simp
  also have "\<dots> \<longleftrightarrow> r_done (act m)" using d by (simp add: mover_read_def Let_def bit_simps)
  finally show ?thesis .
qed


lemma mover_serve_run: "mover_run W n m = Some (xs, m') \<Longrightarrow> mover_serve W n m = m'"
  by (induction n arbitrary: m xs) (auto split: option.splits prod.splits)

lemma rt_sssr_wait_done_returns:
  assumes "mover_run W n m = Some (xs, m')" "r_done (act m')" "r_dims (act m) < 4" "r_dims (act m') < 4"
  shows "rt_sssr_wait_done W [n] m = Some (if r_done (act m) then m else m')"
  using assms by (simp add: status_done mover_serve_run)

section \<open>Index configuration\<close>

text \<open>\<open>__RT_SSSR_IDX_CFG\<close> and \<open>__rt_sssr_ptoi\<close>.\<close>

definition RT_SSSR_IDX_CFG :: "u32 \<Rightarrow> u32 \<Rightarrow> u32 \<Rightarrow> u32" where
  "RT_SSSR_IDX_CFG sz shift flags = push_bit 16 (flags AND 0xFFFF) OR push_bit 8 (shift AND 0xFF) OR (sz AND 0xFF)"

definition rt_sssr_ptoi :: "ptr \<Rightarrow> 16 word" where
  "rt_sssr_ptoi p = ucast (drop_bit 3 p)"

lemma idx_cfg_fields:
  "RT_SSSR_IDX_CFG sz shift flags AND 0xFF = sz AND 0xFF"
  "drop_bit 8 (RT_SSSR_IDX_CFG sz shift flags) AND 0xFF = shift AND 0xFF"
  "drop_bit 16 (RT_SSSR_IDX_CFG sz shift flags) = flags AND 0xFFFF"
proof -
  have m: "(0xFF :: u32) = mask 8" "(0xFFFF :: u32) = mask 16" by (simp_all add: mask_eq_exp_minus_1)
  show "RT_SSSR_IDX_CFG sz shift flags AND 0xFF = sz AND 0xFF"
    "drop_bit 8 (RT_SSSR_IDX_CFG sz shift flags) AND 0xFF = shift AND 0xFF"
    "drop_bit 16 (RT_SSSR_IDX_CFG sz shift flags) = flags AND 0xFFFF"
    unfolding RT_SSSR_IDX_CFG_def m by (auto simp: bit_eq_iff bit_simps)
qed

text \<open>The index of a word in the TCDM identifies it as far as the 19 lower address bits do.\<close>

lemma ptoi_eq_iff: "rt_sssr_ptoi p = rt_sssr_ptoi q \<longleftrightarrow> (\<forall>n. 3 \<le> n \<and> n < 19 \<longrightarrow> bit p n = bit q n)"
proof -
  have "rt_sssr_ptoi p = rt_sssr_ptoi q \<longleftrightarrow> (\<forall>n<16. bit p (n + 3) = bit q (n + 3))"
    by (auto simp: rt_sssr_ptoi_def bit_eq_iff bit_simps add.commute)
  also have "\<dots> \<longleftrightarrow> (\<forall>n. 3 \<le> n \<and> n < 19 \<longrightarrow> bit p n = bit q n)"
  proof (rule iffI; intro allI impI)
    fix n :: nat assume all: "\<forall>n<16. bit p (n + 3) = bit q (n + 3)" and n: "3 \<le> n \<and> n < 19"
    then have "n - 3 < 16" "n - 3 + 3 = n" by auto
    then show "bit p n = bit q n" using all by metis
  qed simp
  finally show ?thesis .
qed

section \<open>Transfers\<close>

text \<open>
  Here the assembler encodes the instructions: the first operand is \<open>rs1\<close>, the second one \<open>rs2\<close>, as for \<open>dmsrc\<close>, whose first
  operand is the low half. The names of the stride parameters of the wide function are those of the operands.
\<close>

definition rt_dma_start_1d_wideptr :: "u64 \<Rightarrow> u64 \<Rightarrow> u32 \<Rightarrow> dma_state \<Rightarrow> u32 \<times> dma_state" where
  "rt_dma_start_1d_wideptr dst src sz st =
     (let st = st\<lparr>regs := (regs st)(10 := ucast dst, 11 := ucast (drop_bit 32 dst), 12 := ucast src, 13 := ucast (drop_bit 32 src), 14 := sz)\<rparr>;
          st = dm_exec (DMSRC 13 12) st;
          st = dm_exec (DMDST 11 10) st;
          st = dm_exec (DMCPYI 0 14 10) st
      in (regs st 10, st))"

definition rt_dma_start_2d_wideptr :: "u64 \<Rightarrow> u64 \<Rightarrow> u32 \<Rightarrow> u32 \<Rightarrow> u32 \<Rightarrow> u32 \<Rightarrow> dma_state \<Rightarrow> u32 \<times> dma_state" where
  "rt_dma_start_2d_wideptr dst src sz dst_stride src_stride repeat st =
     (let st = st\<lparr>regs := (regs st)(10 := ucast dst, 11 := ucast (drop_bit 32 dst), 12 := ucast src, 13 := ucast (drop_bit 32 src), 14 := sz,
            15 := src_stride, 16 := dst_stride, 17 := repeat)\<rparr>;
          st = dm_exec (DMSRC 13 12) st;
          st = dm_exec (DMDST 11 10) st;
          st = dm_exec (DMSTR 15 16) st;
          st = dm_exec (DMREP 17) st;
          st = dm_exec (DMCPYI 2 14 10) st
      in (regs st 10, st))"

definition rt_dma_start_1d :: "ptr \<Rightarrow> ptr \<Rightarrow> u32 \<Rightarrow> dma_state \<Rightarrow> u32 \<times> dma_state" where
  "rt_dma_start_1d dst src sz st = rt_dma_start_1d_wideptr (ucast dst) (ucast src) sz st"

definition rt_dma_start_2d :: "ptr \<Rightarrow> ptr \<Rightarrow> u32 \<Rightarrow> u32 \<Rightarrow> u32 \<Rightarrow> u32 \<Rightarrow> dma_state \<Rightarrow> u32 \<times> dma_state" where
  "rt_dma_start_2d dst src sz src_stride dst_stride repeat st =
     rt_dma_start_2d_wideptr (ucast dst) (ucast src) sz src_stride dst_stride repeat st"

definition rt_dma_completed_id :: "dma_state \<Rightarrow> u32" where
  "rt_dma_completed_id st = (let cid = dm_status 0 st in cid + 1)"

text \<open>\<open>dmstati tmp, 0; bgt tid, tmp, 1b\<close> after \<open>tid++\<close>, and \<open>dmstati tmp, 2; bne tmp, zero, 1b\<close>.\<close>

definition rt_dma_wait :: "u32 \<Rightarrow> (dma_req \<Rightarrow> mem \<Rightarrow> mem) \<Rightarrow> nat list \<Rightarrow> dma_state \<Rightarrow> dma_state option" where
  "rt_dma_wait tid = (let tid = tid + 1 in poll_until (\<lambda>st. \<not> sint (dm_status 0 st) < sint tid))"

definition rt_dma_wait_all :: "(dma_req \<Rightarrow> mem \<Rightarrow> mem) \<Rightarrow> nat list \<Rightarrow> dma_state \<Rightarrow> dma_state option" where
  "rt_dma_wait_all = poll_until (\<lambda>st. dm_status 2 st = 0)"

text \<open>
  The functions agree with those of \<open>dma.h\<close> for transfers that are not empty. The two functions for 2D transfers name their strides in
  opposite orders, and the wide one has them the wrong way round, so that \<open>__rt_dma_start_2d\<close> is right.
\<close>

lemma rt_dma_start_snrt:
  assumes "0 < sz"
  defines "front r \<equiv> (fst r, (snd r)\<lparr>regs := (\<lambda>_. 0) :: nat \<Rightarrow> u32\<rparr>)"
  shows "front (rt_dma_start_1d dst src sz st) = front (snrt_dma_start_1d dst src sz st)"
    and "front (rt_dma_start_2d dst src sz src_stride dst_stride repeat st) = front (snrt_dma_start_2d dst src sz dst_stride src_stride repeat st)"
  using assms
  by (simp_all add: front_def rt_dma_start_1d_def rt_dma_start_2d_def rt_dma_start_1d_wideptr_def rt_dma_start_2d_wideptr_def snrt_dma_start_1d_def
      snrt_dma_start_2d_def snrt_dma_start_1d_wideptr_def snrt_dma_start_2d_wideptr_def asm_word_def write_reg_def Let_def)

lemma rt_dma_wait_all_snrt: "rt_dma_wait_all = snrt_dma_wait_all"
proof -
  have "(\<lambda>st. dm_status 2 st = 0) = dma_idle_exit" by (simp add: fun_eq_iff dm_status_def)
  then show ?thesis by (simp add: rt_dma_wait_all_def snrt_dma_wait_all_def)
qed

text \<open>
  The wait for one transfer compares signed numbers, where \<open>dma.h\<close> looks at the sign of the difference: it agrees while neither identifier has
  reached \<open>2 ^ 31\<close>, and does not wait at all for the transfer \<open>2 ^ 31 - 1\<close>.
\<close>

lemma rt_dma_wait_exit:
  assumes "unat tid + 1 < 2 ^ 31" "unat (completed_id st) < 2 ^ 31"
  shows "\<not> sint (dm_status 0 st) < sint (tid + 1) \<longleftrightarrow> dma_wait_exit tid st"
proof -
  have c: "sint (completed_id st) = int (unat (completed_id st))" using sint_of_nat_small [OF assms(2)] by simp
  have t: "sint (tid + 1) = int (unat tid + 1)" using sint_of_nat_small [OF assms(1)] by (simp add: add.commute)
  have "sint (completed_id st - tid) = int (unat (completed_id st)) - int (unat tid)"
  proof -
    have "completed_id st - tid = word_of_int (int (unat (completed_id st)) - int (unat tid))" by simp
    moreover have int: "int (unat x) < 2 ^ 31" if "unat x < 2 ^ 31" for x :: u32
      using that by (metis of_nat_less_iff of_nat_numeral of_nat_power)
    have "unat tid < 2 ^ 31" using assms(1) by simp
    from int [OF this] int [OF assms(2)] have "- (2 ^ 31) \<le> int (unat (completed_id st)) - int (unat tid)" "int (unat (completed_id st)) - int (unat tid) < 2 ^ 31" by linarith+
    moreover have "sint (word_of_int k :: u32) = k" if "- (2 ^ 31) \<le> k" "k < 2 ^ 31" for k
      unfolding int_word_sint using that by (simp add: mod_pos_pos_trivial)
    ultimately show ?thesis by metis
  qed
  then show ?thesis unfolding dma_wait_exit_iff by (simp add: dm_status_def c t) linarith
qed

lemma rt_dma_wait_skips: "rt_dma_wait 0x7FFFFFFF exec [] st = Some st" if "0 \<le> sint (completed_id st)"
proof -
  have "sint (0x80000000 :: u32) = - 2147483648" by simp
  then show ?thesis using that by (simp add: rt_dma_wait_def dm_status_def)
qed


section \<open>Printing\<close>

text \<open>\<open>__rt_print\<close> passes the characters up to the terminating NUL to \<open>_putchar\<close>.\<close>

definition rt_print :: "char list \<Rightarrow> char list" where
  "rt_print buf = takeWhile (\<lambda>c. c \<noteq> CHR 0x00) buf"

text \<open>
  The loop of \<open>__rt_print_dec_uint\<close> from index \<open>i - 1\<close> down to 0, and the index of the most significant digit; \<open>out\<close> is the
  uninitialised buffer on the stack.
\<close>

definition digit_char :: "nat \<Rightarrow> char" where
  "digit_char n = char_of (n + 48)"

fun print_dec_loop :: "nat \<Rightarrow> u32 \<Rightarrow> char list \<Rightarrow> nat \<Rightarrow> char list \<times> nat" where
  "print_dec_loop 0 val out out_msd = (out, out_msd)"
| "print_dec_loop (Suc i) val out out_msd =
     (let digit = val mod 10; out = out[i := digit_char (unat digit)]; val = val div 10; out_msd = i
      in if val = 0 then (out, out_msd) else print_dec_loop i val out out_msd)"

definition DEC_BUF_LEN :: nat where "DEC_BUF_LEN = 10"

definition rt_print_dec_uint :: "char list \<Rightarrow> u32 \<Rightarrow> char list" where
  "rt_print_dec_uint out val =
     (let (out, out_msd) = print_dec_loop (DEC_BUF_LEN - 1) val out 0; out = out[DEC_BUF_LEN - 1 := CHR 0x00]
      in rt_print (drop out_msd out))"

text \<open>The decimal representation of a number.\<close>

fun dec_string :: "nat \<Rightarrow> char list" where
  "dec_string n = (if n < 10 then [digit_char n] else dec_string (n div 10) @ [digit_char (n mod 10)])"

declare dec_string.simps [simp del]

lemma dec_string_ne: "dec_string n \<noteq> []"
  by (subst dec_string.simps) simp

lemma digit_char_ne: "n < 10 \<Longrightarrow> digit_char n \<noteq> CHR 0x00"
proof
  assume "n < 10" "digit_char n = CHR 0x00"
  moreover have "of_char (digit_char n) = (n + 48) mod 256" by (simp add: digit_char_def)
  ultimately show False by simp
qed

lemma dec_string_chars: "c \<in> set (dec_string n) \<Longrightarrow> c \<noteq> CHR 0x00"
proof (induction n rule: dec_string.induct)
  case (1 n)
  show ?case
  proof (cases "n < 10")
    case True
    then show ?thesis using 1(2) digit_char_ne by (simp add: dec_string.simps [of n])
  next
    case False
    then have "c \<in> set (dec_string (n div 10)) \<or> c = digit_char (n mod 10)" using 1(2) by (auto simp: dec_string.simps [of n])
    then show ?thesis using 1(1) [OF False] digit_char_ne [of "n mod 10"] by auto
  qed
qed

lemma print_dec_loop_digits:
  assumes "i < length out"
  shows "\<exists>out' msd. print_dec_loop i val out msd0 = (out', msd) \<and> length out' = length out \<and> (\<forall>j\<ge>i. j < length out \<longrightarrow> out' ! j = out ! j) \<and>
    (0 < i \<longrightarrow> msd < i \<and> take (i - msd) (drop msd out') = drop (length (dec_string (unat val)) - i) (dec_string (unat val)))"
  using assms
proof (induction i arbitrary: val out msd0)
  case (Suc i)
  let ?s = "dec_string (unat val)"
  let ?out = "out[i := digit_char (unat (val mod 10))]"
  have d: "unat (val mod 10) = unat val mod 10" "unat (val div 10) = unat val div 10" by (simp_all add: unat_mod unat_div)
  show ?case
  proof (cases "val div 10 = 0")
    case True
    then have "unat val div 10 = 0" using d(2) by simp
    then have v: "unat val < 10" by (simp add: div_eq_0_iff)
    then have "?s = [digit_char (unat val)]" by (subst dec_string.simps) simp
    then show ?thesis using True Suc.prems v d(1) by (auto simp: take_Suc hd_drop_conv_nth)
  next
    case False
    then have "unat val div 10 \<noteq> 0" using d(2) by (metis unat_eq_zero)
    then have v: "10 \<le> unat val" by simp
    then have s: "?s = dec_string (unat val div 10) @ [digit_char (unat val mod 10)]" by (subst dec_string.simps) simp
    obtain out' msd where IH: "print_dec_loop i (val div 10) ?out i = (out', msd)" "length out' = length out" "\<forall>j\<ge>i. j < length out \<longrightarrow> out' ! j = ?out ! j"
      "0 < i \<longrightarrow> msd < i \<and> take (i - msd) (drop msd out') = drop (length (dec_string (unat val div 10)) - i) (dec_string (unat val div 10))"
      using Suc.IH [of ?out "val div 10" i] Suc.prems d(2) by auto
    have i: "out' ! i = digit_char (unat val mod 10)" using IH(3) Suc.prems d(1) by simp
    have "msd < Suc i \<and> take (Suc i - msd) (drop msd out') = drop (length ?s - Suc i) ?s"
    proof (cases "i = 0")
      case True
      then have "msd = 0" "out' = ?out" using IH(1) by auto
      moreover have "0 < length (dec_string (unat val div 10))" using dec_string_ne by simp
      ultimately show ?thesis using True i Suc.prems by (cases out) (simp_all add: s Suc_le_eq)
    next
      case False
      then have m: "msd < i" "take (i - msd) (drop msd out') = drop (length (dec_string (unat val div 10)) - i) (dec_string (unat val div 10))" using IH(4) by simp_all
      have "take (Suc (i - msd)) (drop msd out') = take (i - msd) (drop msd out') @ [drop msd out' ! (i - msd)]"
        using m(1) Suc.prems IH(2) by (intro take_Suc_conv_app_nth) simp
      then show ?thesis using m i Suc.prems IH(2) by (simp add: s Suc_diff_le)
    qed
    then show ?thesis using False IH(1,2,3) by (auto simp: Let_def)
  qed
qed simp

lemma dec_string_length: "0 < k \<Longrightarrow> length (dec_string n) \<le> k \<longleftrightarrow> n < 10 ^ k"
proof (induction n arbitrary: k rule: dec_string.induct)
  case (1 n)
  show ?case
  proof (cases "n < 10")
    case True
    have "(10 :: nat) ^ 1 \<le> 10 ^ k" using 1(2) by (intro power_increasing) simp_all
    then show ?thesis using True 1(2) by (simp add: dec_string.simps [of n])
  next
    case False
    then have l: "length (dec_string n) = Suc (length (dec_string (n div 10)))" by (simp add: dec_string.simps [of n])
    show ?thesis
    proof (cases "k = 1")
      case True
      then show ?thesis using False l dec_string_ne [of "n div 10"] by simp
    next
      case k: False
      then obtain j where j: "k = Suc j" "0 < j" using 1(2) by (cases k) auto
      have "n div 10 < 10 ^ j \<longleftrightarrow> n < 10 ^ k" using j(1) by (simp add: div_less_iff_less_mult mult.commute)
      then show ?thesis using 1(1) [OF False j(2)] j(1) l by simp
    qed
  qed
qed

section \<open>Copying\<close>

definition rt_memcpy_fpu :: "ptr \<Rightarrow> ptr \<Rightarrow> nat \<Rightarrow> mem \<Rightarrow> mem" where
  "rt_memcpy_fpu dst src lend m = for_upto lend (\<lambda>i m. store64 (dbl dst (of_nat i)) (load64 (dbl src (of_nat i)) m) m) m"

lemma rt_memcpy_fpu_copies:
  assumes dst: "holds dst n" and src: "holds src n" and apart: "beside dst n src n"
  shows "i < n \<Longrightarrow> elt (rt_memcpy_fpu dst src n m) dst i = elt m src i"
    and "y \<notin> span dst (8 * n) \<Longrightarrow> rt_memcpy_fpu dst src n m y = m y"
proof -
  have eq: "rt_memcpy_fpu dst src n m = fold (\<lambda>i m. store64 (dbl dst (of_nat i)) (elt m src i) m) [0..<n] m"
    by (simp add: rt_memcpy_fpu_def for_upto_def elt_def)
  have V: "elt m src i = elt m' src i" if "i < n" "\<And>y. y \<notin> span dst (8 * n) \<Longrightarrow> m y = m' y" for i m m'
    by (rule elt_beside [OF src that(1) apart that(2)])
  show "rt_memcpy_fpu dst src n m y = m y" if "y \<notin> span dst (8 * n)"
    unfolding eq by (rule fold_stores(1) [OF dst _ V that]) auto
  show "elt (rt_memcpy_fpu dst src n m) dst i = elt m src i" if i: "i < n"
  proof -
    have "elt (rt_memcpy_fpu dst src n m) dst i = (if i \<in> set [0..<n] then elt m src i else elt m dst i)"
      unfolding eq by (rule fold_stores(2) [OF dst _ V i]) auto
    then show ?thesis using i by simp
  qed
qed

section \<open>Properties\<close>

text \<open>
  C40. \<open>__rt_print_dec_uint\<close> prints a number of at most nine digits in decimal; of a number of ten digits it leaves out the first one, because
  the buffer has only room for nine digits and the terminating NUL, whatever the buffer held before.
\<close>

theorem rt_print_dec_uint_digits:
  assumes "length out = DEC_BUF_LEN"
  shows "rt_print_dec_uint out val = (if unat val < 10 ^ 9 then dec_string (unat val) else tl (dec_string (unat val)))"
proof -
  let ?s = "dec_string (unat val)" and ?t = "drop (length (dec_string (unat val)) - 9) (dec_string (unat val))"
  have len: "length out = 10" using assms by (simp add: DEC_BUF_LEN_def)
  obtain out' msd where l: "print_dec_loop 9 val out 0 = (out', msd)" "length out' = 10" "msd < 9" "take (9 - msd) (drop msd out') = ?t"
    using print_dec_loop_digits [of 9 out val 0] len by auto
  have "drop msd (out'[9 := CHR 0x00]) = (drop msd out')[9 - msd := CHR 0x00]" using l(3) by (simp add: drop_update_swap)
  also have "\<dots> = take (9 - msd) (drop msd out') @ CHR 0x00 # drop (Suc (9 - msd)) (drop msd out')"
    using l(2,3) by (intro upd_conv_take_nth_drop) simp
  finally have "drop msd (out'[9 := CHR 0x00]) = ?t @ [CHR 0x00]" using l(2,3,4) by simp
  moreover have "c \<noteq> CHR 0x00" if "c \<in> set ?t" for c by (rule dec_string_chars [OF in_set_dropD [OF that]])
  then have "takeWhile (\<lambda>c. c \<noteq> CHR 0x00) (?t @ [CHR 0x00]) = ?t @ takeWhile (\<lambda>c. c \<noteq> CHR 0x00) [CHR 0x00]" by (rule takeWhile_append2)
  ultimately have "rt_print_dec_uint out val = ?t"
    using l(1) by (simp add: rt_print_dec_uint_def DEC_BUF_LEN_def rt_print_def)
  moreover have "?t = (if unat val < 10 ^ 9 then ?s else tl ?s)"
  proof (cases "unat val < 10 ^ 9")
    case True
    then show ?thesis using dec_string_length [of 9 "unat val"] by simp
  next
    case False
    have "unat val < 10 ^ 10" using unat_bound [of val] by simp
    then have "length ?s = 10" using False dec_string_length [of 9 "unat val"] dec_string_length [of 10 "unat val"] by simp
    then show ?thesis using False by (simp add: drop_Suc)
  qed
  ultimately show ?thesis by simp
qed

theorem rt_print_dec_uint_digits_witness:
  "rt_print_dec_uint (replicate 10 (CHR ''x'')) 1234567890 = ''234567890'' \<and> rt_print_dec_uint (replicate 10 (CHR ''x'')) 42 = ''42''"
proof -
  have "length (replicate 10 (CHR ''x'')) = DEC_BUF_LEN" by (simp add: DEC_BUF_LEN_def)
  note r = rt_print_dec_uint_digits [OF this]
  have "dec_string 1234567890 = ''1234567890''" "dec_string 42 = ''42''" by (simp_all add: dec_string.simps digit_char_def char_of_eq_iff)
  then show ?thesis using r [of 1234567890] r [of 42] by simp
qed

end
