(* ===== verification/Atax.thy ===== *)
theory Atax
  imports Kernels
begin

text \<open>
  \<open>sw/apps/atax\<close>: the product of a matrix with a vector, and of the transposed matrix with the result, on the compute cores of a
  cluster. The first phase distributes the rows, the second one the columns; a hardware barrier separates them.
\<close>

section \<open>Matrix times vector, twice\<close>

definition atax_row :: "fp_ops \<Rightarrow> u32 \<Rightarrow> ptr \<Rightarrow> ptr \<Rightarrow> ptr \<Rightarrow> u32 \<Rightarrow> mem \<Rightarrow> mem" where
  "atax_row F N A x tmp i mm =
     (let tmp_fs = for_upto (unat N) (\<lambda>j tmp_fs. fadd F tmp_fs
            (fmul F (load64 (dbl A (i * N + of_nat j)) mm) (load64 (dbl x (of_nat j)) mm))) f64_0
      in store64 (dbl tmp i) tmp_fs mm)"

definition atax_col :: "fp_ops \<Rightarrow> u32 \<Rightarrow> u32 \<Rightarrow> ptr \<Rightarrow> ptr \<Rightarrow> ptr \<Rightarrow> u32 \<Rightarrow> mem \<Rightarrow> mem" where
  "atax_col F M N A y tmp j mm =
     (let tmp_fs = for_upto (unat M) (\<lambda>i tmp_fs. fadd F tmp_fs
            (fmul F (load64 (dbl A (of_nat i * N + j)) mm) (load64 (dbl tmp (of_nat i)) mm))) f64_0
      in store64 (dbl y j) tmp_fs mm)"

text \<open>The cores \<open>hs1\<close> and \<open>hs2\<close>, in the order in which they run in the first and in the second phase.\<close>

definition kernel_atax ::
  "fp_ops \<Rightarrow> snrt_defs \<Rightarrow> u32 list \<Rightarrow> u32 list \<Rightarrow> u32 \<Rightarrow> u32 \<Rightarrow> ptr \<Rightarrow> ptr \<Rightarrow> ptr \<Rightarrow> ptr \<Rightarrow> mem \<Rightarrow> mem" where
  "kernel_atax F d hs1 hs2 M N A x y tmp mm =
     fold (\<lambda>h. for_share d h N (atax_col F M N A y tmp)) hs2
       (fold (\<lambda>h. for_share d h M (atax_row F N A x tmp)) hs1 mm)"

section \<open>Both products\<close>

definition atax_layout :: "u32 \<Rightarrow> u32 \<Rightarrow> ptr \<Rightarrow> ptr \<Rightarrow> ptr \<Rightarrow> ptr \<Rightarrow> bool" where
  "atax_layout M N A x y tmp \<longleftrightarrow> holds A (unat M * unat N) \<and> holds x (unat N) \<and> holds y (unat N) \<and> holds tmp (unat M) \<and>
     span A (8 * (unat M * unat N)) \<inter> span tmp (8 * unat M) = {} \<and> span x (8 * unat N) \<inter> span tmp (8 * unat M) = {} \<and>
     span A (8 * (unat M * unat N)) \<inter> span y (8 * unat N) = {} \<and> span tmp (8 * unat M) \<inter> span y (8 * unat N) = {}"

lemma atax_row_cell:
  "atax_row F N A x tmp (of_nat i) = (\<lambda>m. store64 (dbl tmp (of_nat i))
     (gemm_acc F (unat N) (\<lambda>j. elt m A (i * unat N + j)) (elt m x) f64_0) m)"
  by (simp add: fun_eq_iff atax_row_def gemm_acc_def elt_def Let_def)

lemma atax_col_cell:
  "atax_col F M N A y tmp (of_nat j) = (\<lambda>m. store64 (dbl y (of_nat j))
     (gemm_acc F (unat M) (\<lambda>i. elt m A (i * unat N + j)) (elt m tmp) f64_0) m)"
  by (simp add: fun_eq_iff atax_col_def gemm_acc_def elt_def Let_def)

lemma atax_A:
  assumes "atax_layout M N A x y tmp" "i < unat M" "j < unat N" "\<And>z. z \<in> span A (8 * (unat M * unat N)) \<Longrightarrow> u z = v z"
  shows "elt u A (i * unat N + j) = elt v A (i * unat N + j)"
  using assms row_major_less [OF assms(2,3)] by (intro elt_span_cong [of A "unat M * unat N"]) (auto simp: atax_layout_def)

lemma atax_row_reads:
  fixes u v :: mem
  assumes lay: "atax_layout M N A x y tmp" and i: "i < unat M" and eq: "\<And>z. z \<notin> span tmp (8 * unat M) \<Longrightarrow> u z = v z"
  shows "gemm_acc F (unat N) (\<lambda>j. elt u A (i * unat N + j)) (elt u x) f64_0 = gemm_acc F (unat N) (\<lambda>j. elt v A (i * unat N + j)) (elt v x) f64_0"
proof (rule gemm_acc_conj_cong)
  fix j assume j: "j < unat N"
  have "u z = v z" if "z \<in> span A (8 * (unat M * unat N)) \<or> z \<in> span x (8 * unat N)" for z
    using lay that by (intro eq) (auto simp: atax_layout_def)
  note eqs = this
  have "elt u A (i * unat N + j) = elt v A (i * unat N + j)" by (rule atax_A [OF lay i j]) (use eqs in blast)
  moreover have "elt u x j = elt v x j"
    by (rule elt_span_cong [of x "unat N"]) (use lay j eqs in \<open>auto simp: atax_layout_def\<close>)
  ultimately show "elt u A (i * unat N + j) = elt v A (i * unat N + j) \<and> elt u x j = elt v x j" ..
qed

lemma atax_col_reads:
  fixes u v :: mem
  assumes lay: "atax_layout M N A x y tmp" and j: "j < unat N" and eq: "\<And>z. z \<notin> span y (8 * unat N) \<Longrightarrow> u z = v z"
  shows "gemm_acc F (unat M) (\<lambda>i. elt u A (i * unat N + j)) (elt u tmp) f64_0 = gemm_acc F (unat M) (\<lambda>i. elt v A (i * unat N + j)) (elt v tmp) f64_0"
proof (rule gemm_acc_conj_cong)
  fix i assume i: "i < unat M"
  have "u z = v z" if "z \<in> span A (8 * (unat M * unat N)) \<or> z \<in> span tmp (8 * unat M)" for z
    using lay that by (intro eq) (auto simp: atax_layout_def)
  note eqs = this
  have "elt u A (i * unat N + j) = elt v A (i * unat N + j)" by (rule atax_A [OF lay i j]) (use eqs in blast)
  moreover have "elt u tmp i = elt v tmp i"
    by (rule elt_span_cong [of tmp "unat M"]) (use lay i eqs in \<open>auto simp: atax_layout_def\<close>)
  ultimately show "elt u A (i * unat N + j) = elt v A (i * unat N + j) \<and> elt u tmp i = elt v tmp i" ..
qed

lemma atax_rows:
  fixes F :: fp_ops and m :: mem
  assumes lay: "atax_layout M N A x y tmp" and hs: "cores_ok d hs M"
  defines "m1 \<equiv> fold (\<lambda>h. for_share d h M (atax_row F N A x tmp)) hs m"
  shows "z \<notin> span tmp (8 * unat M) \<Longrightarrow> m1 z = m z"
    and "i < unat M \<Longrightarrow> elt m1 tmp i = gemm_acc F (unat N) (\<lambda>j. elt m A (i * unat N + j)) (elt m x) f64_0"
proof -
  have l: "holds tmp (unat M)" using lay by (simp add: atax_layout_def)
  obtain xs where xs: "distinct xs" "set xs = {..<unat M}" "m1 = fold (\<lambda>i. atax_row F N A x tmp (of_nat i)) xs m"
    unfolding m1_def by (rule phase_items [OF hs holds_small [OF l], of "atax_row F N A x tmp" m])
  note st = fold_stores [where V = "\<lambda>i m. gemm_acc F (unat N) (\<lambda>j. elt m A (i * unat N + j)) (elt m x) f64_0" and xs = xs and m = m,
    OF l _ atax_row_reads [OF lay]]
  show "z \<notin> span tmp (8 * unat M) \<Longrightarrow> m1 z = m z"
    unfolding xs(3) atax_row_cell by (rule st(1)) (simp_all add: xs(2))
  show "i < unat M \<Longrightarrow> elt m1 tmp i = gemm_acc F (unat N) (\<lambda>j. elt m A (i * unat N + j)) (elt m x) f64_0"
    unfolding xs(3) atax_row_cell by (rule trans [OF st(2)]) (simp_all add: xs(2))
qed

lemma atax_cols:
  fixes F :: fp_ops and m :: mem
  assumes lay: "atax_layout M N A x y tmp" and hs: "cores_ok d hs N"
  defines "m1 \<equiv> fold (\<lambda>h. for_share d h N (atax_col F M N A y tmp)) hs m"
  shows "z \<notin> span y (8 * unat N) \<Longrightarrow> m1 z = m z"
    and "j < unat N \<Longrightarrow> elt m1 y j = gemm_acc F (unat M) (\<lambda>i. elt m A (i * unat N + j)) (elt m tmp) f64_0"
proof -
  have l: "holds y (unat N)" using lay by (simp add: atax_layout_def)
  obtain xs where xs: "distinct xs" "set xs = {..<unat N}" "m1 = fold (\<lambda>i. atax_col F M N A y tmp (of_nat i)) xs m"
    unfolding m1_def by (rule phase_items [OF hs holds_small [OF l], of "atax_col F M N A y tmp" m])
  note st = fold_stores [where V = "\<lambda>j m. gemm_acc F (unat M) (\<lambda>i. elt m A (i * unat N + j)) (elt m tmp) f64_0" and xs = xs and m = m,
    OF l _ atax_col_reads [OF lay]]
  show "z \<notin> span y (8 * unat N) \<Longrightarrow> m1 z = m z"
    unfolding xs(3) atax_col_cell by (rule st(1)) (simp_all add: xs(2))
  show "j < unat N \<Longrightarrow> elt m1 y j = gemm_acc F (unat M) (\<lambda>i. elt m A (i * unat N + j)) (elt m tmp) f64_0"
    unfolding xs(3) atax_col_cell by (rule trans [OF st(2)]) (simp_all add: xs(2))
qed

text \<open>The product of the transposed matrix with the matrix times the vector.\<close>

definition atax_spec :: "fp_ops \<Rightarrow> nat \<Rightarrow> nat \<Rightarrow> (nat \<Rightarrow> f64) \<Rightarrow> (nat \<Rightarrow> f64) \<Rightarrow> nat \<Rightarrow> f64" where
  "atax_spec F M N A x j = gemm_acc F M (\<lambda>i. A (i * N + j)) (\<lambda>i. gemm_acc F N (\<lambda>j. A (i * N + j)) x f64_0) f64_0"

lemma atax_spec_cong:
  assumes A: "\<And>i. i < M * N \<Longrightarrow> A i = A' i" and x: "\<And>i. i < N \<Longrightarrow> x i = x' i" and j: "j < N"
  shows "atax_spec F M N A x j = atax_spec F M N A' x' j"
proof -
  have "A (i * N + j) = A' (i * N + j)" if "i < M" "j < N" for i j by (rule A) (rule row_major_less [OF that])
  then show ?thesis unfolding atax_spec_def using x j by (intro gemm_acc_cong) auto
qed

lemma kernel_atax_result:
  fixes F :: fp_ops and m :: mem
  assumes lay: "atax_layout M N A x y tmp" and hs: "cores_ok d hs1 M" "cores_ok d hs2 N"
  defines "m' \<equiv> kernel_atax F d hs1 hs2 M N A x y tmp m"
  shows "(\<forall>j < unat N. elt m' y j = atax_spec F (unat M) (unat N) (elt m A) (elt m x) j) \<and>
    (\<forall>z. z \<notin> span y (8 * unat N) \<union> span tmp (8 * unat M) \<longrightarrow> m' z = m z)"
proof -
  let ?m1 = "fold (\<lambda>h. for_share d h M (atax_row F N A x tmp)) hs1 m"
  note r = atax_rows [OF lay hs(1), of _ F m] and c = atax_cols [OF lay hs(2), of _ F ?m1]
  have "gemm_acc F (unat M) (\<lambda>i. elt ?m1 A (i * unat N + j)) (elt ?m1 tmp) f64_0 = atax_spec F (unat M) (unat N) (elt m A) (elt m x) j"
    if j: "j < unat N" for j
    unfolding atax_spec_def
  proof (rule gemm_acc_conj_cong)
    fix i assume i: "i < unat M"
    have "?m1 z = m z" if "z \<in> span A (8 * (unat M * unat N))" for z using lay that by (intro r(1)) (auto simp: atax_layout_def)
    then show "elt ?m1 A (i * unat N + j) = elt m A (i * unat N + j) \<and>
        elt ?m1 tmp i = gemm_acc F (unat N) (\<lambda>j. elt m A (i * unat N + j)) (elt m x) f64_0"
      using atax_A [OF lay i j, of ?m1 m] r(2) [OF i] by simp
  qed
  then show ?thesis using r(1) c by (simp add: m'_def kernel_atax_def)
qed

section \<open>The atax application\<close>

text \<open>The globals of the generated \<open>data.h\<close>.\<close>

record atax_data =
  ata_M :: u32
  ata_N :: u32
  ata_A :: ptr
  ata_x :: ptr
  ata_y :: ptr
  ata_golden :: ptr

definition atax_copy_in :: "gen_cfg \<Rightarrow> atax_data \<Rightarrow> ptr \<Rightarrow> ptr \<Rightarrow> ptr \<Rightarrow> ptr \<Rightarrow> dma_state \<Rightarrow> dma_state" where
  "atax_copy_in g a local_A local_x local_y local_tmp st =
     (let st = snd (snrt_dma_start_1d local_A (ata_A a) (8 * ata_M a * ata_N a) st);
          st = snd (snrt_dma_start_1d local_x (ata_x a) (8 * ata_N a) st);
          st = snd (snrt_dma_start_1d local_y (snrt_zero_memory_ptr g) (8 * ata_N a) st)
      in snd (snrt_dma_start_1d local_tmp (snrt_zero_memory_ptr g) (8 * ata_M a) st))"

definition atax_main ::
  "(dma_req \<Rightarrow> mem \<Rightarrow> mem) \<Rightarrow> nat list \<Rightarrow> nat list \<Rightarrow> fp_ops \<Rightarrow> snrt_defs \<Rightarrow> gen_cfg \<Rightarrow> u32 list \<Rightarrow> u32 list \<Rightarrow> ptr \<Rightarrow> atax_data \<Rightarrow>
     dma_state \<Rightarrow> (u32 \<times> dma_state) option" where
  "atax_main exec sched_in sched_out F d g hs1 hs2 l1 a st =
     (let local_A = l1; local_x = dbl local_A (ata_M a * ata_N a); local_y = dbl local_x (ata_N a); local_tmp = dbl local_y (ata_N a)
      in Option.bind (snrt_dma_wait_all exec sched_in (atax_copy_in g a local_A local_x local_y local_tmp st)) (\<lambda>st.
           let st = st\<lparr>dmem := kernel_atax F d hs1 hs2 (ata_M a) (ata_N a) local_A local_x local_y local_tmp (dmem st)\<rparr>
           in Option.bind (snrt_dma_wait_all exec sched_out (snd (snrt_dma_start_1d (ata_y a) local_y (8 * ata_N a) st))) (\<lambda>st.
                Some (check_vector F (ata_N a) (ata_golden a) local_y (dmem st), st))))"

definition atax_ok :: "atax_data \<Rightarrow> ptr \<Rightarrow> bool" where
  "atax_ok a l1 \<longleftrightarrow>
     (let M = unat (ata_M a); N = unat (ata_N a); T = M * N + N + N + M
      in unat l1 + 8 * T < 2 ^ 32 \<and> holds (ata_A a) (M * N) \<and> holds (ata_x a) N \<and> array_ok (ata_y a) N \<and> holds (ata_golden a) N \<and>
         beside l1 T (ata_A a) (M * N) \<and> beside l1 T (ata_x a) N \<and> beside l1 T (ata_y a) N \<and> beside l1 T (ata_golden a) N \<and>
         beside (ata_y a) N (ata_golden a) N)"

lemma atax_local:
  assumes ok: "atax_ok a l1"
  defines "M \<equiv> unat (ata_M a)" and "N \<equiv> unat (ata_N a)"
  defines "lx \<equiv> dbl l1 (ata_M a * ata_N a)"
  defines "ly \<equiv> dbl lx (ata_N a)"
  defines "lt \<equiv> dbl ly (ata_N a)"
  shows "unat lx = unat l1 + 8 * (M * N)" "unat ly = unat l1 + 8 * (M * N) + 8 * N" "unat lt = unat l1 + 8 * (M * N) + 8 * N + 8 * N"
    and "array_ok l1 (M * N)" "array_ok lx N" "array_ok ly N" "array_ok lt M"
proof -
  have b: "unat l1 + 8 * (M * N) + 8 * N + 8 * N + 8 * M < 2 ^ 32" using ok by (simp add: atax_ok_def Let_def M_def N_def)
  have lx': "lx = dbl l1 (of_nat (M * N))" by (simp add: lx_def M_def N_def)
  show lx: "unat lx = unat l1 + 8 * (M * N)" and "array_ok lx N" using dbl_next [of l1 "M * N" N] b unfolding lx' by simp_all
  have ly': "ly = dbl lx (of_nat N)" by (simp add: ly_def N_def)
  show ly: "unat ly = unat l1 + 8 * (M * N) + 8 * N" and "array_ok ly N" using dbl_next [of lx N N] b lx unfolding ly' by simp_all
  have lt': "lt = dbl ly (of_nat N)" by (simp add: lt_def N_def)
  show "unat lt = unat l1 + 8 * (M * N) + 8 * N + 8 * N" and "array_ok lt M" using dbl_next [of ly N M] b ly unfolding lt' by simp_all
  show "array_ok l1 (M * N)" using b by (simp add: array_ok_def holds_def)
qed


lemma atax_apart:
  assumes ok: "atax_ok a l1"
  defines "M \<equiv> unat (ata_M a)" and "N \<equiv> unat (ata_N a)"
  defines "lx \<equiv> dbl l1 (ata_M a * ata_N a)"
  defines "ly \<equiv> dbl lx (ata_N a)"
  defines "lt \<equiv> dbl ly (ata_N a)"
  shows "atax_layout (ata_M a) (ata_N a) l1 lx ly lt"
    and "beside l1 (M * N) (ata_A a) (M * N)" "beside lx N (ata_x a) N" "beside (ata_y a) N ly N"
    and "beside lx N l1 (M * N)" "beside ly N l1 (M * N)" "beside lt M l1 (M * N)" "beside ly N lx N" "beside lt M lx N"
    and "span l1 (8 * (M * N)) \<union> span lx (8 * N) \<union> span ly (8 * N) \<union> span lt (8 * M) \<subseteq> span l1 (8 * (M * N + N + N + M))"
proof -
  note l = atax_local [OF ok, folded M_def N_def lx_def ly_def lt_def]
  note b = ok [unfolded atax_ok_def Let_def, folded M_def N_def]
  have part: "beside p n q k" if "beside l1 (M * N + N + N + M) q k" "unat l1 \<le> unat p" "unat p + 8 * n \<le> unat l1 + 8 * (M * N + N + N + M)" for p q n k
    using beside_part that by blast
  show "beside l1 (M * N) (ata_A a) (M * N)" by (rule part) (use b in simp_all)
  show "beside lx N (ata_x a) N" by (rule part) (use b l(1) in simp_all)
  have "beside ly N (ata_y a) N" by (rule part) (use b l(2) in simp_all)
  then show "beside (ata_y a) N ly N" by (rule beside_sym [THEN iffD1])
  show in_order: "beside lx N l1 (M * N)" "beside ly N l1 (M * N)" "beside lt M l1 (M * N)" "beside ly N lx N" "beside lt M lx N"
    using l(1-3) by (simp_all add: beside_def)
  have "beside lt M ly N" using l(1-3) by (simp add: beside_def)
  with in_order show "atax_layout (ata_M a) (ata_N a) l1 lx ly lt"
    using l(4-7) beside_span unfolding atax_layout_def array_ok_def M_def [symmetric] N_def [symmetric] by (simp add: Int_commute)
  show "span l1 (8 * (M * N)) \<union> span lx (8 * N) \<union> span ly (8 * N) \<union> span lt (8 * M) \<subseteq> span l1 (8 * (M * N + N + N + M))"
    by (intro Un_least span_sub) (use l(1-3) in simp_all)
qed

context dma_backend
begin

lemma atax_copy_in_result:
  fixes g :: gen_cfg
  assumes ok: "atax_ok a l1" and idle: "pending st = []"
  defines "M \<equiv> unat (ata_M a)" and "N \<equiv> unat (ata_N a)"
  defines "lx \<equiv> dbl l1 (ata_M a * ata_N a)"
  defines "ly \<equiv> dbl lx (ata_N a)"
  defines "lt \<equiv> dbl ly (ata_N a)"
  defines "st1 \<equiv> atax_copy_in g a l1 lx ly lt st"
  shows "length (pending st1) \<le> 4"
    and "i < M * N \<Longrightarrow> elt (dma_settled exec st1) l1 i = elt (dmem st) (ata_A a) i"
    and "i < N \<Longrightarrow> elt (dma_settled exec st1) lx i = elt (dmem st) (ata_x a) i"
    and "y \<notin> span l1 (8 * (M * N + N + N + M)) \<Longrightarrow> dma_settled exec st1 y = dmem st y"
proof -
  note l = atax_local [OF ok, folded M_def N_def lx_def ly_def lt_def]
  note ap = atax_apart [OF ok, folded M_def N_def lx_def ly_def lt_def]
  note b = ok [unfolded atax_ok_def Let_def, folded M_def N_def]
  let ?z = "snrt_zero_memory_ptr g"
  have st1: "st1 = transfers [(l1, M * N, ata_A a), (lx, N, ata_x a), (ly, N, ?z), (lt, M, ?z)] st"
    by (simp add: st1_def atax_copy_in_def Let_def M_def N_def mult.assoc)
  have m0: "dma_settled exec st = dmem st" by (simp add: dma_settled_def idle)
  show "length (pending st1) \<le> 4" unfolding st1 by (rule order_trans [OF transfers_pending]) (simp add: idle)
  show "elt (dma_settled exec st1) l1 i = elt (dmem st) (ata_A a) i" if "i < M * N"
    unfolding st1 m0 [symmetric] using transfers_elt [of l1 "M * N" "ata_A a" "[]" "[(lx, N, ata_x a), (ly, N, ?z), (lt, M, ?z)]" i st] l ap b that by simp
  have "beside l1 (M * N) (ata_x a) N" by (rule beside_part [of l1 "M * N + N + N + M"]) (use b in simp_all)
  then show "elt (dma_settled exec st1) lx i = elt (dmem st) (ata_x a) i" if "i < N"
    unfolding st1 m0 [symmetric] using transfers_elt [of lx N "ata_x a" "[(l1, M * N, ata_A a)]" "[(ly, N, ?z), (lt, M, ?z)]" i st] l ap b that by simp
  show "dma_settled exec st1 y = dmem st y" if "y \<notin> span l1 (8 * (M * N + N + N + M))"
    unfolding st1 m0 [symmetric] by (rule transfers_frame) (use that ap(10) l in auto)
qed


lemma atax_compute:
  fixes F :: fp_ops and g :: gen_cfg
  assumes ok: "atax_ok a l1" and idle: "pending st = []" and hs: "cores_ok d hs1 (ata_M a)" "cores_ok d hs2 (ata_N a)"
  defines "M \<equiv> unat (ata_M a)" and "N \<equiv> unat (ata_N a)"
  defines "lx \<equiv> dbl l1 (ata_M a * ata_N a)"
  defines "ly \<equiv> dbl lx (ata_N a)"
  defines "lt \<equiv> dbl ly (ata_N a)"
  defines "m1 \<equiv> dma_settled exec (atax_copy_in g a l1 lx ly lt st)"
  defines "m2 \<equiv> kernel_atax F d hs1 hs2 (ata_M a) (ata_N a) l1 lx ly lt m1"
  shows "j < N \<Longrightarrow> elt m2 ly j = atax_spec F M N (elt (dmem st) (ata_A a)) (elt (dmem st) (ata_x a)) j"
    and "z \<notin> span l1 (8 * (M * N + N + N + M)) \<Longrightarrow> m2 z = dmem st z"
proof -
  note ap = atax_apart [OF ok, folded M_def N_def lx_def ly_def lt_def]
  note cin = atax_copy_in_result [where g = g, OF ok idle, folded M_def N_def lx_def ly_def lt_def, folded m1_def]
  have kernel: "(\<forall>j<N. elt m2 ly j = atax_spec F M N (elt m1 l1) (elt m1 lx) j) \<and>
      (\<forall>z. z \<notin> span ly (8 * N) \<union> span lt (8 * M) \<longrightarrow> m2 z = m1 z)"
    using kernel_atax_result [OF ap(1) hs, of F m1] unfolding m2_def M_def N_def by simp
  show "elt m2 ly j = atax_spec F M N (elt (dmem st) (ata_A a)) (elt (dmem st) (ata_x a)) j" if "j < N"
    using kernel that atax_spec_cong [OF cin(2,3) that] by simp
  show "m2 z = dmem st z" if z: "z \<notin> span l1 (8 * (M * N + N + N + M))"
  proof -
    have "z \<notin> span ly (8 * N) \<union> span lt (8 * M)" using z ap(10) by blast
    then show ?thesis using kernel cin(4) [OF z] by simp
  qed
qed

end


definition example_atax :: atax_data where
  "example_atax = \<lparr>ata_M = 2, ata_N = 4, ata_A = 0x80000000, ata_x = 0x80001000, ata_y = 0x80002000, ata_golden = 0x80003000\<rparr>"


end
