(* ===== verification/Statistics.thy ===== *)
theory Statistics
  imports Kernels
begin

text \<open>
  \<open>sw/apps/covariance\<close> and \<open>sw/apps/correlation\<close>: the first phase subtracts from every column of the data its mean (and computes
  its standard deviation), the second one fills a symmetric matrix by rows, up to the diagonal, together with the mirror image.
\<close>

section \<open>Covariance\<close>

definition column_mean :: "fp_ops \<Rightarrow> u32 \<Rightarrow> u32 \<Rightarrow> ptr \<Rightarrow> u32 \<Rightarrow> mem \<Rightarrow> f64" where
  "column_mean F N M data i mm =
     fdiv F (for_upto (unat N) (\<lambda>k mean. fadd F mean (load64 (dbl data (of_nat k * M + i)) mm)) f64_0) (of_u32 F N)"

definition center_column :: "fp_ops \<Rightarrow> u32 \<Rightarrow> u32 \<Rightarrow> ptr \<Rightarrow> u32 \<Rightarrow> f64 \<Rightarrow> mem \<Rightarrow> mem" where
  "center_column F N M data i mean mm =
     for_upto (unat N) (\<lambda>k mm. store64 (dbl data (of_nat k * M + i)) (fsub F (load64 (dbl data (of_nat k * M + i)) mm) mean) mm) mm"

definition cov_deviations :: "fp_ops \<Rightarrow> u32 \<Rightarrow> u32 \<Rightarrow> ptr \<Rightarrow> u32 \<Rightarrow> mem \<Rightarrow> mem" where
  "cov_deviations F N M data i mm = center_column F N M data i (column_mean F N M data i mm) mm"

definition column_product :: "fp_ops \<Rightarrow> u32 \<Rightarrow> u32 \<Rightarrow> ptr \<Rightarrow> u32 \<Rightarrow> u32 \<Rightarrow> mem \<Rightarrow> f64" where
  "column_product F N M data i j mm =
     for_upto (unat N) (\<lambda>k tmp. fadd F tmp (fmul F (load64 (dbl data (of_nat k * M + i)) mm) (load64 (dbl data (of_nat k * M + j)) mm))) f64_0"

text \<open>The loop \<open>j <= i\<close> compares signed numbers.\<close>

definition cov_row :: "fp_ops \<Rightarrow> u32 \<Rightarrow> u32 \<Rightarrow> ptr \<Rightarrow> ptr \<Rightarrow> u32 \<Rightarrow> mem \<Rightarrow> mem" where
  "cov_row F N M data cov i mm =
     for_upto (nat (sint i + 1)) (\<lambda>j mm.
       let mm = store64 (dbl cov (i * M + of_nat j)) (fdiv F (column_product F N M data i (of_nat j) mm) (of_u32 F (N - 1))) mm
       in store64 (dbl cov (of_nat j * M + i)) (load64 (dbl cov (i * M + of_nat j)) mm) mm) mm"

definition kernel_covariance ::
  "fp_ops \<Rightarrow> snrt_defs \<Rightarrow> u32 list \<Rightarrow> u32 list \<Rightarrow> u32 \<Rightarrow> u32 \<Rightarrow> ptr \<Rightarrow> ptr \<Rightarrow> mem \<Rightarrow> mem" where
  "kernel_covariance F d hs1 hs2 N M data cov mm =
     fold (\<lambda>h. for_share d h M (cov_row F N M data cov)) hs2
       (fold (\<lambda>h. for_share d h M (cov_deviations F N M data)) hs1 mm)"

section \<open>Correlation\<close>

definition corr_deviations :: "fp_ops \<Rightarrow> u32 \<Rightarrow> u32 \<Rightarrow> ptr \<Rightarrow> ptr \<Rightarrow> u32 \<Rightarrow> mem \<Rightarrow> mem" where
  "corr_deviations F N M data stddev i mm =
     (let mean = column_mean F N M data i mm;
          accum = for_upto (unat N) (\<lambda>k accum. fadd F accum
            (fmul F (fsub F (load64 (dbl data (of_nat k * M + i)) mm) mean) (fsub F (load64 (dbl data (of_nat k * M + i)) mm) mean))) f64_0;
          mm = store64 (dbl stddev i) (fsqrt F (fdiv F accum (of_u32 F N))) mm
      in center_column F N M data i mean mm)"

definition corr_row :: "fp_ops \<Rightarrow> u32 \<Rightarrow> u32 \<Rightarrow> ptr \<Rightarrow> ptr \<Rightarrow> ptr \<Rightarrow> u32 \<Rightarrow> mem \<Rightarrow> mem" where
  "corr_row F N M data stddev corr i mm =
     for_upto (nat (sint i + 1)) (\<lambda>j mm.
       let mm = store64 (dbl corr (i * M + of_nat j)) (fdiv F (column_product F N M data i (of_nat j) mm)
             (fmul F (fmul F (of_u32 F N) (load64 (dbl stddev i) mm)) (load64 (dbl stddev (of_nat j)) mm))) mm
       in store64 (dbl corr (of_nat j * M + i)) (load64 (dbl corr (i * M + of_nat j)) mm) mm) mm"

definition kernel_correlation ::
  "fp_ops \<Rightarrow> snrt_defs \<Rightarrow> u32 list \<Rightarrow> u32 list \<Rightarrow> u32 \<Rightarrow> u32 \<Rightarrow> ptr \<Rightarrow> ptr \<Rightarrow> ptr \<Rightarrow> mem \<Rightarrow> mem" where
  "kernel_correlation F d hs1 hs2 N M data stddev corr mm =
     fold (\<lambda>h. for_share d h M (corr_row F N M data stddev corr)) hs2
       (fold (\<lambda>h. for_share d h M (corr_deviations F N M data stddev)) hs1 mm)"

section \<open>Columns\<close>

text \<open>The elements of column \<open>i\<close> of an array with rows of \<open>M\<close> elements, by index; and the bytes of its first \<open>N\<close> elements.\<close>

definition column :: "mem \<Rightarrow> ptr \<Rightarrow> nat \<Rightarrow> nat \<Rightarrow> nat \<Rightarrow> f64" where
  "column m p M i k = elt m p (k * M + i)"

definition column_cells :: "ptr \<Rightarrow> nat \<Rightarrow> nat \<Rightarrow> nat \<Rightarrow> u64 set" where
  "column_cells p N M i = (\<Union>k<N. cell p (k * M + i))"

lemma column_cong: "(\<And>y. y \<in> column_cells p N M i \<Longrightarrow> m y = m' y) \<Longrightarrow> k < N \<Longrightarrow> column m p M i k = column m' p M i k"
  unfolding column_def by (rule elt_cell) (auto simp: column_cells_def)

lemma column_cells_span: "holds p (N * M) \<Longrightarrow> i < M \<Longrightarrow> column_cells p N M i \<subseteq> span p (8 * (N * M))"
  unfolding column_cells_def by (intro UN_least cell_span row_major_less) simp_all

lemma column_cells_disjoint:
  assumes "holds p (N * M)" "i < M" "j < M" "i \<noteq> j"
  shows "column_cells p N M i \<inter> column_cells p N M j = {}"
proof -
  have "cell p (k * M + i) \<inter> cell p (l * M + j) = {}" if "k < N" "l < N" for k l
    by (rule cells_disjoint [OF assms(1)])
      (use row_major_less [OF that(1) assms(2)] row_major_less [OF that(2) assms(3)] row_major_inject [of i M j M k l] assms(2-4) in \<open>auto simp: mult.commute\<close>)
  then show ?thesis by (auto simp: column_cells_def)
qed

definition mean_of :: "fp_ops \<Rightarrow> u32 \<Rightarrow> (nat \<Rightarrow> f64) \<Rightarrow> f64" where
  "mean_of F N a = fdiv F (for_upto (unat N) (\<lambda>k s. fadd F s (a k)) f64_0) (of_u32 F N)"

lemma mean_of_cong: "(\<And>k. k < unat N \<Longrightarrow> a k = b k) \<Longrightarrow> mean_of F N a = mean_of F N b"
proof -
  assume "\<And>k. k < unat N \<Longrightarrow> a k = b k"
  then have "for_upto (unat N) (\<lambda>k s. fadd F s (a k)) f64_0 = for_upto (unat N) (\<lambda>k s. fadd F s (b k)) f64_0"
    by (intro for_upto_cong) simp
  then show ?thesis by (simp add: mean_of_def)
qed

lemma column_index: "(of_nat k :: u32) * M + of_nat i = of_nat (k * unat M + i)"
  by simp

lemma column_mean_eq: "column_mean F N M data (of_nat i) m = mean_of F N (column m data (unat M) i)"
  unfolding column_mean_def mean_of_def column_def elt_def column_index ..

lemma column_product_eq:
  "column_product F N M data (of_nat i) (of_nat j) m = gemm_acc F (unat N) (column m data (unat M) i) (column m data (unat M) j) f64_0"
  unfolding column_product_def gemm_acc_def column_def elt_def column_index ..

lemma center_column_eq:
  "center_column F N M data (of_nat i) mean = for_upto (unat N) (\<lambda>k m. store64 (dbl data (of_nat (k * unat M + i))) (fsub F (elt m data (k * unat M + i)) mean) m)"
  unfolding center_column_def elt_def column_index fun_eq_iff by simp

lemma center_column_local:
  assumes R: "column_cells data (unat N) (unat M) i \<subseteq> R"
  shows "action_ok (R, R, center_column F N M data (of_nat i) mean)"
  unfolding center_column_eq
proof (intro local_for local_store)
  fix k assume k: "k < unat N"
  then show c: "cell data (k * unat M + i) \<subseteq> R" using R by (auto simp: column_cells_def)
  show "fsub F (elt m data (k * unat M + i)) mean = fsub F (elt m' data (k * unat M + i)) mean"
    if "\<And>y. y \<in> R \<Longrightarrow> m y = m' y" for m m'
    using elt_cell [of data "k * unat M + i" m m'] c that by (metis subsetD)
qed

lemma center_column_column:
  assumes d: "holds data (unat N * unat M)" "i < unat M" and k: "k < unat N"
  shows "column (center_column F N M data (of_nat i) mean m) data (unat M) i k = fsub F (column m data (unat M) i k) mean"
proof -
  let ?f = "\<lambda>k m. store64 (dbl data (of_nat (k * unat M + i))) (fsub F (elt m data (k * unat M + i)) mean) m"
  have idx: "k * unat M + i < unat N * unat M" if "k < unat N" for k using row_major_less [OF that d(2)] by simp
  have inj: "l * unat M + i = k * unat M + i \<longleftrightarrow> l = k" for l using d(2) by auto
  have "n \<le> unat N \<Longrightarrow> elt (for_upto n ?f m) data (k * unat M + i) = (if k < n then fsub F (elt m data (k * unat M + i)) mean else elt m data (k * unat M + i))" for n
  proof (induction n)
    case (Suc n)
    then show ?case
      unfolding for_upto_Suc using elt_store64 [OF d(1) idx idx [OF k], of n] Suc inj [of n] by auto
  qed (simp add: for_upto_def)
  then show ?thesis using k by (simp add: center_column_eq column_def)
qed

section \<open>Symmetric matrices\<close>

text \<open>
  One row of a symmetric matrix and its mirror image, computed from memory outside the matrix: the stores of a pass over the
  indices of the row and of the column, up to the diagonal.
\<close>

definition sym_row :: "ptr \<Rightarrow> nat \<Rightarrow> (nat \<Rightarrow> nat \<Rightarrow> mem \<Rightarrow> f64) \<Rightarrow> nat \<Rightarrow> mem \<Rightarrow> mem" where
  "sym_row C M W i = for_upto (Suc i) (\<lambda>j m.
     let m = store64 (dbl C (of_nat (i * M + j))) (W i j m) m in store64 (dbl C (of_nat (j * M + i))) (elt m C (i * M + j)) m)"

definition sym_val :: "nat \<Rightarrow> (nat \<Rightarrow> nat \<Rightarrow> mem \<Rightarrow> f64) \<Rightarrow> nat \<Rightarrow> mem \<Rightarrow> f64" where
  "sym_val M W q = W (max (q div M) (q mod M)) (min (q div M) (q mod M))"

definition sym_items :: "nat \<Rightarrow> nat \<Rightarrow> nat list" where
  "sym_items M i = concat (map (\<lambda>j. [i * M + j, j * M + i]) [0..<Suc i])"

lemma mem_sym_items: "q \<in> set (sym_items M i) \<longleftrightarrow> (\<exists>j\<le>i. q = i * M + j \<or> q = j * M + i)"
  by (auto simp: sym_items_def less_Suc_eq_le simp del: upt_Suc)

lemma fold_concat_map: "fold f (concat (map g xs)) = fold (\<lambda>x. fold f (g x)) xs"
  by (induction xs) (simp_all add: comp_def)

lemma sym_items_cover:
  assumes "set xs = {..<M}" shows "set (concat (map (sym_items M) xs)) = {..<M * M}"
proof (intro set_eqI iffI)
  fix q assume "q \<in> set (concat (map (sym_items M) xs))"
  then obtain i j where ij: "i < M" "j \<le> i" "q = i * M + j \<or> q = j * M + i" using assms by (auto simp: mem_sym_items)
  then show "q \<in> {..<M * M}" using row_major_less [of i M j M] row_major_less [of j M i M] by auto
next
  fix q assume "q \<in> {..<M * M}"
  then have q: "q div M < M" "q mod M < M" by (auto simp: less_mult_imp_div_less intro!: mod_less_divisor gr0I)
  have "q \<in> set (sym_items M (max (q div M) (q mod M)))"
  proof (cases "q mod M \<le> q div M")
    case True
    then have "q = max (q div M) (q mod M) * M + q mod M" "q mod M \<le> max (q div M) (q mod M)" by simp_all
    then show ?thesis unfolding mem_sym_items by blast
  next
    case False
    then have "q = q div M * M + max (q div M) (q mod M)" "q div M \<le> max (q div M) (q mod M)" by simp_all
    then show ?thesis unfolding mem_sym_items by blast
  qed
  then show "q \<in> set (concat (map (sym_items M) xs))" using q assms by auto
qed

lemma sym_row_stores:
  assumes C: "holds C (M * M)" and i: "i < M"
    and W: "\<And>i j m m'. i < M \<Longrightarrow> j < M \<Longrightarrow> (\<And>y. y \<notin> span C (8 * (M * M)) \<Longrightarrow> m y = m' y) \<Longrightarrow> W i j m = W i j m'"
  shows "sym_row C M W i m = fold (\<lambda>q m. store64 (dbl C (of_nat q)) (sym_val M W q m) m) (sym_items M i) m"
proof -
  let ?st = "\<lambda>q m. store64 (dbl C (of_nat q)) (sym_val M W q m) m"
  have step: "(let m = store64 (dbl C (of_nat (i * M + j))) (W i j m) m in store64 (dbl C (of_nat (j * M + i))) (elt m C (i * M + j)) m) =
      fold ?st [i * M + j, j * M + i] m" if j: "j < Suc i" for j m
  proof -
    let ?m = "store64 (dbl C (of_nat (i * M + j))) (W i j m) m"
    have q: "i * M + j < M * M" using row_major_less [of i M j M] i j by simp
    have mm: "max i j = i" "min i j = j" "max j i = i" "min j i = j" using j by simp_all
    have "sym_val M W (i * M + j) m = W i j m" using i j mm by (simp add: sym_val_def)
    moreover have "sym_val M W (j * M + i) ?m = W i j ?m" using i mm by (simp add: sym_val_def del: of_nat_add of_nat_mult)
    moreover have "W i j ?m = W i j m" by (rule W) (use i j store64_frame [OF C q] in simp_all)
    moreover have "elt ?m C (i * M + j) = W i j m" using elt_store64 [OF C q q] by simp
    ultimately show ?thesis by (simp del: of_nat_add of_nat_mult)
  qed
  have "sym_row C M W i m = for_upto (Suc i) (\<lambda>j. fold ?st [i * M + j, j * M + i]) m"
    unfolding sym_row_def by (rule for_upto_cong) (rule step)
  also have "\<dots> = fold ?st (sym_items M i) m"
    unfolding for_upto_def sym_items_def fold_concat_map ..
  finally show ?thesis .
qed

lemma sym_rows:
  assumes C: "holds C (M * M)" and xs: "set xs = {..<M}"
    and W: "\<And>i j m m'. i < M \<Longrightarrow> j < M \<Longrightarrow> (\<And>y. y \<notin> span C (8 * (M * M)) \<Longrightarrow> m y = m' y) \<Longrightarrow> W i j m = W i j m'"
  shows "y \<notin> span C (8 * (M * M)) \<Longrightarrow> fold (sym_row C M W) xs m y = m y"
    and "i < M \<Longrightarrow> j < M \<Longrightarrow> elt (fold (sym_row C M W) xs m) C (i * M + j) = W (max i j) (min i j) m"
proof -
  let ?st = "\<lambda>q m. store64 (dbl C (of_nat q)) (sym_val M W q m) m"
  have row: "sym_row C M W i = fold ?st (sym_items M i)" if "i \<in> set xs" for i
    by (rule ext, rule sym_row_stores [OF C _ W]) (use that xs in auto)
  have "fold (sym_row C M W) xs m = fold (\<lambda>i. fold ?st (sym_items M i)) xs m"
    by (rule fold_cong [OF refl refl row])
  also have "\<dots> = fold ?st (concat (map (sym_items M) xs)) m"
    by (simp add: fold_concat_map)
  finally have eq: "fold (sym_row C M W) xs m = fold ?st (concat (map (sym_items M) xs)) m" .
  have V: "sym_val M W q u = sym_val M W q v" if q: "q < M * M" and "\<And>y. y \<notin> span C (8 * (M * M)) \<Longrightarrow> u y = v y" for q u v
  proof -
    from q have "q div M < M" "q mod M < M" by (auto simp: less_mult_imp_div_less intro!: mod_less_divisor gr0I)
    then show ?thesis unfolding sym_val_def by (intro W that(2)) simp_all
  qed
  note st = fold_stores [where V = "sym_val M W" and xs = "concat (map (sym_items M) xs)" and m = m, OF C _ V]
  note cover = sym_items_cover [OF xs]
  show "fold (sym_row C M W) xs m y = m y" if "y \<notin> span C (8 * (M * M))"
    unfolding eq by (rule st(1)) (use that cover in simp_all)
  show "elt (fold (sym_row C M W) xs m) C (i * M + j) = W (max i j) (min i j) m" if "i < M" "j < M"
    unfolding eq by (rule trans [OF st(2)]) (use that cover row_major_less [OF that] in \<open>simp_all add: sym_val_def\<close>)
qed

section \<open>Covariance and correlation\<close>

definition cov_layout :: "u32 \<Rightarrow> u32 \<Rightarrow> ptr \<Rightarrow> ptr \<Rightarrow> bool" where
  "cov_layout N M data cov \<longleftrightarrow> holds data (unat N * unat M) \<and> holds cov (unat M * unat M) \<and>
     span data (8 * (unat N * unat M)) \<inter> span cov (8 * (unat M * unat M)) = {}"

definition deviation :: "fp_ops \<Rightarrow> u32 \<Rightarrow> (nat \<Rightarrow> f64) \<Rightarrow> nat \<Rightarrow> f64" where
  "deviation F N a k = fsub F (a k) (mean_of F N a)"

lemma holds_square: "holds p (n * n) \<Longrightarrow> n < 2 ^ 31"
  by (cases n) (auto simp: holds_def)

lemma column_mean_local:
  assumes "column_cells data (unat N) (unat M) i \<subseteq> R" "\<And>y. y \<in> R \<Longrightarrow> m y = m' y"
  shows "column_mean F N M data (of_nat i) m = column_mean F N M data (of_nat i) m'"
  unfolding column_mean_eq by (rule mean_of_cong, rule column_cong [of data "unat N" "unat M" i]) (use assms in auto)

lemma cov_deviations_local:
  assumes "column_cells data (unat N) (unat M) i \<subseteq> R"
  shows "action_ok (R, R, cov_deviations F N M data (of_nat i))"
  unfolding cov_deviations_def
  by (rule local_let [where f = "center_column F N M data (of_nat i)" and g = "column_mean F N M data (of_nat i)"])
    (rule center_column_local [OF assms], rule column_mean_local [OF assms])

lemma cov_phase1:
  fixes F :: fp_ops and m :: mem
  assumes lay: "holds data (unat N * unat M)" and M: "unat M < 2 ^ 31" and hs: "cores_ok d hs M"
  defines "m1 \<equiv> fold (\<lambda>h. for_share d h M (cov_deviations F N M data)) hs m"
  shows "z \<notin> span data (8 * (unat N * unat M)) \<Longrightarrow> m1 z = m z"
    and "i < unat M \<Longrightarrow> k < unat N \<Longrightarrow> column m1 data (unat M) i k = deviation F N (column m data (unat M) i) k"
proof -
  let ?R = "column_cells data (unat N) (unat M)"
  obtain xs where xs: "distinct xs" "set xs = {..<unat M}" "m1 = fold (\<lambda>i. cov_deviations F N M data (of_nat i)) xs m"
    unfolding m1_def by (rule phase_items [OF hs M, of "cov_deviations F N M data" m])
  note loc = fold_local [where R = ?R and body = "\<lambda>i. cov_deviations F N M data (of_nat i)" and xs = xs and m = m,
    OF cov_deviations_local [OF order_refl] xs(1) column_cells_disjoint [OF lay], unfolded xs(2)]
  show "m1 z = m z" if "z \<notin> span data (8 * (unat N * unat M))"
    unfolding xs(3) by (rule loc(2)) (use that column_cells_span [OF lay] xs(2) in auto)
  show "column m1 data (unat M) i k = deviation F N (column m data (unat M) i) k" if i: "i < unat M" and k: "k < unat N"
  proof -
    have "column m1 data (unat M) i k = column (cov_deviations F N M data (of_nat i) m) data (unat M) i k"
      unfolding xs(3) by (rule column_cong [of data "unat N" "unat M" i]) (rule loc(1), use i k xs(2) in auto)
    then show ?thesis by (simp add: cov_deviations_def center_column_column [OF lay i k] column_mean_eq deviation_def)
  qed
qed

definition cov_cell :: "fp_ops \<Rightarrow> u32 \<Rightarrow> u32 \<Rightarrow> ptr \<Rightarrow> nat \<Rightarrow> nat \<Rightarrow> mem \<Rightarrow> f64" where
  "cov_cell F N M data i j m = fdiv F (gemm_acc F (unat N) (column m data (unat M) i) (column m data (unat M) j) f64_0) (of_u32 F (N - 1))"

lemma cov_row_eq:
  assumes "i < 2 ^ 31"
  shows "cov_row F N M data cov (of_nat i) = sym_row cov (unat M) (cov_cell F N M data) i"
proof -
  have "nat (sint (of_nat i :: u32) + 1) = Suc i" using sint_of_nat_small [OF assms] by simp
  then show ?thesis
    unfolding fun_eq_iff cov_row_def sym_row_def cov_cell_def column_product_eq elt_def by simp
qed

lemma product_outside:
  assumes lay: "holds data (unat N * unat M)" "span data (8 * (unat N * unat M)) \<inter> S = {}" and ij: "i < unat M" "j < unat M"
    and eq: "\<And>y. y \<notin> S \<Longrightarrow> u y = v y"
  shows "gemm_acc F (unat N) (column u data (unat M) i) (column u data (unat M) j) f64_0 =
    gemm_acc F (unat N) (column v data (unat M) i) (column v data (unat M) j) f64_0"
proof -
  have "u y = v y" if "y \<in> column_cells data (unat N) (unat M) i \<union> column_cells data (unat N) (unat M) j" for y
    using that column_cells_span [OF lay(1)] ij lay(2) by (intro eq) blast
  then show ?thesis by (intro gemm_acc_cong) (auto intro!: column_cong [of data "unat N"])
qed

lemma kernel_covariance_result:
  fixes F :: fp_ops and m :: mem
  assumes lay: "cov_layout N M data cov" and hs: "cores_ok d hs1 M" "cores_ok d hs2 M"
  defines "m' \<equiv> kernel_covariance F d hs1 hs2 N M data cov m"
  defines "dev i \<equiv> deviation F N (column m data (unat M) i)"
  shows "(\<forall>i < unat M. \<forall>j < unat M. elt m' cov (i * unat M + j) =
      fdiv F (gemm_acc F (unat N) (dev (max i j)) (dev (min i j)) f64_0) (of_u32 F (N - 1))) \<and>
    (\<forall>i < unat M. \<forall>k < unat N. column m' data (unat M) i k = dev i k) \<and>
    (\<forall>z. z \<notin> span data (8 * (unat N * unat M)) \<union> span cov (8 * (unat M * unat M)) \<longrightarrow> m' z = m z)"
proof -
  let ?m1 = "fold (\<lambda>h. for_share d h M (cov_deviations F N M data)) hs1 m"
  note l = lay [unfolded cov_layout_def]
  have M: "unat M < 2 ^ 31" using l holds_square by blast
  note p1 = cov_phase1 [where data = data and N = N and F = F and m = m, OF _ M hs(1)]
  obtain xs where xs: "distinct xs" "set xs = {..<unat M}" "m' = fold (\<lambda>i. cov_row F N M data cov (of_nat i)) xs ?m1"
    unfolding m'_def kernel_covariance_def by (rule phase_items [OF hs(2) M, of "cov_row F N M data cov" ?m1])
  have m': "m' = fold (sym_row cov (unat M) (cov_cell F N M data)) xs ?m1"
    unfolding xs(3) by (rule fold_cong) (use xs(2) M cov_row_eq in auto)
  have W: "cov_cell F N M data i j u = cov_cell F N M data i j v"
    if "i < unat M" "j < unat M" "\<And>y. y \<notin> span cov (8 * (unat M * unat M)) \<Longrightarrow> u y = v y" for i j u v
    unfolding cov_cell_def by (subst product_outside [where S = "span cov (8 * (unat M * unat M))", OF _ _ that(1,2)]) (use l that(3) in auto)
  have cov: "holds cov (unat M * unat M)" using l by simp
  have keep: "m' y = ?m1 y" if "y \<notin> span cov (8 * (unat M * unat M))" for y
    unfolding m' by (rule sym_rows(1) [OF cov xs(2) _ that]) (rule W)
  have val: "elt m' cov (i * unat M + j) = cov_cell F N M data (max i j) (min i j) ?m1" if "i < unat M" "j < unat M" for i j
    unfolding m' by (rule sym_rows(2) [OF cov xs(2) _ that]) (rule W)
  have dev: "column ?m1 data (unat M) i k = dev i k" if "i < unat M" "k < unat N" for i k
    unfolding dev_def by (rule p1(2)) (use l that in simp_all)
  have "cov_cell F N M data i j ?m1 = fdiv F (gemm_acc F (unat N) (dev i) (dev j) f64_0) (of_u32 F (N - 1))"
    if "i < unat M" "j < unat M" for i j
    unfolding cov_cell_def using gemm_acc_cong [OF dev dev] that by simp
  moreover have "column m' data (unat M) i k = column ?m1 data (unat M) i k" if "i < unat M" "k < unat N" for i k
  proof (rule column_cong [OF _ that(2)])
    fix y assume "y \<in> column_cells data (unat N) (unat M) i"
    then have "y \<notin> span cov (8 * (unat M * unat M))"
      using that(1) l column_cells_span [of data "unat N" "unat M" i] by blast
    then show "m' y = ?m1 y" by (rule keep)
  qed
  ultimately show ?thesis
    using p1(1) keep val dev l by simp
qed

definition corr_layout :: "u32 \<Rightarrow> u32 \<Rightarrow> ptr \<Rightarrow> ptr \<Rightarrow> ptr \<Rightarrow> bool" where
  "corr_layout N M data stddev corr \<longleftrightarrow> holds data (unat N * unat M) \<and> holds stddev (unat M) \<and> holds corr (unat M * unat M) \<and>
     span data (8 * (unat N * unat M)) \<inter> span stddev (8 * unat M) = {} \<and>
     span data (8 * (unat N * unat M)) \<inter> span corr (8 * (unat M * unat M)) = {} \<and>
     span stddev (8 * unat M) \<inter> span corr (8 * (unat M * unat M)) = {}"

definition std_of :: "fp_ops \<Rightarrow> u32 \<Rightarrow> (nat \<Rightarrow> f64) \<Rightarrow> f64" where
  "std_of F N a = fsqrt F (fdiv F (gemm_acc F (unat N) (deviation F N a) (deviation F N a) f64_0) (of_u32 F N))"

lemma std_of_cong:
  assumes "\<And>k. k < unat N \<Longrightarrow> a k = b k" shows "std_of F N a = std_of F N b"
proof -
  have "deviation F N a k = deviation F N b k" if "k < unat N" for k
    using mean_of_cong [where N = N and F = F, OF assms] assms [OF that] by (simp add: deviation_def)
  then show ?thesis unfolding std_of_def by (metis gemm_acc_cong)
qed

lemma corr_deviations_eq:
  "corr_deviations F N M data stddev (of_nat i) = (\<lambda>m. center_column F N M data (of_nat i) (column_mean F N M data (of_nat i) m)
     (store64 (dbl stddev (of_nat i)) (std_of F N (column m data (unat M) i)) m))"
  unfolding fun_eq_iff corr_deviations_def Let_def std_of_def gemm_acc_def deviation_def column_mean_eq column_index
  by (simp add: column_def elt_def)

definition corr_region :: "u32 \<Rightarrow> u32 \<Rightarrow> ptr \<Rightarrow> ptr \<Rightarrow> nat \<Rightarrow> u64 set" where
  "corr_region N M data stddev i = column_cells data (unat N) (unat M) i \<union> cell stddev i"

lemma corr_deviations_local:
  "action_ok (corr_region N M data stddev i, corr_region N M data stddev i, corr_deviations F N M data stddev (of_nat i))"
proof -
  let ?R = "corr_region N M data stddev i"
  have cells: "column_cells data (unat N) (unat M) i \<subseteq> ?R" "cell stddev i \<subseteq> ?R" by (auto simp: corr_region_def)
  have "std_of F N (column m data (unat M) i) = std_of F N (column m' data (unat M) i)" if "\<And>y. y \<in> ?R \<Longrightarrow> m y = m' y" for m m'
    by (rule std_of_cong, rule column_cong [of data "unat N" "unat M" i]) (use that cells in auto)
  then have "action_ok (?R, ?R, \<lambda>m. center_column F N M data (of_nat i) v
      (store64 (dbl stddev (of_nat i)) (std_of F N (column m data (unat M) i)) m))" for v
    by (intro local_comp [OF local_store center_column_local] cells) blast
  then show ?thesis
    unfolding corr_deviations_eq
    by (rule local_let [where g = "column_mean F N M data (of_nat i)"]) (rule column_mean_local [OF cells(1)])
qed

lemma corr_region_disjoint:
  assumes lay: "corr_layout N M data stddev corr" and ij: "i < unat M" "j < unat M" "i \<noteq> j"
  shows "corr_region N M data stddev i \<inter> corr_region N M data stddev j = {}"
proof -
  note l = lay [unfolded corr_layout_def]
  have "cell stddev i \<inter> cell stddev j = {}" "column_cells data (unat N) (unat M) i \<inter> column_cells data (unat N) (unat M) j = {}"
    using cells_disjoint [OF _ ij, of stddev] column_cells_disjoint [OF _ ij, of data "unat N"] l by simp_all
  moreover have "column_cells data (unat N) (unat M) i' \<inter> cell stddev j' = {}" if "i' < unat M" "j' < unat M" for i' j'
    using column_cells_span [of data "unat N" "unat M" i'] cell_span [of stddev "unat M" j'] l that by blast
  ultimately show ?thesis using ij unfolding corr_region_def by blast
qed

lemma corr_step:
  fixes F :: fp_ops and m :: mem
  assumes lay: "corr_layout N M data stddev corr" and i: "i < unat M"
  defines "m1 \<equiv> corr_deviations F N M data stddev (of_nat i) m"
  shows "k < unat N \<Longrightarrow> column m1 data (unat M) i k = deviation F N (column m data (unat M) i) k"
    and "elt m1 stddev i = std_of F N (column m data (unat M) i)"
proof -
  let ?c = "column m data (unat M) i"
  let ?s = "store64 (dbl stddev (of_nat i)) (std_of F N ?c) m"
  note l = lay [unfolded corr_layout_def]
  have apart: "column_cells data (unat N) (unat M) i \<inter> cell stddev i = {}"
    using column_cells_span [of data "unat N" "unat M" i] cell_span [of stddev "unat M" i] l i by blast
  have m1: "m1 = center_column F N M data (of_nat i) (mean_of F N ?c) ?s"
    by (simp add: m1_def corr_deviations_eq column_mean_eq)
  show "column m1 data (unat M) i k = deviation F N ?c k" if k: "k < unat N"
  proof -
    have "column ?s data (unat M) i k = ?c k"
      by (rule column_cong [OF _ k]) (rule store_cell_miss, use apart in blast)
    then show ?thesis using center_column_column [of data N M i k F _ ?s] l i k by (simp add: m1 deviation_def)
  qed
  have "elt m1 stddev i = elt ?s stddev i"
    unfolding m1 by (rule elt_cell, rule action_frame [OF center_column_local [OF order_refl], unfolded action_simps]) (use apart in blast)
  then show "elt m1 stddev i = std_of F N ?c" using elt_store64 [of stddev "unat M" i i] l i by simp
qed

lemma corr_phase1:
  fixes F :: fp_ops and m :: mem
  assumes lay: "corr_layout N M data stddev corr" and M: "unat M < 2 ^ 31" and hs: "cores_ok d hs M"
  defines "m1 \<equiv> fold (\<lambda>h. for_share d h M (corr_deviations F N M data stddev)) hs m"
  shows "z \<notin> span data (8 * (unat N * unat M)) \<union> span stddev (8 * unat M) \<Longrightarrow> m1 z = m z"
    and "i < unat M \<Longrightarrow> k < unat N \<Longrightarrow> column m1 data (unat M) i k = deviation F N (column m data (unat M) i) k"
    and "i < unat M \<Longrightarrow> elt m1 stddev i = std_of F N (column m data (unat M) i)"
proof -
  let ?R = "corr_region N M data stddev"
  let ?step = "\<lambda>i. corr_deviations F N M data stddev (of_nat i)"
  note l = lay [unfolded corr_layout_def]
  obtain xs where xs: "distinct xs" "set xs = {..<unat M}" "m1 = fold ?step xs m"
    unfolding m1_def by (rule phase_items [OF hs M, of "corr_deviations F N M data stddev" m])
  note loc = fold_local [where R = ?R and body = ?step and xs = xs and m = m,
    OF corr_deviations_local xs(1) corr_region_disjoint [OF lay], unfolded xs(2)]
  show "m1 z = m z" if z: "z \<notin> span data (8 * (unat N * unat M)) \<union> span stddev (8 * unat M)"
    unfolding xs(3)
  proof (rule loc(2))
    show "z \<notin> ?R i" if "i \<in> {..<unat M}" for i
      using z that l column_cells_span [of data "unat N" "unat M" i] cell_span [of stddev "unat M" i] by (auto simp: corr_region_def)
  qed simp_all
  have eq: "m1 y = ?step i m y" if "i < unat M" "y \<in> ?R i" for i y
    unfolding xs(3) by (rule loc(1)) (use that in auto)
  show "column m1 data (unat M) i k = deviation F N (column m data (unat M) i) k" if i: "i < unat M" and k: "k < unat N"
  proof -
    have "column m1 data (unat M) i k = column (?step i m) data (unat M) i k"
      by (rule column_cong [OF eq [OF i] k]) (simp add: corr_region_def)
    then show ?thesis using corr_step(1) [OF lay i k] by simp
  qed
  show "elt m1 stddev i = std_of F N (column m data (unat M) i)" if i: "i < unat M"
  proof -
    have "elt m1 stddev i = elt (?step i m) stddev i" by (rule elt_cell [OF eq [OF i]]) (simp add: corr_region_def)
    then show ?thesis using corr_step(2) [OF lay i] by simp
  qed
qed

definition corr_cell :: "fp_ops \<Rightarrow> u32 \<Rightarrow> u32 \<Rightarrow> ptr \<Rightarrow> ptr \<Rightarrow> nat \<Rightarrow> nat \<Rightarrow> mem \<Rightarrow> f64" where
  "corr_cell F N M data stddev i j m = fdiv F (gemm_acc F (unat N) (column m data (unat M) i) (column m data (unat M) j) f64_0)
     (fmul F (fmul F (of_u32 F N) (elt m stddev i)) (elt m stddev j))"

lemma corr_row_eq:
  assumes "i < 2 ^ 31"
  shows "corr_row F N M data stddev corr (of_nat i) = sym_row corr (unat M) (corr_cell F N M data stddev) i"
proof -
  have "nat (sint (of_nat i :: u32) + 1) = Suc i" using sint_of_nat_small [OF assms] by simp
  then show ?thesis
    unfolding fun_eq_iff corr_row_def sym_row_def corr_cell_def column_product_eq elt_def by simp
qed

lemma kernel_correlation_result:
  fixes F :: fp_ops and m :: mem
  assumes lay: "corr_layout N M data stddev corr" and hs: "cores_ok d hs1 M" "cores_ok d hs2 M"
  defines "m' \<equiv> kernel_correlation F d hs1 hs2 N M data stddev corr m"
  defines "dev i \<equiv> deviation F N (column m data (unat M) i)"
  defines "sd i \<equiv> std_of F N (column m data (unat M) i)"
  shows "(\<forall>i < unat M. \<forall>j < unat M. elt m' corr (i * unat M + j) =
      fdiv F (gemm_acc F (unat N) (dev (max i j)) (dev (min i j)) f64_0) (fmul F (fmul F (of_u32 F N) (sd (max i j))) (sd (min i j)))) \<and>
    (\<forall>z. z \<notin> span data (8 * (unat N * unat M)) \<union> span stddev (8 * unat M) \<union> span corr (8 * (unat M * unat M)) \<longrightarrow> m' z = m z)"
proof -
  let ?m1 = "fold (\<lambda>h. for_share d h M (corr_deviations F N M data stddev)) hs1 m"
  let ?S = "span corr (8 * (unat M * unat M))"
  note l = lay [unfolded corr_layout_def]
  have M: "unat M < 2 ^ 31" using l holds_square by blast
  note p1 = corr_phase1 [where F = F and m = m, OF lay M hs(1)]
  obtain xs where xs: "distinct xs" "set xs = {..<unat M}" "m' = fold (\<lambda>i. corr_row F N M data stddev corr (of_nat i)) xs ?m1"
    unfolding m'_def kernel_correlation_def by (rule phase_items [OF hs(2) M, of "corr_row F N M data stddev corr" ?m1])
  have m': "m' = fold (sym_row corr (unat M) (corr_cell F N M data stddev)) xs ?m1"
    unfolding xs(3) by (rule fold_cong) (use xs(2) M corr_row_eq in auto)
  have W: "corr_cell F N M data stddev i j u = corr_cell F N M data stddev i j v"
    if ij: "i < unat M" "j < unat M" and eq: "\<And>y. y \<notin> ?S \<Longrightarrow> u y = v y" for i j u v
  proof -
    have "elt u stddev k = elt v stddev k" if "k < unat M" for k
      by (rule elt_span_cong [of stddev "unat M"]) (use l that eq in auto)
    then show ?thesis
      unfolding corr_cell_def by (subst product_outside [where S = ?S, OF _ _ ij]) (use l ij eq in auto)
  qed
  have corr: "holds corr (unat M * unat M)" using l by simp
  have keep: "m' y = ?m1 y" if "y \<notin> ?S" for y
    unfolding m' by (rule sym_rows(1) [OF corr xs(2) _ that]) (rule W)
  have val: "elt m' corr (i * unat M + j) = corr_cell F N M data stddev (max i j) (min i j) ?m1" if "i < unat M" "j < unat M" for i j
    unfolding m' by (rule sym_rows(2) [OF corr xs(2) _ that]) (rule W)
  have "corr_cell F N M data stddev i j ?m1 =
      fdiv F (gemm_acc F (unat N) (dev i) (dev j) f64_0) (fmul F (fmul F (of_u32 F N) (sd i)) (sd j))" if "i < unat M" "j < unat M" for i j
  proof -
    have "gemm_acc F (unat N) (column ?m1 data (unat M) i) (column ?m1 data (unat M) j) f64_0 = gemm_acc F (unat N) (dev i) (dev j) f64_0"
      unfolding dev_def by (rule gemm_acc_cong) (rule p1(2), use that in simp_all)+
    then show ?thesis unfolding corr_cell_def p1(3) [OF that(1)] p1(3) [OF that(2)] sd_def by simp
  qed
  then show ?thesis using p1(1) keep val by simp
qed

section \<open>The applications\<close>

text \<open>The globals of the generated \<open>data.h\<close>; \<open>stat_out\<close> is \<open>cov\<close> or \<open>corr\<close>.\<close>

record stat_data =
  stat_N :: u32
  stat_M :: u32
  stat_in :: ptr
  stat_out :: ptr
  stat_golden :: ptr

definition covariance_main ::
  "(dma_req \<Rightarrow> mem \<Rightarrow> mem) \<Rightarrow> nat list \<Rightarrow> nat list \<Rightarrow> fp_ops \<Rightarrow> snrt_defs \<Rightarrow> u32 list \<Rightarrow> u32 list \<Rightarrow> ptr \<Rightarrow> stat_data \<Rightarrow>
     dma_state \<Rightarrow> (u32 \<times> dma_state) option" where
  "covariance_main exec sched_in sched_out F d hs1 hs2 l1 a st =
     (let local_data = l1; local_cov = dbl local_data (stat_N a * stat_M a)
      in Option.bind (snrt_dma_wait_all exec sched_in (snd (snrt_dma_start_1d local_data (stat_in a) (8 * stat_N a * stat_M a) st))) (\<lambda>st.
           let st = st\<lparr>dmem := kernel_covariance F d hs1 hs2 (stat_N a) (stat_M a) local_data local_cov (dmem st)\<rparr>
           in Option.bind (snrt_dma_wait_all exec sched_out (snd (snrt_dma_start_1d (stat_out a) local_cov (8 * stat_M a * stat_M a) st))) (\<lambda>st.
                Some (check_square F (stat_M a) (stat_golden a) local_cov (dmem st), st))))"

definition correlation_main ::
  "(dma_req \<Rightarrow> mem \<Rightarrow> mem) \<Rightarrow> nat list \<Rightarrow> nat list \<Rightarrow> fp_ops \<Rightarrow> snrt_defs \<Rightarrow> u32 list \<Rightarrow> u32 list \<Rightarrow> ptr \<Rightarrow> stat_data \<Rightarrow>
     dma_state \<Rightarrow> (u32 \<times> dma_state) option" where
  "correlation_main exec sched_in sched_out F d hs1 hs2 l1 a st =
     (let local_data = l1; local_corr = dbl local_data (stat_N a * stat_M a); local_stddev = dbl local_corr (stat_M a * stat_M a)
      in Option.bind (snrt_dma_wait_all exec sched_in (snd (snrt_dma_start_1d local_data (stat_in a) (8 * stat_N a * stat_M a) st))) (\<lambda>st.
           let st = st\<lparr>dmem := kernel_correlation F d hs1 hs2 (stat_N a) (stat_M a) local_data local_stddev local_corr (dmem st)\<rparr>
           in Option.bind (snrt_dma_wait_all exec sched_out (snd (snrt_dma_start_1d (stat_out a) local_corr (8 * stat_M a * stat_M a) st))) (\<lambda>st.
                Some (check_square F (stat_M a) (stat_golden a) local_corr (dmem st), st))))"

lemma covariance_main_offload:
  "covariance_main exec sched_in sched_out F d hs1 hs2 l1 a st =
     map_option (\<lambda>st. (check_square F (stat_M a) (stat_golden a) (dbl l1 (stat_N a * stat_M a)) (dmem st), st))
       (offload exec sched_in sched_out (l1, unat (stat_N a) * unat (stat_M a), stat_in a)
         (kernel_covariance F d hs1 hs2 (stat_N a) (stat_M a) l1 (dbl l1 (stat_N a * stat_M a)))
         (stat_out a, unat (stat_M a) * unat (stat_M a), dbl l1 (stat_N a * stat_M a)) st)"
  by (simp add: covariance_main_def offload_def Let_def mult.assoc map_option_bind comp_def bind_map_option split: Option.bind_split)

lemma correlation_main_offload:
  "correlation_main exec sched_in sched_out F d hs1 hs2 l1 a st =
     (let lc = dbl l1 (stat_N a * stat_M a)
      in map_option (\<lambda>st. (check_square F (stat_M a) (stat_golden a) lc (dmem st), st))
        (offload exec sched_in sched_out (l1, unat (stat_N a) * unat (stat_M a), stat_in a)
          (kernel_correlation F d hs1 hs2 (stat_N a) (stat_M a) l1 (dbl lc (stat_M a * stat_M a)) lc)
          (stat_out a, unat (stat_M a) * unat (stat_M a), lc) st))"
  by (simp add: correlation_main_def offload_def Let_def mult.assoc map_option_bind comp_def bind_map_option split: Option.bind_split)

section \<open>What they compute\<close>

definition cov_spec :: "fp_ops \<Rightarrow> u32 \<Rightarrow> u32 \<Rightarrow> (nat \<Rightarrow> f64) \<Rightarrow> nat \<Rightarrow> nat \<Rightarrow> f64" where
  "cov_spec F N M D i j =
     (let dev = (\<lambda>i. deviation F N (\<lambda>k. D (k * unat M + i)))
      in fdiv F (gemm_acc F (unat N) (dev (max i j)) (dev (min i j)) f64_0) (of_u32 F (N - 1)))"

definition corr_spec :: "fp_ops \<Rightarrow> u32 \<Rightarrow> u32 \<Rightarrow> (nat \<Rightarrow> f64) \<Rightarrow> nat \<Rightarrow> nat \<Rightarrow> f64" where
  "corr_spec F N M D i j =
     (let dev = (\<lambda>i. deviation F N (\<lambda>k. D (k * unat M + i))); sd = (\<lambda>i. std_of F N (\<lambda>k. D (k * unat M + i)))
      in fdiv F (gemm_acc F (unat N) (dev (max i j)) (dev (min i j)) f64_0) (fmul F (fmul F (of_u32 F N) (sd (max i j))) (sd (min i j))))"

lemma deviation_cong: "(\<And>k. k < unat N \<Longrightarrow> a k = b k) \<Longrightarrow> k < unat N \<Longrightarrow> deviation F N a k = deviation F N b k"
  using mean_of_cong [of N a b F] by (simp add: deviation_def)

lemma stat_spec_cong:
  assumes D: "\<And>q. q < unat N * unat M \<Longrightarrow> D q = D' q" and ij: "i < unat M" "j < unat M"
  shows "cov_spec F N M D i j = cov_spec F N M D' i j" "corr_spec F N M D i j = corr_spec F N M D' i j"
proof -
  have col: "D (k * unat M + i) = D' (k * unat M + i)" if "k < unat N" "i < unat M" for k i by (rule D) (rule row_major_less [OF that])
  have mm: "max i j < unat M" "min i j < unat M" using ij by simp_all
  have "gemm_acc F (unat N) (deviation F N (\<lambda>k. D (k * unat M + max i j))) (deviation F N (\<lambda>k. D (k * unat M + min i j))) f64_0 =
      gemm_acc F (unat N) (deviation F N (\<lambda>k. D' (k * unat M + max i j))) (deviation F N (\<lambda>k. D' (k * unat M + min i j))) f64_0"
    by (rule gemm_acc_cong) (rule deviation_cong, use col mm in auto)+
  moreover have "std_of F N (\<lambda>k. D (k * unat M + i)) = std_of F N (\<lambda>k. D' (k * unat M + i))" if "i < unat M" for i
    by (rule std_of_cong) (use col that in auto)
  ultimately show "cov_spec F N M D i j = cov_spec F N M D' i j" "corr_spec F N M D i j = corr_spec F N M D' i j"
    using mm by (simp_all add: cov_spec_def corr_spec_def Let_def)
qed

lemma column_fun: "column m p M i = (\<lambda>k. elt m p (k * M + i))"
  by (simp add: fun_eq_iff column_def)

text \<open>
  L1 holds the data, the result matrix and, for the correlation, the standard deviations: \<open>e\<close> further elements.
  The globals are outside of this region, and the golden model is not the output.
\<close>

definition stat_ok :: "nat \<Rightarrow> stat_data \<Rightarrow> ptr \<Rightarrow> bool" where
  "stat_ok e a l1 \<longleftrightarrow>
     (let N = unat (stat_N a); M = unat (stat_M a); T = N * M + M * M + e
      in unat l1 + 8 * T < 2 ^ 32 \<and> holds (stat_in a) (N * M) \<and> array_ok (stat_out a) (M * M) \<and> holds (stat_golden a) (M * M) \<and>
         beside l1 T (stat_in a) (N * M) \<and> beside l1 T (stat_out a) (M * M) \<and> beside l1 T (stat_golden a) (M * M) \<and>
         beside (stat_out a) (M * M) (stat_golden a) (M * M))"

lemma stat_local:
  assumes ok: "stat_ok e a l1"
  defines "N \<equiv> unat (stat_N a)" and "M \<equiv> unat (stat_M a)"
  defines "lr \<equiv> dbl l1 (stat_N a * stat_M a)"
  defines "le \<equiv> dbl lr (stat_M a * stat_M a)"
  shows "unat lr = unat l1 + 8 * (N * M)" "unat le = unat l1 + 8 * (N * M) + 8 * (M * M)"
    and "array_ok l1 (N * M)" "array_ok lr (M * M)" "array_ok le e"
proof -
  have b: "unat l1 + 8 * (N * M) + 8 * (M * M) + 8 * e < 2 ^ 32" using ok by (simp add: stat_ok_def Let_def M_def N_def)
  have lr': "lr = dbl l1 (of_nat (N * M))" by (simp add: lr_def M_def N_def)
  show lr: "unat lr = unat l1 + 8 * (N * M)" and "array_ok lr (M * M)" using dbl_next [of l1 "N * M" "M * M"] b unfolding lr' by simp_all
  have le': "le = dbl lr (of_nat (M * M))" by (simp add: le_def M_def)
  show "unat le = unat l1 + 8 * (N * M) + 8 * (M * M)" and "array_ok le e" using dbl_next [of lr "M * M" e] b lr unfolding le' by simp_all
  show "array_ok l1 (N * M)" using b by (simp add: array_ok_def holds_def mult.commute)
qed

lemma stat_layouts:
  assumes ok: "stat_ok e a l1"
  defines "N \<equiv> unat (stat_N a)" and "M \<equiv> unat (stat_M a)"
  defines "lr \<equiv> dbl l1 (stat_N a * stat_M a)"
  defines "le \<equiv> dbl lr (stat_M a * stat_M a)"
  shows "cov_layout (stat_N a) (stat_M a) l1 lr" and "e = M \<Longrightarrow> corr_layout (stat_N a) (stat_M a) l1 le lr"
    and "span l1 (8 * (N * M)) \<union> span lr (8 * (M * M)) \<union> span le (8 * e) \<subseteq> span l1 (8 * (N * M + M * M + e))"
proof -
  note l = stat_local [OF ok, folded M_def N_def lr_def le_def]
  have b: "beside l1 (N * M) lr (M * M)" "beside l1 (N * M) le e" "beside le e lr (M * M)" using l(1,2) by (simp_all add: beside_def)
  show "cov_layout (stat_N a) (stat_M a) l1 lr"
    using l(3,4) beside_span [OF b(1)] by (simp add: cov_layout_def array_ok_def N_def M_def)
  show "e = M \<Longrightarrow> corr_layout (stat_N a) (stat_M a) l1 le lr"
    using l(3-5) b [THEN beside_span] by (simp add: corr_layout_def array_ok_def N_def M_def)
  show "span l1 (8 * (N * M)) \<union> span lr (8 * (M * M)) \<union> span le (8 * e) \<subseteq> span l1 (8 * (N * M + M * M + e))"
    by (intro Un_least span_sub) (use l(1,2) in simp_all)
qed

lemma stat_offload:
  assumes exec: "dma_backend exec" and ok: "stat_ok e a l1" and idle: "pending st = []"
    and sched: "1 \<le> sum_list sched_in" "1 \<le> sum_list sched_out"
  defines "N \<equiv> unat (stat_N a)" and "M \<equiv> unat (stat_M a)"
  defines "lr \<equiv> dbl l1 (stat_N a * stat_M a)"
  assumes kernel: "\<And>m. (\<And>i. i < N * M \<Longrightarrow> elt m l1 i = elt (dmem st) (stat_in a) i) \<Longrightarrow>
      (\<forall>i<M. \<forall>j<M. elt (K m) lr (i * M + j) = W i j) \<and> (\<forall>z. z \<notin> span l1 (8 * (N * M + M * M + e)) \<longrightarrow> K m z = m z)"
  shows "\<exists>st'. offload exec sched_in sched_out (l1, N * M, stat_in a) K (stat_out a, M * M, lr) st = Some st' \<and>
    check_square F (stat_M a) (stat_golden a) lr (dmem st') =
      of_nat (card {(i, j). i < M \<and> j < M \<and> wrong F (elt (dmem st) (stat_golden a) (i * M + j)) (W i j)}) \<and>
    (\<forall>i<M. \<forall>j<M. elt (dmem st') (stat_out a) (i * M + j) = W i j) \<and>
    (\<forall>z. z \<notin> span l1 (8 * (N * M + M * M + e)) \<union> span (stat_out a) (8 * (M * M)) \<longrightarrow> dmem st' z = dmem st z)"
proof -
  note l = stat_local [OF ok, folded M_def N_def lr_def]
  note b = ok [unfolded stat_ok_def Let_def, folded M_def N_def]
  have k: "(\<forall>q<M * M. elt (K m) lr q = W (q div M) (q mod M)) \<and> (\<forall>z. z \<notin> span l1 (8 * (N * M + M * M + e)) \<longrightarrow> K m z = m z)"
    if "\<And>i. i < N * M \<Longrightarrow> elt m l1 i = elt (dmem st) (stat_in a) i" for m
  proof -
    have "elt (K m) lr q = W (q div M) (q mod M)" if "q < M * M" for q
    proof -
      have "q div M < M" "q mod M < M" using that by (auto simp: less_mult_imp_div_less intro!: mod_less_divisor gr0I)
      then have "elt (K m) lr (q div M * M + q mod M) = W (q div M) (q mod M)" using kernel [OF \<open>\<And>i. i < N * M \<Longrightarrow> elt m l1 i = elt (dmem st) (stat_in a) i\<close>] by blast
      then show ?thesis by simp
    qed
    then show ?thesis using kernel [OF that] by blast
  qed
  obtain st' where st': "offload exec sched_in sched_out (l1, N * M, stat_in a) K (stat_out a, M * M, lr) st = Some st'"
      "\<forall>q<M * M. elt (dmem st') (stat_out a) q = W (q div M) (q mod M) \<and> elt (dmem st') lr q = W (q div M) (q mod M) \<and>
         elt (dmem st') (stat_golden a) q = elt (dmem st) (stat_golden a) q"
      "\<forall>z. z \<notin> span l1 (8 * (N * M + M * M + e)) \<union> span (stat_out a) (8 * (M * M)) \<longrightarrow> dmem st' z = dmem st z"
    using dma_backend.offload_result [OF exec idle sched, of l1 "N * M" "stat_in a" "N * M + M * M + e" "stat_out a" "M * M" lr "stat_golden a" K
        "\<lambda>q. W (q div M) (q mod M)", OF _ _ _ _ _ _ _ _ _ _ _ _ k] b l by (auto simp: array_ok_def)
  have ij: "i * M + j < M * M" "(i * M + j) div M = i" "(i * M + j) mod M = j" if "i < M" "j < M" for i j
    using row_major_less [OF that] that by auto
  have "{(i, j). i < M \<and> j < M \<and> wrong F (elt (dmem st') (stat_golden a) (i * M + j)) (elt (dmem st') lr (i * M + j))} =
      {(i, j). i < M \<and> j < M \<and> wrong F (elt (dmem st) (stat_golden a) (i * M + j)) (W i j)}"
    using st'(2) ij by auto
  then show ?thesis
    using st' ij unfolding check_square_count M_def [symmetric] by auto
qed


lemma covariance_kernel:
  assumes ok: "stat_ok e a l1" and hs: "cores_ok d hs1 (stat_M a)" "cores_ok d hs2 (stat_M a)"
  defines "N \<equiv> unat (stat_N a)" and "M \<equiv> unat (stat_M a)"
  defines "lr \<equiv> dbl l1 (stat_N a * stat_M a)"
  assumes D: "\<And>i. i < N * M \<Longrightarrow> elt m l1 i = D i"
  shows "(\<forall>i<M. \<forall>j<M. elt (kernel_covariance F d hs1 hs2 (stat_N a) (stat_M a) l1 lr m) lr (i * M + j) = cov_spec F (stat_N a) (stat_M a) D i j) \<and>
    (\<forall>z. z \<notin> span l1 (8 * (N * M + M * M + e)) \<longrightarrow> kernel_covariance F d hs1 hs2 (stat_N a) (stat_M a) l1 lr m z = m z)"
proof -
  note lay = stat_layouts [OF ok, folded M_def N_def lr_def]
  note kr = kernel_covariance_result [OF lay(1) hs, of F m, folded M_def N_def, unfolded column_fun]
  have "cov_spec F (stat_N a) (stat_M a) (elt m l1) i j = cov_spec F (stat_N a) (stat_M a) D i j" if "i < M" "j < M" for i j
    by (rule stat_spec_cong(1)) (use D that in \<open>simp_all add: N_def M_def\<close>)
  then show ?thesis using kr lay(3) by (auto simp: cov_spec_def Let_def N_def M_def)
qed

lemma correlation_kernel:
  assumes ok: "stat_ok (unat (stat_M a)) a l1" and hs: "cores_ok d hs1 (stat_M a)" "cores_ok d hs2 (stat_M a)"
  defines "N \<equiv> unat (stat_N a)" and "M \<equiv> unat (stat_M a)"
  defines "lr \<equiv> dbl l1 (stat_N a * stat_M a)"
  defines "le \<equiv> dbl lr (stat_M a * stat_M a)"
  assumes D: "\<And>i. i < N * M \<Longrightarrow> elt m l1 i = D i"
  shows "(\<forall>i<M. \<forall>j<M. elt (kernel_correlation F d hs1 hs2 (stat_N a) (stat_M a) l1 le lr m) lr (i * M + j) = corr_spec F (stat_N a) (stat_M a) D i j) \<and>
    (\<forall>z. z \<notin> span l1 (8 * (N * M + M * M + M)) \<longrightarrow> kernel_correlation F d hs1 hs2 (stat_N a) (stat_M a) l1 le lr m z = m z)"
proof -
  note lay = stat_layouts [OF ok, folded M_def N_def lr_def le_def]
  note kr = kernel_correlation_result [OF lay(2) [OF refl] hs, of F m, folded M_def N_def, unfolded column_fun]
  have "corr_spec F (stat_N a) (stat_M a) (elt m l1) i j = corr_spec F (stat_N a) (stat_M a) D i j" if "i < M" "j < M" for i j
    by (rule stat_spec_cong(2)) (use D that in \<open>simp_all add: N_def M_def\<close>)
  then show ?thesis using kr lay(3) by (auto simp: corr_spec_def Let_def N_def M_def)
qed

text \<open>
  C23. \<open>sw/apps/covariance\<close> from the transfer of the data to the check: the output in L3 is the covariance matrix, whose element \<open>(i, j)\<close>
  is the sum of the products of the deviations of columns \<open>i\<close> and \<open>j\<close> (the column with the larger number first) divided by \<open>N - 1\<close>;
  the matrix is symmetric, the return value counts the elements that differ from the golden model by more than \<open>MAX_ERROR\<close>, and
  nothing else in memory changes but the L1 buffers.
\<close>

theorem covariance_main_correct:
  fixes F :: fp_ops
  assumes "dma_backend exec" and "stat_ok 0 a l1" and "pending st = []" and "cores_ok d hs1 (stat_M a)" "cores_ok d hs2 (stat_M a)"
    and "1 \<le> sum_list sched_in" "1 \<le> sum_list sched_out"
  defines "N \<equiv> unat (stat_N a)" and "M \<equiv> unat (stat_M a)"
  defines "C \<equiv> cov_spec F (stat_N a) (stat_M a) (elt (dmem st) (stat_in a))"
  shows "\<exists>st'. covariance_main exec sched_in sched_out F d hs1 hs2 l1 a st =
      Some (of_nat (card {(i, j). i < M \<and> j < M \<and> wrong F (elt (dmem st) (stat_golden a) (i * M + j)) (C i j)}), st') \<and>
    (\<forall>i<M. \<forall>j<M. elt (dmem st') (stat_out a) (i * M + j) = C i j) \<and>
    (\<forall>z. z \<notin> span l1 (8 * (N * M + M * M)) \<union> span (stat_out a) (8 * (M * M)) \<longrightarrow> dmem st' z = dmem st z)"
proof -
  let ?K = "kernel_covariance F d hs1 hs2 (stat_N a) (stat_M a) l1 (dbl l1 (stat_N a * stat_M a))"
  show ?thesis
    using stat_offload [where F = F and K = ?K and W = C, OF assms(1-3,6,7)] covariance_kernel [OF assms(2,4,5), where F = F]
    unfolding covariance_main_offload C_def M_def N_def by fastforce
qed


definition example_stat :: stat_data where
  "example_stat = \<lparr>stat_N = 3, stat_M = 2, stat_in = 0x80000000, stat_out = 0x80001000, stat_golden = 0x80002000\<rparr>"

lemma example_stat_facts:
  "stat_ok 0 example_stat 0x10000000" "stat_ok (unat (stat_M example_stat)) example_stat 0x10000000"
  "cores_ok example_defs [1, 0] (stat_M example_stat)" "cores_ok example_defs [0, 1] (stat_M example_stat)"
  "pending counting_dma = []" "dmem counting_dma = ucast"
proof -
  show "stat_ok 0 example_stat 0x10000000" "stat_ok (unat (stat_M example_stat)) example_stat 0x10000000"
    by (simp_all add: stat_ok_def example_stat_def holds_def array_ok_def beside_def)
  show "cores_ok example_defs [1, 0] (stat_M example_stat)" "cores_ok example_defs [0, 1] (stat_M example_stat)"
    by (intro example_cores_ok; simp add: example_stat_def)+
  show "pending counting_dma = []" "dmem counting_dma = ucast" by (simp_all add: counting_dma_def dma_reset_def)
qed

theorem covariance_main_correct_witness:
  "\<exists>st'. covariance_main copy_seq [1] [1] int_fpu example_defs [1, 0] [0, 1] 0x10000000 example_stat counting_dma =
      Some (of_nat (card {(i, j). i < 2 \<and> j < 2 \<and> wrong int_fpu (elt ucast 0x80002000 (i * 2 + j)) (cov_spec int_fpu 3 2 (elt ucast 0x80000000) i j)}), st') \<and>
    (\<forall>i<2. \<forall>j<2. elt (dmem st') 0x80001000 (i * 2 + j) = cov_spec int_fpu 3 2 (elt ucast 0x80000000) i j)"
  using covariance_main_correct [OF seq_engine.dma_backend_axioms example_stat_facts(1,5,3,4), where sched_in = "[1]" and sched_out = "[1]" and F = int_fpu]
  by (auto simp: example_stat_facts(6) example_stat_def)


end
