(* ===== verification/Mnist.thy ===== *)
theory Mnist
  imports Gemm "HOL-Library.Sublist"
begin

text \<open>
  \<open>sw/apps/mnist\<close>: one layer of a neural network with softmax, trained by gradient descent in single precision. The arrays of the
  memory map at the start of \<open>nnlinear_backend_baseline\<close> lie one after the other in L1; each is a component of the state here.
\<close>

section \<open>Single precision\<close>

text \<open>The operations of the FPU and of the mathematical library on 32-bit patterns; \<open>exp\<close> and \<open>log\<close> work on doubles.\<close>

type_synonym f32 = u32

record fp32_ops =
  add32 :: "f32 \<Rightarrow> f32 \<Rightarrow> f32"
  sub32 :: "f32 \<Rightarrow> f32 \<Rightarrow> f32"
  mul32 :: "f32 \<Rightarrow> f32 \<Rightarrow> f32"
  div32 :: "f32 \<Rightarrow> f32 \<Rightarrow> f32"
  lt32 :: "f32 \<Rightarrow> f32 \<Rightarrow> bool"
  to_f64 :: "f32 \<Rightarrow> f64"
  to_f32 :: "f64 \<Rightarrow> f32"
  exp64 :: "f64 \<Rightarrow> f64"
  log64 :: "f64 \<Rightarrow> f64"
  sub64 :: "f64 \<Rightarrow> f64 \<Rightarrow> f64"

definition f32_0 :: f32 where "f32_0 = 0"
definition f32_1 :: f32 where "f32_1 = 0x3F800000"
definition f32_256 :: f32 where "f32_256 = 0x43800000"

section \<open>The kernels\<close>

definition NUM_CLASSES :: nat where "NUM_CLASSES = 10"
definition IN_CH :: nat where "IN_CH = 784"

record nn_state =
  weights :: "nat \<Rightarrow> f32"
  weight_grads :: "nat \<Rightarrow> f32"
  biases :: "nat \<Rightarrow> f32"
  activations :: "nat \<Rightarrow> f32"
  bias_grads :: "nat \<Rightarrow> f32"
  images :: "nat \<Rightarrow> f32"
  nn_loss :: f32
  target :: u32

definition SoftMax_baseline :: "fp32_ops \<Rightarrow> nat \<Rightarrow> (nat \<Rightarrow> f32) \<Rightarrow> nat \<Rightarrow> f32" where
  "SoftMax_baseline L len act =
     (let max = fold (\<lambda>i mx. if lt32 L mx (act i) then act i else mx) [1..<len] (act 0);
          (act, sum) = for_upto len (\<lambda>i (act, sum). let e = to_f32 L (exp64 L (to_f64 L (sub32 L (act i) max)))
            in (act(i := e), add32 L sum e)) (act, f32_0)
      in for_upto len (\<lambda>i act. act(i := div32 L (act i) sum)) act)"

definition FeedForward_baseline :: "fp32_ops \<Rightarrow> nn_state \<Rightarrow> nn_state" where
  "FeedForward_baseline L s =
     (let act = for_upto NUM_CLASSES (\<lambda>i act.
            let act = act(i := biases s i)
            in for_upto IN_CH (\<lambda>j act. act(i := add32 L (act i) (mul32 L (weights s (i * IN_CH + j)) (images s j)))) act) (activations s)
      in s\<lparr>activations := SoftMax_baseline L NUM_CLASSES act\<rparr>)"

text \<open>\<open>GradientUpdate_baseline\<close> before and after the barrier in its middle.\<close>

definition GradientUpdate_forward :: "fp32_ops \<Rightarrow> u32 \<Rightarrow> nn_state \<Rightarrow> nn_state" where
  "GradientUpdate_forward L label s =
     (let s = FeedForward_baseline L s
      in s\<lparr>nn_loss := to_f32 L (sub64 L (to_f64 L f32_0) (log64 L (to_f64 L (activations s (unat label)))))\<rparr>)"

definition GradientUpdate_backward :: "fp32_ops \<Rightarrow> u32 \<Rightarrow> nn_state \<Rightarrow> nn_state" where
  "GradientUpdate_backward L label s =
     for_upto NUM_CLASSES (\<lambda>i s.
       let b_grad = (if of_nat i = label then sub32 L (activations s i) f32_1 else activations s i);
           s = for_upto IN_CH (\<lambda>j s. let W_grad = mul32 L b_grad (images s j)
             in s\<lparr>weight_grads := (weight_grads s)(i * IN_CH + j := add32 L (weight_grads s (i * IN_CH + j)) W_grad)\<rparr>) s
       in s\<lparr>bias_grads := (bias_grads s)(i := add32 L (bias_grads s i) b_grad)\<rparr>) s"

text \<open>\<open>BATCH_SIZE\<close> is 256 in the header that holds this function.\<close>

definition TrainingStep_baseline :: "fp32_ops \<Rightarrow> f32 \<Rightarrow> nn_state \<Rightarrow> nn_state" where
  "TrainingStep_baseline L learning_rate s =
     for_upto NUM_CLASSES (\<lambda>i s.
       let s = s\<lparr>biases := (biases s)(i := sub32 L (biases s i) (div32 L (mul32 L learning_rate (bias_grads s i)) f32_256))\<rparr>
       in for_upto IN_CH (\<lambda>j s. s\<lparr>weights := (weights s)(i * IN_CH + j :=
            sub32 L (weights s (i * IN_CH + j)) (div32 L (mul32 L learning_rate (weight_grads s (i * IN_CH + j))) f32_256))\<rparr>) s) s"

section \<open>What the kernels compute\<close>

text \<open>Loops that update an array in place.\<close>

lemma for_upto_map: "for_upto n (\<lambda>i a. a(i := f i (a i))) a = (\<lambda>i. if i < n then f i (a i) else a i)"
  by (induction n) (auto simp: for_upto_Suc fun_eq_iff less_Suc_eq)

definition softmax_spec :: "fp32_ops \<Rightarrow> nat \<Rightarrow> (nat \<Rightarrow> f32) \<Rightarrow> nat \<Rightarrow> f32" where
  "softmax_spec L n a i =
     (let mx = fold (\<lambda>i mx. if lt32 L mx (a i) then a i else mx) [1..<n] (a 0); e = (\<lambda>i. to_f32 L (exp64 L (to_f64 L (sub32 L (a i) mx))))
      in div32 L (e i) (for_upto n (\<lambda>i s. add32 L s (e i)) f32_0))"

lemma SoftMax_spec: "SoftMax_baseline L n a = (\<lambda>i. if i < n then softmax_spec L n a i else a i)"
proof -
  have loop: "for_upto k (\<lambda>i (a, s). let e = h (a i) in (a(i := e), add32 L s e)) (a, s0) =
      (\<lambda>i. if i < k then h (a i) else a i, for_upto k (\<lambda>i s. add32 L s (h (a i))) s0)" for h k s0
    by (induction k) (auto simp: for_upto_Suc fun_eq_iff Let_def less_Suc_eq)
  define mx where "mx = fold (\<lambda>i mx. if lt32 L mx (a i) then a i else mx) [1..<n] (a 0)"
  define e where "e v = to_f32 L (exp64 L (to_f64 L (sub32 L v mx)))" for v
  show ?thesis
    unfolding SoftMax_baseline_def softmax_spec_def mx_def [symmetric] Let_def e_def [symmetric]
    unfolding loop [where h = e, unfolded Let_def] prod.case for_upto_map [where f = "\<lambda>i v. div32 L v (for_upto n (\<lambda>i s. add32 L s (e (a i))) f32_0)"]
    by auto
qed

definition logit :: "fp32_ops \<Rightarrow> nn_state \<Rightarrow> nat \<Rightarrow> f32" where
  "logit L s i = for_upto IN_CH (\<lambda>j v. add32 L v (mul32 L (weights s (i * IN_CH + j)) (images s j))) (biases s i)"

lemma FeedForward_spec:
  "i < NUM_CLASSES \<Longrightarrow> activations (FeedForward_baseline L s) i = softmax_spec L NUM_CLASSES (logit L s) i"
  "FeedForward_baseline L s = s\<lparr>activations := activations (FeedForward_baseline L s)\<rparr>"
proof -
  have inner: "for_upto n (\<lambda>j act. act(i := add32 L (act i) (h i j))) act = act(i := for_upto n (\<lambda>j v. add32 L v (h i j)) (act i))" for n i h and act :: "nat \<Rightarrow> f32"
    by (induction n) (auto simp: for_upto_Suc)
  have row: "(let act = act(i := biases s i)
            in for_upto IN_CH (\<lambda>j act. act(i := add32 L (act i) (mul32 L (weights s (i * IN_CH + j)) (images s j)))) act) = act(i := logit L s i)" for act i
    unfolding Let_def inner [where h = "\<lambda>i j. mul32 L (weights s (i * IN_CH + j)) (images s j)"] by (simp add: logit_def)
  have cong: "softmax_spec L n a i = softmax_spec L n b i" if "\<And>i. i < n \<Longrightarrow> a i = b i" "i < n" for n a b i
  proof -
    have mx: "fold (\<lambda>i mx. if lt32 L mx (a i) then a i else mx) [1..<n] (a 0) = fold (\<lambda>i mx. if lt32 L mx (b i) then b i else mx) [1..<n] (b 0)"
      using that by (intro fold_cong) auto
    have "for_upto n (\<lambda>i s. add32 L s (h (a i))) f32_0 = for_upto n (\<lambda>i s. add32 L s (h (b i))) f32_0" for h
      by (rule for_upto_cong) (use that in auto)
    from this [of "\<lambda>v. to_f32 L (exp64 L (to_f64 L (sub32 L v (fold (\<lambda>i mx. if lt32 L mx (b i) then b i else mx) [1..<n] (b 0)))))"]
    show ?thesis using that unfolding softmax_spec_def Let_def mx by simp
  qed
  show "i < NUM_CLASSES \<Longrightarrow> activations (FeedForward_baseline L s) i = softmax_spec L NUM_CLASSES (logit L s) i"
    unfolding FeedForward_baseline_def row for_upto_map [where f = "\<lambda>i _. logit L s i"] SoftMax_spec by (auto simp: Let_def intro!: cong)
  show "FeedForward_baseline L s = s\<lparr>activations := activations (FeedForward_baseline L s)\<rparr>"
    by (simp add: FeedForward_baseline_def Let_def)
qed

text \<open>A grid of \<open>C\<close> columns, updated in place row by row.\<close>

lemma for_upto_row: "for_upto n (\<lambda>j g. g(b + j := f j (g (b + j)))) g = (\<lambda>q. if b \<le> q \<and> q < b + n then f (q - b) (g q) else g q)" for b :: nat
  by (induction n) (auto simp: for_upto_Suc fun_eq_iff less_Suc_eq)

lemma for_upto_grid:
  "for_upto R (\<lambda>i g. for_upto C (\<lambda>j g. g(i * C + j := f i j (g (i * C + j)))) g) g =
     (\<lambda>q. if q < R * C then f (q div C) (q mod C) (g q) else g q)"
proof (induction R)
  case (Suc R)
  have "q div C = R \<and> q mod C = q - R * C" if "R * C \<le> q" "q < R * C + C" for q
  proof -
    obtain r where r: "q = R * C + r" using \<open>R * C \<le> q\<close> le_Suc_ex by blast
    then show ?thesis using \<open>q < R * C + C\<close> by simp
  qed
  then show ?case unfolding for_upto_Suc Suc unfolding for_upto_row by (auto simp: fun_eq_iff not_less)
qed simp

definition grad :: "fp32_ops \<Rightarrow> u32 \<Rightarrow> nn_state \<Rightarrow> nat \<Rightarrow> f32" where
  "grad L label s i = (if of_nat i = label then sub32 L (activations s i) f32_1 else activations s i)"

lemma backward_spec:
  "GradientUpdate_backward L label s = s\<lparr>
     weight_grads := (\<lambda>q. if q < NUM_CLASSES * IN_CH
       then add32 L (weight_grads s q) (mul32 L (grad L label s (q div IN_CH)) (images s (q mod IN_CH))) else weight_grads s q),
     bias_grads := (\<lambda>i. if i < NUM_CLASSES then add32 L (bias_grads s i) (grad L label s i) else bias_grads s i)\<rparr>"
proof -
  have inner: "for_upto n (\<lambda>j s. let W_grad = mul32 L b (images s j) in s\<lparr>weight_grads := (weight_grads s)(i * IN_CH + j := add32 L (weight_grads s (i * IN_CH + j)) W_grad)\<rparr>) s =
      s\<lparr>weight_grads := for_upto n (\<lambda>j g. g(i * IN_CH + j := add32 L (g (i * IN_CH + j)) (mul32 L b (images s j)))) (weight_grads s)\<rparr>" for n i b s
    by (induction n) (simp_all add: for_upto_Suc Let_def del: fun_upd_apply)
  have "for_upto n (\<lambda>i s.
       let b_grad = (if of_nat i = label then sub32 L (activations s i) f32_1 else activations s i);
           s = for_upto IN_CH (\<lambda>j s. let W_grad = mul32 L b_grad (images s j)
             in s\<lparr>weight_grads := (weight_grads s)(i * IN_CH + j := add32 L (weight_grads s (i * IN_CH + j)) W_grad)\<rparr>) s
       in s\<lparr>bias_grads := (bias_grads s)(i := add32 L (bias_grads s i) b_grad)\<rparr>) s =
     s\<lparr>weight_grads := for_upto n (\<lambda>i g. for_upto IN_CH (\<lambda>j g. g(i * IN_CH + j := add32 L (g (i * IN_CH + j)) (mul32 L (grad L label s i) (images s j)))) g) (weight_grads s),
       bias_grads := for_upto n (\<lambda>i g. g(i := add32 L (g i) (grad L label s i))) (bias_grads s)\<rparr>" for n
    unfolding inner by (induction n) (simp_all add: for_upto_Suc Let_def grad_def del: fun_upd_apply)
  then have "GradientUpdate_backward L label s =
     s\<lparr>weight_grads := for_upto NUM_CLASSES (\<lambda>i g. for_upto IN_CH (\<lambda>j g. g(i * IN_CH + j := add32 L (g (i * IN_CH + j)) (mul32 L (grad L label s i) (images s j)))) g) (weight_grads s),
       bias_grads := for_upto NUM_CLASSES (\<lambda>i g. g(i := add32 L (g i) (grad L label s i))) (bias_grads s)\<rparr>"
    unfolding GradientUpdate_backward_def by simp
  then show ?thesis
    unfolding for_upto_grid [where f = "\<lambda>i j g. add32 L g (mul32 L (grad L label s i) (images s j))"]
      for_upto_map [where f = "\<lambda>i g. add32 L g (grad L label s i)"] .
qed

lemma TrainingStep_spec:
  "TrainingStep_baseline L lr s = s\<lparr>
     biases := (\<lambda>i. if i < NUM_CLASSES then sub32 L (biases s i) (div32 L (mul32 L lr (bias_grads s i)) f32_256) else biases s i),
     weights := (\<lambda>q. if q < NUM_CLASSES * IN_CH then sub32 L (weights s q) (div32 L (mul32 L lr (weight_grads s q)) f32_256) else weights s q)\<rparr>"
proof -
  have inner: "for_upto n (\<lambda>j s. s\<lparr>weights := (weights s)(i * IN_CH + j :=
            sub32 L (weights s (i * IN_CH + j)) (div32 L (mul32 L lr (weight_grads s (i * IN_CH + j))) f32_256))\<rparr>) s =
      s\<lparr>weights := for_upto n (\<lambda>j w. w(i * IN_CH + j := sub32 L (w (i * IN_CH + j)) (div32 L (mul32 L lr (weight_grads s (i * IN_CH + j))) f32_256))) (weights s)\<rparr>" for n i s
    by (induction n) (simp_all add: for_upto_Suc del: fun_upd_apply)
  have "for_upto n (\<lambda>i s.
       let s = s\<lparr>biases := (biases s)(i := sub32 L (biases s i) (div32 L (mul32 L lr (bias_grads s i)) f32_256))\<rparr>
       in for_upto IN_CH (\<lambda>j s. s\<lparr>weights := (weights s)(i * IN_CH + j :=
            sub32 L (weights s (i * IN_CH + j)) (div32 L (mul32 L lr (weight_grads s (i * IN_CH + j))) f32_256))\<rparr>) s) s =
     s\<lparr>biases := for_upto n (\<lambda>i b. b(i := sub32 L (b i) (div32 L (mul32 L lr (bias_grads s i)) f32_256))) (biases s),
       weights := for_upto n (\<lambda>i w. for_upto IN_CH (\<lambda>j w. w(i * IN_CH + j := sub32 L (w (i * IN_CH + j)) (div32 L (mul32 L lr (weight_grads s (i * IN_CH + j))) f32_256))) w) (weights s)\<rparr>" for n
    unfolding inner by (induction n) (simp_all add: for_upto_Suc Let_def del: fun_upd_apply)
  then have "TrainingStep_baseline L lr s = s\<lparr>biases := for_upto NUM_CLASSES (\<lambda>i b. b(i := sub32 L (b i) (div32 L (mul32 L lr (bias_grads s i)) f32_256))) (biases s),
       weights := for_upto NUM_CLASSES (\<lambda>i w. for_upto IN_CH (\<lambda>j w. w(i * IN_CH + j := sub32 L (w (i * IN_CH + j)) (div32 L (mul32 L lr (weight_grads s (i * IN_CH + j))) f32_256))) w) (weights s)\<rparr>"
    unfolding TrainingStep_baseline_def by simp
  then show ?thesis
    unfolding for_upto_grid [where f = "\<lambda>i j w. sub32 L w (div32 L (mul32 L lr (weight_grads s (i * IN_CH + j))) f32_256)"]
      for_upto_map [where f = "\<lambda>i b. sub32 L b (div32 L (mul32 L lr (bias_grads s i)) f32_256)"] div_mult_mod_eq .
qed

section \<open>The training program\<close>

text \<open>
  What a core of the cluster does, as a sequence of calls. A call stands for the code between two barriers that changes the shared
  arrays; variables of a single core, such as \<open>batch_loss\<close> or \<open>predict\<close>, and the output for \<open>INFO\<close>, are left out.
  The transfers are waited for before a barrier, but for that of the weights, which the wait for the first image covers.
\<close>

datatype nn_call = hw_barrier | copy_biases | copy_weights | zero_loss | zero_grads | load_image nat | load_target nat |
  forward | backward | training_step | inter_cluster_barrier

record network_fp32_t =
  net_W :: "nat \<Rightarrow> f32"
  net_b :: "nat \<Rightarrow> f32"
  learning_rate :: f32
  images_dram :: "nat \<Rightarrow> f32"
  targets_dram :: "nat \<Rightarrow> u32"

fun nn_effect :: "fp32_ops \<Rightarrow> network_fp32_t \<Rightarrow> nn_call \<Rightarrow> nn_state \<Rightarrow> nn_state" where
  "nn_effect L n copy_biases s = s\<lparr>biases := (\<lambda>i. if i < NUM_CLASSES then net_b n i else biases s i)\<rparr>"
| "nn_effect L n copy_weights s = s\<lparr>weights := (\<lambda>q. if q < NUM_CLASSES * IN_CH then net_W n q else weights s q)\<rparr>"
| "nn_effect L n zero_loss s = s\<lparr>nn_loss := f32_0\<rparr>"
| "nn_effect L n zero_grads s = for_upto NUM_CLASSES (\<lambda>i s.
     let s = s\<lparr>bias_grads := (bias_grads s)(i := f32_0)\<rparr>
     in for_upto IN_CH (\<lambda>j s. s\<lparr>weight_grads := (weight_grads s)(i * IN_CH + j := f32_0)\<rparr>) s) s"
| "nn_effect L n (load_image k) s = s\<lparr>images := (\<lambda>j. if j < IN_CH then images_dram n (k + j) else images s j)\<rparr>"
| "nn_effect L n (load_target k) s = s\<lparr>target := targets_dram n k\<rparr>"
| "nn_effect L n forward s = GradientUpdate_forward L (target s) s"
| "nn_effect L n backward s = GradientUpdate_backward L (target s) s"
| "nn_effect L n training_step s = TrainingStep_baseline L (learning_rate n) s"
| "nn_effect L n _ s = s"

definition NUM_EPOCHS :: nat where "NUM_EPOCHS = 1"
definition BATCH_SIZE :: nat where "BATCH_SIZE = 1"
definition DATASET_SIZE :: nat where "DATASET_SIZE = 2"

text \<open>\<open>guard\<close> is the second half of the condition of both training branches; \<open>compute_num\<close> is what it is compared with.\<close>

definition training_guard :: "snrt_defs \<Rightarrow> bool" where
  "training_guard d = (let compute_num = snrt_cluster_compute_core_num d in snrt_cluster_compute_core_num d < compute_num)"

definition image_calls :: "bool \<Rightarrow> bool \<Rightarrow> nat \<Rightarrow> nat \<Rightarrow> nn_call list" where
  "image_calls compute guard batch img =
     (if \<not> compute then [load_image (img * IN_CH + batch * BATCH_SIZE * IN_CH), load_target (img + batch * BATCH_SIZE)] else []) @
     [hw_barrier] @
     (if compute \<and> guard then [forward, hw_barrier, backward, hw_barrier, hw_barrier, hw_barrier]
      else if \<not> compute then [hw_barrier, hw_barrier, hw_barrier, hw_barrier] else [])"

definition batch_calls :: "bool \<Rightarrow> bool \<Rightarrow> nat \<Rightarrow> nn_call list" where
  "batch_calls compute guard batch =
     (if compute then [zero_grads, hw_barrier] else [hw_barrier]) @
     concat (map (image_calls compute guard batch) [0..<BATCH_SIZE]) @
     [hw_barrier] @
     (if compute \<and> guard then [training_step, hw_barrier] else if \<not> compute then [hw_barrier] else []) @
     [hw_barrier]"

definition nnlinear_backend_baseline :: "bool \<Rightarrow> bool \<Rightarrow> nn_call list" where
  "nnlinear_backend_baseline compute guard =
     [hw_barrier] @
     (if \<not> compute then [copy_biases, copy_weights] else []) @
     [hw_barrier, zero_loss] @
     concat (map (\<lambda>_. concat (map (batch_calls compute guard) [0..<DATASET_SIZE div BATCH_SIZE])) [0..<NUM_EPOCHS]) @
     [hw_barrier] @ (if \<not> compute then [inter_cluster_barrier] else []) @ [hw_barrier]"

text \<open>
  The cores of a cluster run their calls in any order; at the hardware barrier a core stays until all of them are there. What the
  cores have still to do, and the arrays.
\<close>

type_synonym nn_config = "(u32 \<Rightarrow> nn_call list) \<times> nn_state"

inductive nn_step :: "fp32_ops \<Rightarrow> network_fp32_t \<Rightarrow> u32 set \<Rightarrow> nn_config \<Rightarrow> nn_config \<Rightarrow> bool" for L n cores where
  call: "h \<in> cores \<Longrightarrow> todo h = c # cs \<Longrightarrow> c \<noteq> hw_barrier \<Longrightarrow> nn_step L n cores (todo, s) (todo(h := cs), nn_effect L n c s)"
| barrier: "(\<And>h. h \<in> cores \<Longrightarrow> \<exists>cs. todo h = hw_barrier # cs) \<Longrightarrow>
     nn_step L n cores (todo, s) (\<lambda>h. if h \<in> cores then tl (todo h) else todo h, s)"

text \<open>Every core starts the function; \<open>after\<close> is what it does when it has returned.\<close>

definition nn_start :: "snrt_defs \<Rightarrow> u32 set \<Rightarrow> nn_call list \<Rightarrow> nn_state \<Rightarrow> nn_config \<Rightarrow> bool" where
  "nn_start d cores after s0 c \<longleftrightarrow>
     c = (\<lambda>h. if h \<in> cores then nnlinear_backend_baseline (snrt_is_compute_core d h) (training_guard d) @ after else [], s0)"

section \<open>The barriers do not match\<close>

definition barriers :: "nn_call list \<Rightarrow> nat" where
  "barriers cs = length (filter (\<lambda>c. c = hw_barrier) cs)"

lemma barriers_simps [simp]:
  "barriers [] = 0" "barriers (c # cs) = (if c = hw_barrier then Suc (barriers cs) else barriers cs)" "barriers (cs @ ds) = barriers cs + barriers ds"
  by (simp_all add: barriers_def)

lemma nn_sizes: "[0..<DATASET_SIZE div BATCH_SIZE] = [0, 1]" "[0..<NUM_EPOCHS] = [0]" "[0..<BATCH_SIZE] = [0]"
  by (simp_all add: DATASET_SIZE_def BATCH_SIZE_def NUM_EPOCHS_def upt_rec)

lemma training_guard_false: "\<not> training_guard d"
  by (simp add: training_guard_def Let_def)

text \<open>With a condition that holds, the calls of the two branches would match.\<close>

lemma barriers_with_guard: "barriers (nnlinear_backend_baseline True True) = barriers (nnlinear_backend_baseline False True)"
  by (simp add: nnlinear_backend_baseline_def batch_calls_def image_calls_def nn_sizes)

lemma barriers_without_guard: "barriers (nnlinear_backend_baseline False g) = barriers (nnlinear_backend_baseline True False) + 10"
  by (simp add: nnlinear_backend_baseline_def batch_calls_def image_calls_def nn_sizes)

definition trains :: "nn_call list \<Rightarrow> bool" where
  "trains cs \<longleftrightarrow> forward \<in> set cs \<or> backward \<in> set cs \<or> training_step \<in> set cs"

lemma no_training: "\<not> trains (nnlinear_backend_baseline compute False)"
  by (simp add: trains_def nnlinear_backend_baseline_def batch_calls_def image_calls_def nn_sizes)

lemma effect_keeps_weights:
  assumes "\<not> trains [c]"
  shows "weights (nn_effect L n c s) q \<in> {weights s q, net_W n q}"
proof (cases c)
  case zero_grads
  have row: "weights (for_upto k (\<lambda>j s. s\<lparr>weight_grads := (weight_grads s)(i * IN_CH + j := f32_0)\<rparr>) s) = weights s" for i k s
    by (induction k) (simp_all add: for_upto_Suc)
  have "weights (for_upto k (\<lambda>i s. let s = s\<lparr>bias_grads := (bias_grads s)(i := f32_0)\<rparr>
     in for_upto IN_CH (\<lambda>j s. s\<lparr>weight_grads := (weight_grads s)(i * IN_CH + j := f32_0)\<rparr>) s) s) = weights s" for k
    by (induction k) (simp_all add: for_upto_Suc Let_def row del: fun_upd_apply)
  then show ?thesis by (simp add: zero_grads)
qed (use assms in \<open>auto simp: trains_def\<close>)

definition nn_inv :: "snrt_defs \<Rightarrow> network_fp32_t \<Rightarrow> u32 set \<Rightarrow> nn_call list \<Rightarrow> nn_state \<Rightarrow> nn_config \<Rightarrow> bool" where
  "nn_inv d n cores after s0 = (\<lambda>(todo, s).
     (\<forall>q. weights s q \<in> {weights s0 q, net_W n q}) \<and> (\<forall>h\<in>cores. \<not> trains (todo h)) \<and>
     (\<exists>b. \<forall>h\<in>cores. barriers (todo h) = (if snrt_is_compute_core d h then b else b + 10)))"

lemma nn_inv_start:
  assumes "nn_start d cores after s0 c" "\<not> trains after"
  shows "nn_inv d n cores after s0 c"
proof -
  have "training_guard d = False" by (simp add: training_guard_false)
  moreover have "\<not> trains (nnlinear_backend_baseline g False @ after)" for g using no_training [of g] assms(2) by (auto simp: trains_def)
  ultimately show ?thesis using assms(1) barriers_without_guard by (auto simp: nn_start_def nn_inv_def)
qed

lemma nn_inv_step:
  assumes inv: "nn_inv d n cores after s0 c" and step: "nn_step L n cores c c'" and both: "\<exists>h\<in>cores. snrt_is_compute_core d h"
  shows "nn_inv d n cores after s0 c'"
  using step
proof cases
  case (call h todo c1 cs s)
  have "\<not> trains [c1]" "\<forall>q. weights s q \<in> {weights s0 q, net_W n q}" using inv call by (auto simp: nn_inv_def trains_def)
  then have w: "weights (nn_effect L n c1 s) q \<in> {weights s0 q, net_W n q}" for q
    using effect_keeps_weights [of c1 L n s q] by (metis insertE insertI1 insertI2 singletonD)
  obtain b where "\<forall>h\<in>cores. barriers (todo h) = (if snrt_is_compute_core d h then b else b + 10)" using inv call by (auto simp: nn_inv_def)
  then have "\<forall>h'\<in>cores. barriers ((todo(h := cs)) h') = (if snrt_is_compute_core d h' then b else b + 10)" using call by auto
  moreover have "\<forall>h'\<in>cores. \<not> trains ((todo(h := cs)) h')" using inv call by (auto simp: nn_inv_def trains_def)
  ultimately show ?thesis using w call by (auto simp: nn_inv_def simp del: fun_upd_apply)
next
  case (barrier todo s)
  obtain b where b: "\<forall>h\<in>cores. barriers (todo h) = (if snrt_is_compute_core d h then b else b + 10)" using inv barrier by (auto simp: nn_inv_def)
  have tl: "barriers (todo h) = Suc (barriers (tl (todo h)))" "set (tl (todo h)) \<subseteq> set (todo h)" if "h \<in> cores" for h
    using barrier(3) [OF that] by auto
  obtain h where h: "h \<in> cores" "snrt_is_compute_core d h" using both by blast
  then have "0 < b" using b tl(1) by fastforce
  then have "\<forall>h\<in>cores. barriers (tl (todo h)) = (if snrt_is_compute_core d h then b - 1 else b - 1 + 10)" using b tl(1) by fastforce
  moreover have "\<not> trains (tl (todo h))" if "h \<in> cores" for h using inv barrier tl(2) [OF that] that by (auto simp: nn_inv_def trains_def)
  ultimately show ?thesis using inv barrier unfolding nn_inv_def by auto
qed

interpretation mnist: step_invariant "\<lambda>c. nn_start d cores after s0 c \<and> \<not> trains after \<and> (\<exists>h\<in>cores. snrt_is_compute_core d h)" "nn_step L n cores"
    "\<lambda>c. nn_inv d n cores after s0 c \<and> (\<exists>h\<in>cores. snrt_is_compute_core d h)" for d cores after s0 L n
  by unfold_locales (use nn_inv_start nn_inv_step in blast)+

lemma reachable_mono: "reachable init step s \<Longrightarrow> (\<And>s. init s \<Longrightarrow> init' s) \<Longrightarrow> reachable init' step s"
  by (induction rule: reachable.induct) (auto intro: reachable.intros)

lemma barriers_suffix: "suffix xs ys \<Longrightarrow> barriers xs \<le> barriers ys"
  by (auto simp: suffix_def)

section \<open>One batch\<close>

lemma zero_grads_spec:
  "nn_effect L n zero_grads s = s\<lparr>bias_grads := (\<lambda>i. if i < NUM_CLASSES then f32_0 else bias_grads s i),
     weight_grads := (\<lambda>q. if q < NUM_CLASSES * IN_CH then f32_0 else weight_grads s q)\<rparr>"
proof -
  have row: "for_upto k (\<lambda>j s. s\<lparr>weight_grads := (weight_grads s)(i * IN_CH + j := f32_0)\<rparr>) s =
      s\<lparr>weight_grads := for_upto k (\<lambda>j w. w(i * IN_CH + j := f32_0)) (weight_grads s)\<rparr>" for i k s
    by (induction k) (simp_all add: for_upto_Suc del: fun_upd_apply)
  have "for_upto k (\<lambda>i s. let s = s\<lparr>bias_grads := (bias_grads s)(i := f32_0)\<rparr>
     in for_upto IN_CH (\<lambda>j s. s\<lparr>weight_grads := (weight_grads s)(i * IN_CH + j := f32_0)\<rparr>) s) s =
     s\<lparr>bias_grads := for_upto k (\<lambda>i b. b(i := f32_0)) (bias_grads s),
       weight_grads := for_upto k (\<lambda>i w. for_upto IN_CH (\<lambda>j w. w(i * IN_CH + j := f32_0)) w) (weight_grads s)\<rparr>" for k
    unfolding row by (induction k) (simp_all add: for_upto_Suc Let_def del: fun_upd_apply)
  from this [of NUM_CLASSES] show ?thesis
    unfolding nn_effect.simps for_upto_grid [where f = "\<lambda>_ _ _. f32_0"] for_upto_map [where f = "\<lambda>_ _. f32_0"] .
qed

declare nn_effect.simps(4) [simp del]

text \<open>\<open>GradientUpdate_baseline\<close>'s loss, gradients and probabilities, for the state before the batch.\<close>

definition nn_prob :: "fp32_ops \<Rightarrow> nn_state \<Rightarrow> nat \<Rightarrow> f32" where
  "nn_prob L s i = softmax_spec L NUM_CLASSES (logit L s) i"

definition nn_grad :: "fp32_ops \<Rightarrow> nn_state \<Rightarrow> nat \<Rightarrow> f32" where
  "nn_grad L s i = (if of_nat i = target s then sub32 L (nn_prob L s i) f32_1 else nn_prob L s i)"

lemma forward_rest:
  "weights (GradientUpdate_forward L l s) = weights s" "biases (GradientUpdate_forward L l s) = biases s"
  "weight_grads (GradientUpdate_forward L l s) = weight_grads s" "bias_grads (GradientUpdate_forward L l s) = bias_grads s"
  "images (GradientUpdate_forward L l s) = images s" "target (GradientUpdate_forward L l s) = target s"
  "i < NUM_CLASSES \<Longrightarrow> activations (GradientUpdate_forward L l s) i = nn_prob L s i"
proof -
  have *: "GradientUpdate_forward L l s = s\<lparr>activations := activations (FeedForward_baseline L s),
      nn_loss := to_f32 L (sub64 L (to_f64 L f32_0) (log64 L (to_f64 L (activations (FeedForward_baseline L s) (unat l)))))\<rparr>"
    unfolding GradientUpdate_forward_def Let_def by (subst FeedForward_spec(2)) simp
  show "weights (GradientUpdate_forward L l s) = weights s" "biases (GradientUpdate_forward L l s) = biases s"
    "weight_grads (GradientUpdate_forward L l s) = weight_grads s" "bias_grads (GradientUpdate_forward L l s) = bias_grads s"
    "images (GradientUpdate_forward L l s) = images s" "target (GradientUpdate_forward L l s) = target s"
    "i < NUM_CLASSES \<Longrightarrow> activations (GradientUpdate_forward L l s) i = nn_prob L s i"
    unfolding * by (simp_all add: FeedForward_spec(1) nn_prob_def)
qed

lemma batch_calls_effect:
  "fold (nn_effect L n) (batch_calls True True batch) s =
     TrainingStep_baseline L (learning_rate n) (GradientUpdate_backward L (target s) (GradientUpdate_forward L (target s) (nn_effect L n zero_grads s)))"
proof -
  have t: "target (nn_effect L n zero_grads s) = target s" "target (GradientUpdate_forward L l s) = target s" for l s
    by (simp_all add: zero_grads_spec forward_rest)
  then show ?thesis by (simp add: batch_calls_def image_calls_def nn_sizes t)
qed


section \<open>Properties\<close>


text \<open>
  C19. As the program stands the condition of the training branches, \<open>snrt_cluster_compute_core_num() < compute_num\<close>, never holds. From
  the start, in every interleaving, no core trains: a weight keeps its value or has the one that the DM core loads. And the
  DM core goes to ten barriers that the compute cores skip, so that it never returns, unless the compute cores run
  ten barriers more after the function.
\<close>

theorem dm_core_never_returns:
  assumes "reachable (nn_start d cores after s0) (nn_step L n cores) (todo, s)" and "\<not> trains after" and "barriers after < 10"
    and "h \<in> cores" "snrt_is_compute_core d h" and "dm \<in> cores" "\<not> snrt_is_compute_core d dm"
  shows "\<not> suffix (todo dm) after \<and> weights s q \<in> {weights s0 q, net_W n q}"
proof -
  have "reachable (\<lambda>c. nn_start d cores after s0 c \<and> \<not> trains after \<and> (\<exists>h\<in>cores. snrt_is_compute_core d h)) (nn_step L n cores) (todo, s)"
    using assms(1) by (rule reachable_mono) (use assms in auto)
  from mnist.reachable_inv [OF this] have inv: "nn_inv d n cores after s0 (todo, s)" by blast
  have "10 \<le> barriers (todo dm)" using inv assms(6,7) by (auto simp: nn_inv_def)
  then have "\<not> suffix (todo dm) after" using barriers_suffix [of "todo dm" after] assms(3) by linarith
  then show ?thesis using inv by (auto simp: nn_inv_def)
qed


text \<open>A concrete FPU on integers: every exponential is 1, and so is every probability.\<close>

definition example_fp32 :: fp32_ops where
  "example_fp32 = \<lparr>add32 = (+), sub32 = (-), mul32 = (*), div32 = (\<lambda>a _. a), lt32 = (\<lambda>_ _. False), to_f64 = ucast, to_f32 = ucast,
     exp64 = (\<lambda>_. ucast f32_1), log64 = id, sub64 = (-)\<rparr>"

definition example_net :: network_fp32_t where
  "example_net = \<lparr>net_W = \<lambda>_. 7, net_b = \<lambda>_. 8, learning_rate = 2, images_dram = of_nat, targets_dram = \<lambda>_. 3\<rparr>"

definition example_nn :: nn_state where
  "example_nn = \<lparr>weights = \<lambda>_. 7, weight_grads = \<lambda>_. 1, biases = \<lambda>_. 8, activations = \<lambda>_. 0, bias_grads = \<lambda>_. 1, images = of_nat,
     nn_loss = 0, target = 3\<rparr>"

lemma example_fp32_simps:
  "add32 example_fp32 = (+)" "sub32 example_fp32 = (-)" "mul32 example_fp32 = (*)" "div32 example_fp32 = (\<lambda>a _. a)"
  "to_f64 example_fp32 = ucast" "to_f32 example_fp32 = ucast" "exp64 example_fp32 = (\<lambda>_. ucast f32_1)" "log64 example_fp32 = id" "sub64 example_fp32 = (-)"
  "learning_rate example_net = 2" "weights example_nn q = 7" "biases example_nn q = 8" "images example_nn q = of_nat q" "target example_nn = 3"
  by (simp_all add: example_fp32_def example_net_def example_nn_def)

lemma example_prob: "nn_prob example_fp32 example_nn i = f32_1"
  by (simp add: nn_prob_def softmax_spec_def example_fp32_simps Let_def f32_1_def)


theorem dm_core_never_returns_witness:
  "\<exists>todo s. reachable (nn_start example_defs {3, 4, 5} [hw_barrier] example_nn) (nn_step example_fp32 example_net {3, 4, 5}) (todo, s) \<and>
    todo 3 = tl (nnlinear_backend_baseline True False @ [hw_barrier]) \<and> \<not> suffix (todo 5) [hw_barrier] \<and> weights s 0 = 7"
proof -
  let ?todo = "\<lambda>h :: u32. if h \<in> {3, 4, 5} then nnlinear_backend_baseline (snrt_is_compute_core example_defs h) (training_guard example_defs) @ [hw_barrier] else []"
  let ?todo' = "\<lambda>h. if h \<in> {3, 4, 5} then tl (?todo h) else ?todo h"
  have core: "snrt_is_compute_core example_defs 3" "\<not> snrt_is_compute_core example_defs 5" by (simp_all add: snrt_is_compute_core_def example_defs_def team_defs)
  have "nn_start example_defs {3, 4, 5} [hw_barrier] example_nn (?todo, example_nn)" by (simp add: nn_start_def)
  then have "reachable (nn_start example_defs {3, 4, 5} [hw_barrier] example_nn) (nn_step example_fp32 example_net {3, 4, 5}) (?todo, example_nn)"
    by (rule reachable.start)
  moreover have "nn_step example_fp32 example_net {3, 4, 5} (?todo, example_nn) (?todo', example_nn)"
    by (rule nn_step.barrier) (auto simp: nnlinear_backend_baseline_def)
  ultimately have r: "reachable (nn_start example_defs {3, 4, 5} [hw_barrier] example_nn) (nn_step example_fp32 example_net {3, 4, 5}) (?todo', example_nn)"
    by (rule reachable.move)
  have "\<not> suffix (?todo' 5) [hw_barrier] \<and> weights example_nn 0 \<in> {weights example_nn 0, net_W example_net 0}"
    by (rule dm_core_never_returns [OF r, of 3 5]) (simp_all add: core trains_def)
  moreover have "?todo' 3 = tl (nnlinear_backend_baseline True False @ [hw_barrier])" using training_guard_false by (simp add: core)
  moreover have "weights example_nn 0 = 7" by (simp add: example_nn_def)
  ultimately show ?thesis using r by blast
qed

end
