(* ===== verification/Layers.thy ===== *)
theory Layers
  imports Kernels
begin

text \<open>
  What the layers of \<open>sw/dnn\<close> have in common: tiles of channels that the DMA engine moves between an image in L3 and a buffer without gaps in L1,
  and the double buffering of \<open>maxpool_layer\<close> and \<open>batchnorm_layer\<close>, as a locale whose laws say what each of the three operations of a
  tile does and leaves alone.
\<close>

section \<open>Rows of doubles by DMA\<close>

text \<open>The bytes of \<open>k\<close> rows of \<open>n\<close> doubles each, \<open>s\<close> doubles apart.\<close>

definition rows :: "ptr \<Rightarrow> nat \<Rightarrow> nat \<Rightarrow> nat \<Rightarrow> u64 set" where
  "rows p n s k = (\<Union>r<k. \<Union>c<n. cell p (r * s + c))"

text \<open>From the first to the last element of the rows.\<close>

definition extent :: "nat \<Rightarrow> nat \<Rightarrow> nat \<Rightarrow> nat" where
  "extent n s k = (k - 1) * s + n"

lemma extent_index: "r < k \<Longrightarrow> c < n \<Longrightarrow> r * s + c < extent n s k"
  unfolding extent_def using mult_right_mono [of r "k - 1" s] by linarith

lemma extent_1: "extent n s (Suc 0) = n"
  by (simp add: extent_def)

lemma extent_packed: "0 < k \<Longrightarrow> extent n n k = k * n"
  by (cases k) (simp_all add: extent_def)

lemma rows_span: "holds p (extent n s k) \<Longrightarrow> rows p n s k \<subseteq> span p (8 * extent n s k)"
  unfolding rows_def using cell_span extent_index by blast

definition rows_ok :: "nat \<Rightarrow> nat \<Rightarrow> nat \<Rightarrow> bool" where
  "rows_ok n s k \<longleftrightarrow> 0 < n \<and> n \<le> s \<and> 8 * s < 2 ^ 31 \<and> 0 < k \<and> k < 2 ^ 32"

context dma_backend
begin

lemma rows_request:
  fixes p q :: ptr and st :: dma_state
  assumes p: "rows_ok n ds k" and q: "rows_ok n ss k"
  defines "st' \<equiv> snd (snrt_dma_start_2d p q (of_nat (8 * n)) (of_nat (8 * ds)) (of_nat (8 * ss)) (of_nat k) st)"
  shows "dma_settled exec st' = exec (req_2d (next_id st) (ucast p) (ucast q) (of_nat (8 * n)) (of_nat (8 * ds)) (of_nat (8 * ss)) (of_nat k)) (dma_settled exec st)"
    and "length (pending st') = Suc (length (pending st))"
proof -
  have "unat (of_nat (8 * n) :: u32) = 8 * n" using p by (intro unat_of_nat_small) (simp add: rows_ok_def)
  then have "(of_nat (8 * n) :: u32) > 0" using p by (simp only: word_less_nat_alt) (simp add: rows_ok_def)
  then show "dma_settled exec st' = exec (req_2d (next_id st) (ucast p) (ucast q) (of_nat (8 * n)) (of_nat (8 * ds)) (of_nat (8 * ss)) (of_nat k)) (dma_settled exec st)"
    "length (pending st') = Suc (length (pending st))"
    by (simp_all add: st'_def dma_settled_def snrt_dma_start_2d_def start_2d_wideptr_effect del: of_nat_mult)
qed

lemma rows_sizes:
  assumes "rows_ok n s k"
  shows "unat (of_nat (8 * n) :: u32) = 8 * n" "unat (of_nat (8 * s) :: u32) = 8 * s" "unat (of_nat k :: u32) = k"
  by (rule unat_of_nat_small, use assms in \<open>simp add: rows_ok_def\<close>)+

lemma rows_elt:
  fixes p q :: ptr and st :: dma_state
  assumes p: "rows_ok n ds k" "holds p (extent n ds k)" and q: "rows_ok n ss k" "holds q (extent n ss k)"
    and apart: "beside p (extent n ds k) q (extent n ss k)" and r: "r < k" "c < n"
  defines "st' \<equiv> snd (snrt_dma_start_2d p q (of_nat (8 * n)) (of_nat (8 * ds)) (of_nat (8 * ss)) (of_nat k) st)"
  shows "elt (dma_settled exec st') p (r * ds + c) = elt (dma_settled exec st) q (r * ss + c)"
proof (rule elt_cong [OF p(2) extent_index [OF r] q(2) extent_index [OF r]])
  fix b :: nat assume b: "b < 8"
  note sz = rows_sizes [OF p(1)] rows_sizes [OF q(1)]
  have byte: "r * (8 * s) + i < 8 * extent n s k" if "r < k" "i < 8 * n" for r i s
    using extent_index [of r k "i div 8" n s] that by (simp add: div_less_iff_less_mult)
  have bound: "k * (8 * s) < 2 ^ 63" if "rows_ok n s k" for s
    using mult_strict_mono [of k "2 ^ 32" "8 * s" "2 ^ 31"] that by (simp add: rows_ok_def)
  have "exec (req_2d (next_id st) (ucast p) (ucast q) (of_nat (8 * n)) (of_nat (8 * ds)) (of_nat (8 * ss)) (of_nat k)) (dma_settled exec st)
      (ucast p + of_nat (r * (8 * ds) + (8 * c + b))) = dma_settled exec st (ucast q + of_nat (r * (8 * ss) + (8 * c + b)))"
  proof (rule exec_2d [where n = "next_id st" and sz = "of_nat (8 * n)" and ds = "of_nat (8 * ds)" and ss = "of_nat (8 * ss)" and reps = "of_nat k", unfolded sz])
    fix r i r' i' assume *: "r < k" "i < 8 * n" "r' < k" "i' < 8 * n"
    show "unat p + (r * (8 * ds) + i) \<noteq> unat q + (r' * (8 * ss) + i')"
      using byte [OF *(1,2), of ds] byte [OF *(3,4), of ss] apart unfolding beside_def by linarith
  qed (use p(1) q(1) bound [OF p(1)] bound [OF q(1)] r b in \<open>simp_all add: rows_ok_def\<close>)
  then show "dma_settled exec st' (ucast p + of_nat ((r * ds + c) * 8 + b)) = dma_settled exec st (ucast q + of_nat ((r * ss + c) * 8 + b))"
    unfolding st'_def rows_request [OF p(1) q(1)] by (simp add: algebra_simps)
qed

lemma rows_frame:
  assumes p: "rows_ok n ds k" "holds p (extent n ds k)" and q: "rows_ok n ss k" and y: "y \<notin> rows p n ds k"
  shows "dma_settled exec (snd (snrt_dma_start_2d p q (of_nat (8 * n)) (of_nat (8 * ds)) (of_nat (8 * ss)) (of_nat k) st)) y = dma_settled exec st y"
  unfolding rows_request [OF p(1) q]
proof (rule exec_outside, unfold dma_req_2d_simps rows_sizes [OF p(1)])
  fix r i assume r: "r < k" and i: "i < 8 * n"
  let ?q = "req_2d (next_id st) (ucast p) (ucast q) (of_nat (8 * n)) (of_nat (8 * ds)) (of_nat (8 * ss)) (of_nat k)"
  have c: "i div 8 < n" "i mod 8 < 8" using i by (simp_all add: div_less_iff_less_mult)
  have "dma_dst_addr ?q r i = ucast p + of_nat (r * (8 * ds) + i)"
    using dma_dst_addr_2d [of ?q "next_id st" p "ucast q" "of_nat (8 * n)" "of_nat (8 * ds)" "of_nat (8 * ss)" "of_nat k" r i] p(1)
    unfolding rows_sizes [OF p(1)] by (simp add: rows_ok_def)
  also have "r * (8 * ds) + i = (r * ds + i div 8) * 8 + i mod 8" by (simp add: algebra_simps)
  also have "ucast p + of_nat ((r * ds + i div 8) * 8 + i mod 8) = (ucast (dbl p (of_nat (r * ds + i div 8)) + of_nat (i mod 8)) :: u64)"
    by (rule elt_byte [symmetric, OF p(2) extent_index [OF r c(1)] c(2)])
  finally have "dma_dst_addr ?q r i \<in> cell p (r * ds + i div 8)" using c(2) by (auto simp: cell_def)
  then show "dma_dst_addr ?q r i \<noteq> y" using y r c(1) by (auto simp: rows_def)
qed

end

section \<open>Parts of arrays\<close>

lemma part_array:
  assumes "holds p N" "a + n \<le> N" "0 < n"
  shows "unat (dbl p (of_nat a)) = unat p + 8 * a" "holds (dbl p (of_nat a)) n"
proof -
  have b: "unat p + 8 * a < 2 ^ 32" using assms by (simp add: holds_def)
  then have "unat (of_nat (8 * a) :: u32) = 8 * a" by (intro unat_of_nat_small) simp
  then have "unat (p + of_nat (8 * a)) = unat p + 8 * a" using b by (subst unat_add_nowrap) simp_all
  then show *: "unat (dbl p (of_nat a)) = unat p + 8 * a" by (simp add: dbl_def)
  show "holds (dbl p (of_nat a)) n" unfolding holds_def * using assms by (simp add: holds_def)
qed

lemma dbl_dbl: "dbl (dbl p a) b = dbl p (a + b)"
  by (simp add: dbl_def algebra_simps)

lemma elt_part: "elt m (dbl p (of_nat a)) i = elt m p (a + i)"
  by (simp add: elt_def dbl_dbl)

lemma cell_part: "cell (dbl p (of_nat a)) i = cell p (a + i)"
  by (simp add: cell_def dbl_dbl)

lemma part_span: "holds p N \<Longrightarrow> a + n \<le> N \<Longrightarrow> 0 < n \<Longrightarrow> span (dbl p (of_nat a)) (8 * n) \<subseteq> span p (8 * N)"
  by (rule span_sub) (simp_all add: part_array)

lemma span_cells:
  assumes p: "holds p n" and y: "y \<in> span p (8 * n)"
  obtains i where "i < n" "y \<in> cell p i"
proof -
  define j where "j = unat y - unat p"
  have j: "j < 8 * n" "unat y = unat p + j" using y by (auto simp: span_def j_def)
  have "j < 2 ^ 63" using p j(1) by (simp add: holds_def)
  then have "y = ucast p + of_nat j" using j(2) by (intro word_unat_eq_iff [THEN iffD2]) (simp add: unat_offset_u64)
  also have "j = (j div 8) * 8 + j mod 8" by simp
  also have "ucast p + of_nat ((j div 8) * 8 + j mod 8) = (ucast (dbl p (of_nat (j div 8)) + of_nat (j mod 8)) :: u64)"
    by (rule elt_byte [symmetric, OF p]) (use j(1) in simp_all)
  finally have "y \<in> cell p (j div 8)" by (auto simp: cell_def)
  then show thesis using that [of "j div 8"] j(1) by simp
qed

lemma packed_rows: "holds p (r * n) \<Longrightarrow> span p (8 * (r * n)) \<subseteq> rows p n n r"
proof
  fix y assume "holds p (r * n)" "y \<in> span p (8 * (r * n))"
  then obtain i where i: "i < r * n" "y \<in> cell p i" by (rule span_cells)
  then have "0 < n" "i div n < r" by (cases n; simp add: less_mult_imp_div_less)+
  moreover have "i = i div n * n + i mod n" by simp
  ultimately show "y \<in> rows p n n r" using i(2) unfolding rows_def by (metis UN_I lessThan_iff mod_less_divisor)
qed

lemma beside_parts:
  assumes "beside p n q k" "unat p \<le> unat p'" "unat p' + 8 * n' \<le> unat p + 8 * n" "unat q \<le> unat q'" "unat q' + 8 * k' \<le> unat q + 8 * k"
  shows "beside p' n' q' k'"
  using assms unfolding beside_def by linarith

text \<open>Parts of an array are beside each other, and beside what the whole array is beside.\<close>

lemma parts_beside:
  assumes "holds p N" "a + n \<le> N" "0 < n" "b + k \<le> N" "0 < k" "a + n \<le> b \<or> b + k \<le> a"
  shows "beside (dbl p (of_nat a)) n (dbl p (of_nat b)) k"
  using part_array(1) [OF assms(1-3)] part_array(1) [OF assms(1,4,5)] assms(6) by (auto simp: beside_def)

lemma part_beside:
  assumes "holds p N" "a + n \<le> N" "0 < n" "beside p N q k"
  shows "beside (dbl p (of_nat a)) n q k"
  by (rule beside_part [OF assms(4)]) (use part_array(1) [OF assms(1-3)] assms(2) in simp_all)

lemma elt_apart:
  assumes "holds p n" "i < n" "A \<inter> span p (8 * n) = {}" "\<And>y. y \<notin> A \<Longrightarrow> m' y = m y"
  shows "elt m' p i = elt m p i"
  by (rule elt_span_cong [OF assms(1,2)]) (use assms(3,4) in blast)

lemma half_of_double:
  fixes x :: u32 and n :: nat
  assumes "x = of_nat (2 * n)" "2 * n < 2 ^ 32" shows "x div 2 = of_nat n"
proof -
  have "unat x = 2 * n" unfolding assms(1) by (rule unat_of_nat_small) (use assms(2) in simp)
  then show ?thesis by (intro word_unat_eq_iff [THEN iffD2]) (use assms(2) in \<open>simp add: unat_div unat_of_nat_small\<close>)
qed

lemma dvd_room:
  assumes "T dvd ci" "T dvd CI" "ci < CI" shows "ci + T \<le> (CI :: nat)"
proof -
  obtain a b where ab: "ci = T * a" "CI = T * b" using assms by (auto elim!: dvdE)
  then have "a < b" using assms(3) by (metis mult_less_cancel1)
  then have "T * Suc a \<le> T * b" by (intro mult_left_mono) simp_all
  then show ?thesis by (simp add: ab)
qed

text \<open>The values of the variable of a loop that starts at \<open>a\<close> and advances by \<open>s\<close> while it is less than \<open>b\<close>.\<close>

definition loop_values :: "nat \<Rightarrow> nat \<Rightarrow> nat \<Rightarrow> nat list" where
  "loop_values a b s = filter (\<lambda>x. s dvd x - a) [a..<b]"

lemma set_loop_values: "x \<in> set (loop_values a b s) \<longleftrightarrow> a \<le> x \<and> x < b \<and> s dvd x - a"
  by (auto simp: loop_values_def)

lemma distinct_loop_values: "distinct (loop_values a b s)"
  by (simp add: loop_values_def)

lemma loop_values_multiples:
  fixes P n :: nat
  assumes "0 < P" shows "loop_values 0 (n * P) P = map (\<lambda>j. j * P) [0..<n]"
proof (induction n)
  case (Suc n)
  have "filter (\<lambda>x. P dvd x) [n * P..<n * P + P] = [n * P]"
  proof -
    have "[n * P..<n * P + P] = n * P # [Suc (n * P)..<n * P + P]" using assms by (simp add: upt_conv_Cons)
    moreover have "\<not> P dvd x" if "Suc (n * P) \<le> x" "x < n * P + P" for x
    proof
      assume "P dvd x"
      then obtain y where y: "x = P * y" ..
      then have "n * P < y * P" "y * P < Suc n * P" using that by (simp_all add: Suc_le_eq mult.commute [of P] del: mult_less_cancel2)
      then have "n < y" "y < Suc n" by (simp_all only: mult_less_cancel2)
      then show False by simp
    qed
    then have "filter (\<lambda>x. P dvd x) [Suc (n * P)..<n * P + P] = []" by (auto simp: filter_empty_conv)
    ultimately show ?thesis by simp
  qed
  moreover have "[0..<Suc n * P] = [0..<n * P] @ [n * P..<n * P + P]" by (metis add.commute mult_Suc upt_add_eq_append zero_le)
  ultimately show ?case using Suc by (simp add: loop_values_def)
qed (simp add: loop_values_def)

section \<open>Tiles of channels\<close>

text \<open>
  \<open>r\<close> pixels of an image with \<open>CI\<close> channels, of which a tile has the \<open>T\<close> channels from the one that the pointer points to: to a
  buffer without gaps, and back. If the tile has all channels the pixels lie one after the other.
\<close>

definition tile_in :: "nat \<Rightarrow> nat \<Rightarrow> nat \<Rightarrow> ptr \<Rightarrow> ptr \<Rightarrow> dma_state \<Rightarrow> dma_state" where
  "tile_in T CI r dst src st =
     (if T = CI then snd (snrt_dma_start_1d dst src (of_nat (8 * (r * T))) st)
      else snd (snrt_dma_start_2d dst src (of_nat (8 * T)) (of_nat (8 * T)) (of_nat (8 * CI)) (of_nat r) st))"

definition tile_out :: "nat \<Rightarrow> nat \<Rightarrow> nat \<Rightarrow> ptr \<Rightarrow> ptr \<Rightarrow> dma_state \<Rightarrow> dma_state" where
  "tile_out T CI r dst src st =
     (if T = CI then snd (snrt_dma_start_1d dst src (of_nat (8 * (r * T))) st)
      else snd (snrt_dma_start_2d dst src (of_nat (8 * T)) (of_nat (8 * CI)) (of_nat (8 * T)) (of_nat r) st))"

definition tile_fits :: "nat \<Rightarrow> nat \<Rightarrow> nat \<Rightarrow> ptr \<Rightarrow> ptr \<Rightarrow> bool" where
  "tile_fits T CI r buf arr \<longleftrightarrow> rows_ok T CI r \<and> 8 * (r * T) < 2 ^ 32 \<and> holds buf (r * T) \<and> holds arr (extent T CI r) \<and>
     beside buf (r * T) arr (extent T CI r)"

context dma_backend
begin

lemma tile_in_result:
  assumes ok: "tile_fits T CI r dst src"
  shows "i < r \<Longrightarrow> c < T \<Longrightarrow> elt (dma_settled exec (tile_in T CI r dst src st)) dst (i * T + c) = elt (dma_settled exec st) src (i * CI + c)"
    and "y \<notin> span dst (8 * (r * T)) \<Longrightarrow> dma_settled exec (tile_in T CI r dst src st) y = dma_settled exec st y"
    and "length (pending (tile_in T CI r dst src st)) \<le> Suc (length (pending st))"
proof -
  note b = ok [unfolded tile_fits_def]
  have r: "rows_ok T CI r" "rows_ok T T r" "0 < r" using b by (auto simp: rows_ok_def)
  show "elt (dma_settled exec (tile_in T CI r dst src st)) dst (i * T + c) = elt (dma_settled exec st) src (i * CI + c)" if "i < r" "c < T"
  proof (cases "T = CI")
    case True
    have e: "extent T CI r = r * T" using True extent_packed [OF r(3)] by simp
    have "i * T + c < r * T" using row_major_less [OF that] by (simp add: mult.commute)
    then show ?thesis
      using transfer_elt [of dst "r * T" src "i * T + c" st] b True
      unfolding e tile_in_def by (simp add: array_ok_def del: of_nat_mult)
  next
    case False
    have e: "extent T T r = r * T" by (rule extent_packed [OF r(3)])
    then show ?thesis using rows_elt [OF r(2) _ r(1), of dst src i c st] b that False by (simp add: tile_in_def del: of_nat_mult)
  qed
  show "dma_settled exec (tile_in T CI r dst src st) y = dma_settled exec st y" if "y \<notin> span dst (8 * (r * T))"
  proof (cases "T = CI")
    case True
    then show ?thesis using transfer_frame [of dst "r * T" y src st] b that by (simp add: tile_in_def array_ok_def del: of_nat_mult)
  next
    case False
    have e: "extent T T r = r * T" by (rule extent_packed [OF r(3)])
    have "y \<notin> rows dst T T r" using rows_span [of dst T T r] that b e by auto
    then show ?thesis using rows_frame [OF r(2) _ r(1), of dst y src st] b False e by (simp add: tile_in_def del: of_nat_mult)
  qed
  show "length (pending (tile_in T CI r dst src st)) \<le> Suc (length (pending st))"
    using start_1d_pending rows_request(2) [OF r(2,1), of dst src st] by (simp add: tile_in_def del: of_nat_mult)
qed

lemma tile_out_result:
  assumes ok: "tile_fits T CI r src dst"
  shows "i < r \<Longrightarrow> c < T \<Longrightarrow> elt (dma_settled exec (tile_out T CI r dst src st)) dst (i * CI + c) = elt (dma_settled exec st) src (i * T + c)"
    and "y \<notin> rows dst T CI r \<Longrightarrow> dma_settled exec (tile_out T CI r dst src st) y = dma_settled exec st y"
    and "length (pending (tile_out T CI r dst src st)) \<le> Suc (length (pending st))"
proof -
  note b = ok [unfolded tile_fits_def]
  have r: "rows_ok T CI r" "rows_ok T T r" "0 < r" using b by (auto simp: rows_ok_def)
  have ap: "beside dst (extent T CI r) src (r * T)" using b beside_sym by blast
  show "elt (dma_settled exec (tile_out T CI r dst src st)) dst (i * CI + c) = elt (dma_settled exec st) src (i * T + c)" if "i < r" "c < T"
  proof (cases "T = CI")
    case True
    have e: "extent T CI r = r * T" using True extent_packed [OF r(3)] by simp
    have "i * T + c < r * T" using row_major_less [OF that] by (simp add: mult.commute)
    then show ?thesis
      using transfer_elt [of dst "r * T" src "i * T + c" st] b True ap
      unfolding e tile_out_def by (simp add: array_ok_def del: of_nat_mult)
  next
    case False
    have e: "extent T T r = r * T" by (rule extent_packed [OF r(3)])
    then show ?thesis using rows_elt [OF r(1) _ r(2), of dst src i c st] b that False ap by (simp add: tile_out_def del: of_nat_mult)
  qed
  show "dma_settled exec (tile_out T CI r dst src st) y = dma_settled exec st y" if y: "y \<notin> rows dst T CI r"
  proof (cases "T = CI")
    case True
    have e: "extent T CI r = r * T" using True extent_packed [OF r(3)] by simp
    have "y \<notin> span dst (8 * (r * T))" using y packed_rows [of dst r T] b e True by auto
    then show ?thesis using transfer_frame [of dst "r * T" y src st] b True e by (simp add: tile_out_def array_ok_def del: of_nat_mult)
  next
    case False
    then show ?thesis using rows_frame [OF r(1) _ r(2), of dst y src st] b y by (simp add: tile_out_def del: of_nat_mult)
  qed
  show "length (pending (tile_out T CI r dst src st)) \<le> Suc (length (pending st))"
    using start_1d_pending rows_request(2) [OF r(1,2), of dst src st] by (simp add: tile_out_def del: of_nat_mult)
qed

end

section \<open>Double buffering\<close>

text \<open>
  The layers that stream their input through two buffers have the same structure. With \<open>n\<close> tiles, the DM core loads tile \<open>k\<close>, meets
  the compute cores at barrier \<open>k\<close>, and then stores the results of tile \<open>k - 1\<close> and loads tile \<open>k + 1\<close> while the compute cores work on tile \<open>k\<close>.
  After the last barrier it stores the results of the last tile. Between two barriers the cores run in any order.
\<close>

datatype db_core = Dm_core | Compute_core u32

definition db_dm :: "nat \<Rightarrow> (nat \<Rightarrow> 's \<Rightarrow> 's option) \<Rightarrow> (nat \<Rightarrow> 's \<Rightarrow> 's option) \<Rightarrow> nat \<Rightarrow> 's \<Rightarrow> 's option" where
  "db_dm n load store k s = Option.bind (if k = 0 then Some s else store (k - 1) s) (\<lambda>s. if k + 1 < n then load (k + 1) s else Some s)"

fun db_core_step :: "nat \<Rightarrow> (nat \<Rightarrow> 's \<Rightarrow> 's option) \<Rightarrow> (nat \<Rightarrow> u32 \<Rightarrow> 's \<Rightarrow> 's option) \<Rightarrow> (nat \<Rightarrow> 's \<Rightarrow> 's option) \<Rightarrow> nat \<Rightarrow> db_core \<Rightarrow> 's \<Rightarrow> 's option" where
  "db_core_step n load compute store k Dm_core s = db_dm n load store k s"
| "db_core_step n load compute store k (Compute_core h) s = compute k h s"

definition db_phase ::
  "nat \<Rightarrow> (nat \<Rightarrow> 's \<Rightarrow> 's option) \<Rightarrow> (nat \<Rightarrow> u32 \<Rightarrow> 's \<Rightarrow> 's option) \<Rightarrow> (nat \<Rightarrow> 's \<Rightarrow> 's option) \<Rightarrow> nat \<Rightarrow> db_core list \<Rightarrow> 's \<Rightarrow> 's option" where
  "db_phase n load compute store k cores s = fold (\<lambda>c r. Option.bind r (db_core_step n load compute store k c)) cores (Some s)"

definition db_run ::
  "nat \<Rightarrow> (nat \<Rightarrow> 's \<Rightarrow> 's option) \<Rightarrow> (nat \<Rightarrow> u32 \<Rightarrow> 's \<Rightarrow> 's option) \<Rightarrow> (nat \<Rightarrow> 's \<Rightarrow> 's option) \<Rightarrow> (nat \<Rightarrow> db_core list) \<Rightarrow> 's \<Rightarrow> 's option" where
  "db_run n load compute store order s =
     Option.bind (for_upto n (\<lambda>k r. Option.bind r (db_phase n load compute store k (order k))) (load 0 s)) (store (n - 1))"

text \<open>In every phase each core runs once.\<close>

definition orders_ok :: "u32 set \<Rightarrow> (nat \<Rightarrow> db_core list) \<Rightarrow> bool" where
  "orders_ok H order \<longleftrightarrow> (\<forall>k. distinct (order k) \<and> set (order k) = insert Dm_core (Compute_core ` H))"

text \<open>
  The contract of the three operations. \<open>inv\<close> holds all the time, \<open>loaded k\<close> when the input buffer of tile \<open>k\<close> is full, \<open>ready k h\<close> when
  core \<open>h\<close> may work on tile \<open>k\<close>, \<open>computed k h\<close> when it has done so, and \<open>stored k\<close> when the results are where they belong. What an
  operation must not destroy is what another core may be using at the same time.
\<close>

locale double_buffer =
  fixes n :: nat and H :: "u32 set"
    and load :: "nat \<Rightarrow> 's \<Rightarrow> 's option" and compute :: "nat \<Rightarrow> u32 \<Rightarrow> 's \<Rightarrow> 's option" and store :: "nat \<Rightarrow> 's \<Rightarrow> 's option"
    and inv :: "'s \<Rightarrow> bool" and loaded :: "nat \<Rightarrow> 's \<Rightarrow> bool" and ready :: "nat \<Rightarrow> u32 \<Rightarrow> 's \<Rightarrow> bool"
    and computed :: "nat \<Rightarrow> u32 \<Rightarrow> 's \<Rightarrow> bool" and stored :: "nat \<Rightarrow> 's \<Rightarrow> bool"
  assumes load_ok: "inv s \<Longrightarrow> k < n \<Longrightarrow> \<exists>s'. load k s = Some s' \<and> inv s' \<and> loaded k s' \<and>
      (\<forall>i. Suc i = k \<longrightarrow> loaded i s \<longrightarrow> loaded i s') \<and> (\<forall>i h. ready i h s \<longrightarrow> ready i h s') \<and>
      (\<forall>i h. computed i h s \<longrightarrow> computed i h s') \<and> (\<forall>i<n. stored i s \<longrightarrow> stored i s')"
    and compute_ok: "inv s \<Longrightarrow> k < n \<Longrightarrow> h \<in> H \<Longrightarrow> loaded k s \<Longrightarrow> ready k h s \<Longrightarrow> \<exists>s'. compute k h s = Some s' \<and> inv s' \<and> computed k h s' \<and> ready (Suc k) h s' \<and>
      (\<forall>i. loaded i s \<longrightarrow> loaded i s') \<and> (\<forall>i h'. h' \<noteq> h \<longrightarrow> ready i h' s \<longrightarrow> ready i h' s') \<and>
      (\<forall>h'\<in>H. h' \<noteq> h \<longrightarrow> computed k h' s \<longrightarrow> computed k h' s') \<and> (\<forall>i h'. Suc i = k \<longrightarrow> h' \<in> H \<longrightarrow> computed i h' s \<longrightarrow> computed i h' s') \<and>
      (\<forall>i<n. stored i s \<longrightarrow> stored i s')"
    and store_ok: "inv s \<Longrightarrow> k < n \<Longrightarrow> (\<And>h. h \<in> H \<Longrightarrow> computed k h s) \<Longrightarrow> \<exists>s'. store k s = Some s' \<and> inv s' \<and> stored k s' \<and>
      (\<forall>i. loaded i s \<longrightarrow> loaded i s') \<and> (\<forall>i h. ready i h s \<longrightarrow> ready i h s') \<and>
      (\<forall>i h. computed i h s \<longrightarrow> computed i h s') \<and> (\<forall>i<n. i \<noteq> k \<longrightarrow> stored i s \<longrightarrow> stored i s')"
begin

text \<open>The state in phase \<open>k\<close> when the cores \<open>xs\<close> have run.\<close>

definition phase_state :: "nat \<Rightarrow> db_core list \<Rightarrow> 's \<Rightarrow> bool" where
  "phase_state k xs s \<longleftrightarrow> inv s \<and> loaded k s \<and>
     (\<forall>h\<in>H. if Compute_core h \<in> set xs then computed k h s \<and> ready (Suc k) h s else ready k h s) \<and>
     (if Dm_core \<in> set xs then (\<forall>j<k. stored j s) \<and> (Suc k < n \<longrightarrow> loaded (Suc k) s)
      else (\<forall>j. Suc j < k \<longrightarrow> stored j s) \<and> (\<forall>j. Suc j = k \<longrightarrow> (\<forall>h\<in>H. computed j h s)))"

lemma dm_phase:
  assumes s: "phase_state k xs s" and k: "k < n" and new: "Dm_core \<notin> set xs"
  shows "\<exists>s'. db_dm n load store k s = Some s' \<and> phase_state k (xs @ [Dm_core]) s'"
proof -
  note s' = s [unfolded phase_state_def, simplified new if_False]
  define mid where "mid t \<longleftrightarrow> inv t \<and> loaded k t \<and> (\<forall>h\<in>H. if Compute_core h \<in> set xs then computed k h t \<and> ready (Suc k) h t else ready k h t) \<and>
    (\<forall>j<k. stored j t)" for t
  have "\<exists>t. (if k = 0 then Some s else store (k - 1) s) = Some t \<and> mid t"
  proof (cases k)
    case 0
    then show ?thesis using s' unfolding mid_def by simp meson
  next
    case (Suc j)
    obtain t where t: "store j s = Some t" "inv t" "stored j t" "\<forall>i. loaded i s \<longrightarrow> loaded i t" "\<forall>i h. ready i h s \<longrightarrow> ready i h t"
      "\<forall>i h. computed i h s \<longrightarrow> computed i h t" "\<forall>i<n. i \<noteq> j \<longrightarrow> stored i s \<longrightarrow> stored i t"
      using store_ok [of s j] s' k Suc by auto
    have "stored i t" if "i < k" for i using t(3,7) s' that k Suc by (cases "i = j") auto
    moreover have "\<forall>h\<in>H. if Compute_core h \<in> set xs then computed k h t \<and> ready (Suc k) h t else ready k h t"
      using s' t(5,6) by (meson)
    ultimately show ?thesis using t(1,2,4) s' Suc by (simp add: mid_def)
  qed
  then obtain t where t: "(if k = 0 then Some s else store (k - 1) s) = Some t" "mid t" by blast
  show ?thesis
  proof (cases "Suc k < n")
    case True
    then obtain u where u: "load (Suc k) t = Some u" "inv u" "loaded (Suc k) u" "\<forall>i. Suc i = Suc k \<longrightarrow> loaded i t \<longrightarrow> loaded i u"
      "\<forall>i h. ready i h t \<longrightarrow> ready i h u" "\<forall>i h. computed i h t \<longrightarrow> computed i h u" "\<forall>i<n. stored i t \<longrightarrow> stored i u"
      using load_ok [of t "Suc k"] t(2) by (auto simp: mid_def)
    have "\<forall>h\<in>H. if Compute_core h \<in> set xs then computed k h u \<and> ready (Suc k) h u else ready k h u"
      using t(2) u(5,6) unfolding mid_def by meson
    then show ?thesis using t u True k by (simp add: phase_state_def db_dm_def mid_def)
  next
    case False
    then show ?thesis using t by (simp add: phase_state_def db_dm_def mid_def)
  qed
qed

lemma compute_phase:
  assumes s: "phase_state k xs s" and k: "k < n" and new: "Compute_core h \<notin> set xs" and h: "h \<in> H"
  shows "\<exists>s'. compute k h s = Some s' \<and> phase_state k (xs @ [Compute_core h]) s'"
proof -
  note s' = s [unfolded phase_state_def]
  have "ready k h s" using s' new h by auto
  then obtain t where t: "compute k h s = Some t" "inv t" "computed k h t" "ready (Suc k) h t" "\<forall>i. loaded i s \<longrightarrow> loaded i t"
      "\<forall>i h'. h' \<noteq> h \<longrightarrow> ready i h' s \<longrightarrow> ready i h' t" "\<forall>h'\<in>H. h' \<noteq> h \<longrightarrow> computed k h' s \<longrightarrow> computed k h' t"
      "\<forall>i h'. Suc i = k \<longrightarrow> h' \<in> H \<longrightarrow> computed i h' s \<longrightarrow> computed i h' t" "\<forall>i<n. stored i s \<longrightarrow> stored i t"
    using compute_ok [of s k h] s' k h by blast
  have "if Compute_core h' \<in> set (xs @ [Compute_core h]) then computed k h' t \<and> ready (Suc k) h' t else ready k h' t" if "h' \<in> H" for h'
    using s' t(3,4,6,7) that by (cases "h' = h") (auto split: if_splits)
  moreover have "if Dm_core \<in> set (xs @ [Compute_core h]) then (\<forall>j<k. stored j t) \<and> (Suc k < n \<longrightarrow> loaded (Suc k) t)
      else (\<forall>j. Suc j < k \<longrightarrow> stored j t) \<and> (\<forall>j. Suc j = k \<longrightarrow> (\<forall>h\<in>H. computed j h t))"
    using s' t(5,8,9) k by (auto split: if_splits)
  ultimately show ?thesis using t(1,2,5) s' by (simp add: phase_state_def)
qed

lemma phase_runs:
  assumes s: "phase_state k [] s" and k: "k < n" and xs: "distinct xs" "set xs \<subseteq> insert Dm_core (Compute_core ` H)"
  shows "\<exists>s'. db_phase n load compute store k xs s = Some s' \<and> phase_state k xs s'"
  using xs
proof (induction xs rule: rev_induct)
  case (snoc c xs)
  then obtain t where t: "db_phase n load compute store k xs s = Some t" "phase_state k xs t" by auto
  have "\<exists>s'. db_core_step n load compute store k c t = Some s' \<and> phase_state k (xs @ [c]) s'"
    using snoc.prems dm_phase [OF t(2) k] compute_phase [OF t(2) k] by (cases c) auto
  then show ?case using t(1) by (simp add: db_phase_def)
qed (use s in \<open>simp add: db_phase_def\<close>)

lemma run_stores_all:
  assumes s: "inv s" "\<And>h. h \<in> H \<Longrightarrow> ready 0 h s" and n: "0 < n" and order: "orders_ok H order"
  shows "\<exists>s'. db_run n load compute store order s = Some s' \<and> inv s' \<and> (\<forall>k<n. stored k s')"
proof -
  define P where "P k r \<longleftrightarrow> (\<exists>t. r = Some t \<and> (if k < n then phase_state k [] t else inv t \<and> (\<forall>j. Suc j < n \<longrightarrow> stored j t) \<and> (\<forall>h\<in>H. computed (n - 1) h t)))" for k r
  have "P n (for_upto n (\<lambda>k r. Option.bind r (db_phase n load compute store k (order k))) (load 0 s))"
  proof (rule for_upto_invariant)
    show "P 0 (load 0 s)" using load_ok [OF s(1) n] s(2) n by (auto simp: P_def phase_state_def)
    fix k r assume k: "k < n" and "P k r"
    then obtain t where t: "r = Some t" "phase_state k [] t" by (auto simp: P_def)
    have o: "distinct (order k)" "set (order k) = insert Dm_core (Compute_core ` H)" using order by (auto simp: orders_ok_def)
    obtain u where u: "db_phase n load compute store k (order k) t = Some u" "phase_state k (order k) u"
      using phase_runs [OF t(2) k o(1)] o(2) by auto
    have "if Suc k < n then phase_state (Suc k) [] u else inv u \<and> (\<forall>j. Suc j < n \<longrightarrow> stored j u) \<and> (\<forall>h\<in>H. computed (n - 1) h u)"
    proof (cases "Suc k < n")
      case False
      have "inv u \<and> (\<forall>j<k. stored j u) \<and> (\<forall>h\<in>H. computed k h u)" using u(2) o(2) unfolding phase_state_def by simp
      moreover have "n = Suc k" using False k by simp
      ultimately show ?thesis by simp
    qed (use u(2) o(2) in \<open>simp add: phase_state_def\<close>)
    then show "P (Suc k) (Option.bind r (db_phase n load compute store k (order k)))" using t(1) u(1) by (simp add: P_def)
  qed
  then obtain t where t: "for_upto n (\<lambda>k r. Option.bind r (db_phase n load compute store k (order k))) (load 0 s) = Some t" "inv t"
      "\<forall>j. Suc j < n \<longrightarrow> stored j t" "\<forall>h\<in>H. computed (n - 1) h t" by (auto simp: P_def)
  obtain u where u: "store (n - 1) t = Some u" "inv u" "stored (n - 1) u" "\<forall>i<n. i \<noteq> n - 1 \<longrightarrow> stored i t \<longrightarrow> stored i u"
    using store_ok [of t "n - 1"] t n by auto
  have "stored k u" if "k < n" for k using u(3,4) t(3) that by (cases "k = n - 1") auto
  then show ?thesis using t(1) u(1,2) by (simp add: db_run_def)
qed

end

end
