(* ===== verification/Maxpool.thy ===== *)
theory Maxpool
  imports Layers Gemm
begin

text \<open>
  \<open>sw/dnn/maxpool/src/maxpool.h\<close>: the maximum over windows of an image, for each channel. The output pixels are distributed over the clusters, the
  channels of a tile over the compute cores of a cluster. Products of dimensions are taken in the natural numbers and then converted to
  32 bits, which gives the same as 32-bit multiplication. A tile with all channels starts at channel 0, so that the pointer of the one-dimensional
  transfer, which leaves the channel out, is that of the two-dimensional one.
\<close>

section \<open>The layer\<close>

record maxpool_layer_t =
  mp_CO :: u32
  mp_CI :: u32
  mp_IH :: u32
  mp_IW :: u32
  mp_OH :: u32
  mp_OW :: u32
  mp_FH :: u32
  mp_FW :: u32
  mp_tile_ci :: u32
  mp_ifmap :: ptr
  mp_ofmap :: ptr
  mp_dtype :: precision_t

definition maxpool_value :: "fp_ops \<Rightarrow> nat \<Rightarrow> nat \<Rightarrow> (nat \<Rightarrow> f64) \<Rightarrow> nat \<Rightarrow> nat \<Rightarrow> f64" where
  "maxpool_value F FH FW x CI ci =
     for_upto FH (\<lambda>fh. for_upto FW (\<lambda>fw max. if flt F max (x ((fh * FW + fw) * CI + ci)) then x ((fh * FW + fw) * CI + ci) else max)) (x ci)"

definition maxpool_fp64 :: "fp_ops \<Rightarrow> ptr \<Rightarrow> ptr \<Rightarrow> nat \<Rightarrow> nat \<Rightarrow> nat \<Rightarrow> nat \<Rightarrow> mem \<Rightarrow> mem" where
  "maxpool_fp64 F ifmap ofmap CI FH FW compute_num m =
     fold (\<lambda>ci m. store64 (dbl ofmap (of_nat ci)) (maxpool_value F FH FW (elt m ifmap) CI ci) m) (loop_values 0 CI compute_num) m"

text \<open>The tiles of a cluster: an output pixel and the first channel of the tile.\<close>

definition maxpool_tiles :: "maxpool_layer_t \<Rightarrow> nat \<Rightarrow> nat \<Rightarrow> (nat \<times> nat) list" where
  "maxpool_tiles l cluster_id cluster_num =
     List.product (loop_values cluster_id (unat (mp_OH l * mp_OW l)) cluster_num) (loop_values 0 (unat (mp_CI l)) (unat (mp_tile_ci l)))"

definition maxpool_ifmap_size :: "maxpool_layer_t \<Rightarrow> u32" where
  "maxpool_ifmap_size l = 2 * mp_FH l * mp_FW l * mp_tile_ci l"

definition maxpool_ofmap_size :: "maxpool_layer_t \<Rightarrow> u32" where
  "maxpool_ofmap_size l = 2 * mp_tile_ci l"

text \<open>
  Every core switches its \<open>read_buf\<close> and \<open>write_buf\<close>, which are equal, after each tile: for tile \<open>k\<close> both are \<open>k mod 2\<close>. When the DM core stores
  tile \<open>k\<close> it is one tile further, so that its \<open>!read_buf\<close> is \<open>k mod 2\<close> again.
\<close>

definition maxpool_load ::
  "(dma_req \<Rightarrow> mem \<Rightarrow> mem) \<Rightarrow> nat list \<Rightarrow> maxpool_layer_t \<Rightarrow> ptr \<Rightarrow> nat \<Rightarrow> nat \<times> nat \<Rightarrow> dma_state \<Rightarrow> dma_state option" where
  "maxpool_load exec sched l l1_next k = (\<lambda>(tile, ci) st.
     let FH = unat (mp_FH l); FW = unat (mp_FW l); IW = unat (mp_IW l); CI = unat (mp_CI l); tile_ci = unat (mp_tile_ci l);
         write_buf = of_nat (k mod 2); oh = tile div unat (mp_OW l); ow = tile mod unat (mp_OW l)
     in snrt_dma_wait_all exec sched (for_upto FH (\<lambda>fh.
          tile_in tile_ci CI FW (dbl l1_next (write_buf * (maxpool_ifmap_size l div 2) + of_nat (fh * FW * tile_ci)))
            (dbl (mp_ifmap l) (of_nat (((oh * FH + fh) * IW + ow * FW) * CI + ci)))) st))"

definition maxpool_compute :: "fp_ops \<Rightarrow> snrt_defs \<Rightarrow> maxpool_layer_t \<Rightarrow> ptr \<Rightarrow> nat \<Rightarrow> u32 \<Rightarrow> dma_state \<Rightarrow> dma_state" where
  "maxpool_compute F d l l1_next k hartid st =
     (let compute_num = snrt_cluster_compute_core_num d; compute_id = snrt_global_core_idx d hartid;
          ifmap = l1_next; ofmap = dbl ifmap (maxpool_ifmap_size l); read_buf = of_nat (k mod 2); write_buf = of_nat (k mod 2)
      in st\<lparr>dmem := maxpool_fp64 F (dbl ifmap (read_buf * maxpool_ifmap_size l div 2 + compute_id)) (dbl ofmap (write_buf * maxpool_ofmap_size l div 2 + compute_id))
           (unat (mp_tile_ci l)) (unat (mp_FH l)) (unat (mp_FW l)) (unat compute_num) (dmem st)\<rparr>)"

definition maxpool_store ::
  "(dma_req \<Rightarrow> mem \<Rightarrow> mem) \<Rightarrow> nat list \<Rightarrow> maxpool_layer_t \<Rightarrow> ptr \<Rightarrow> nat \<Rightarrow> nat \<times> nat \<Rightarrow> dma_state \<Rightarrow> dma_state option" where
  "maxpool_store exec sched l l1_next k = (\<lambda>(tile, ci) st.
     let oh = tile div unat (mp_OW l); ow = tile mod unat (mp_OW l); ofmap = dbl l1_next (maxpool_ifmap_size l)
     in snrt_dma_wait_all exec sched (snd (snrt_dma_start_2d
          (dbl (mp_ofmap l) (of_nat ((oh * unat (mp_OW l) + ow) * unat (mp_CI l) + ci)))
          (dbl ofmap (of_nat (k mod 2) * (maxpool_ofmap_size l div 2)))
          (8 * mp_tile_ci l) (8 * mp_CI l) (8 * mp_tile_ci l) 1 st)))"

text \<open>
  The layer on the cluster of \<open>dm\<close>. \<open>None\<close> also stands for the undefined behaviour of a cluster without tiles: its DM core stores a last tile
  all the same, with indices that it has never assigned.
\<close>

definition maxpool_layer ::
  "(dma_req \<Rightarrow> mem \<Rightarrow> mem) \<Rightarrow> (nat \<Rightarrow> nat list) \<Rightarrow> (nat \<Rightarrow> nat list) \<Rightarrow> fp_ops \<Rightarrow> snrt_defs \<Rightarrow> u32 \<Rightarrow> (nat \<Rightarrow> db_core list) \<Rightarrow> maxpool_layer_t \<Rightarrow> ptr \<Rightarrow>
    dma_state \<Rightarrow> dma_state option" where
  "maxpool_layer exec sched_in sched_out F d dm order l l1_next st =
     (let tiles = maxpool_tiles l (unat (snrt_cluster_idx d dm)) (unat (snrt_cluster_num d))
      in if tiles = [] then None
         else db_run (length tiles) (\<lambda>k. maxpool_load exec (sched_in k) l l1_next k (tiles ! k)) (\<lambda>k h st. Some (maxpool_compute F d l l1_next k h st))
           (\<lambda>k. maxpool_store exec (sched_out k) l l1_next k (tiles ! k)) order st)"

section \<open>What the layer needs\<close>

text \<open>The parts of L1, and the sizes of the arrays in elements.\<close>

definition mp_half :: "maxpool_layer_t \<Rightarrow> nat" where
  "mp_half l = unat (mp_FH l) * unat (mp_FW l) * unat (mp_tile_ci l)"

definition mp_total :: "maxpool_layer_t \<Rightarrow> nat" where
  "mp_total l = 2 * mp_half l + 2 * unat (mp_tile_ci l)"

definition mp_in :: "maxpool_layer_t \<Rightarrow> nat" where
  "mp_in l = unat (mp_OH l) * unat (mp_FH l) * unat (mp_IW l) * unat (mp_CI l)"

definition mp_out :: "maxpool_layer_t \<Rightarrow> nat" where
  "mp_out l = unat (mp_OH l) * unat (mp_OW l) * unat (mp_CI l)"

definition mp_ibuf :: "maxpool_layer_t \<Rightarrow> ptr \<Rightarrow> nat \<Rightarrow> ptr" where
  "mp_ibuf l l1 b = dbl l1 (of_nat (b * mp_half l))"

definition mp_obuf :: "maxpool_layer_t \<Rightarrow> ptr \<Rightarrow> nat \<Rightarrow> ptr" where
  "mp_obuf l l1 b = dbl l1 (of_nat (2 * mp_half l + b * unat (mp_tile_ci l)))"

definition maxpool_ok :: "snrt_defs \<Rightarrow> u32 set \<Rightarrow> maxpool_layer_t \<Rightarrow> ptr \<Rightarrow> bool" where
  "maxpool_ok d H l l1 \<longleftrightarrow>
     (let CI = unat (mp_CI l); T = unat (mp_tile_ci l); P = unat (snrt_cluster_compute_core_num d)
      in 0 < T \<and> T dvd CI \<and> 0 < P \<and> P dvd T \<and> 0 < mp_half l \<and> unat (mp_OW l) * unat (mp_FW l) \<le> unat (mp_IW l) \<and> 8 * CI < 2 ^ 31 \<and>
        unat (mp_OH l) * unat (mp_OW l) < 2 ^ 32 \<and> (\<lambda>h. unat (snrt_global_core_idx d h)) ` H = {..<P} \<and>
        unat l1 + 8 * mp_total l < 2 ^ 32 \<and> holds (mp_ifmap l) (mp_in l) \<and> holds (mp_ofmap l) (mp_out l) \<and>
        beside l1 (mp_total l) (mp_ifmap l) (mp_in l) \<and> beside l1 (mp_total l) (mp_ofmap l) (mp_out l) \<and> beside (mp_ofmap l) (mp_out l) (mp_ifmap l) (mp_in l))"

lemma mp_sizes:
  assumes "maxpool_ok d H l l1"
  shows "of_nat (k mod 2) * (maxpool_ifmap_size l div 2) = of_nat (k mod 2 * mp_half l)"
    and "of_nat (k mod 2) * maxpool_ifmap_size l div 2 = of_nat (k mod 2 * mp_half l)"
    and "of_nat (k mod 2) * (maxpool_ofmap_size l div 2) = of_nat (k mod 2 * unat (mp_tile_ci l))"
    and "of_nat (k mod 2) * maxpool_ofmap_size l div 2 = of_nat (k mod 2 * unat (mp_tile_ci l))"
    and "maxpool_ifmap_size l = of_nat (2 * mp_half l)"
proof -
  have i: "maxpool_ifmap_size l = of_nat (2 * mp_half l)" by (simp add: maxpool_ifmap_size_def mp_half_def)
  have o: "maxpool_ofmap_size l = of_nat (2 * unat (mp_tile_ci l))" by (simp add: maxpool_ofmap_size_def)
  have b: "2 * mp_half l < 2 ^ 32" "2 * unat (mp_tile_ci l) < 2 ^ 32" using assms by (auto simp: maxpool_ok_def mp_total_def Let_def)
  note h = half_of_double [OF i b(1)] half_of_double [OF o b(2)]
  have "k mod 2 = 0 \<or> k mod 2 = 1" by linarith
  then show "of_nat (k mod 2) * (maxpool_ifmap_size l div 2) = of_nat (k mod 2 * mp_half l)"
    "of_nat (k mod 2) * maxpool_ifmap_size l div 2 = of_nat (k mod 2 * mp_half l)"
    "of_nat (k mod 2) * (maxpool_ofmap_size l div 2) = of_nat (k mod 2 * unat (mp_tile_ci l))"
    "of_nat (k mod 2) * maxpool_ofmap_size l div 2 = of_nat (k mod 2 * unat (mp_tile_ci l))"
    using h by auto
  show "maxpool_ifmap_size l = of_nat (2 * mp_half l)" by (rule i)
qed

lemma mp_buffers:
  assumes ok: "maxpool_ok d H l l1"
  defines "I \<equiv> mp_half l" and "T \<equiv> unat (mp_tile_ci l)"
  assumes b: "b < 2"
  shows "unat (mp_ibuf l l1 b) = unat l1 + 8 * (b * I)" "holds (mp_ibuf l l1 b) I"
    and "unat (mp_obuf l l1 b) = unat l1 + 8 * (2 * I + b * T)" "holds (mp_obuf l l1 b) T"
    and "holds l1 (mp_total l)"
proof -
  have h: "holds l1 (mp_total l)" "0 < I" "0 < T" "mp_total l = 2 * I + 2 * T"
    using ok by (simp_all add: maxpool_ok_def Let_def holds_def mp_total_def I_def T_def)
  have "b = 0 \<or> b = 1" using b by linarith
  then have fit: "b * I + I \<le> mp_total l" "2 * I + b * T + T \<le> mp_total l" using h(4) by auto
  show "unat (mp_ibuf l l1 b) = unat l1 + 8 * (b * I)" "holds (mp_ibuf l l1 b) I"
    using part_array [OF h(1) fit(1) h(2)] by (simp_all add: mp_ibuf_def I_def)
  show "unat (mp_obuf l l1 b) = unat l1 + 8 * (2 * I + b * T)" "holds (mp_obuf l l1 b) T"
    using part_array [OF h(1) fit(2) h(3)] by (simp_all add: mp_obuf_def I_def T_def)
  show "holds l1 (mp_total l)" by (rule h(1))
qed

section \<open>Loading a tile\<close>

text \<open>Element \<open>(fh, fw)\<close> of the window of an output pixel, for the channel \<open>c\<close>.\<close>

definition mp_window :: "maxpool_layer_t \<Rightarrow> nat \<Rightarrow> nat \<Rightarrow> nat \<Rightarrow> nat \<Rightarrow> nat" where
  "mp_window l tile fh fw c =
     ((tile div unat (mp_OW l) * unat (mp_FH l) + fh) * unat (mp_IW l) + (tile mod unat (mp_OW l) * unat (mp_FW l) + fw)) * unat (mp_CI l) + c"

definition mp_tile :: "maxpool_layer_t \<Rightarrow> nat \<times> nat \<Rightarrow> bool" where
  "mp_tile l = (\<lambda>(tile, ci). tile < unat (mp_OH l) * unat (mp_OW l) \<and> unat (mp_tile_ci l) dvd ci \<and> ci < unat (mp_CI l))"

lemma mp_window_bound:
  assumes ok: "maxpool_ok d H l l1" and t: "mp_tile l (tile, ci)" and fh: "fh < unat (mp_FH l)" and fw: "fw < unat (mp_FW l)"
  shows "mp_window l tile fh fw ci + unat (mp_tile_ci l) \<le> mp_in l"
proof -
  let ?OW = "unat (mp_OW l)" and ?OH = "unat (mp_OH l)" and ?FH = "unat (mp_FH l)" and ?FW = "unat (mp_FW l)" and ?IW = "unat (mp_IW l)" and ?CI = "unat (mp_CI l)"
  have ow: "0 < ?OW" using t by (cases "?OW") (auto simp: mp_tile_def)
  have "tile div ?OW < ?OH" using t by (simp add: mp_tile_def less_mult_imp_div_less)
  then have y: "tile div ?OW * ?FH + fh < ?OH * ?FH" using row_major_less fh by blast
  have "tile mod ?OW * ?FW + fw < ?OW * ?FW" using row_major_less ow fw mod_less_divisor by blast
  then have x: "tile mod ?OW * ?FW + fw < ?IW" using ok by (auto simp: maxpool_ok_def Let_def)
  have "(tile div ?OW * ?FH + fh) * ?IW + (tile mod ?OW * ?FW + fw) < ?OH * ?FH * ?IW" using row_major_less [OF y x] .
  then have "((tile div ?OW * ?FH + fh) * ?IW + (tile mod ?OW * ?FW + fw) + 1) * ?CI \<le> ?OH * ?FH * ?IW * ?CI" by (intro mult_right_mono) simp_all
  moreover have "ci + unat (mp_tile_ci l) \<le> ?CI" using t ok by (intro dvd_room) (simp_all add: mp_tile_def maxpool_ok_def Let_def)
  ultimately show ?thesis by (simp add: mp_window_def mp_in_def)
qed

context dma_backend
begin

lemma maxpool_load_result:
  fixes k tile ci :: nat and l :: maxpool_layer_t and l1 :: ptr
  assumes ok: "maxpool_ok d H l l1" and t: "mp_tile l (tile, ci)" and idle: "pending st = []" and sched: "unat (mp_FH l) \<le> sum_list sched"
  defines "b \<equiv> mp_ibuf l l1 (k mod 2)" and "T \<equiv> unat (mp_tile_ci l)" and "FH \<equiv> unat (mp_FH l)" and "FW \<equiv> unat (mp_FW l)"
  shows "\<exists>st'. maxpool_load exec sched l l1 k (tile, ci) st = Some st' \<and> pending st' = [] \<and>
    (\<forall>fh<FH. \<forall>fw<FW. \<forall>c<T. elt (dmem st') b ((fh * FW + fw) * T + c) = elt (dmem st) (mp_ifmap l) (mp_window l tile fh fw (ci + c))) \<and>
    (\<forall>y. y \<notin> span b (8 * mp_half l) \<longrightarrow> dmem st' y = dmem st y)"
proof -
  define CI where "CI = unat (mp_CI l)"
  define src where "src fh = dbl (mp_ifmap l) (of_nat (mp_window l tile fh 0 ci))" for fh
  define dst where "dst fh = dbl b (of_nat (fh * (FW * T)))" for fh
  note o = ok [unfolded maxpool_ok_def Let_def, folded T_def FW_def CI_def]
  have half: "mp_half l = FH * (FW * T)" "0 < FW" "0 < T" using o by (auto simp: mp_half_def FH_def FW_def T_def)
  have k2: "k mod 2 < 2" by simp
  note buf = mp_buffers [OF ok k2, folded b_def T_def]
  have total: "mp_total l = 2 * mp_half l + 2 * T" by (simp add: mp_total_def T_def)
  have "k mod 2 = 0 \<or> k mod 2 = 1" by linarith
  then have room: "unat l1 \<le> unat b" "unat b + 8 * mp_half l \<le> unat l1 + 8 * mp_total l" using buf(1) total by auto
  have row: "fh * (FW * T) + FW * T \<le> mp_half l" if "fh < FH" for fh
    using mult_right_mono [of "fh + 1" FH "FW * T"] that by (simp add: half)
  have pos: "0 < FW * T" using half by simp
  note d = part_array [OF buf(2) row pos, folded dst_def]
  have nxt: "mp_window l tile fh 0 ci + (fw * CI + c) = mp_window l tile fh fw (ci + c)" for fh fw c by (simp add: mp_window_def CI_def algebra_simps)
  have bnd: "mp_window l tile fh fw ci + T \<le> mp_in l" if "fh < FH" "fw < FW" for fh fw
    unfolding T_def by (rule mp_window_bound [OF ok t]) (use that in \<open>simp_all add: FH_def FW_def\<close>)
  have ext: "mp_window l tile fh 0 ci + extent T CI FW \<le> mp_in l" if "fh < FH" for fh
    using bnd [OF that, of "FW - 1"] half(2) nxt [of fh "FW - 1" 0] by (simp add: extent_def)
  have "0 < extent T CI FW" using half by (simp add: extent_def)
  note s = part_array [OF _ ext this, of "mp_ifmap l", folded src_def]
  have "T \<le> CI" using o t by (auto simp: mp_tile_def CI_def intro: dvd_imp_le)
  then have rows: "rows_ok T CI FW" using o half unat_bound [of "mp_FW l"] by (auto simp: rows_ok_def FW_def)
  have apart: "beside b (mp_half l) (mp_ifmap l) (mp_in l)" using o room beside_part by blast
  have fits: "tile_fits T CI FW (dst fh) (src fh)" if fh: "fh < FH" for fh
  proof -
    have "beside (dst fh) (FW * T) (src fh) (extent T CI FW)"
      by (rule beside_parts [OF apart]) (use d(1) [OF fh] s(1) [OF _ fh] row [OF fh] ext [OF fh] o in simp_all)
    moreover have "8 * (FW * T) < 2 ^ 32" using row [OF fh] total o by simp
    ultimately show ?thesis using rows d(2) [OF fh] s(2) [OF _ fh] o by (simp add: tile_fits_def)
  qed
  define S where "S = dma_settled exec"
  define P where "P n st' \<longleftrightarrow> length (pending st') \<le> n \<and>
    (\<forall>fh<n. \<forall>fw<FW. \<forall>c<T. elt (S st') b ((fh * FW + fw) * T + c) = elt (dmem st) (mp_ifmap l) (mp_window l tile fh fw (ci + c))) \<and>
    (\<forall>y. y \<notin> span b (8 * mp_half l) \<longrightarrow> S st' y = dmem st y)" for n st'
  have P: "P FH (for_upto FH (\<lambda>fh. tile_in T CI FW (dst fh) (src fh)) st)"
  proof (rule for_upto_invariant)
    show "P 0 st" by (simp add: P_def S_def dma_settled_def idle)
    fix n st' assume n: "n < FH" and st': "P n st'"
    let ?st = "tile_in T CI FW (dst n) (src n) st'"
    note r = tile_in_result [OF fits [OF n], where st = st', folded S_def]
    have at: "elt m b ((fh * FW + fw) * T + c) = elt m (dst fh) (fw * T + c)" for m fh fw c
      unfolding dst_def elt_part by (simp add: algebra_simps)
    have new: "elt (S ?st) b ((n * FW + fw) * T + c) = elt (dmem st) (mp_ifmap l) (mp_window l tile n fw (ci + c))" if "fw < FW" "c < T" for fw c
    proof -
      have "mp_window l tile n fw (ci + c) < mp_in l" using bnd [OF n that(1)] that(2) by (simp add: mp_window_def)
      moreover have "elt (S st') (src n) (fw * CI + c) = elt (S st') (mp_ifmap l) (mp_window l tile n fw (ci + c))"
        by (simp add: src_def elt_part nxt)
      ultimately show ?thesis
        using r(1) [OF that] elt_beside [of "mp_ifmap l" "mp_in l" "mp_window l tile n fw (ci + c)" b "mp_half l" "S st'" "dmem st"] apart o st'
        unfolding at by (simp add: P_def)
    qed
    have old: "elt (S ?st) b ((fh * FW + fw) * T + c) = elt (S st') b ((fh * FW + fw) * T + c)" if "fh < n" "fw < FW" "c < T" for fh fw c
    proof -
      have "fh * (FW * T) + FW * T \<le> n * (FW * T)" using mult_right_mono [of "fh + 1" n "FW * T"] that(1) by simp
      then have "beside (dst n) (FW * T) (dst fh) (FW * T)" using d(1) [of fh] d(1) [OF n] that n by (simp add: beside_def)
      then show ?thesis unfolding at
        by (intro elt_beside [OF d(2)]) (use that n row_major_less r(2) in auto)
    qed
    have "span (dst n) (8 * (FW * T)) \<subseteq> span b (8 * mp_half l)" unfolding dst_def by (rule part_span [OF buf(2) row [OF n] pos])
    then have "S ?st y = S st' y" if "y \<notin> span b (8 * mp_half l)" for y using r(2) that by blast
    then show "P (Suc n) ?st" using st' r(3) new old by (auto simp: P_def less_Suc_eq)
  qed
  obtain st' where st': "snrt_dma_wait_all exec sched (for_upto FH (\<lambda>fh. tile_in T CI FW (dst fh) (src fh)) st) = Some st'" "pending st' = []"
      "dmem st' = S (for_upto FH (\<lambda>fh. tile_in T CI FW (dst fh) (src fh)) st)"
    using wait_all_settles P sched unfolding P_def S_def FH_def by (meson le_trans)
  have "maxpool_load exec sched l l1 k (tile, ci) st = snrt_dma_wait_all exec sched (for_upto FH (\<lambda>fh. tile_in T CI FW (dst fh) (src fh)) st)"
    unfolding maxpool_load_def Let_def prod.case mp_sizes(1) [OF ok] dst_def src_def b_def mp_ibuf_def dbl_dbl
    by (simp add: FH_def FW_def T_def CI_def mp_window_def algebra_simps)
  then show ?thesis using st' P by (auto simp: P_def)
qed

end

section \<open>Computing a tile\<close>

text \<open>The maximum over the window of output pixel \<open>tile\<close> for a channel, in the order of the loops.\<close>

definition maxpool_spec :: "fp_ops \<Rightarrow> maxpool_layer_t \<Rightarrow> mem \<Rightarrow> nat \<Rightarrow> nat \<Rightarrow> f64" where
  "maxpool_spec F l m tile ch =
     for_upto (unat (mp_FH l)) (\<lambda>fh. for_upto (unat (mp_FW l)) (\<lambda>fw max.
       let x = elt m (mp_ifmap l) (mp_window l tile fh fw ch) in if flt F max x then x else max)) (elt m (mp_ifmap l) (mp_window l tile 0 0 ch))"

lemma maxpool_value_cong:
  assumes "\<And>fh fw. fh < FH \<Longrightarrow> fw < FW \<Longrightarrow> x ((fh * FW + fw) * CI + c) = x' ((fh * FW + fw) * CI + c)" and "0 < FH" "0 < FW"
  shows "maxpool_value F FH FW x CI c = maxpool_value F FH FW x' CI c"
proof -
  have "x c = x' c" using assms(1) [of 0 0] assms(2,3) by simp
  moreover have "for_upto FW (\<lambda>fw max. if flt F max (x ((fh * FW + fw) * CI + c)) then x ((fh * FW + fw) * CI + c) else max) v =
      for_upto FW (\<lambda>fw max. if flt F max (x' ((fh * FW + fw) * CI + c)) then x' ((fh * FW + fw) * CI + c) else max) v" if "fh < FH" for fh v
    by (rule for_upto_cong) (simp add: assms(1) that)
  then have "for_upto FH (\<lambda>fh. for_upto FW (\<lambda>fw max. if flt F max (x ((fh * FW + fw) * CI + c)) then x ((fh * FW + fw) * CI + c) else max)) v =
      for_upto FH (\<lambda>fh. for_upto FW (\<lambda>fw max. if flt F max (x' ((fh * FW + fw) * CI + c)) then x' ((fh * FW + fw) * CI + c) else max)) v" for v
    by (rule for_upto_cong)
  ultimately show ?thesis by (simp add: maxpool_value_def)
qed

lemma maxpool_value_spec:
  assumes x: "\<And>fh fw. fh < unat (mp_FH l) \<Longrightarrow> fw < unat (mp_FW l) \<Longrightarrow> x ((fh * unat (mp_FW l) + fw) * CI + c) = elt m (mp_ifmap l) (mp_window l tile fh fw ch)"
    and pos: "0 < unat (mp_FH l)" "0 < unat (mp_FW l)"
  shows "maxpool_value F (unat (mp_FH l)) (unat (mp_FW l)) x CI c = maxpool_spec F l m tile ch"
proof -
  have "x c = elt m (mp_ifmap l) (mp_window l tile 0 0 ch)" using x [OF pos] by simp
  moreover have "for_upto (unat (mp_FW l)) (\<lambda>fw max. if flt F max (x ((fh * unat (mp_FW l) + fw) * CI + c)) then x ((fh * unat (mp_FW l) + fw) * CI + c) else max) v =
      for_upto (unat (mp_FW l)) (\<lambda>fw max. let x = elt m (mp_ifmap l) (mp_window l tile fh fw ch) in if flt F max x then x else max) v"
    if "fh < unat (mp_FH l)" for fh v
    by (rule for_upto_cong) (simp add: x that)
  then have "for_upto (unat (mp_FH l)) (\<lambda>fh. for_upto (unat (mp_FW l)) (\<lambda>fw max. if flt F max (x ((fh * unat (mp_FW l) + fw) * CI + c)) then x ((fh * unat (mp_FW l) + fw) * CI + c) else max)) v =
      for_upto (unat (mp_FH l)) (\<lambda>fh. for_upto (unat (mp_FW l)) (\<lambda>fw max. let x = elt m (mp_ifmap l) (mp_window l tile fh fw ch) in if flt F max x then x else max)) v" for v
    by (rule for_upto_cong)
  ultimately show ?thesis by (simp add: maxpool_value_def maxpool_spec_def)
qed

lemma maxpool_compute_result:
  fixes F :: fp_ops and k :: nat and l :: maxpool_layer_t and l1 :: ptr and d :: snrt_defs and h :: u32 and st :: dma_state
  assumes ok: "maxpool_ok d H l l1" and h: "h \<in> H"
  defines "b \<equiv> mp_ibuf l l1 (k mod 2)" and "ob \<equiv> mp_obuf l l1 (k mod 2)" and "T \<equiv> unat (mp_tile_ci l)" and "st' \<equiv> maxpool_compute F d l l1 k h st"
  shows "y \<notin> span ob (8 * T) \<Longrightarrow> dmem st' y = dmem st y"
    and "j < T \<Longrightarrow> elt (dmem st') ob j = (if j mod unat (snrt_cluster_compute_core_num d) = unat (snrt_global_core_idx d h)
      then maxpool_value F (unat (mp_FH l)) (unat (mp_FW l)) (elt (dmem st) b) T j else elt (dmem st) ob j)"
    and "pending st' = pending st"
proof -
  define P where "P = unat (snrt_cluster_compute_core_num d)"
  define q where "q = unat (snrt_global_core_idx d h)"
  define FH where "FH = unat (mp_FH l)"
  define FW where "FW = unat (mp_FW l)"
  define V where "V i m = maxpool_value F FH FW (elt m b) T i" for i m
  note ok' = ok [unfolded maxpool_ok_def Let_def, folded T_def P_def FW_def]
  have q: "q < P" using ok' h by (auto simp: q_def)
  have k2: "k mod 2 < 2" by simp
  note buf = mp_buffers [OF ok k2, folded b_def T_def ob_def]
  have half: "mp_half l = FH * FW * T" "0 < FH" "0 < FW" using ok' by (auto simp: mp_half_def FH_def FW_def T_def)
  have "k mod 2 = 0 \<or> k mod 2 = 1" by linarith
  then have b: "beside ob T b (mp_half l)" using buf(1,3) by (auto simp: beside_def)
  have Vc: "V i m = V i m'" if i: "i < T" and eq: "\<And>y. y \<notin> span ob (8 * T) \<Longrightarrow> m y = m' y" for i m m'
    unfolding V_def
  proof (rule maxpool_value_cong [OF _ half(2,3)])
    fix fh fw assume "fh < FH" "fw < FW"
    then have "(fh * FW + fw) * T + i < mp_half l" unfolding half(1) using row_major_less i by blast
    then show "elt m b ((fh * FW + fw) * T + i) = elt m' b ((fh * FW + fw) * T + i)" by (rule elt_beside [OF buf(2) _ b eq])
  qed
  define xs where "xs = map ((+) q) (loop_values 0 T P)"
  have P: "P dvd T" "0 < P" using ok' by auto
  have xs: "j \<in> set xs \<longleftrightarrow> j < T \<and> j mod P = q" for j
  proof
    assume "j \<in> set xs"
    then obtain c where c: "j = q + c" "c < T" "P dvd c" by (auto simp: xs_def set_loop_values)
    then have "c + P \<le> T" using dvd_room P(1) by blast
    then show "j < T \<and> j mod P = q" using c q by (auto elim!: dvdE)
  next
    assume j: "j < T \<and> j mod P = q"
    then have "j = q + j div P * P" by (metis add.commute div_mult_mod_eq)
    then show "j \<in> set xs" using j unfolding xs_def by (auto simp: set_loop_values intro!: image_eqI [of _ _ "j div P * P"])
  qed
  have ptrs: "dbl l1 (of_nat (k mod 2) * maxpool_ifmap_size l div 2 + snrt_global_core_idx d h) = dbl b (of_nat q)"
    "dbl (dbl l1 (maxpool_ifmap_size l)) (of_nat (k mod 2) * maxpool_ofmap_size l div 2 + snrt_global_core_idx d h) = dbl ob (of_nat q)"
    unfolding mp_sizes(2,4) [OF ok] by (simp_all add: b_def ob_def mp_ibuf_def mp_obuf_def dbl_dbl q_def mp_sizes(5) [OF ok] algebra_simps T_def)
  have val: "maxpool_value F FH FW (elt m (dbl b (of_nat q))) T c = V (q + c) m" for m c
    unfolding V_def maxpool_value_def elt_part add.left_commute [of q] ..
  have st': "dmem st' = fold (\<lambda>i m. store64 (dbl ob (of_nat i)) (V i m) m) xs (dmem st)"
    unfolding st'_def maxpool_compute_def Let_def ptrs maxpool_fp64_def P_def [symmetric] FH_def [symmetric] FW_def [symmetric] T_def [symmetric] val xs_def fold_map
    by (simp add: dbl_dbl comp_def)
  have sub: "set xs \<subseteq> {..<T}" using xs by auto
  show "dmem st' y = dmem st y" if "y \<notin> span ob (8 * T)"
    unfolding st' by (rule fold_stores(1) [OF buf(4) sub Vc that])
  show "elt (dmem st') ob j = (if j mod unat (snrt_cluster_compute_core_num d) = unat (snrt_global_core_idx d h)
      then maxpool_value F (unat (mp_FH l)) (unat (mp_FW l)) (elt (dmem st) b) T j else elt (dmem st) ob j)" if "j < T"
  proof -
    have "elt (dmem st') ob j = (if j \<in> set xs then V j (dmem st) else elt (dmem st) ob j)"
      unfolding st' by (rule fold_stores(2) [OF buf(4) sub Vc that])
    then show ?thesis using that by (simp add: xs P_def q_def V_def FH_def FW_def)
  qed
  show "pending st' = pending st" by (simp add: st'_def maxpool_compute_def Let_def)
qed

section \<open>Storing a tile\<close>

context dma_backend
begin

lemma maxpool_store_result:
  fixes k tile ci :: nat and l :: maxpool_layer_t and l1 :: ptr
  assumes ok: "maxpool_ok d H l l1" and t: "mp_tile l (tile, ci)" and idle: "pending st = []" and sched: "1 \<le> sum_list sched"
  defines "ob \<equiv> mp_obuf l l1 (k mod 2)" and "T \<equiv> unat (mp_tile_ci l)" and "CI \<equiv> unat (mp_CI l)"
  shows "\<exists>st'. maxpool_store exec sched l l1 k (tile, ci) st = Some st' \<and> pending st' = [] \<and>
    (\<forall>c<T. elt (dmem st') (mp_ofmap l) (tile * CI + ci + c) = elt (dmem st) ob c) \<and>
    (\<forall>y. (\<forall>c<T. y \<notin> cell (mp_ofmap l) (tile * CI + ci + c)) \<longrightarrow> dmem st' y = dmem st y)"
proof -
  define dst where "dst = dbl (mp_ofmap l) (of_nat (tile * CI + ci))"
  note ok' = ok [unfolded maxpool_ok_def Let_def, folded T_def CI_def]
  have k2: "k mod 2 < 2" by simp
  note buf = mp_buffers [OF ok k2, folded T_def ob_def]
  have "ci + T \<le> CI" using t ok' by (intro dvd_room) (simp_all add: mp_tile_def T_def CI_def)
  then have "T \<le> CI" "tile * CI + ci + T \<le> (tile + 1) * CI" by simp_all
  moreover have "(tile + 1) * CI \<le> mp_out l" unfolding mp_out_def CI_def by (rule mult_right_mono) (use t in \<open>simp_all add: mp_tile_def\<close>)
  ultimately have T: "T \<le> CI" "tile * CI + ci + T \<le> mp_out l" "0 < T" using ok' by auto
  note dp = part_array [OF _ T(2,3), of "mp_ofmap l", folded dst_def]
  have r: "rows_ok T CI 1" "rows_ok T T 1" using T ok' by (auto simp: rows_ok_def)
  have total: "mp_total l = 2 * mp_half l + 2 * T" by (simp add: mp_total_def T_def)
  have "k mod 2 = 0 \<or> k mod 2 = 1" by linarith
  then have "unat l1 \<le> unat ob" "unat ob + 8 * T \<le> unat l1 + 8 * mp_total l" using buf(3) total by auto
  moreover have "holds (mp_ofmap l) (mp_out l)" "beside l1 (mp_total l) (mp_ofmap l) (mp_out l)" using ok' by blast+
  ultimately have ap: "beside ob T dst T" and dh: "holds dst T"
    using T(2) dp by (auto intro: beside_parts [of l1 "mp_total l" "mp_ofmap l" "mp_out l"])
  let ?s = "snd (snrt_dma_start_2d dst ob (of_nat (8 * T)) (of_nat (8 * CI)) (of_nat (8 * T)) (of_nat 1) st)"
  have "length (pending ?s) \<le> sum_list sched" using rows_request(2) [OF r, of dst ob st] idle sched by simp
  then obtain st' where st': "snrt_dma_wait_all exec sched ?s = Some st'" "pending st' = []" "dmem st' = dma_settled exec ?s"
    using wait_all_settles by blast
  have m: "dma_settled exec st = dmem st" by (simp add: dma_settled_def idle)
  have ap': "beside dst (extent T CI 1) ob (extent T T 1)" using ap beside_sym by (simp add: extent_1)
  have elts: "elt (dmem st') (mp_ofmap l) (tile * CI + ci + c) = elt (dmem st) ob c" if "c < T" for c
    using rows_elt [OF r(1) _ r(2) _ ap', of 0 c st] dh buf(4) that unfolding st'(3) m
    by (simp add: extent_1 dst_def elt_part del: of_nat_mult of_nat_add)
  have frame: "dmem st' y = dmem st y" if "\<forall>c<T. y \<notin> cell (mp_ofmap l) (tile * CI + ci + c)" for y
    using rows_frame [OF r(1) _ r(2), of dst y ob st] dh that unfolding st'(3) m rows_def dst_def cell_part
    by (simp add: extent_1 lessThan_Suc del: of_nat_mult of_nat_add)
  have "tile div unat (mp_OW l) * unat (mp_OW l) + tile mod unat (mp_OW l) = tile" by simp
  then have "maxpool_store exec sched l l1 k (tile, ci) st = snrt_dma_wait_all exec sched ?s"
    unfolding maxpool_store_def Let_def prod.case mp_sizes(3,5) [OF ok] dst_def ob_def mp_obuf_def
    by (simp add: CI_def T_def dbl_dbl)
  then show ?thesis using st' elts frame by auto
qed

end

section \<open>The layer as a double buffer\<close>

lemma mp_apart:
  assumes ok: "maxpool_ok d H l l1"
  defines "I \<equiv> mp_half l" and "T \<equiv> unat (mp_tile_ci l)"
  shows "beside (mp_ibuf l l1 (k mod 2)) I (mp_obuf l l1 (i mod 2)) T"
    and "Suc i = k \<Longrightarrow> beside (mp_ibuf l l1 (k mod 2)) I (mp_ibuf l l1 (i mod 2)) I"
    and "Suc i = k \<Longrightarrow> beside (mp_obuf l l1 (k mod 2)) T (mp_obuf l l1 (i mod 2)) T"
    and "beside (mp_ibuf l l1 (k mod 2)) I (mp_ofmap l) (mp_out l)" "beside (mp_obuf l l1 (k mod 2)) T (mp_ofmap l) (mp_out l)"
    and "span (mp_ibuf l l1 (k mod 2)) (8 * I) \<subseteq> span l1 (8 * mp_total l)" "span (mp_obuf l l1 (k mod 2)) (8 * T) \<subseteq> span l1 (8 * mp_total l)"
proof -
  have two: "n mod 2 = 0 \<or> n mod 2 = 1" "n mod 2 < 2" for n :: nat by linarith+
  note buf = mp_buffers [OF ok two(2), folded I_def T_def]
  have total: "mp_total l = 2 * I + 2 * T" by (simp add: mp_total_def I_def T_def)
  have far: "beside l1 (mp_total l) (mp_ofmap l) (mp_out l)" using ok by (simp add: maxpool_ok_def Let_def)
  have ib: "unat l1 \<le> unat (mp_ibuf l l1 (n mod 2))" "unat (mp_ibuf l l1 (n mod 2)) + 8 * I \<le> unat l1 + 8 * mp_total l"
    and ob: "unat l1 \<le> unat (mp_obuf l l1 (n mod 2))" "unat (mp_obuf l l1 (n mod 2)) + 8 * T \<le> unat l1 + 8 * mp_total l" for n
    using two(1) [of n] buf(1,3) [of n] total by auto
  show "beside (mp_ibuf l l1 (k mod 2)) I (mp_obuf l l1 (i mod 2)) T"
    using two(1) [of k] buf(1) [of k] buf(3) [of i] by (auto simp: beside_def)
  show "beside (mp_ibuf l l1 (k mod 2)) I (mp_ibuf l l1 (i mod 2)) I" "beside (mp_obuf l l1 (k mod 2)) T (mp_obuf l l1 (i mod 2)) T" if "Suc i = k"
  proof -
    have "k mod 2 = 0 \<and> i mod 2 = 1 \<or> k mod 2 = 1 \<and> i mod 2 = 0" using that by presburger
    then show "beside (mp_ibuf l l1 (k mod 2)) I (mp_ibuf l l1 (i mod 2)) I" "beside (mp_obuf l l1 (k mod 2)) T (mp_obuf l l1 (i mod 2)) T"
      using buf(1,3) [of k] buf(1,3) [of i] by (auto simp: beside_def)
  qed
  show "beside (mp_ibuf l l1 (k mod 2)) I (mp_ofmap l) (mp_out l)" "beside (mp_obuf l l1 (k mod 2)) T (mp_ofmap l) (mp_out l)"
    using far ib ob by (auto intro: beside_part)
  show "span (mp_ibuf l l1 (k mod 2)) (8 * I) \<subseteq> span l1 (8 * mp_total l)" "span (mp_obuf l l1 (k mod 2)) (8 * T) \<subseteq> span l1 (8 * mp_total l)"
    by (rule span_sub [OF ib], rule span_sub [OF ob])
qed

definition mp_inv :: "(dma_req \<Rightarrow> mem \<Rightarrow> mem) \<Rightarrow> (nat \<Rightarrow> nat list) \<Rightarrow> (nat \<Rightarrow> nat list) \<Rightarrow> snrt_defs \<Rightarrow> u32 set \<Rightarrow> maxpool_layer_t \<Rightarrow> ptr \<Rightarrow> (nat \<times> nat) list \<Rightarrow> mem \<Rightarrow>
    dma_state \<Rightarrow> bool" where
  "mp_inv exec sched_in sched_out d H l l1 tiles m0 s \<longleftrightarrow> dma_backend exec \<and> maxpool_ok d H l l1 \<and> distinct tiles \<and> (\<forall>t\<in>set tiles. mp_tile l t) \<and>
     (\<forall>k. unat (mp_FH l) \<le> sum_list (sched_in k) \<and> 1 \<le> sum_list (sched_out k)) \<and> pending s = [] \<and>
     (\<forall>y. y \<notin> span l1 (8 * mp_total l) \<union> span (mp_ofmap l) (8 * mp_out l) \<longrightarrow> dmem s y = m0 y)"

definition mp_loaded :: "maxpool_layer_t \<Rightarrow> ptr \<Rightarrow> (nat \<times> nat) list \<Rightarrow> mem \<Rightarrow> nat \<Rightarrow> dma_state \<Rightarrow> bool" where
  "mp_loaded l l1 tiles m0 k s \<longleftrightarrow> k < length tiles \<longrightarrow> (\<forall>fh<unat (mp_FH l). \<forall>fw<unat (mp_FW l). \<forall>c<unat (mp_tile_ci l).
     elt (dmem s) (mp_ibuf l l1 (k mod 2)) ((fh * unat (mp_FW l) + fw) * unat (mp_tile_ci l) + c) =
       elt m0 (mp_ifmap l) (mp_window l (fst (tiles ! k)) fh fw (snd (tiles ! k) + c)))"

definition mp_computed :: "fp_ops \<Rightarrow> snrt_defs \<Rightarrow> maxpool_layer_t \<Rightarrow> ptr \<Rightarrow> (nat \<times> nat) list \<Rightarrow> mem \<Rightarrow> nat \<Rightarrow> u32 \<Rightarrow> dma_state \<Rightarrow> bool" where
  "mp_computed F d l l1 tiles m0 k h s \<longleftrightarrow> k < length tiles \<longrightarrow> (\<forall>c<unat (mp_tile_ci l).
     c mod unat (snrt_cluster_compute_core_num d) = unat (snrt_global_core_idx d h) \<longrightarrow>
       elt (dmem s) (mp_obuf l l1 (k mod 2)) c = maxpool_spec F l m0 (fst (tiles ! k)) (snd (tiles ! k) + c))"

definition mp_stored :: "fp_ops \<Rightarrow> maxpool_layer_t \<Rightarrow> (nat \<times> nat) list \<Rightarrow> mem \<Rightarrow> nat \<Rightarrow> dma_state \<Rightarrow> bool" where
  "mp_stored F l tiles m0 k s \<longleftrightarrow> (\<forall>c<unat (mp_tile_ci l).
     elt (dmem s) (mp_ofmap l) (fst (tiles ! k) * unat (mp_CI l) + snd (tiles ! k) + c) = maxpool_spec F l m0 (fst (tiles ! k)) (snd (tiles ! k) + c))"

lemma mp_in_buffer:
  assumes "fh < unat (mp_FH l)" "fw < unat (mp_FW l)" "c < unat (mp_tile_ci l)"
  shows "(fh * unat (mp_FW l) + fw) * unat (mp_tile_ci l) + c < mp_half l"
  unfolding mp_half_def by (intro row_major_less assms)

lemma mp_in_output:
  assumes ok: "maxpool_ok d H l l1" and t: "mp_tile l t" and c: "c < unat (mp_tile_ci l)"
  shows "fst t * unat (mp_CI l) + snd t + c < mp_out l"
proof -
  have "snd t + unat (mp_tile_ci l) \<le> unat (mp_CI l)"
    using t ok by (intro dvd_room) (auto simp: mp_tile_def maxpool_ok_def Let_def)
  then have "fst t * unat (mp_CI l) + (snd t + c) < mp_out l"
    unfolding mp_out_def using t c by (intro row_major_less) (auto simp: mp_tile_def)
  then show ?thesis by (simp add: add.assoc)
qed

text \<open>What an operation preserves if it only writes beside what the others use.\<close>

lemma mp_keep:
  assumes "holds p n" "beside q k p n" "\<And>y. y \<notin> span q (8 * k) \<Longrightarrow> m' y = m y" "i < n"
  shows "elt m' p i = elt m p i"
  using elt_beside [OF assms(1,4,2,3)] .

lemma mp_inv_keep:
  assumes "mp_inv exec sched_in sched_out d H l l1 tiles m0 s" "pending s' = []" and A: "A \<subseteq> span l1 (8 * mp_total l) \<union> span (mp_ofmap l) (8 * mp_out l)"
    and s': "\<And>y. y \<notin> A \<Longrightarrow> dmem s' y = dmem s y"
  shows "mp_inv exec sched_in sched_out d H l l1 tiles m0 s'"
proof -
  have "dmem s' y = dmem s y" if "y \<notin> span l1 (8 * mp_total l) \<union> span (mp_ofmap l) (8 * mp_out l)" for y using s' A that by blast
  then show ?thesis using assms(1,2) by (simp add: mp_inv_def)
qed

lemma mp_load_law:
  assumes inv: "mp_inv exec sched_in sched_out d H l l1 tiles m0 s" and k: "k < length tiles"
  shows "\<exists>s'. maxpool_load exec (sched_in k) l l1 k (tiles ! k) s = Some s' \<and> mp_inv exec sched_in sched_out d H l l1 tiles m0 s' \<and> mp_loaded l l1 tiles m0 k s' \<and>
    (\<forall>i. Suc i = k \<longrightarrow> mp_loaded l l1 tiles m0 i s \<longrightarrow> mp_loaded l l1 tiles m0 i s') \<and>
    (\<forall>i h. mp_computed F d l l1 tiles m0 i h s \<longrightarrow> mp_computed F d l l1 tiles m0 i h s') \<and>
    (\<forall>i<length tiles. mp_stored F l tiles m0 i s \<longrightarrow> mp_stored F l tiles m0 i s')"
proof -
  obtain tile ci where t: "tiles ! k = (tile, ci)" by (cases "tiles ! k")
  note i' = inv [unfolded mp_inv_def]
  have ok: "maxpool_ok d H l l1" and ts: "\<And>i. i < length tiles \<Longrightarrow> mp_tile l (tiles ! i)" using i' by auto
  note ap = mp_apart [OF ok] and ok' = ok [unfolded maxpool_ok_def Let_def]
  obtain s' where s': "maxpool_load exec (sched_in k) l l1 k (tile, ci) s = Some s'" "pending s' = []"
    "\<forall>fh<unat (mp_FH l). \<forall>fw<unat (mp_FW l). \<forall>c<unat (mp_tile_ci l). elt (dmem s') (mp_ibuf l l1 (k mod 2)) ((fh * unat (mp_FW l) + fw) * unat (mp_tile_ci l) + c) =
       elt (dmem s) (mp_ifmap l) (mp_window l tile fh fw (ci + c))"
    "\<forall>y. y \<notin> span (mp_ibuf l l1 (k mod 2)) (8 * mp_half l) \<longrightarrow> dmem s' y = dmem s y"
    using dma_backend.maxpool_load_result [of exec d H l l1 tile ci s "sched_in k" k] i' ts [OF k] t by auto
  have src: "elt (dmem s) (mp_ifmap l) i = elt m0 (mp_ifmap l) i" if "i < mp_in l" for i
  proof (rule elt_span_cong [OF _ that])
    fix y assume "y \<in> span (mp_ifmap l) (8 * mp_in l)"
    then have "y \<notin> span l1 (8 * mp_total l) \<union> span (mp_ofmap l) (8 * mp_out l)"
      using beside_span [of l1 "mp_total l" "mp_ifmap l" "mp_in l"] beside_span [of "mp_ofmap l" "mp_out l" "mp_ifmap l" "mp_in l"] ok' by blast
    then show "dmem s y = m0 y" using i' by blast
  qed (use ok' in blast)
  have out_kept: "elt (dmem s') (mp_ofmap l) j = elt (dmem s) (mp_ofmap l) j" if "j < mp_out l" for j
    by (rule mp_keep [OF _ ap(4) [of k] _ that]) (use ok' s'(4) in blast)+
  have "mp_window l tile fh fw (ci + c) < mp_in l" if "fh < unat (mp_FH l)" "fw < unat (mp_FW l)" "c < unat (mp_tile_ci l)" for fh fw c
    using mp_window_bound [OF ok, of tile ci fh fw] ts [OF k] t that by (simp add: mp_window_def)
  then have "mp_loaded l l1 tiles m0 k s'" using s'(3) src t by (simp add: mp_loaded_def)
  moreover have "mp_inv exec sched_in sched_out d H l l1 tiles m0 s'" 
    by (rule mp_inv_keep [OF inv s'(2), of "span (mp_ibuf l l1 (k mod 2)) (8 * mp_half l)"]) (use ap(6) [of k] s'(4) in blast)+
  moreover have "mp_loaded l l1 tiles m0 i s'" if "Suc i = k" "mp_loaded l l1 tiles m0 i s" for i
    using that(2) mp_keep [OF mp_buffers(2) [OF ok] ap(2) [OF that(1)], of "dmem s'" "dmem s"] s'(4) mp_in_buffer unfolding mp_loaded_def by simp
  moreover have "mp_computed F d l l1 tiles m0 i h s'" if "mp_computed F d l l1 tiles m0 i h s" for i h
    using that mp_keep [OF mp_buffers(4) [OF ok] ap(1) [of k i], of "dmem s'" "dmem s"] s'(4) unfolding mp_computed_def by simp
  moreover have "mp_stored F l tiles m0 i s'" if "i < length tiles" "mp_stored F l tiles m0 i s" for i
  proof (unfold mp_stored_def, intro allI impI)
    fix c assume c: "c < unat (mp_tile_ci l)"
    from that(2) c show "elt (dmem s') (mp_ofmap l) (fst (tiles ! i) * unat (mp_CI l) + snd (tiles ! i) + c) = maxpool_spec F l m0 (fst (tiles ! i)) (snd (tiles ! i) + c)"
      unfolding out_kept [OF mp_in_output [OF ok ts [OF that(1)] c]] mp_stored_def by blast
  qed
  ultimately show ?thesis using s'(1) t by auto
qed

lemma mp_compute_law:
  fixes F :: fp_ops
  assumes inv: "mp_inv exec sched_in sched_out d H l l1 tiles m0 s" and k: "k < length tiles" and h: "h \<in> H" and loaded: "mp_loaded l l1 tiles m0 k s"
  defines "s' \<equiv> maxpool_compute F d l l1 k h s"
  shows "mp_inv exec sched_in sched_out d H l l1 tiles m0 s'" "mp_computed F d l l1 tiles m0 k h s'"
    and "mp_loaded l l1 tiles m0 i s \<Longrightarrow> mp_loaded l l1 tiles m0 i s'"
    and "h' \<noteq> h \<Longrightarrow> mp_computed F d l l1 tiles m0 k h' s \<Longrightarrow> mp_computed F d l l1 tiles m0 k h' s'"
    and "Suc i = k \<Longrightarrow> mp_computed F d l l1 tiles m0 i h' s \<Longrightarrow> mp_computed F d l l1 tiles m0 i h' s'"
    and "i < length tiles \<Longrightarrow> mp_stored F l tiles m0 i s \<Longrightarrow> mp_stored F l tiles m0 i s'"
proof -
  note i' = inv [unfolded mp_inv_def]
  have ok: "maxpool_ok d H l l1" and ts: "\<And>i. i < length tiles \<Longrightarrow> mp_tile l (tiles ! i)" using i' by auto
  note ap = mp_apart [OF ok] and ok' = ok [unfolded maxpool_ok_def Let_def] and r = maxpool_compute_result [OF ok h, where F = F and k = k and st = s, folded s'_def]
  have pos: "0 < unat (mp_FH l)" "0 < unat (mp_FW l)" using ok' by (auto simp: mp_half_def)
  have val: "maxpool_value F (unat (mp_FH l)) (unat (mp_FW l)) (elt (dmem s) (mp_ibuf l l1 (k mod 2))) (unat (mp_tile_ci l)) c =
      maxpool_spec F l m0 (fst (tiles ! k)) (snd (tiles ! k) + c)" if "c < unat (mp_tile_ci l)" for c
    by (rule maxpool_value_spec [OF _ pos]) (use loaded k that in \<open>simp add: mp_loaded_def\<close>)
  have out_kept: "elt (dmem s') (mp_ofmap l) j = elt (dmem s) (mp_ofmap l) j" if "j < mp_out l" for j
    by (rule mp_keep [OF _ ap(5) [of k] _ that]) (use ok' r(1) in blast)+
  show "mp_inv exec sched_in sched_out d H l l1 tiles m0 s'" 
    by (rule mp_inv_keep [OF inv, of _ "span (mp_obuf l l1 (k mod 2)) (8 * unat (mp_tile_ci l))"]) (use i' r(1,3) ap(7) [of k] in auto)
  show "mp_computed F d l l1 tiles m0 k h s'" using r(2) val by (simp add: mp_computed_def)
  show "mp_loaded l l1 tiles m0 i s'" if "mp_loaded l l1 tiles m0 i s"
    using that mp_keep [OF mp_buffers(2) [OF ok] ap(1) [of i k, THEN beside_sym [THEN iffD1]], of "dmem s'" "dmem s"] r(1) mp_in_buffer unfolding mp_loaded_def by simp
  show "mp_computed F d l l1 tiles m0 k h' s'" if "h' \<noteq> h" "mp_computed F d l l1 tiles m0 k h' s"
    using that(2) r(2) val by (simp add: mp_computed_def)
  show "mp_computed F d l l1 tiles m0 i h' s'" if "Suc i = k" "mp_computed F d l l1 tiles m0 i h' s"
    using that(2) mp_keep [OF mp_buffers(4) [OF ok] ap(3) [OF that(1)], of "dmem s'" "dmem s"] r(1) unfolding mp_computed_def by simp
  show "mp_stored F l tiles m0 i s'" if "i < length tiles" "mp_stored F l tiles m0 i s"
  proof (unfold mp_stored_def, intro allI impI)
    fix c assume c: "c < unat (mp_tile_ci l)"
    from that(2) c show "elt (dmem s') (mp_ofmap l) (fst (tiles ! i) * unat (mp_CI l) + snd (tiles ! i) + c) = maxpool_spec F l m0 (fst (tiles ! i)) (snd (tiles ! i) + c)"
      unfolding out_kept [OF mp_in_output [OF ok ts [OF that(1)] c]] mp_stored_def by blast
  qed
qed

text \<open>Different tiles have different elements in the output.\<close>

lemma mp_tiles_apart:
  assumes t: "mp_tile l t" "mp_tile l t'" "t \<noteq> t'" and T: "unat (mp_tile_ci l) dvd unat (mp_CI l)"
    and c: "c < unat (mp_tile_ci l)" "c' < unat (mp_tile_ci l)"
  shows "fst t * unat (mp_CI l) + snd t + c \<noteq> fst t' * unat (mp_CI l) + snd t' + c'"
proof
  let ?CI = "unat (mp_CI l)" and ?T = "unat (mp_tile_ci l)"
  assume "fst t * ?CI + snd t + c = fst t' * ?CI + snd t' + c'"
  moreover have "snd t + ?T \<le> ?CI" "snd t' + ?T \<le> ?CI" using t T by (auto simp: mp_tile_def intro: dvd_room)
  ultimately have "fst t = fst t' \<and> snd t + c = snd t' + c'" using c by (intro row_major_inject [of _ ?CI _ ?CI]) (simp_all add: add.assoc)
  moreover have "snd t = snd t div ?T * ?T" "snd t' = snd t' div ?T * ?T" using t by (auto simp: mp_tile_def)
  ultimately have "fst t = fst t'" "snd t = snd t'" using row_major_inject [OF c order_refl, of "snd t div ?T" "snd t' div ?T"] by metis+
  then show False using t(3) by (simp add: prod_eq_iff)
qed

lemma mp_store_law:
  assumes inv: "mp_inv exec sched_in sched_out d H l l1 tiles m0 s" and k: "k < length tiles" and fin: "\<And>h. h \<in> H \<Longrightarrow> mp_computed F d l l1 tiles m0 k h s"
  shows "\<exists>s'. maxpool_store exec (sched_out k) l l1 k (tiles ! k) s = Some s' \<and> mp_inv exec sched_in sched_out d H l l1 tiles m0 s' \<and> mp_stored F l tiles m0 k s' \<and>
    (\<forall>i. mp_loaded l l1 tiles m0 i s \<longrightarrow> mp_loaded l l1 tiles m0 i s') \<and>
    (\<forall>i h. mp_computed F d l l1 tiles m0 i h s \<longrightarrow> mp_computed F d l l1 tiles m0 i h s') \<and>
    (\<forall>i<length tiles. i \<noteq> k \<longrightarrow> mp_stored F l tiles m0 i s \<longrightarrow> mp_stored F l tiles m0 i s')"
proof -
  obtain tile ci where t: "tiles ! k = (tile, ci)" by (cases "tiles ! k")
  let ?CI = "unat (mp_CI l)" and ?T = "unat (mp_tile_ci l)" and ?P = "unat (snrt_cluster_compute_core_num d)"
  note i' = inv [unfolded mp_inv_def]
  have ok: "maxpool_ok d H l l1" and ts: "\<And>i. i < length tiles \<Longrightarrow> mp_tile l (tiles ! i)" using i' by auto
  note ap = mp_apart [OF ok] and ok' = ok [unfolded maxpool_ok_def Let_def]
  obtain s' where s': "maxpool_store exec (sched_out k) l l1 k (tile, ci) s = Some s'" "pending s' = []"
    "\<forall>c<?T. elt (dmem s') (mp_ofmap l) (tile * ?CI + ci + c) = elt (dmem s) (mp_obuf l l1 (k mod 2)) c"
    "\<forall>y. (\<forall>c<?T. y \<notin> cell (mp_ofmap l) (tile * ?CI + ci + c)) \<longrightarrow> dmem s' y = dmem s y"
    using dma_backend.maxpool_store_result [of exec d H l l1 tile ci s "sched_out k" k] i' ts [OF k] t by auto
  have holds: "holds (mp_ofmap l) (mp_out l)" using ok' by blast
  have out: "tile * ?CI + ci + c < mp_out l" if "c < ?T" for c using mp_in_output [OF ok ts [OF k] that] t by simp
  have frame: "dmem s' y = dmem s y" if y: "y \<notin> span (mp_ofmap l) (8 * mp_out l)" for y
    using s'(4) y cell_span [OF holds out] by blast
  have ifr: "elt (dmem s') (mp_ibuf l l1 (i mod 2)) j = elt (dmem s) (mp_ibuf l l1 (i mod 2)) j" if "j < mp_half l" for i j
    by (rule mp_keep [OF mp_buffers(2) [OF ok] ap(4) [THEN beside_sym [THEN iffD1]] frame that]) simp_all
  have ofr: "elt (dmem s') (mp_obuf l l1 (i mod 2)) j = elt (dmem s) (mp_obuf l l1 (i mod 2)) j" if "j < ?T" for i j
    by (rule mp_keep [OF mp_buffers(4) [OF ok] ap(5) [THEN beside_sym [THEN iffD1]] frame that]) simp_all
  have inv': "mp_inv exec sched_in sched_out d H l l1 tiles m0 s'" by (rule mp_inv_keep [OF inv s'(2), of "span (mp_ofmap l) (8 * mp_out l)"]) (use frame in auto)
  have "elt (dmem s) (mp_obuf l l1 (k mod 2)) c = maxpool_spec F l m0 tile (ci + c)" if c: "c < ?T" for c
  proof -
    have ids: "(\<lambda>h. unat (snrt_global_core_idx d h)) ` H = {..<?P}" "0 < ?P" using ok' by blast+
    then have "c mod ?P \<in> (\<lambda>h. unat (snrt_global_core_idx d h)) ` H" by simp
    then obtain h where "h \<in> H" "unat (snrt_global_core_idx d h) = c mod ?P" by auto
    then show ?thesis using fin [of h] c k t by (simp add: mp_computed_def)
  qed
  then have "mp_stored F l tiles m0 k s'" using s'(3) t by (simp add: mp_stored_def)
  moreover have "mp_stored F l tiles m0 i s'" if i: "i < length tiles" "i \<noteq> k" "mp_stored F l tiles m0 i s" for i
  proof (unfold mp_stored_def, intro allI impI)
    fix c assume c: "c < ?T"
    let ?j = "fst (tiles ! i) * ?CI + snd (tiles ! i) + c"
    have "tiles ! i \<noteq> tiles ! k" using i' i k by (simp add: nth_eq_iff_index_eq)
    then have ne: "?j \<noteq> tile * ?CI + ci + c'" if "c' < ?T" for c'
      using mp_tiles_apart [OF ts [OF i(1)] ts [OF k] _ _ c that] ok' t by auto
    have "elt (dmem s') (mp_ofmap l) ?j = elt (dmem s) (mp_ofmap l) ?j"
    proof (rule elt_cell)
      fix y assume y: "y \<in> cell (mp_ofmap l) ?j"
      have "y \<notin> cell (mp_ofmap l) (tile * ?CI + ci + c')" if "c' < ?T" for c'
        using cells_disjoint [OF holds mp_in_output [OF ok ts [OF i(1)] c] out [OF that] ne [OF that]] y by blast
      then show "dmem s' y = dmem s y" using s'(4) by blast
    qed
    then show "elt (dmem s') (mp_ofmap l) ?j = maxpool_spec F l m0 (fst (tiles ! i)) (snd (tiles ! i) + c)"
      using i(3) c by (simp add: mp_stored_def)
  qed
  moreover have "mp_loaded l l1 tiles m0 i s'" if "mp_loaded l l1 tiles m0 i s" for i
    using that unfolding mp_loaded_def by (simp add: ifr mp_in_buffer)
  moreover have "mp_computed F d l l1 tiles m0 i h s'" if "mp_computed F d l l1 tiles m0 i h s" for i h
    using that unfolding mp_computed_def by (simp add: ofr)
  ultimately show ?thesis using s'(1) inv' t by auto
qed

interpretation mp: double_buffer "length tiles" H "\<lambda>k. maxpool_load exec (sched_in k) l l1 k (tiles ! k)" "\<lambda>k h st. Some (maxpool_compute F d l l1 k h st)"
    "\<lambda>k. maxpool_store exec (sched_out k) l l1 k (tiles ! k)" "mp_inv exec sched_in sched_out d H l l1 tiles m0" "mp_loaded l l1 tiles m0" "\<lambda>_ _ _. True"
    "mp_computed F d l l1 tiles m0" "mp_stored F l tiles m0"
  for exec sched_in sched_out F d H l l1 tiles m0
proof (unfold_locales, goal_cases)
  case (1 s k)
  then show ?case using mp_load_law [of exec sched_in sched_out d H l l1 tiles m0 s k F] by blast
next
  case (2 s k h)
  show ?case by (intro exI [of _ "maxpool_compute F d l l1 k h s"]) (use mp_compute_law [OF 2(1,2,3,4), where F = F] in blast)
next
  case (3 s k)
  then show ?case using mp_store_law [of exec sched_in sched_out d H l l1 tiles m0 s k F] by blast
qed

section \<open>Properties\<close>

text \<open>
  C11. \<open>maxpool_layer\<close> on a cluster whose compute cores have the global indices from 0 on (the first one): with double buffering, for every order in
  which the cores of the cluster work between two barriers, every output pixel of the cluster gets for every channel the maximum over its
  window, and nothing else changes but the buffers in L1 and the output.
\<close>

theorem maxpool_layer_correct:
  assumes exec: "dma_backend exec" and ok: "maxpool_ok d H l l1" and order: "orders_ok H order" and idle: "pending st = []"
    and sched: "\<And>k. unat (mp_FH l) \<le> sum_list (sched_in k)" "\<And>k. 1 \<le> sum_list (sched_out k)"
    and some: "unat (snrt_cluster_idx d dm) < unat (mp_OH l * mp_OW l)" "0 < mp_CI l"
  shows "\<exists>st'. maxpool_layer exec sched_in sched_out F d dm order l l1 st = Some st' \<and>
    (\<forall>tile\<in>set (loop_values (unat (snrt_cluster_idx d dm)) (unat (mp_OH l * mp_OW l)) (unat (snrt_cluster_num d))). \<forall>ch<unat (mp_CI l).
      elt (dmem st') (mp_ofmap l) (tile * unat (mp_CI l) + ch) = maxpool_spec F l (dmem st) tile ch) \<and>
    (\<forall>y. y \<notin> span l1 (8 * mp_total l) \<union> span (mp_ofmap l) (8 * mp_out l) \<longrightarrow> dmem st' y = dmem st y)"
proof -
  define tiles where "tiles = maxpool_tiles l (unat (snrt_cluster_idx d dm)) (unat (snrt_cluster_num d))"
  note ok' = ok [unfolded maxpool_ok_def Let_def]
  let ?T = "unat (mp_tile_ci l)" and ?CI = "unat (mp_CI l)"
  have n: "unat (mp_OH l * mp_OW l) = unat (mp_OH l) * unat (mp_OW l)" using ok' by (intro unat_mult_nowrap) simp
  have ts: "set tiles = set (loop_values (unat (snrt_cluster_idx d dm)) (unat (mp_OH l * mp_OW l)) (unat (snrt_cluster_num d))) \<times> set (loop_values 0 ?CI ?T)"
    "distinct tiles"
    by (simp_all add: tiles_def maxpool_tiles_def distinct_product distinct_loop_values)
  have "(unat (snrt_cluster_idx d dm), 0) \<in> set tiles" unfolding ts using some by (simp add: set_loop_values word_gt_0 unat_gt_0)
  then have ne: "tiles \<noteq> []" "0 < length tiles" by auto
  have "mp_tile l t" if "t \<in> set tiles" for t using that unfolding ts by (auto simp: mp_tile_def set_loop_values n)
  then have inv: "mp_inv exec sched_in sched_out d H l l1 tiles (dmem st) st" using exec ok idle sched ts(2) by (simp add: mp_inv_def)
  obtain st' where st': "db_run (length tiles) (\<lambda>k. maxpool_load exec (sched_in k) l l1 k (tiles ! k)) (\<lambda>k h st. Some (maxpool_compute F d l l1 k h st))
      (\<lambda>k. maxpool_store exec (sched_out k) l l1 k (tiles ! k)) order st = Some st'" "mp_inv exec sched_in sched_out d H l l1 tiles (dmem st) st'"
      "\<forall>k<length tiles. mp_stored F l tiles (dmem st) k st'"
    using mp.run_stores_all [OF inv TrueI ne(2) order, of F] by blast
  have "elt (dmem st') (mp_ofmap l) (tile * ?CI + ch) = maxpool_spec F l (dmem st) tile ch"
    if tile: "tile \<in> set (loop_values (unat (snrt_cluster_idx d dm)) (unat (mp_OH l * mp_OW l)) (unat (snrt_cluster_num d)))" and ch: "ch < ?CI" for tile ch
  proof -
    have "(tile, ch - ch mod ?T) \<in> set tiles" unfolding ts using tile ch by (auto simp: set_loop_values dvd_minus_mod)
    then obtain k where k: "k < length tiles" "tiles ! k = (tile, ch - ch mod ?T)" by (metis in_set_conv_nth)
    have "ch mod ?T < ?T" using ok' by simp
    then show ?thesis using st'(3) k unfolding mp_stored_def by (metis add.assoc diff_add fst_conv mod_less_eq_dividend snd_conv le_add_diff_inverse2)
  qed
  then show ?thesis using st'(1,2) ne(1) unfolding maxpool_layer_def Let_def tiles_def [symmetric] by (auto simp: mp_inv_def)
qed

text \<open>One row of two output pixels on the first of two clusters, with four channels in tiles of two.\<close>

definition example_pool :: maxpool_layer_t where
  "example_pool = \<lparr>mp_CO = 4, mp_CI = 4, mp_IH = 2, mp_IW = 4, mp_OH = 1, mp_OW = 2, mp_FH = 2, mp_FW = 2, mp_tile_ci = 2,
     mp_ifmap = 0x80000000, mp_ofmap = 0x80001000, mp_dtype = FP64\<rparr>"

theorem maxpool_layer_correct_witness:
  "\<exists>st'. maxpool_layer copy_seq (\<lambda>_. [1, 1]) (\<lambda>_. [1]) int_fpu example_defs 2 (\<lambda>_. [Compute_core 1, Dm_core, Compute_core 0]) example_pool 0x10000000 counting_dma = Some st' \<and>
    (\<forall>ch<4. elt (dmem st') 0x80001000 ch = maxpool_spec int_fpu example_pool ucast 0 ch)"
proof -
  have defs: "snrt_cluster_compute_core_num example_defs = 2" "snrt_cluster_num example_defs = 2" "snrt_cluster_idx example_defs 2 = 0"
    "snrt_global_core_idx example_defs 0 = 0" "snrt_global_core_idx example_defs 1 = 1"
    by (simp_all add: example_defs_def team_defs)
  have fields: "mp_CI example_pool = 4" "mp_OH example_pool = 1" "mp_OW example_pool = 2" "mp_FH example_pool = 2" "mp_FW example_pool = 2" "mp_IW example_pool = 4"
    "mp_tile_ci example_pool = 2" "mp_ifmap example_pool = 0x80000000" "mp_ofmap example_pool = 0x80001000"
    by (simp_all add: example_pool_def)
  have sizes: "mp_half example_pool = 8" "mp_total example_pool = 20" "mp_in example_pool = 32" "mp_out example_pool = 8"
    by (simp_all add: mp_half_def mp_total_def mp_in_def mp_out_def fields)
  have "{..<2 :: nat} = {0, 1}" by auto
  then have ok: "maxpool_ok example_defs {0, 1} example_pool 0x10000000"
    by (simp add: maxpool_ok_def Let_def defs fields sizes holds_def beside_def)
  have order: "orders_ok {0, 1} (\<lambda>_. [Compute_core 1, Dm_core, Compute_core 0])" by (auto simp: orders_ok_def)
  have idle: "pending counting_dma = []" and m: "dmem counting_dma = ucast" by (simp_all add: counting_dma_def dma_reset_def)
  have here: "0 \<in> set (loop_values (unat (snrt_cluster_idx example_defs 2)) (unat (mp_OH example_pool * mp_OW example_pool)) (unat (snrt_cluster_num example_defs)))"
    by (simp add: set_loop_values defs fields)
  have "\<exists>st'. maxpool_layer copy_seq (\<lambda>_. [1, 1]) (\<lambda>_. [1]) int_fpu example_defs 2 (\<lambda>_. [Compute_core 1, Dm_core, Compute_core 0]) example_pool 0x10000000 counting_dma = Some st' \<and>
      (\<forall>ch<unat (mp_CI example_pool). elt (dmem st') (mp_ofmap example_pool) (0 * unat (mp_CI example_pool) + ch) = maxpool_spec int_fpu example_pool (dmem counting_dma) 0 ch)"
    using maxpool_layer_correct [OF seq_engine.dma_backend_axioms ok order idle, of "\<lambda>_. [1, 1]" "\<lambda>_. [1]" 2 int_fpu] here
    by (simp add: fields defs) (elim exE conjE, rule exI, rule conjI, assumption, drule (1) bspec, simp)
  then show ?thesis by (simp add: fields m)
qed

end
