(* ===== verification/Gelu.thy ===== *)
theory Gelu
  imports Layers Gemm
begin

text \<open>
  \<open>sw/dnn/gelu/src/gelu.h\<close>: the GELU activation of a feature map, distributed over the clusters. The hyperbolic tangent of the mathematical
  library is a parameter.
\<close>

section \<open>The activation function\<close>

text \<open>The constants of the C code: 0.5, 2.0, \<open>M_PI\<close>, 0.044715, 1.4142135623730951 and -1.0.\<close>

definition f64_half :: f64 where "f64_half = 0x3FE0000000000000"
definition f64_2 :: f64 where "f64_2 = 0x4000000000000000"
definition f64_pi :: f64 where "f64_pi = 0x400921FB54442D18"
definition f64_c :: f64 where "f64_c = 0x3FA6E4E26D4801F7"
definition f64_sqrt2 :: f64 where "f64_sqrt2 = 0x3FF6A09E667F3BCD"
definition f64_neg :: "f64 \<Rightarrow> f64" where "f64_neg x = flip_bit 63 x"

definition gelu_activation_fp64 :: "fp_ops \<Rightarrow> (f64 \<Rightarrow> f64) \<Rightarrow> f64 \<Rightarrow> f64" where
  "gelu_activation_fp64 F tanh x =
     fmul F (fmul F f64_half x)
       (fadd F f64_1 (tanh (fmul F (fsqrt F (fdiv F f64_2 f64_pi)) (fadd F x (fmul F (fmul F (fmul F f64_c x) x) x)))))"

text \<open>The variant that the code has for reference, with \<open>a\<close> and \<open>b\<close> converted to double precision.\<close>

definition sigmoid_gelu_fp64 :: "fp_ops \<Rightarrow> f64 \<Rightarrow> f64 \<Rightarrow> f64 \<Rightarrow> f64" where
  "sigmoid_gelu_fp64 F x a b =
     (let sign = if flt F f64_0 x then f64_1 else f64_neg f64_1;
          sqrt2_inv = fdiv F f64_1 f64_sqrt2;
          x_scaled = fmul F sqrt2_inv x;
          arg = if flt F (f64_neg b) (fabs F x_scaled) then f64_neg b else fabs F x_scaled;
          l = fmul F sign (fadd F (fmul F (fmul F a arg) arg) f64_1)
      in fmul F (fmul F x f64_half) (fadd F f64_1 l))"

section \<open>The layer\<close>

record gelu_layer_t =
  gl_size :: u32
  gl_ifmap :: ptr
  gl_ofmap :: ptr
  gl_dtype :: precision_t

text \<open>Every compute core computes the whole share of the cluster.\<close>

definition gelu_fp64 :: "fp_ops \<Rightarrow> (f64 \<Rightarrow> f64) \<Rightarrow> snrt_defs \<Rightarrow> u32 \<Rightarrow> ptr \<Rightarrow> ptr \<Rightarrow> u32 \<Rightarrow> mem \<Rightarrow> mem" where
  "gelu_fp64 F tanh d hartid input output sz m =
     (if snrt_is_compute_core d hartid
      then for_upto (unat sz) (\<lambda>i m. store64 (dbl output (of_nat i)) (gelu_activation_fp64 F tanh (load64 (dbl input (of_nat i)) m)) m) m
      else m)"

definition gelu_layer ::
  "(dma_req \<Rightarrow> mem \<Rightarrow> mem) \<Rightarrow> nat list \<Rightarrow> nat list \<Rightarrow> fp_ops \<Rightarrow> (f64 \<Rightarrow> f64) \<Rightarrow> snrt_defs \<Rightarrow> u32 \<Rightarrow> u32 list \<Rightarrow> ptr \<Rightarrow> gelu_layer_t \<Rightarrow> dma_state \<Rightarrow> dma_state option" where
  "gelu_layer exec sched_in sched_out F tanh d dm hs l1_next l st =
     (let cluster_fmap_size = gl_size l div snrt_cluster_num d;
          cluster_fmap_bytes = cluster_fmap_size * 8;
          l1_ifmap = l1_next; l1_ofmap = l1_ifmap + cluster_fmap_bytes;
          cluster_offset = cluster_fmap_bytes * snrt_cluster_idx d dm;
          l3_ifmap = gl_ifmap l + cluster_offset; l3_ofmap = gl_ofmap l + cluster_offset
      in Option.bind (snrt_dma_wait_all exec sched_in (snd (snrt_dma_start_1d l1_ifmap l3_ifmap cluster_fmap_bytes st))) (\<lambda>st.
           let st = st\<lparr>dmem := fold (\<lambda>h. gelu_fp64 F tanh d h l1_ifmap l1_ofmap cluster_fmap_size) hs (dmem st)\<rparr>
           in snrt_dma_wait_all exec sched_out (snd (snrt_dma_start_1d l3_ofmap l1_ofmap cluster_fmap_bytes st))))"

section \<open>What the layer computes\<close>

lemma gelu_cores_result:
  fixes F :: fp_ops and tanh :: "f64 \<Rightarrow> f64" and m :: mem
  assumes out: "holds output n" and inp: "holds input n" and apart: "beside output n input n" and sz: "unat sz = n"
    and hs: "\<exists>h\<in>set hs. snrt_is_compute_core d h"
  defines "m' \<equiv> fold (\<lambda>h. gelu_fp64 F tanh d h input output sz) hs m"
  shows "i < n \<Longrightarrow> elt m' output i = gelu_activation_fp64 F tanh (elt m input i)"
    and "y \<notin> span output (8 * n) \<Longrightarrow> m' y = m y"
proof -
  define V where "V i m = gelu_activation_fp64 F tanh (elt m input i)" for i m
  define xs where "xs = concat (map (\<lambda>h. if snrt_is_compute_core d h then [0..<n] else []) hs)"
  have one: "gelu_fp64 F tanh d h input output sz m = fold (\<lambda>i m. store64 (dbl output (of_nat i)) (V i m) m) (if snrt_is_compute_core d h then [0..<n] else []) m" for h m
    by (simp add: gelu_fp64_def for_upto_def V_def elt_def sz)
  have m': "m' = fold (\<lambda>i m. store64 (dbl output (of_nat i)) (V i m) m) xs m"
    unfolding m'_def xs_def one by (induction hs arbitrary: m) simp_all
  have xs: "set xs = {..<n}" unfolding xs_def using hs by auto
  have V: "V i m = V i m'" if "i < n" "\<And>y. y \<notin> span output (8 * n) \<Longrightarrow> m y = m' y" for i m m'
    unfolding V_def using elt_beside [OF inp that(1) apart that(2)] by simp
  show "m' y = m y" if "y \<notin> span output (8 * n)"
    unfolding m' by (rule fold_stores(1) [OF out _ V that]) (use xs in auto)
  show "elt m' output i = gelu_activation_fp64 F tanh (elt m input i)" if i: "i < n"
  proof -
    have "elt m' output i = (if i \<in> set xs then V i m else elt m output i)"
      unfolding m' by (rule fold_stores(2) [OF out _ V i]) (use xs in auto)
    then show ?thesis using i xs by (simp add: V_def)
  qed
qed

text \<open>
  C25. \<open>gelu_layer\<close> applies the activation function to every element of the share of the cluster, and changes nothing else but its buffers in
  L1; all compute cores of the cluster compute the same elements.
\<close>

theorem gelu_layer_correct:
  fixes l :: gelu_layer_t and d :: snrt_defs and dm :: u32
  assumes exec: "dma_backend exec" and idle: "pending st = []" and sched: "1 \<le> sum_list sched_in" "1 \<le> sum_list sched_out"
    and hs: "\<exists>h\<in>set hs. snrt_is_compute_core d h"
  defines "n \<equiv> unat (gl_size l div snrt_cluster_num d)"
  defines "src \<equiv> dbl (gl_ifmap l) (of_nat n * snrt_cluster_idx d dm)" and "dst \<equiv> dbl (gl_ofmap l) (of_nat n * snrt_cluster_idx d dm)"
  assumes l1: "unat l1 + 8 * (n + n) < 2 ^ 32" and io: "holds src n" "holds dst n" "beside l1 (n + n) src n" "beside l1 (n + n) dst n" "beside dst n src n"
  shows "\<exists>st'. gelu_layer exec sched_in sched_out F tanh d dm hs l1 l st = Some st' \<and>
    (\<forall>i<n. elt (dmem st') dst i = gelu_activation_fp64 F tanh (elt (dmem st) src i)) \<and>
    (\<forall>y. y \<notin> span l1 (8 * (n + n)) \<union> span dst (8 * n) \<longrightarrow> dmem st' y = dmem st y)"
proof -
  define lo where "lo = dbl l1 (of_nat n)"
  have sz: "gl_size l div snrt_cluster_num d = of_nat n" by (simp add: n_def)
  have bytes: "of_nat n * 8 = (of_nat (8 * n) :: u32)" by simp
  note nx = dbl_next [OF l1, folded lo_def]
  have l1a: "array_ok l1 n" using l1 by (simp add: array_ok_def holds_def)
  have ap: "beside l1 n src n" "beside lo n dst n" "beside lo n l1 n"
    using io nx by (auto simp: beside_def)
  obtain s1 where s1: "snrt_dma_wait_all exec sched_in (snd (snrt_dma_start_1d l1 src (of_nat (8 * n)) st)) = Some s1" "pending s1 = []"
      "\<And>i. i < n \<Longrightarrow> elt (dmem s1) l1 i = elt (dmem st) src i" "\<And>y. y \<notin> span l1 (8 * n) \<Longrightarrow> dmem s1 y = dmem st y"
    using dma_backend.transfer_wait [OF exec idle sched(1) l1a io(1) ap(1)] by metis
  define s2 where "s2 = s1\<lparr>dmem := fold (\<lambda>h. gelu_fp64 F tanh d h l1 lo (of_nat n)) hs (dmem s1)\<rparr>"
  have n32: "unat (of_nat n :: u32) = n" using l1 by (intro unat_of_nat_small) simp
  have lo: "holds lo n" "holds l1 n" using nx(2) l1a by (simp_all add: array_ok_def)
  have k: "elt (dmem s2) lo i = gelu_activation_fp64 F tanh (elt (dmem s1) l1 i)" if "i < n" for i
    unfolding s2_def using gelu_cores_result(1) [OF lo ap(3) n32 hs that] by simp
  have kf: "dmem s2 y = dmem s1 y" if "y \<notin> span lo (8 * n)" for y
    unfolding s2_def using gelu_cores_result(2) [OF lo ap(3) n32 hs that] by simp
  have da: "array_ok dst n" using io(2) l1 by (simp add: array_ok_def)
  have "pending s2 = []" using s1(2) by (simp add: s2_def)
  then obtain s3 where s3: "snrt_dma_wait_all exec sched_out (snd (snrt_dma_start_1d dst lo (of_nat (8 * n)) s2)) = Some s3"
      "\<And>i. i < n \<Longrightarrow> elt (dmem s3) dst i = elt (dmem s2) lo i" "\<And>y. y \<notin> span dst (8 * n) \<Longrightarrow> dmem s3 y = dmem s2 y"
    using dma_backend.transfer_wait [OF exec _ sched(2) da lo(1) ap(2) [THEN beside_sym [THEN iffD1]], of s2] by metis
  have "span l1 (8 * n) \<subseteq> span l1 (8 * (n + n))" "span lo (8 * n) \<subseteq> span l1 (8 * (n + n))"
    by (intro span_sub; use nx in simp)+
  then have "dmem s3 y = dmem st y" if "y \<notin> span l1 (8 * (n + n)) \<union> span dst (8 * n)" for y
    using that s1(4) kf s3(3) by (metis Un_iff subsetD)
  moreover have "gelu_layer exec sched_in sched_out F tanh d dm hs l1 l st = Some s3"
    using s1(1) s3(1) unfolding gelu_layer_def Let_def sz s2_def lo_def src_def dst_def dbl_def by (simp add: algebra_simps)
  ultimately show ?thesis using s3(2) k s1(3) by auto
qed

definition example_gelu :: gelu_layer_t where
  "example_gelu = \<lparr>gl_size = 16, gl_ifmap = 0x80000000, gl_ofmap = 0x80001000, gl_dtype = FP64\<rparr>"

theorem gelu_layer_correct_witness:
  "\<exists>st'. gelu_layer copy_seq [1] [1] int_fpu id example_defs 5 [4, 3] 0x10000000 example_gelu counting_dma = Some st' \<and>
    (\<forall>i<8. elt (dmem st') 0x80001040 i = gelu_activation_fp64 int_fpu id (elt ucast 0x80000040 i))"
proof -
  have defs: "snrt_cluster_num example_defs = 2" "snrt_cluster_idx example_defs 5 = 1" "snrt_is_compute_core example_defs 4"
    by (simp_all add: example_defs_def team_defs snrt_is_compute_core_def)
  have "pending counting_dma = []" "dmem counting_dma = ucast" by (simp_all add: counting_dma_def dma_reset_def)
  moreover have "\<exists>h\<in>set [4, 3]. snrt_is_compute_core example_defs h" using defs(3) by simp
  ultimately show ?thesis
    using gelu_layer_correct [OF seq_engine.dma_backend_axioms, where F = int_fpu and tanh = id and d = example_defs and dm = 5 and l = example_gelu and ?l1.0 = "0x10000000"
        and st = counting_dma and hs = "[4, 3]" and sched_in = "[1]" and sched_out = "[1]"]
    by (simp add: defs(1,2) example_gelu_def holds_def beside_def dbl_def) blast
qed

end
