(* ===== verification/Batchnorm.thy ===== *)
theory Batchnorm
  imports Layers Axpy
begin

text \<open>
  \<open>sw/dnn/batchnorm/src/batchnorm.h\<close>: batch normalisation as a linear function per channel. The rows of the image are distributed over the clusters,
  the channels of a tile over the compute cores. A core streams its channels through the registers \<open>ft0\<close> and \<open>ft1\<close>, whose loops it configures for
  the first tile only; the tiles go through the double buffer of \<open>Layers\<close>. As in \<open>Maxpool\<close>, products of dimensions are taken in the natural
  numbers, and a tile with all channels starts at channel 0.
\<close>

section \<open>The kernel\<close>

text \<open>\<open>fmadd.d ft1, ft0, g, b\<close>.\<close>

definition fmadd_affine :: "ssr_widths \<Rightarrow> ptr \<Rightarrow> fp_ops \<Rightarrow> f64 \<Rightarrow> f64 \<Rightarrow> ssr_core \<times> mem \<Rightarrow> (ssr_core \<times> mem) option" where
  "fmadd_affine W T F g b = (\<lambda>(c, m). Option.bind (ft_read W T 0 m c) (\<lambda>(u, c). ft_write W T 1 (fmadd F u g b) (c, m)))"

text \<open>
  \<open>batchnorm_fp64\<close> on one core: \<open>frep\<close> repeats the instruction for the pixels of a row. The fence and the wait for the write stream at the end
  have no effect in a model in which every instruction is complete before the next one.
\<close>

definition batchnorm_fp64 ::
  "ssr_widths \<Rightarrow> ptr \<Rightarrow> fp_ops \<Rightarrow> ptr \<Rightarrow> ptr \<Rightarrow> ptr \<Rightarrow> ptr \<Rightarrow> u32 \<Rightarrow> u32 \<Rightarrow> u32 \<Rightarrow> bool \<Rightarrow> ssr_core \<times> mem \<Rightarrow> (ssr_core \<times> mem) option" where
  "batchnorm_fp64 W T F ifmap gamma beta ofmap OW CI compute_num setup_SSR = (\<lambda>(c, mm).
     let s = (if setup_SSR then
                snrt_ssr_loop_2d W SNRT_SSR_DM1 OW (CI div compute_num) (CI * 8) (compute_num * 8)
                  (snrt_ssr_loop_2d W SNRT_SSR_DM0 OW (CI div compute_num) (CI * 8) (compute_num * 8) (ssr c))
              else ssr c);
         s = snrt_ssr_read W SNRT_SSR_DM0 SNRT_SSR_2D ifmap s;
         s = snrt_ssr_write W SNRT_SSR_DM1 SNRT_SSR_2D ofmap s;
         s = snrt_ssr_enable s
     in map_option (\<lambda>(c, mm). (c\<lparr>ssr := snrt_ssr_disable (ssr c)\<rparr>, mm))
          (fold (\<lambda>ci r. Option.bind r (\<lambda>(c, mm).
               let g = load64 (dbl gamma (of_nat ci)) mm; b = load64 (dbl beta (of_nat ci)) mm
               in for_upto (Suc (unat (OW - 1))) (\<lambda>_ r. Option.bind r (fmadd_affine W T F g b)) (Some (c, mm))))
             (loop_values 0 (unat CI) (unat compute_num)) (Some (c\<lparr>ssr := s\<rparr>, mm))))"

section \<open>A stream that is started again\<close>

text \<open>A finished job leaves the configuration in the shadow registers, so that writing a pointer starts the next one.\<close>

definition configured :: "ssr_widths \<Rightarrow> u32 \<Rightarrow> u32 \<Rightarrow> u32 \<Rightarrow> u32 \<Rightarrow> ssr_mover \<Rightarrow> bool" where
  "configured W b0 b1 s0 s1 mv \<longleftrightarrow> r_done (shd mv) \<and> r_rep (shd mv) = 0 \<and>
     r_bound (shd mv) 0 = take_bit (iw W) (b0 - 1) \<and> r_bound (shd mv) 1 = take_bit (iw W) (b1 - 1) \<and>
     r_stride (shd mv) 0 = take_bit (pw W) (s0 AND NOT 7) \<and> r_stride (shd mv) 1 = take_bit (pw W) ((s1 - s0 * (b0 - 1)) AND NOT 7)"

definition at_2d :: "ssr_widths \<Rightarrow> u32 \<Rightarrow> u32 \<Rightarrow> u32 \<Rightarrow> u32 \<Rightarrow> ptr \<Rightarrow> nat \<Rightarrow> ssr_mover \<Rightarrow> bool" where
  "at_2d W b0 b1 s0 s1 p t mv \<longleftrightarrow> stream_at W (bounds_of [b0, b1]) (strides_of [s0, s1]) 2 p 0 t mv \<and> configured W b0 b1 s0 s1 mv \<and>
     (\<forall>k\<ge>num_loops. idx mv k = 0) \<and> (t = unat b0 * unat b1 \<longrightarrow> mover_idle mv)"

lemma weight_2: "weight (bounds_of [b0, b1]) 2 = unat b0 * unat b1"
  by (simp add: weight_def lessThan_small bounds_of_def)

lemma mover_step_keeps:
  assumes "mover_step W mv = Some (a, mv')" "r_done (shd mv)"
  shows "shd mv' = shd mv" "\<forall>k\<ge>num_loops. idx mv' k = idx mv k" "r_done (act mv') \<Longrightarrow> \<forall>k<num_loops. idx mv' k = 0"
  using assms by (auto simp: mover_step_def mover_load_def Let_def index_step_def stream_last_def loop_enabled_def split: if_splits)

lemma at_2d_step:
  assumes at: "at_2d W b0 b1 s0 s1 p t mv" and t: "t < unat b0 * unat b1"
  shows "\<exists>mv'. mover_step W mv = Some (stream_addr W (bounds_of [b0, b1]) (strides_of [s0, s1]) 2 p t, mv') \<and> at_2d W b0 b1 s0 s1 p (Suc t) mv'"
proof -
  note a = at [unfolded at_2d_def]
  obtain mv' where mv': "mover_step W mv = Some (stream_addr W (bounds_of [b0, b1]) (strides_of [s0, s1]) 2 p t, mv')"
      "stream_at W (bounds_of [b0, b1]) (strides_of [s0, s1]) 2 p 0 (Suc t) mv'"
    using stream_at_step [of W "bounds_of [b0, b1]" "strides_of [s0, s1]" 2 p 0 t mv] a t weight_2 by metis
  have shd: "r_done (shd mv)" using a by (simp add: configured_def)
  note k = mover_step_keeps [OF mv'(1) shd]
  have "mover_idle mv'" if "Suc t = unat b0 * unat b1"
  proof -
    have d: "r_done (act mv')" "r_done (shd mv')" using mv'(2) that by (auto simp: stream_at_def weight_2)
    then have "idx mv' i = 0" for i using k a by (cases "i < num_loops") auto
    then show ?thesis using d by (simp add: mover_idle_def)
  qed
  then show ?thesis using mv' k(1,2) a by (auto simp: at_2d_def configured_def)
qed

lemma stream_addr_2d:
  assumes "x < unat b0" "j < unat b1"
  shows "stream_addr W (bounds_of [b0, b1]) (strides_of [s0, s1]) 2 p (j * unat b0 + x) = take_bit (pw W) (p + of_nat x * s0 + of_nat j * s1)"
proof -
  have "(j * unat b0 + x) mod unat b0 = x" "(j * unat b0 + x) div unat b0 = j" using assms by auto
  then show ?thesis using assms
    by (simp add: stream_addr_def affine_def lessThan_small digit_def weight_def bounds_of_def strides_of_def add.assoc)
qed

lemma at_2d_rep: "at_2d W b0 b1 s0 s1 p t mv \<Longrightarrow> t < unat b0 * unat b1 \<Longrightarrow> r_rep (act mv) = 0"
  using stream_at_head(3) [of W "bounds_of [b0, b1]" "strides_of [s0, s1]" 2 p 0 t mv] by (simp add: at_2d_def weight_2)

lemma at_2d_restart:
  assumes mv: "mover_idle mv" "configured W b0 b1 s0 s1 mv" and ok: "loop_ok W b0 s0" "loop_ok W b1 s1" "iw W \<le> 32" and w: "w = 25 \<or> w = 29"
  shows "at_2d W b0 b1 s0 s1 p 0 (mover_write W w p mv)"
proof -
  let ?mv = "mover_write W w p mv"
  note c = mv [unfolded mover_idle_def configured_def]
  have "walking W (bounds_of [b0, b1]) (strides_of [s0, s1]) 2 p 0 ?mv"
    by (rule walking_start) (use c ok w in \<open>auto simp: ssr_cfg_simps\<close>)
  moreover have "r_rep (act ?mv) = 0" using c w by (auto simp: ssr_cfg_simps)
  moreover have pos: "0 < unat b0 * unat b1" using ok by (simp add: loop_ok_def)
  ultimately have "stream_at W (bounds_of [b0, b1]) (strides_of [s0, s1]) 2 p 0 0 ?mv" by (intro stream_start) (simp_all add: weight_2)
  moreover have "configured W b0 b1 s0 s1 ?mv" "\<forall>k\<ge>num_loops. idx ?mv k = 0" using c w by (auto simp: configured_def ssr_cfg_simps)
  ultimately show ?thesis using pos by (simp add: at_2d_def)
qed

lemma configured_loop_2d:
  fixes b0 b1 s0 s1 :: u32 and W :: ssr_widths
  assumes "mover_idle mv" "r_rep (shd mv) = 0"
  defines "mv' \<equiv> mover_write W 7 (s1 - s0 * (b0 - 1)) (mover_write W 6 s0 (mover_write W 3 (b1 - 1) (mover_write W 2 (b0 - 1) mv)))"
  shows "configured W b0 b1 s0 s1 mv'" "mover_idle mv'"
  using assms by (simp_all add: configured_def ssr_cfg_simps)


section \<open>One call of the kernel\<close>

text \<open>A core before a call of the kernel, the first one or a later one.\<close>

definition core_ready :: "ssr_widths \<Rightarrow> u32 \<Rightarrow> u32 \<Rightarrow> u32 \<Rightarrow> bool \<Rightarrow> ssr_core \<Rightarrow> bool" where
  "core_ready W OW CI compute_num first c \<longleftrightarrow> reps c 0 = 0 \<and> (\<forall>dm<2. mover_idle (movers (ssr c) dm) \<and> r_rep (shd (movers (ssr c) dm)) = 0 \<and>
     (\<not> first \<longrightarrow> configured W OW (CI div compute_num) (CI * 8) (compute_num * 8) (movers (ssr c) dm)))"

text \<open>In the middle of the kernel: both streams at the same element.\<close>

definition bn_lanes :: "ssr_widths \<Rightarrow> u32 \<Rightarrow> u32 \<Rightarrow> u32 \<Rightarrow> ptr \<Rightarrow> ptr \<Rightarrow> nat \<Rightarrow> ssr_core \<Rightarrow> bool" where
  "bn_lanes W OW CI compute_num x y t c \<longleftrightarrow> reps c 0 = 0 \<and>
     at_2d W OW (CI div compute_num) (CI * 8) (compute_num * 8) x t (movers (ssr c) 0) \<and>
     at_2d W OW (CI div compute_num) (CI * 8) (compute_num * 8) y t (movers (ssr c) 1)"

definition bn_loops_ok :: "ssr_widths \<Rightarrow> u32 \<Rightarrow> u32 \<Rightarrow> u32 \<Rightarrow> bool" where
  "bn_loops_ok W OW CI compute_num \<longleftrightarrow> loop_ok W OW (CI * 8) \<and> loop_ok W (CI div compute_num) (compute_num * 8) \<and> iw W \<le> 32"

lemma at_2d_start:
  assumes mv: "mover_idle mv" "r_rep (shd mv) = 0" "\<not> first \<Longrightarrow> configured W b0 b1 s0 s1 mv"
    and ok: "loop_ok W b0 s0" "loop_ok W b1 s1" "iw W \<le> 32" and w: "w = 25 \<or> w = 29"
  shows "at_2d W b0 b1 s0 s1 p 0 (mover_write W w p
    (if first then mover_write W 7 (s1 - s0 * (b0 - 1)) (mover_write W 6 s0 (mover_write W 3 (b1 - 1) (mover_write W 2 (b0 - 1) mv))) else mv))"
  using at_2d_restart [OF configured_loop_2d(2,1) [OF mv(1,2)] ok w] at_2d_restart [OF mv(1) mv(3) ok w] by (cases first) simp_all

definition bn_start :: "ssr_widths \<Rightarrow> u32 \<Rightarrow> u32 \<Rightarrow> u32 \<Rightarrow> bool \<Rightarrow> ptr \<Rightarrow> ptr \<Rightarrow> ssr_core \<Rightarrow> ssr_core" where
  "bn_start W OW CI cn first x y c =
     (let s = (if first then
                snrt_ssr_loop_2d W SNRT_SSR_DM1 OW (CI div cn) (CI * 8) (cn * 8)
                  (snrt_ssr_loop_2d W SNRT_SSR_DM0 OW (CI div cn) (CI * 8) (cn * 8) (ssr c))
              else ssr c);
         s = snrt_ssr_read W SNRT_SSR_DM0 SNRT_SSR_2D x s;
         s = snrt_ssr_write W SNRT_SSR_DM1 SNRT_SSR_2D y s
      in c\<lparr>ssr := snrt_ssr_enable s\<rparr>)"

lemma bn_start_movers:
  defines "setup_2d \<equiv> \<lambda>W (b0 :: u32) b1 s0 s1 mv. mover_write W 7 (s1 - s0 * (b0 - 1)) (mover_write W 6 s0 (mover_write W 3 (b1 - 1) (mover_write W 2 (b0 - 1) mv)))"
  shows "movers (ssr (bn_start W OW CI cn first x y c)) 0 =
      mover_write W 25 x (if first then setup_2d W OW (CI div cn) (CI * 8) (cn * 8) (movers (ssr c) 0) else movers (ssr c) 0)"
    "movers (ssr (bn_start W OW CI cn first x y c)) 1 =
      mover_write W 29 y (if first then setup_2d W OW (CI div cn) (CI * 8) (cn * 8) (movers (ssr c) 1) else movers (ssr c) 1)"
    "reps (bn_start W OW CI cn first x y c) = reps c"
  by (cases first; simp add: bn_start_def setup_2d_def snrt_ssr_enable_def snrt_ssr_write_def snrt_ssr_read_def snrt_ssr_loop_2d_def
      write_ssr_cfg_def REG_BOUNDS_def REG_STRIDES_def REG_RPTR_def REG_WPTR_def Let_def)+

lemma bn_lanes_start:
  assumes c: "core_ready W OW CI cn first c" and ok: "bn_loops_ok W OW CI cn"
  shows "bn_lanes W OW CI cn x y 0 (bn_start W OW CI cn first x y c)"
proof -
  have r: "mover_idle (movers (ssr c) dm)" "r_rep (shd (movers (ssr c) dm)) = 0" "\<not> first \<Longrightarrow> configured W OW (CI div cn) (CI * 8) (cn * 8) (movers (ssr c) dm)"
    if "dm < 2" for dm using c that by (auto simp: core_ready_def)
  have "reps c 0 = 0" using c by (simp add: core_ready_def)
  moreover have "at_2d W OW (CI div cn) (CI * 8) (cn * 8) x 0 (movers (ssr (bn_start W OW CI cn first x y c)) 0)"
    unfolding bn_start_movers by (rule at_2d_start [OF r]) (use ok in \<open>simp_all add: bn_loops_ok_def\<close>)
  moreover have "at_2d W OW (CI div cn) (CI * 8) (cn * 8) y 0 (movers (ssr (bn_start W OW CI cn first x y c)) 1)"
    unfolding bn_start_movers by (rule at_2d_start [OF r]) (use ok in \<open>simp_all add: bn_loops_ok_def\<close>)
  ultimately show ?thesis by (simp add: bn_lanes_def bn_start_movers)
qed

lemma fmadd_affine_step:
  fixes T :: ptr
  assumes l: "bn_lanes W OW CI cn x y t c" and t: "t < unat OW * unat (CI div cn)"
  defines "a p \<equiv> T + stream_addr W (bounds_of [OW, CI div cn]) (strides_of [CI * 8, cn * 8]) 2 p t"
  shows "\<exists>c'. fmadd_affine W T F g b (c, m) = Some (c', store64 (a y) (fmadd F (load64 (a x) m) g b) m) \<and> bn_lanes W OW CI cn x y (Suc t) c'"
proof -
  note l' = l [unfolded bn_lanes_def]
  obtain mx where mx: "mover_step W (movers (ssr c) 0) = Some (stream_addr W (bounds_of [OW, CI div cn]) (strides_of [CI * 8, cn * 8]) 2 x t, mx)"
    "at_2d W OW (CI div cn) (CI * 8) (cn * 8) x (Suc t) mx" using at_2d_step [OF _ t] l' by blast
  obtain my where my: "mover_step W (movers (ssr c) 1) = Some (stream_addr W (bounds_of [OW, CI div cn]) (strides_of [CI * 8, cn * 8]) 2 y t, my)"
    "at_2d W OW (CI div cn) (CI * 8) (cn * 8) y (Suc t) my" using at_2d_step [OF _ t] l' by blast
  have "r_rep (act (movers (ssr c) 0)) = 0" using l' at_2d_rep [OF _ t] by blast
  then show ?thesis using l' mx my by (simp add: fmadd_affine_def ft_read_def ft_write_def bn_lanes_def Let_def a_def)
qed

lemma bn_lanes_end:
  assumes "bn_lanes W OW CI cn x y (unat OW * unat (CI div cn)) c"
  shows "core_ready W OW CI cn False (c\<lparr>ssr := snrt_ssr_disable (ssr c)\<rparr>)"
  using assms by (auto simp: core_ready_def bn_lanes_def at_2d_def snrt_ssr_disable_def configured_def less_2_cases_iff)


text \<open>The elements that a core writes, in its order: for each of its channels all pixels.\<close>

definition bn_items :: "nat \<Rightarrow> nat \<Rightarrow> nat \<Rightarrow> nat \<Rightarrow> nat list" where
  "bn_items OW T P q = concat (map (\<lambda>j. map (\<lambda>x. x * T + (q + j * P)) [0..<OW]) [0..<T div P])"

lemma set_bn_items:
  assumes P: "P dvd T" "q < P"
  shows "i \<in> set (bn_items OW T P q) \<longleftrightarrow> i < OW * T \<and> i mod T mod P = q"
proof
  assume "i \<in> set (bn_items OW T P q)"
  then obtain j x where jx: "i = x * T + (q + j * P)" "x < OW" "j < T div P" by (auto simp: bn_items_def)
  have "j * P + q < T div P * P" using row_major_less jx(3) P(2) .
  then have c: "q + j * P < T" using P(1) by simp
  then have "i mod T = q + j * P" using jx(1) by simp
  then show "i < OW * T \<and> i mod T mod P = q" using row_major_less [OF jx(2) c] jx(1) P(2) by simp
next
  assume i: "i < OW * T \<and> i mod T mod P = q"
  then have T: "0 < T" by (cases T) auto
  have "i = i div T * T + (q + i mod T div P * P)" using i by (metis add.commute div_mult_mod_eq)
  moreover have "i div T < OW" using i by (simp add: less_mult_imp_div_less)
  moreover have "i mod T div P < T div P" using P T by (simp add: div_less_mono dvd_imp_le mod_less_divisor less_mult_imp_div_less)
  moreover have "i \<in> (\<lambda>x. x * T + (q + i mod T div P * P)) ` {0..<OW}" by (rule image_eqI [of _ _ "i div T"]) (use calculation in auto)
  ultimately show "i \<in> set (bn_items OW T P q)"
    unfolding bn_items_def set_concat set_map image_image set_upt by (intro UN_I [of "i mod T div P"]) simp_all
qed

lemma bn_lane_addr:
  fixes OW CI cn :: u32 and q j x :: nat
  assumes tc: "in_tcdm W T p (unat OW * unat CI)" and P: "unat cn dvd unat CI" "q < unat cn" and j: "j < unat (CI div cn)" and x: "x < unat OW"
  shows "T + stream_addr W (bounds_of [OW, CI div cn]) (strides_of [CI * 8, cn * 8]) 2 (dbl p (of_nat q)) (j * unat OW + x) =
    dbl p (of_nat (x * unat CI + (q + j * unat cn)))"
proof -
  have "j * unat cn + q < unat CI div unat cn * unat cn" using row_major_less j P(2) by (simp add: unat_div)
  then have "q + j * unat cn < unat CI" using P(1) by simp
  from row_major_less [OF x this] have b: "x * unat CI + (q + j * unat cn) < unat OW * unat CI" .
  have "stream_addr W (bounds_of [OW, CI div cn]) (strides_of [CI * 8, cn * 8]) 2 (dbl p (of_nat q)) (j * unat OW + x) =
      take_bit (pw W) (dbl p (of_nat (x * unat CI + (q + j * unat cn))))"
    unfolding stream_addr_2d [OF x j] by (simp add: dbl_def algebra_simps)
  then show ?thesis using tc b by (simp add: in_tcdm_def del: of_nat_add of_nat_mult)
qed

definition bn_buffers :: "ssr_widths \<Rightarrow> ptr \<Rightarrow> nat \<Rightarrow> nat \<Rightarrow> ptr \<Rightarrow> ptr \<Rightarrow> ptr \<Rightarrow> ptr \<Rightarrow> bool" where
  "bn_buffers W T OW CI ib gam bet ob \<longleftrightarrow> in_tcdm W T ib (OW * CI) \<and> in_tcdm W T ob (OW * CI) \<and> holds ib (OW * CI) \<and> holds ob (OW * CI) \<and> holds gam CI \<and> holds bet CI \<and>
     beside ob (OW * CI) ib (OW * CI) \<and> beside ob (OW * CI) gam CI \<and> beside ob (OW * CI) bet CI"

lemma batchnorm_fp64_stores:
  fixes OW CI cn :: u32 and q :: nat and F :: fp_ops and m :: mem and ib gam bet ob :: ptr
  assumes c: "core_ready W OW CI cn first c" and ok: "bn_loops_ok W OW CI cn" and P: "unat cn dvd unat CI" "q < unat cn"
    and buf: "bn_buffers W T (unat OW) (unat CI) ib gam bet ob"
  defines "V i \<equiv> fmadd F (elt m ib i) (elt m gam (i mod unat CI)) (elt m bet (i mod unat CI))"
  shows "\<exists>c'. batchnorm_fp64 W T F (dbl ib (of_nat q)) (dbl gam (of_nat q)) (dbl bet (of_nat q)) (dbl ob (of_nat q)) OW CI cn first (c, m) =
      Some (c', fold (\<lambda>i m. store64 (dbl ob (of_nat i)) (V i) m) (bn_items (unat OW) (unat CI) (unat cn) q) m) \<and> core_ready W OW CI cn False c'"
proof -
  let ?OW = "unat OW" and ?CI = "unat CI" and ?P = "unat cn" and ?n = "unat OW * unat CI"
  define J where "J = ?CI div ?P"
  have J: "unat (CI div cn) = J" by (simp add: J_def unat_div)
  define S where "S xs = fold (\<lambda>i m. store64 (dbl ob (of_nat i)) (V i) m) xs m" for xs
  define it where "it j x = x * ?CI + (q + j * ?P)" for j x :: nat
  define items where "items j x = concat (map (\<lambda>j. map (it j) [0..<?OW]) [0..<j]) @ map (it j) [0..<x]" for j x
  let ?L = "bn_lanes W OW CI cn (dbl ib (of_nat q)) (dbl ob (of_nat q))"
  note b = buf [unfolded bn_buffers_def]
  have it: "it j x < ?n" "it j x mod ?CI = q + j * ?P" "q + j * ?P < ?CI" if "j < J" "x < ?OW" for j x
  proof -
    have "j * ?P + q < J * ?P" by (rule row_major_less [OF that(1) P(2)])
    then show *: "q + j * ?P < ?CI" using P(1) by (simp add: J_def)
    then show "it j x < ?n" "it j x mod ?CI = q + j * ?P" using row_major_less [OF that(2) *] by (simp_all add: it_def)
  qed
  have kept: "S (items j x) y = m y" if "j \<le> J" "x \<le> ?OW" "x = 0 \<or> j < J" "y \<notin> span ob (8 * ?n)" for j x y
    unfolding S_def by (rule fold_stores(1) [of ob ?n]) (use b that it(1) in \<open>auto simp: items_def intro: order.strict_trans2\<close>)
  have rd: "elt (S (items j x)) p i = elt m p i" if "j \<le> J" "x \<le> ?OW" "x = 0 \<or> j < J" "holds p k" "i < k" "beside ob ?n p k" for j x p i k
    by (rule elt_beside [OF that(4,5,6)]) (rule kept [OF that(1,2,3)])
  have inner: "\<exists>c'. for_upto x (\<lambda>_ r. Option.bind r (fmadd_affine W T F (elt m gam (q + j * ?P)) (elt m bet (q + j * ?P)))) (Some (c, S (items j 0))) =
      Some (c', S (items j x)) \<and> ?L (j * ?OW + x) c'" if j: "j < J" and x: "x \<le> ?OW" and c: "?L (j * ?OW) c" for j x c
    using x
  proof (induction x)
    case 0
    then show ?case using c by simp
  next
    case (Suc x)
    then obtain c' where c': "for_upto x (\<lambda>_ r. Option.bind r (fmadd_affine W T F (elt m gam (q + j * ?P)) (elt m bet (q + j * ?P)))) (Some (c, S (items j 0))) =
      Some (c', S (items j x))" "?L (j * ?OW + x) c'" by auto
    have x: "x < ?OW" using Suc by simp
    have t: "j * ?OW + x < ?OW * unat (CI div cn)" using row_major_less [OF j x] by (simp add: J mult.commute)
    have j': "j < unat (CI div cn)" using j by (simp add: J)
    note a = bn_lane_addr [OF _ P j' x, folded it_def, of W T]
    have "elt (S (items j x)) ib (it j x) = elt m ib (it j x)" by (rule rd [of _ _ _ ?n]) (use j x b it(1) [OF j x] in auto)
    moreover have "items j (Suc x) = items j x @ [it j x]" by (simp add: items_def)
    moreover have "V (it j x) = fmadd F (elt m ib (it j x)) (elt m gam (q + j * ?P)) (elt m bet (q + j * ?P))" by (simp add: V_def it(2) [OF j x])
    ultimately show ?case using fmadd_affine_step [OF c'(2) t, of T F "elt m gam (q + j * ?P)" "elt m bet (q + j * ?P)" "S (items j x)"] a b c'(1)
      by (simp add: S_def elt_def for_upto_Suc)
  qed
  define body where "body ci r = Option.bind r (\<lambda>(c, mm). for_upto (Suc (unat (OW - 1))) (\<lambda>_ r. Option.bind r
      (fmadd_affine W T F (load64 (dbl (dbl gam (of_nat q)) (of_nat ci)) mm) (load64 (dbl (dbl bet (of_nat q)) (of_nat ci)) mm))) (Some (c, mm)))" for ci :: nat and r
  have OW: "Suc (unat (OW - 1)) = ?OW" "0 < ?OW" using ok by (simp_all add: bn_loops_ok_def loop_ok_def unat_sub_if')
  have outer: "\<exists>c'. fold body (map (\<lambda>j. j * ?P) [0..<j]) (Some (c, m)) = Some (c', S (items j 0)) \<and> ?L (j * ?OW) c'" if "j \<le> J" "?L 0 c" for j c
    using that(1)
  proof (induction j)
    case 0
    then show ?case using that(2) by (simp add: S_def items_def)
  next
    case (Suc j)
    then obtain c' where c': "fold body (map (\<lambda>j. j * ?P) [0..<j]) (Some (c, m)) = Some (c', S (items j 0))" "?L (j * ?OW) c'" by auto
    have j: "j < J" using Suc by simp
    obtain c'' where c'': "for_upto ?OW (\<lambda>_ r. Option.bind r (fmadd_affine W T F (elt m gam (q + j * ?P)) (elt m bet (q + j * ?P)))) (Some (c', S (items j 0))) =
      Some (c'', S (items j ?OW))" "?L (j * ?OW + ?OW) c''" using inner [OF j order_refl c'(2)] by blast
    have w: "elt (S (items j 0)) gam (q + j * ?P) = elt m gam (q + j * ?P)" "elt (S (items j 0)) bet (q + j * ?P) = elt m bet (q + j * ?P)"
      by (rule rd [of _ _ _ ?CI], use j b it(3) [OF j OW(2)] in simp_all)+
    have "body (j * ?P) (Some (c', S (items j 0))) = Some (c'', S (items (Suc j) 0))"
      using c''(1) w by (simp add: body_def OW(1) items_def elt_def dbl_dbl)
    then show ?case using c'(1) c''(2) by (simp add: add.commute)
  qed
  have "?L 0 (bn_start W OW CI cn first (dbl ib (of_nat q)) (dbl ob (of_nat q)) c)" by (rule bn_lanes_start [OF c ok])
  from outer [OF order_refl this] obtain c' where
    c': "fold body (map (\<lambda>j. j * ?P) [0..<J]) (Some (bn_start W OW CI cn first (dbl ib (of_nat q)) (dbl ob (of_nat q)) c, m)) = Some (c', S (items J 0))" "?L (J * ?OW) c'" by blast
  have "loop_values 0 ?CI ?P = map (\<lambda>j. j * ?P) [0..<J]" using loop_values_multiples [of ?P J] P by (simp add: J_def)
  then have "batchnorm_fp64 W T F (dbl ib (of_nat q)) (dbl gam (of_nat q)) (dbl bet (of_nat q)) (dbl ob (of_nat q)) OW CI cn first (c, m) =
      Some (c'\<lparr>ssr := snrt_ssr_disable (ssr c')\<rparr>, S (items J 0))"
    using c'(1) unfolding batchnorm_fp64_def bn_start_def Let_def prod.case body_def [abs_def] by simp
  moreover have "core_ready W OW CI cn False (c'\<lparr>ssr := snrt_ssr_disable (ssr c')\<rparr>)" using c'(2) by (intro bn_lanes_end) (simp add: J mult.commute)
  moreover have "items J 0 = bn_items ?OW ?CI ?P q" by (simp add: items_def bn_items_def J_def it_def [abs_def])
  ultimately show ?thesis unfolding S_def by auto
qed

section \<open>The layer\<close>

record batchnorm_layer_t =
  bn_CI :: u32
  bn_IH :: u32
  bn_IW :: u32
  bn_TILE_CI :: u32
  bn_ifmap :: ptr
  bn_ofmap :: ptr
  bn_gamma :: ptr
  bn_beta :: ptr
  bn_dtype :: precision_t

text \<open>The tiles of a cluster: a row of pixels and the first channel of the tile.\<close>

definition batchnorm_tiles :: "batchnorm_layer_t \<Rightarrow> nat \<Rightarrow> nat \<Rightarrow> (nat \<times> nat) list" where
  "batchnorm_tiles l cluster_id cluster_num =
     List.product (loop_values cluster_id (unat (bn_IH l)) cluster_num) (loop_values 0 (unat (bn_CI l)) (unat (bn_TILE_CI l)))"

text \<open>\<open>ifmap_size\<close> and \<open>ofmap_size\<close>, and the pointers \<open>ifmap\<close>, \<open>gamma\<close>, \<open>beta\<close> and \<open>ofmap\<close> into L1.\<close>

definition batchnorm_map_size :: "batchnorm_layer_t \<Rightarrow> u32" where
  "batchnorm_map_size l = 2 * bn_IW l * bn_TILE_CI l"

definition batchnorm_l1 :: "batchnorm_layer_t \<Rightarrow> ptr \<Rightarrow> ptr \<times> ptr \<times> ptr \<times> ptr" where
  "batchnorm_l1 l p =
     (let ifmap = p; gamma = dbl ifmap (batchnorm_map_size l); beta = dbl gamma (bn_CI l); ofmap = dbl beta (bn_CI l)
      in (ifmap, gamma, beta, ofmap))"

text \<open>The tile \<open>k\<close> of a cluster; the weights come with the first one. The indices of the two buffers are \<open>k mod 2\<close>, as in \<open>maxpool_layer\<close>.\<close>

definition batchnorm_load ::
  "(dma_req \<Rightarrow> mem \<Rightarrow> mem) \<Rightarrow> nat list \<Rightarrow> nat list \<Rightarrow> batchnorm_layer_t \<Rightarrow> ptr \<Rightarrow> nat \<Rightarrow> nat \<times> nat \<Rightarrow> dma_state \<Rightarrow> dma_state option" where
  "batchnorm_load exec sched_w sched l p k = (\<lambda>(oh, ci) st.
     let (ifmap, gamma, beta, ofmap) = batchnorm_l1 l p; IW = unat (bn_IW l); CI = unat (bn_CI l); write_buf = of_nat (k mod 2)
     in Option.bind
          (if k = 0 then snrt_dma_wait_all exec sched_w (snd (snrt_dma_start_1d beta (bn_beta l) (8 * bn_CI l)
             (snd (snrt_dma_start_1d gamma (bn_gamma l) (8 * bn_CI l) st))))
           else Some st)
          (\<lambda>st. snrt_dma_wait_all exec sched (tile_in (unat (bn_TILE_CI l)) CI IW
             (dbl ifmap (write_buf * batchnorm_map_size l div 2)) (dbl (bn_ifmap l) (of_nat (oh * IW * CI + ci))) st)))"

definition batchnorm_compute ::
  "ssr_widths \<Rightarrow> ptr \<Rightarrow> fp_ops \<Rightarrow> snrt_defs \<Rightarrow> batchnorm_layer_t \<Rightarrow> ptr \<Rightarrow> nat \<Rightarrow> nat \<times> nat \<Rightarrow> u32 \<Rightarrow>
     dma_state \<times> (u32 \<Rightarrow> ssr_core) \<Rightarrow> (dma_state \<times> (u32 \<Rightarrow> ssr_core)) option" where
  "batchnorm_compute W T F d l p k = (\<lambda>(oh, ci) hartid (st, cs).
     let compute_num = snrt_cluster_compute_core_num d; compute_id = snrt_cluster_core_idx d hartid;
         (ifmap, gamma, beta, ofmap) = batchnorm_l1 l p; read_buf = of_nat (k mod 2); write_buf = of_nat (k mod 2)
     in map_option (\<lambda>(c, mm). (st\<lparr>dmem := mm\<rparr>, cs(hartid := c)))
          (batchnorm_fp64 W T F (dbl ifmap (read_buf * batchnorm_map_size l div 2 + compute_id)) (dbl gamma (of_nat ci + compute_id))
             (dbl beta (of_nat ci + compute_id)) (dbl ofmap (write_buf * batchnorm_map_size l div 2 + compute_id))
             (bn_IW l) (bn_TILE_CI l) compute_num (k = 0) (cs hartid, dmem st)))"

definition batchnorm_store ::
  "(dma_req \<Rightarrow> mem \<Rightarrow> mem) \<Rightarrow> nat list \<Rightarrow> batchnorm_layer_t \<Rightarrow> ptr \<Rightarrow> nat \<Rightarrow> nat \<times> nat \<Rightarrow> dma_state \<Rightarrow> dma_state option" where
  "batchnorm_store exec sched l p k = (\<lambda>(oh, ci) st.
     let (ifmap, gamma, beta, ofmap) = batchnorm_l1 l p; OW = unat (bn_IW l); CI = unat (bn_CI l)
     in snrt_dma_wait_all exec sched (tile_out (unat (bn_TILE_CI l)) CI OW (dbl (bn_ofmap l) (of_nat (oh * OW * CI + ci)))
          (dbl ofmap (of_nat (k mod 2) * (batchnorm_map_size l div 2))) st))"

definition batchnorm_layer ::
  "ssr_widths \<Rightarrow> ptr \<Rightarrow> (dma_req \<Rightarrow> mem \<Rightarrow> mem) \<Rightarrow> nat list \<Rightarrow> (nat \<Rightarrow> nat list) \<Rightarrow> (nat \<Rightarrow> nat list) \<Rightarrow> fp_ops \<Rightarrow> gen_cfg \<Rightarrow> snrt_defs \<Rightarrow> u32 \<Rightarrow> (nat \<Rightarrow> db_core list) \<Rightarrow>
    batchnorm_layer_t \<Rightarrow> dma_state \<times> (u32 \<Rightarrow> ssr_core) \<Rightarrow> (dma_state \<times> (u32 \<Rightarrow> ssr_core)) option" where
  "batchnorm_layer W T exec sched_w sched_in sched_out F cfg d dm order l st =
     (let tiles = batchnorm_tiles l (unat (snrt_cluster_idx d dm)) (unat (snrt_cluster_num d)); p = snrt_l1_start_addr cfg
      in if tiles = [] then None
         else db_run (length tiles) (\<lambda>k (st, cs). map_option (\<lambda>st. (st, cs)) (batchnorm_load exec sched_w (sched_in k) l p k (tiles ! k) st))
           (\<lambda>k. batchnorm_compute W T F d l p k (tiles ! k))
           (\<lambda>k (st, cs). map_option (\<lambda>st. (st, cs)) (batchnorm_store exec (sched_out k) l p k (tiles ! k) st)) order st)"

section \<open>What the layer needs\<close>

definition bn_half :: "batchnorm_layer_t \<Rightarrow> nat" where
  "bn_half l = unat (bn_IW l) * unat (bn_TILE_CI l)"

definition bn_total :: "batchnorm_layer_t \<Rightarrow> nat" where
  "bn_total l = 4 * bn_half l + 2 * unat (bn_CI l)"

definition bn_size :: "batchnorm_layer_t \<Rightarrow> nat" where
  "bn_size l = unat (bn_IH l) * unat (bn_IW l) * unat (bn_CI l)"

definition bn_ibuf :: "batchnorm_layer_t \<Rightarrow> ptr \<Rightarrow> nat \<Rightarrow> ptr" where
  "bn_ibuf l p k = dbl p (of_nat (k mod 2 * bn_half l))"

definition bn_g :: "batchnorm_layer_t \<Rightarrow> ptr \<Rightarrow> ptr" where
  "bn_g l p = dbl p (of_nat (2 * bn_half l))"

definition bn_b :: "batchnorm_layer_t \<Rightarrow> ptr \<Rightarrow> ptr" where
  "bn_b l p = dbl p (of_nat (2 * bn_half l + unat (bn_CI l)))"

definition bn_obuf :: "batchnorm_layer_t \<Rightarrow> ptr \<Rightarrow> nat \<Rightarrow> ptr" where
  "bn_obuf l p k = dbl p (of_nat (2 * bn_half l + 2 * unat (bn_CI l) + k mod 2 * bn_half l))"

definition batchnorm_ok :: "ssr_widths \<Rightarrow> ptr \<Rightarrow> snrt_defs \<Rightarrow> u32 set \<Rightarrow> batchnorm_layer_t \<Rightarrow> ptr \<Rightarrow> bool" where
  "batchnorm_ok W T d H l p \<longleftrightarrow>
     (let CI = unat (bn_CI l); TC = unat (bn_TILE_CI l); P = unat (snrt_cluster_compute_core_num d); n = bn_size l
      in 0 < TC \<and> TC dvd CI \<and> 0 < CI \<and> 0 < P \<and> P dvd TC \<and> 0 < unat (bn_IW l) \<and> 8 * CI < 2 ^ 31 \<and> (\<lambda>h. unat (snrt_cluster_core_idx d h)) ` H = {..<P} \<and>
        unat p + 8 * bn_total l < 2 ^ 32 \<and> in_tcdm W T p (bn_total l) \<and> bn_loops_ok W (bn_IW l) (bn_TILE_CI l) (snrt_cluster_compute_core_num d) \<and>
        holds (bn_ifmap l) n \<and> holds (bn_ofmap l) n \<and> holds (bn_gamma l) CI \<and> holds (bn_beta l) CI \<and>
        beside p (bn_total l) (bn_ifmap l) n \<and> beside p (bn_total l) (bn_ofmap l) n \<and> beside p (bn_total l) (bn_gamma l) CI \<and> beside p (bn_total l) (bn_beta l) CI \<and>
        beside (bn_ofmap l) n (bn_ifmap l) n \<and> beside (bn_ofmap l) n (bn_gamma l) CI \<and> beside (bn_ofmap l) n (bn_beta l) CI)"

lemma bn_l1:
  assumes ok: "batchnorm_ok W T d H l p"
  shows "batchnorm_l1 l p = (p, bn_g l p, bn_b l p, dbl p (of_nat (2 * bn_half l + 2 * unat (bn_CI l))))"
    and "of_nat (k mod 2) * (batchnorm_map_size l div 2) = of_nat (k mod 2 * bn_half l)"
    and "of_nat (k mod 2) * batchnorm_map_size l div 2 = of_nat (k mod 2 * bn_half l)"
proof -
  have s: "batchnorm_map_size l = of_nat (2 * bn_half l)" by (simp add: batchnorm_map_size_def bn_half_def)
  have "2 * bn_half l < 2 ^ 32" using ok by (simp add: batchnorm_ok_def bn_total_def Let_def)
  note h = half_of_double [OF s this]
  show "batchnorm_l1 l p = (p, bn_g l p, bn_b l p, dbl p (of_nat (2 * bn_half l + 2 * unat (bn_CI l))))"
    by (simp add: batchnorm_l1_def bn_g_def bn_b_def dbl_dbl s)
  have "k mod 2 = 0 \<or> k mod 2 = 1" by linarith
  then show "of_nat (k mod 2) * (batchnorm_map_size l div 2) = of_nat (k mod 2 * bn_half l)"
    "of_nat (k mod 2) * batchnorm_map_size l div 2 = of_nat (k mod 2 * bn_half l)"
    using h by auto
qed

text \<open>The buffers in L1.\<close>

lemma bn_parts:
  assumes ok: "batchnorm_ok W T d H l p"
  defines "I \<equiv> bn_half l" and "CI \<equiv> unat (bn_CI l)" and "N \<equiv> bn_total l"
  shows "holds p N" "0 < I" "0 < CI" "k mod 2 * I + I \<le> N" "2 * I + CI \<le> N" "2 * I + CI + CI \<le> N" "2 * I + 2 * CI + k mod 2 * I + I \<le> N"
proof -
  show "holds p N" "0 < I" "0 < CI" using ok by (auto simp: batchnorm_ok_def holds_def Let_def I_def bn_half_def CI_def N_def)
  have "k mod 2 = 0 \<or> k mod 2 = 1" by linarith
  then show "k mod 2 * I + I \<le> N" "2 * I + CI \<le> N" "2 * I + CI + CI \<le> N" "2 * I + 2 * CI + k mod 2 * I + I \<le> N"
    by (auto simp: N_def bn_total_def I_def CI_def)
qed

lemma bn_holds:
  assumes ok: "batchnorm_ok W T d H l p"
  shows "holds (bn_ibuf l p k) (bn_half l)" "holds (bn_g l p) (unat (bn_CI l))" "holds (bn_b l p) (unat (bn_CI l))" "holds (bn_obuf l p k) (bn_half l)"
  unfolding bn_ibuf_def bn_g_def bn_b_def bn_obuf_def by (rule part_array(2) [OF bn_parts(1) [OF ok]]; use bn_parts [OF ok] in simp)+

lemma bn_tcdm:
  assumes ok: "batchnorm_ok W T d H l p" and "a + n \<le> bn_total l"
  shows "in_tcdm W T (dbl p (of_nat a)) n"
  using assms unfolding in_tcdm_def batchnorm_ok_def Let_def dbl_dbl of_nat_add [symmetric] by (metis add_less_cancel_left order.strict_trans2)

lemma bn_beside:
  assumes ok: "batchnorm_ok W T d H l p"
  defines "I \<equiv> bn_half l" and "CI \<equiv> unat (bn_CI l)"
  shows "beside (bn_ibuf l p k) I (bn_obuf l p i) I" "beside (bn_ibuf l p k) I (bn_g l p) CI" "beside (bn_ibuf l p k) I (bn_b l p) CI"
    and "beside (bn_obuf l p k) I (bn_g l p) CI" "beside (bn_obuf l p k) I (bn_b l p) CI" "beside (bn_g l p) CI (bn_b l p) CI"
    and "Suc i = k \<Longrightarrow> beside (bn_ibuf l p k) I (bn_ibuf l p i) I" "Suc i = k \<Longrightarrow> beside (bn_obuf l p k) I (bn_obuf l p i) I"
proof -
  note b = bn_parts [OF ok, folded I_def CI_def]
  have two: "n mod 2 = 0 \<or> n mod 2 = 1" for n :: nat by linarith
  show "beside (bn_ibuf l p k) I (bn_obuf l p i) I" "beside (bn_ibuf l p k) I (bn_g l p) CI" "beside (bn_ibuf l p k) I (bn_b l p) CI"
    "beside (bn_obuf l p k) I (bn_g l p) CI" "beside (bn_obuf l p k) I (bn_b l p) CI" "beside (bn_g l p) CI (bn_b l p) CI"
    unfolding bn_ibuf_def bn_g_def bn_b_def bn_obuf_def I_def [symmetric] CI_def [symmetric]
    by (rule parts_beside [OF b(1)]; use b two [of k] two [of i] in auto)+
  show "beside (bn_ibuf l p k) I (bn_ibuf l p i) I" "beside (bn_obuf l p k) I (bn_obuf l p i) I" if "Suc i = k"
  proof -
    have c: "k mod 2 = 0 \<and> i mod 2 = 1 \<or> k mod 2 = 1 \<and> i mod 2 = 0" using that by presburger
    show "beside (bn_ibuf l p k) I (bn_ibuf l p i) I" "beside (bn_obuf l p k) I (bn_obuf l p i) I"
      unfolding bn_ibuf_def bn_obuf_def I_def [symmetric] CI_def [symmetric]
      by (rule parts_beside [OF b(1)]; use b c in auto)+
  qed
qed

lemma bn_outside:
  assumes ok: "batchnorm_ok W T d H l p" and q: "beside p (bn_total l) q n"
  shows "beside (bn_ibuf l p k) (bn_half l) q n" "beside (bn_g l p) (unat (bn_CI l)) q n" "beside (bn_b l p) (unat (bn_CI l)) q n" "beside (bn_obuf l p k) (bn_half l) q n"
  unfolding bn_ibuf_def bn_g_def bn_b_def bn_obuf_def by (rule part_beside [OF bn_parts(1) [OF ok] _ _ q]; use bn_parts [OF ok] in simp)+

lemma bn_inside:
  assumes ok: "batchnorm_ok W T d H l p"
  shows "span (bn_ibuf l p k) (8 * bn_half l) \<subseteq> span p (8 * bn_total l)" "span (bn_g l p) (8 * unat (bn_CI l)) \<subseteq> span p (8 * bn_total l)"
    "span (bn_b l p) (8 * unat (bn_CI l)) \<subseteq> span p (8 * bn_total l)" "span (bn_obuf l p k) (8 * bn_half l) \<subseteq> span p (8 * bn_total l)"
  unfolding bn_ibuf_def bn_g_def bn_b_def bn_obuf_def by (rule part_span [OF bn_parts(1) [OF ok]]; use bn_parts [OF ok] in simp)+

definition bn_tile :: "batchnorm_layer_t \<Rightarrow> nat \<times> nat \<Rightarrow> bool" where
  "bn_tile l = (\<lambda>(oh, ci). oh < unat (bn_IH l) \<and> unat (bn_TILE_CI l) dvd ci \<and> ci < unat (bn_CI l))"

text \<open>Element \<open>c\<close> of pixel \<open>x\<close> of a tile, in the image and in a buffer.\<close>

definition bn_pos :: "batchnorm_layer_t \<Rightarrow> nat \<times> nat \<Rightarrow> nat \<Rightarrow> nat \<Rightarrow> nat" where
  "bn_pos l = (\<lambda>(oh, ci) x c. (oh * unat (bn_IW l) + x) * unat (bn_CI l) + (ci + c))"

definition bn_loc :: "batchnorm_layer_t \<Rightarrow> nat \<Rightarrow> nat \<Rightarrow> nat" where
  "bn_loc l x c = x * unat (bn_TILE_CI l) + c"

lemma bn_room:
  assumes ok: "batchnorm_ok W T d H l p" and t: "bn_tile l (oh, ci)"
  shows "ci + unat (bn_TILE_CI l) \<le> unat (bn_CI l)"
    and "oh * unat (bn_IW l) * unat (bn_CI l) + ci + extent (unat (bn_TILE_CI l)) (unat (bn_CI l)) (unat (bn_IW l)) \<le> bn_size l"
proof -
  let ?TC = "unat (bn_TILE_CI l)" and ?CI = "unat (bn_CI l)" and ?IW = "unat (bn_IW l)"
  note o = ok [unfolded batchnorm_ok_def Let_def]
  show r: "ci + ?TC \<le> ?CI" using t o by (intro dvd_room) (simp_all add: bn_tile_def)
  obtain w where w: "?IW = Suc w" using o by (cases ?IW) auto
  have "(oh + 1) * ?IW \<le> unat (bn_IH l) * ?IW" using t by (intro mult_right_mono) (simp_all add: bn_tile_def)
  then have "(oh * ?IW + ?IW) * ?CI \<le> bn_size l" unfolding bn_size_def by (intro mult_right_mono) simp_all
  then show "oh * ?IW * ?CI + ci + extent ?TC ?CI ?IW \<le> bn_size l" using r by (simp add: extent_def w algebra_simps)
qed

lemma bn_indices:
  assumes ok: "batchnorm_ok W T d H l p" and x: "x < unat (bn_IW l)" "c < unat (bn_TILE_CI l)"
  shows "bn_loc l x c < bn_half l" "bn_tile l t \<Longrightarrow> bn_pos l t x c < bn_size l" "bn_tile l t \<Longrightarrow> snd t + c < unat (bn_CI l)"
proof -
  show "bn_loc l x c < bn_half l" using row_major_less [OF x] by (simp add: bn_loc_def bn_half_def)
  assume t: "bn_tile l t"
  obtain oh ci where oc: "t = (oh, ci)" by (cases t)
  have ch: "ci + c < unat (bn_CI l)" using bn_room(1) [OF ok, of oh ci] t x(2) by (simp add: oc)
  have "oh * unat (bn_IW l) + x < unat (bn_IH l) * unat (bn_IW l)" using row_major_less t x(1) by (simp add: oc bn_tile_def)
  from row_major_less [OF this ch] show "bn_pos l t x c < bn_size l" by (simp add: bn_pos_def bn_size_def oc)
  show "snd t + c < unat (bn_CI l)" using ch by (simp add: oc)
qed

lemma bn_pos_base: "dbl q (of_nat (oh * unat (bn_IW l) * unat (bn_CI l) + ci)) = r \<Longrightarrow> elt m r (x * unat (bn_CI l) + c) = elt m q (bn_pos l (oh, ci) x c)"
  unfolding bn_pos_def by (drule sym) (simp add: elt_part algebra_simps del: of_nat_add of_nat_mult)

lemma bn_fits:
  assumes ok: "batchnorm_ok W T d H l p" and t: "bn_tile l (oh, ci)"
    and q: "holds q (bn_size l)" and b: "holds b (bn_half l)" "beside b (bn_half l) q (bn_size l)"
  shows "tile_fits (unat (bn_TILE_CI l)) (unat (bn_CI l)) (unat (bn_IW l)) b (dbl q (of_nat (oh * unat (bn_IW l) * unat (bn_CI l) + ci)))"
proof -
  let ?TC = "unat (bn_TILE_CI l)" and ?CI = "unat (bn_CI l)" and ?IW = "unat (bn_IW l)"
  note o = ok [unfolded batchnorm_ok_def Let_def]
  have e: "0 < extent ?TC ?CI ?IW" using o by (simp add: extent_def)
  note r = bn_room [OF ok t] and a = part_array(2) [OF q bn_room(2) [OF ok t] e]
  have "beside b (bn_half l) (dbl q (of_nat (oh * ?IW * ?CI + ci))) (extent ?TC ?CI ?IW)"
    using part_beside [OF q r(2) e b(2) [THEN beside_sym [THEN iffD1]]] by (rule beside_sym [THEN iffD1])
  moreover have "rows_ok ?TC ?CI ?IW" using o r(1) unat_bound [of "bn_IW l"] by (simp add: rows_ok_def)
  moreover have "8 * bn_half l < 2 ^ 32" using o by (simp add: bn_total_def)
  ultimately show ?thesis using a b(1) by (simp add: tile_fits_def bn_half_def)
qed

text \<open>What a load writes: the buffer of the tile, and with the first tile the weights.\<close>

definition bn_fresh :: "batchnorm_layer_t \<Rightarrow> ptr \<Rightarrow> nat \<Rightarrow> u64 set" where
  "bn_fresh l p k = span (bn_ibuf l p k) (8 * bn_half l) \<union> (if k = 0 then span (bn_g l p) (8 * unat (bn_CI l)) \<union> span (bn_b l p) (8 * unat (bn_CI l)) else {})"

context dma_backend
begin

lemma batchnorm_load_result:
  assumes ok: "batchnorm_ok W T d H l p" and t: "bn_tile l (oh, ci)" and idle: "pending st = []" and sched: "2 \<le> sum_list sched_w" "1 \<le> sum_list sched"
  shows "\<exists>st'. batchnorm_load exec sched_w sched l p k (oh, ci) st = Some st' \<and> pending st' = [] \<and>
    (\<forall>x<unat (bn_IW l). \<forall>c<unat (bn_TILE_CI l). elt (dmem st') (bn_ibuf l p k) (bn_loc l x c) = elt (dmem st) (bn_ifmap l) (bn_pos l (oh, ci) x c)) \<and>
    (k = 0 \<longrightarrow> (\<forall>c<unat (bn_CI l). elt (dmem st') (bn_g l p) c = elt (dmem st) (bn_gamma l) c \<and> elt (dmem st') (bn_b l p) c = elt (dmem st) (bn_beta l) c)) \<and>
    (\<forall>y. y \<notin> bn_fresh l p k \<longrightarrow> dmem st' y = dmem st y)"
proof -
  let ?TC = "unat (bn_TILE_CI l)" and ?CI = "unat (bn_CI l)" and ?IW = "unat (bn_IW l)" and ?g = "bn_g l p" and ?b = "bn_b l p" and ?ib = "bn_ibuf l p k"
  define A where "A = (if k = 0 then span ?g (8 * ?CI) \<union> span ?b (8 * ?CI) else {})"
  note o = ok [unfolded batchnorm_ok_def Let_def] and h = bn_holds [OF ok] and bs = bn_beside [OF ok]
  have out: "beside x n q i" if "beside p (bn_total l) q i" "x = ?g \<and> n = ?CI \<or> x = ?b \<and> n = ?CI \<or> x = ?ib \<and> n = bn_half l" for x n q i
    using bn_outside [OF ok that(1)] that(2) by blast
  have ci: "8 * bn_CI l = of_nat (8 * ?CI)" by simp
  obtain s1 where s1: "(if k = 0 then snrt_dma_wait_all exec sched_w (snd (snrt_dma_start_1d ?b (bn_beta l) (8 * bn_CI l) (snd (snrt_dma_start_1d ?g (bn_gamma l) (8 * bn_CI l) st)))) else Some st) = Some s1"
      "pending s1 = []" "k = 0 \<longrightarrow> (\<forall>c<?CI. elt (dmem s1) ?g c = elt (dmem st) (bn_gamma l) c \<and> elt (dmem s1) ?b c = elt (dmem st) (bn_beta l) c)"
      "\<And>y. y \<notin> A \<Longrightarrow> dmem s1 y = dmem st y"
  proof (cases "k = 0")
    case True
    have l: "array_ok ?g ?CI" "array_ok ?b ?CI" "beside ?b ?CI ?g ?CI" using h o bs(6) beside_sym by (auto simp: array_ok_def)
    obtain s1 where "snrt_dma_wait_all exec sched_w (snd (snrt_dma_start_1d ?b (bn_beta l) (of_nat (8 * ?CI)) (snd (snrt_dma_start_1d ?g (bn_gamma l) (of_nat (8 * ?CI)) st)))) = Some s1"
      "pending s1 = []" "\<And>c. c < ?CI \<Longrightarrow> elt (dmem s1) ?g c = elt (dmem st) (bn_gamma l) c" "\<And>c. c < ?CI \<Longrightarrow> elt (dmem s1) ?b c = elt (dmem st) (bn_beta l) c"
      "\<And>y. y \<notin> span ?g (8 * ?CI) \<union> span ?b (8 * ?CI) \<Longrightarrow> dmem s1 y = dmem st y"
      by (rule axpy_copy_in [OF idle sched(1) l, of "bn_gamma l" "bn_beta l"]) (use o out in auto)
    then show thesis using that [of s1] True unfolding ci A_def by simp
  qed (use that [of st] idle in \<open>simp add: A_def\<close>)
  have img: "holds (bn_ifmap l) (bn_size l)" "beside ?ib (bn_half l) (bn_ifmap l) (bn_size l)" using o out by blast+
  note fits = bn_fits [OF ok t img(1) h(1) [of k] img(2)]
  let ?src = "dbl (bn_ifmap l) (of_nat (oh * ?IW * ?CI + ci))"
  note r = tile_in_result [OF fits, where st = s1]
  have m1: "dma_settled exec s1 = dmem s1" by (simp add: dma_settled_def s1(2))
  have "length (pending (tile_in ?TC ?CI ?IW ?ib ?src s1)) \<le> sum_list sched" using r(3) s1(2) sched(2) by simp
  then obtain s2 where s2: "snrt_dma_wait_all exec sched (tile_in ?TC ?CI ?IW ?ib ?src s1) = Some s2" "pending s2 = []"
      "dmem s2 = dma_settled exec (tile_in ?TC ?CI ?IW ?ib ?src s1)" using wait_all_settles by blast
  have fr: "dmem s2 y = dmem s1 y" if "y \<notin> span ?ib (8 * bn_half l)" for y using r(2) that by (simp add: s2(3) m1 bn_half_def)
  have "A \<inter> span (bn_ifmap l) (8 * bn_size l) = {}"
    using beside_span [OF out, of "bn_ifmap l" "bn_size l" ?g ?CI] beside_span [OF out, of "bn_ifmap l" "bn_size l" ?b ?CI] o by (auto simp: A_def)
  then have src: "elt (dmem s1) (bn_ifmap l) j = elt (dmem st) (bn_ifmap l) j" if "j < bn_size l" for j
    by (rule elt_apart [OF img(1) that _ s1(4)])
  have elts: "elt (dmem s2) ?ib (bn_loc l x c) = elt (dmem st) (bn_ifmap l) (bn_pos l (oh, ci) x c)" if "x < ?IW" "c < ?TC" for x c
    using r(1) [OF that] src [OF bn_indices(2) [OF ok that t]] unfolding s2(3) bn_loc_def m1 bn_pos_base [OF refl] by simp
  have weights: "k = 0 \<longrightarrow> (\<forall>c<?CI. elt (dmem s2) ?g c = elt (dmem st) (bn_gamma l) c \<and> elt (dmem s2) ?b c = elt (dmem st) (bn_beta l) c)"
    using s1(3) elt_apart [OF h(2) _ beside_span [OF bs(2)] fr] elt_apart [OF h(3) _ beside_span [OF bs(3)] fr] by simp
  have "dmem s2 y = dmem st y" if "y \<notin> bn_fresh l p k" for y
    using fr s1(4) that by (auto simp: bn_fresh_def A_def split: if_splits)
  moreover have "batchnorm_load exec sched_w sched l p k (oh, ci) st = Some s2"
    using s1(1) s2(1) unfolding batchnorm_load_def bn_l1 [OF ok] Let_def prod.case bn_ibuf_def by simp
  ultimately show ?thesis using s2(2) elts weights by blast
qed

lemma batchnorm_store_result:
  assumes ok: "batchnorm_ok W T d H l p" and t: "bn_tile l (oh, ci)" and idle: "pending st = []" and sched: "1 \<le> sum_list sched"
  shows "\<exists>st'. batchnorm_store exec sched l p k (oh, ci) st = Some st' \<and> pending st' = [] \<and>
    (\<forall>x<unat (bn_IW l). \<forall>c<unat (bn_TILE_CI l). elt (dmem st') (bn_ofmap l) (bn_pos l (oh, ci) x c) = elt (dmem st) (bn_obuf l p k) (bn_loc l x c)) \<and>
    (\<forall>y. (\<forall>x<unat (bn_IW l). \<forall>c<unat (bn_TILE_CI l). y \<notin> cell (bn_ofmap l) (bn_pos l (oh, ci) x c)) \<longrightarrow> dmem st' y = dmem st y)"
proof -
  let ?TC = "unat (bn_TILE_CI l)" and ?CI = "unat (bn_CI l)" and ?IW = "unat (bn_IW l)" and ?ob = "bn_obuf l p k"
  note o = ok [unfolded batchnorm_ok_def Let_def] and h = bn_holds [OF ok]
  let ?dst = "dbl (bn_ofmap l) (of_nat (oh * ?IW * ?CI + ci))"
  have img: "holds (bn_ofmap l) (bn_size l)" "beside ?ob (bn_half l) (bn_ofmap l) (bn_size l)" using o bn_outside [OF ok] by blast+
  note r = tile_out_result [OF bn_fits [OF ok t img(1) h(4) [of k] img(2)], where st = st]
  have m: "dma_settled exec st = dmem st" by (simp add: dma_settled_def idle)
  have "length (pending (tile_out ?TC ?CI ?IW ?dst ?ob st)) \<le> sum_list sched" using r(3) idle sched by simp
  then obtain s2 where s2: "snrt_dma_wait_all exec sched (tile_out ?TC ?CI ?IW ?dst ?ob st) = Some s2" "pending s2 = []"
      "dmem s2 = dma_settled exec (tile_out ?TC ?CI ?IW ?dst ?ob st)" using wait_all_settles by blast
  have elts: "elt (dmem s2) (bn_ofmap l) (bn_pos l (oh, ci) x c) = elt (dmem st) ?ob (bn_loc l x c)" if "x < ?IW" "c < ?TC" for x c
    using r(1) [OF that] unfolding s2(3) bn_loc_def m bn_pos_base [OF refl] .
  have cells: "cell ?dst (x * ?CI + c) = cell (bn_ofmap l) (bn_pos l (oh, ci) x c)" for x c
    unfolding cell_part by (simp add: bn_pos_def algebra_simps)
  have "dmem s2 y = dmem st y" if "\<forall>x<?IW. \<forall>c<?TC. y \<notin> cell (bn_ofmap l) (bn_pos l (oh, ci) x c)" for y
    using r(2) [of y] that unfolding s2(3) m rows_def cells by blast
  moreover have "batchnorm_store exec sched l p k (oh, ci) st = Some s2"
    using s2(1) unfolding batchnorm_store_def bn_l1 [OF ok] bn_l1(2) [OF ok] Let_def prod.case bn_obuf_def dbl_dbl by simp
  ultimately show ?thesis using s2(2) elts by blast
qed

end

text \<open>What the layer computes.\<close>

definition batchnorm_spec :: "fp_ops \<Rightarrow> batchnorm_layer_t \<Rightarrow> mem \<Rightarrow> nat \<Rightarrow> nat \<Rightarrow> f64" where
  "batchnorm_spec F l m pixel ch =
     fmadd F (elt m (bn_ifmap l) (pixel * unat (bn_CI l) + ch)) (elt m (bn_gamma l) ch) (elt m (bn_beta l) ch)"

lemma batchnorm_compute_result:
  fixes F :: fp_ops and cs :: "u32 \<Rightarrow> ssr_core"
  assumes ok: "batchnorm_ok W T d H l p" and h: "h \<in> H" and t: "bn_tile l (oh, ci)"
    and c: "core_ready W (bn_IW l) (bn_TILE_CI l) (snrt_cluster_compute_core_num d) (k = 0) (cs h)"
  shows "\<exists>st' c'. batchnorm_compute W T F d l p k (oh, ci) h (st, cs) = Some (st', cs(h := c')) \<and> pending st' = pending st \<and>
    core_ready W (bn_IW l) (bn_TILE_CI l) (snrt_cluster_compute_core_num d) False c' \<and>
    (\<forall>x<unat (bn_IW l). \<forall>c<unat (bn_TILE_CI l). elt (dmem st') (bn_obuf l p k) (bn_loc l x c) =
      (if c mod unat (snrt_cluster_compute_core_num d) = unat (snrt_cluster_core_idx d h)
       then fmadd F (elt (dmem st) (bn_ibuf l p k) (bn_loc l x c)) (elt (dmem st) (bn_g l p) (ci + c)) (elt (dmem st) (bn_b l p) (ci + c))
       else elt (dmem st) (bn_obuf l p k) (bn_loc l x c))) \<and>
    (\<forall>y. y \<notin> span (bn_obuf l p k) (8 * bn_half l) \<longrightarrow> dmem st' y = dmem st y)"
proof -
  let ?TC = "unat (bn_TILE_CI l)" and ?CI = "unat (bn_CI l)" and ?IW = "unat (bn_IW l)" and ?ob = "bn_obuf l p k" and ?ib = "bn_ibuf l p k"
    and ?cn = "snrt_cluster_compute_core_num d" and ?m = "dmem st"
  define q where "q = unat (snrt_cluster_core_idx d h)"
  note o = ok [unfolded batchnorm_ok_def Let_def] and hs = bn_holds [OF ok] and bs = bn_beside [OF ok]
  have "q \<in> (\<lambda>h. unat (snrt_cluster_core_idx d h)) ` H" using h by (simp add: q_def)
  then have q: "q < unat ?cn" "unat ?cn dvd ?TC" "0 < ?TC" using o by auto
  have room: "ci + ?TC \<le> ?CI" by (rule bn_room(1) [OF ok t])
  let ?g = "dbl (bn_g l p) (of_nat ci)" and ?b = "dbl (bn_b l p) (of_nat ci)"
  have w: "holds ?g ?TC" "holds ?b ?TC" "beside ?ob (bn_half l) ?g ?TC" "beside ?ob (bn_half l) ?b ?TC"
    using part_array(2) [OF hs(2) room q(3)] part_array(2) [OF hs(3) room q(3)]
      part_beside [OF hs(2) room q(3) bs(4) [THEN beside_sym [THEN iffD1]]] part_beside [OF hs(3) room q(3) bs(5) [THEN beside_sym [THEN iffD1]]] beside_sym by blast+
  have half: "bn_half l = ?IW * ?TC" by (simp add: bn_half_def)
  have "in_tcdm W T ?ib (bn_half l)" "in_tcdm W T ?ob (bn_half l)"
    unfolding bn_ibuf_def bn_obuf_def by (rule bn_tcdm [OF ok]; use bn_parts [OF ok] in simp)+
  then have buf: "bn_buffers W T ?IW ?TC ?ib ?g ?b ?ob"
    using hs(1,4) w bs(1) [of k k, THEN beside_sym [THEN iffD1]] unfolding bn_buffers_def half by blast
  have lo: "bn_loops_ok W (bn_IW l) (bn_TILE_CI l) ?cn" using o by blast
  define V where "V i = fmadd F (elt ?m ?ib i) (elt ?m ?g (i mod ?TC)) (elt ?m ?b (i mod ?TC))" for i
  define m' where "m' = fold (\<lambda>i m. store64 (dbl ?ob (of_nat i)) (V i) m) (bn_items ?IW ?TC (unat ?cn) q) ?m"
  obtain c' where c': "batchnorm_fp64 W T F (dbl ?ib (of_nat q)) (dbl ?g (of_nat q)) (dbl ?b (of_nat q)) (dbl ?ob (of_nat q)) (bn_IW l) (bn_TILE_CI l) ?cn (k = 0) (cs h, ?m) = Some (c', m')"
      "core_ready W (bn_IW l) (bn_TILE_CI l) ?cn False c'"
    using batchnorm_fp64_stores [OF c lo q(2,1) buf, of F ?m] unfolding m'_def V_def by blast
  have run: "batchnorm_compute W T F d l p k (oh, ci) h (st, cs) = Some (st\<lparr>dmem := m'\<rparr>, cs(h := c'))"
    using c'(1) unfolding batchnorm_compute_def bn_l1 [OF ok] bn_l1(3) [OF ok] Let_def prod.case bn_ibuf_def bn_obuf_def q_def
    by (simp add: dbl_dbl add.assoc)
  have items: "set (bn_items ?IW ?TC (unat ?cn) q) \<subseteq> {..<bn_half l}" using set_bn_items [OF q(2,1)] by (auto simp: half)
  have frame: "m' y = ?m y" if "y \<notin> span ?ob (8 * bn_half l)" for y
    unfolding m'_def by (rule fold_stores(1) [OF hs(4) items _ that]) simp
  have elts: "elt m' ?ob (bn_loc l x c) = (if c mod unat ?cn = q
       then fmadd F (elt ?m ?ib (bn_loc l x c)) (elt ?m (bn_g l p) (ci + c)) (elt ?m (bn_b l p) (ci + c)) else elt ?m ?ob (bn_loc l x c))"
    if "x < ?IW" "c < ?TC" for x c
  proof -
    have i: "bn_loc l x c < bn_half l" "bn_loc l x c mod ?TC = c" using bn_indices(1) [OF ok that] that(2) by (simp_all add: bn_loc_def)
    have "elt m' ?ob (bn_loc l x c) = (if bn_loc l x c \<in> set (bn_items ?IW ?TC (unat ?cn) q) then V (bn_loc l x c) else elt ?m ?ob (bn_loc l x c))"
      unfolding m'_def by (rule fold_stores(2) [OF hs(4) items _ i(1)]) simp
    then show ?thesis using i by (simp add: set_bn_items [OF q(2,1)] half V_def elt_part)
  qed
  show ?thesis using run c'(2) elts frame by (auto simp: q_def)
qed

section \<open>The layer as a double buffer\<close>

definition bn_inv ::
  "(dma_req \<Rightarrow> mem \<Rightarrow> mem) \<Rightarrow> nat list \<Rightarrow> (nat \<Rightarrow> nat list) \<Rightarrow> (nat \<Rightarrow> nat list) \<Rightarrow> ssr_widths \<Rightarrow> ptr \<Rightarrow> snrt_defs \<Rightarrow> u32 set \<Rightarrow> batchnorm_layer_t \<Rightarrow> ptr \<Rightarrow>
    (nat \<times> nat) list \<Rightarrow> mem \<Rightarrow> dma_state \<Rightarrow> bool" where
  "bn_inv exec sched_w sched_in sched_out W T d H l p tiles m0 st \<longleftrightarrow> dma_backend exec \<and> batchnorm_ok W T d H l p \<and> distinct tiles \<and> (\<forall>t\<in>set tiles. bn_tile l t) \<and>
     2 \<le> sum_list sched_w \<and> (\<forall>k. 1 \<le> sum_list (sched_in k) \<and> 1 \<le> sum_list (sched_out k)) \<and> pending st = [] \<and>
     (\<forall>y. y \<notin> span p (8 * bn_total l) \<union> span (bn_ofmap l) (8 * bn_size l) \<longrightarrow> dmem st y = m0 y)"

text \<open>The weights are in L1; tile \<open>k\<close> is in its buffer; the result of core \<open>h\<close> is in its buffer; the result is in the output.\<close>

definition bn_weights :: "batchnorm_layer_t \<Rightarrow> ptr \<Rightarrow> mem \<Rightarrow> mem \<Rightarrow> bool" where
  "bn_weights l p m0 m \<longleftrightarrow> (\<forall>c<unat (bn_CI l). elt m (bn_g l p) c = elt m0 (bn_gamma l) c \<and> elt m (bn_b l p) c = elt m0 (bn_beta l) c)"

definition bn_loaded :: "batchnorm_layer_t \<Rightarrow> ptr \<Rightarrow> (nat \<times> nat) list \<Rightarrow> mem \<Rightarrow> nat \<Rightarrow> mem \<Rightarrow> bool" where
  "bn_loaded l p tiles m0 k m \<longleftrightarrow> (k < length tiles \<longrightarrow> (\<forall>x<unat (bn_IW l). \<forall>c<unat (bn_TILE_CI l).
     elt m (bn_ibuf l p k) (bn_loc l x c) = elt m0 (bn_ifmap l) (bn_pos l (tiles ! k) x c))) \<and> (k = 0 \<longrightarrow> bn_weights l p m0 m)"

definition bn_ready :: "ssr_widths \<Rightarrow> snrt_defs \<Rightarrow> batchnorm_layer_t \<Rightarrow> ptr \<Rightarrow> mem \<Rightarrow> nat \<Rightarrow> mem \<Rightarrow> ssr_core \<Rightarrow> bool" where
  "bn_ready W d l p m0 k m c \<longleftrightarrow> core_ready W (bn_IW l) (bn_TILE_CI l) (snrt_cluster_compute_core_num d) (k = 0) c \<and> (0 < k \<longrightarrow> bn_weights l p m0 m)"

definition bn_computed :: "fp_ops \<Rightarrow> snrt_defs \<Rightarrow> batchnorm_layer_t \<Rightarrow> ptr \<Rightarrow> (nat \<times> nat) list \<Rightarrow> mem \<Rightarrow> nat \<Rightarrow> u32 \<Rightarrow> mem \<Rightarrow> bool" where
  "bn_computed F d l p tiles m0 k h m \<longleftrightarrow> (k < length tiles \<longrightarrow> (\<forall>x<unat (bn_IW l). \<forall>c<unat (bn_TILE_CI l).
     c mod unat (snrt_cluster_compute_core_num d) = unat (snrt_cluster_core_idx d h) \<longrightarrow>
       elt m (bn_obuf l p k) (bn_loc l x c) = batchnorm_spec F l m0 (fst (tiles ! k) * unat (bn_IW l) + x) (snd (tiles ! k) + c)))"

definition bn_stored :: "fp_ops \<Rightarrow> batchnorm_layer_t \<Rightarrow> (nat \<times> nat) list \<Rightarrow> mem \<Rightarrow> nat \<Rightarrow> mem \<Rightarrow> bool" where
  "bn_stored F l tiles m0 k m \<longleftrightarrow> (\<forall>x<unat (bn_IW l). \<forall>c<unat (bn_TILE_CI l).
     elt m (bn_ofmap l) (bn_pos l (tiles ! k) x c) = batchnorm_spec F l m0 (fst (tiles ! k) * unat (bn_IW l) + x) (snd (tiles ! k) + c))"

text \<open>What a step keeps that only writes into \<open>A\<close>.\<close>

lemma bn_keeps:
  assumes ok: "batchnorm_ok W T d H l p" and m: "\<forall>y. y \<notin> A \<longrightarrow> m' y = m y"
  shows "A \<inter> (span (bn_g l p) (8 * unat (bn_CI l)) \<union> span (bn_b l p) (8 * unat (bn_CI l))) = {} \<Longrightarrow> bn_weights l p m0 m \<Longrightarrow> bn_weights l p m0 m'"
    and "A \<inter> span (bn_ibuf l p k) (8 * bn_half l) = {} \<Longrightarrow> (k = 0 \<longrightarrow> bn_weights l p m0 m') \<Longrightarrow> bn_loaded l p tiles m0 k m \<Longrightarrow> bn_loaded l p tiles m0 k m'"
    and "A \<inter> span (bn_obuf l p k) (8 * bn_half l) = {} \<Longrightarrow> bn_computed F d l p tiles m0 k h m \<Longrightarrow> bn_computed F d l p tiles m0 k h m'"
    and "A \<inter> span (bn_ofmap l) (8 * bn_size l) = {} \<Longrightarrow> bn_tile l (tiles ! k) \<Longrightarrow> bn_stored F l tiles m0 k m \<Longrightarrow> bn_stored F l tiles m0 k m'"
proof -
  note h = bn_holds [OF ok] and i = bn_indices [OF ok]
  have out: "holds (bn_ofmap l) (bn_size l)" using ok by (simp add: batchnorm_ok_def Let_def)
  have ap: "elt m' q j = elt m q j" if "holds q n" "A \<inter> span q (8 * n) = {}" "j < n" for q n j
    by (rule elt_apart [OF that(1,3,2)]) (use m in blast)
  show "bn_weights l p m0 m'" if "A \<inter> (span (bn_g l p) (8 * unat (bn_CI l)) \<union> span (bn_b l p) (8 * unat (bn_CI l))) = {}" "bn_weights l p m0 m"
    using ap [OF h(2)] ap [OF h(3)] that unfolding bn_weights_def by (simp add: Int_Un_distrib)
  show "bn_loaded l p tiles m0 k m'" if "A \<inter> span (bn_ibuf l p k) (8 * bn_half l) = {}" "k = 0 \<longrightarrow> bn_weights l p m0 m'" "bn_loaded l p tiles m0 k m"
    using ap [OF h(1) that(1) i(1)] that(2,3) unfolding bn_loaded_def by simp
  show "bn_computed F d l p tiles m0 k h m'" if "A \<inter> span (bn_obuf l p k) (8 * bn_half l) = {}" "bn_computed F d l p tiles m0 k h m"
    using ap [OF h(4) that(1) i(1)] that(2) unfolding bn_computed_def by simp
  show "bn_stored F l tiles m0 k m'" if "A \<inter> span (bn_ofmap l) (8 * bn_size l) = {}" "bn_tile l (tiles ! k)" "bn_stored F l tiles m0 k m"
    using ap [OF out that(1) i(2) [OF _ _ that(2)]] that(3) unfolding bn_stored_def by simp
qed

lemma bn_inv_keep:
  assumes "bn_inv exec sched_w sched_in sched_out W T d H l p tiles m0 s" "pending s' = []" and A: "A \<subseteq> span p (8 * bn_total l) \<union> span (bn_ofmap l) (8 * bn_size l)"
    and s': "\<And>y. y \<notin> A \<Longrightarrow> dmem s' y = dmem s y"
  shows "bn_inv exec sched_w sched_in sched_out W T d H l p tiles m0 s'"
proof -
  have "dmem s' y = dmem s y" if "y \<notin> span p (8 * bn_total l) \<union> span (bn_ofmap l) (8 * bn_size l)" for y using s' A that by blast
  then show ?thesis using assms(1,2) by (simp add: bn_inv_def)
qed

text \<open>The inputs are never written.\<close>

lemma bn_inputs:
  assumes inv: "bn_inv exec sched_w sched_in sched_out W T d H l p tiles m0 s"
  shows "i < bn_size l \<Longrightarrow> elt (dmem s) (bn_ifmap l) i = elt m0 (bn_ifmap l) i"
    and "c < unat (bn_CI l) \<Longrightarrow> elt (dmem s) (bn_gamma l) c = elt m0 (bn_gamma l) c" "c < unat (bn_CI l) \<Longrightarrow> elt (dmem s) (bn_beta l) c = elt m0 (bn_beta l) c"
proof -
  note v = inv [unfolded bn_inv_def]
  then have o: "batchnorm_ok W T d H l p" by blast
  note o' = o [unfolded batchnorm_ok_def Let_def]
  have *: "elt (dmem s) q j = elt m0 q j" if "holds q n" "beside p (bn_total l) q n" "beside (bn_ofmap l) (bn_size l) q n" "j < n" for q n j
    by (rule elt_apart [of q n j "span p (8 * bn_total l) \<union> span (bn_ofmap l) (8 * bn_size l)"])
      (use that v beside_span [OF that(2)] beside_span [OF that(3)] in \<open>auto simp: Int_Un_distrib2\<close>)
  show "i < bn_size l \<Longrightarrow> elt (dmem s) (bn_ifmap l) i = elt m0 (bn_ifmap l) i"
    "c < unat (bn_CI l) \<Longrightarrow> elt (dmem s) (bn_gamma l) c = elt m0 (bn_gamma l) c" "c < unat (bn_CI l) \<Longrightarrow> elt (dmem s) (bn_beta l) c = elt m0 (bn_beta l) c"
    by (rule *; use o' in blast)+
qed

lemma bn_load_law:
  assumes inv: "bn_inv exec sched_w sched_in sched_out W T d H l p tiles m0 s" and k: "k < length tiles"
  shows "\<exists>s'. batchnorm_load exec sched_w (sched_in k) l p k (tiles ! k) s = Some s' \<and> bn_inv exec sched_w sched_in sched_out W T d H l p tiles m0 s' \<and>
    bn_loaded l p tiles m0 k (dmem s') \<and> (\<forall>i. Suc i = k \<longrightarrow> bn_loaded l p tiles m0 i (dmem s) \<longrightarrow> bn_loaded l p tiles m0 i (dmem s')) \<and>
    (\<forall>i c. bn_ready W d l p m0 i (dmem s) c \<longrightarrow> bn_ready W d l p m0 i (dmem s') c) \<and>
    (\<forall>i h. bn_computed F d l p tiles m0 i h (dmem s) \<longrightarrow> bn_computed F d l p tiles m0 i h (dmem s')) \<and>
    (\<forall>i<length tiles. bn_stored F l tiles m0 i (dmem s) \<longrightarrow> bn_stored F l tiles m0 i (dmem s'))"
proof -
  obtain oh ci where t: "tiles ! k = (oh, ci)" by (cases "tiles ! k")
  note v = inv [unfolded bn_inv_def]
  have ok: "batchnorm_ok W T d H l p" and ts: "\<And>i. i < length tiles \<Longrightarrow> bn_tile l (tiles ! i)" using v by auto
  note bs = bn_beside [OF ok] and o = ok [unfolded batchnorm_ok_def Let_def]
  obtain s' where s': "batchnorm_load exec sched_w (sched_in k) l p k (oh, ci) s = Some s'" "pending s' = []"
      "\<forall>x<unat (bn_IW l). \<forall>c<unat (bn_TILE_CI l). elt (dmem s') (bn_ibuf l p k) (bn_loc l x c) = elt (dmem s) (bn_ifmap l) (bn_pos l (oh, ci) x c)"
      "k = 0 \<longrightarrow> (\<forall>c<unat (bn_CI l). elt (dmem s') (bn_g l p) c = elt (dmem s) (bn_gamma l) c \<and> elt (dmem s') (bn_b l p) c = elt (dmem s) (bn_beta l) c)"
      "\<And>y. y \<notin> bn_fresh l p k \<Longrightarrow> dmem s' y = dmem s y"
    using dma_backend.batchnorm_load_result [of exec W T d H l p oh ci s sched_w "sched_in k" k] v ts [OF k] t by auto
  have fr': "\<forall>y. y \<notin> bn_fresh l p k \<longrightarrow> dmem s' y = dmem s y" using s'(5) by blast
  note keeps = bn_keeps [OF ok fr'] and inp = bn_inputs [OF inv]
  have w0: "k = 0 \<longrightarrow> bn_weights l p m0 (dmem s')" using s'(4) inp(2,3) by (simp add: bn_weights_def)
  have w1: "bn_weights l p m0 (dmem s) \<longrightarrow> bn_weights l p m0 (dmem s')"
  proof (cases "k = 0")
    case False
    have "bn_fresh l p k \<inter> (span (bn_g l p) (8 * unat (bn_CI l)) \<union> span (bn_b l p) (8 * unat (bn_CI l))) = {}"
      using False beside_span [OF bs(2) [of k]] beside_span [OF bs(3) [of k]] by (simp add: bn_fresh_def Int_Un_distrib)
    then show ?thesis using keeps(1) by blast
  qed (use w0 in simp)
  have disj: "bn_fresh l p k \<inter> span q (8 * n) = {}"
    if "beside (bn_ibuf l p k) (bn_half l) q n" "beside (bn_g l p) (unat (bn_CI l)) q n" "beside (bn_b l p) (unat (bn_CI l)) q n" for q n
    using that [THEN beside_span] by (simp add: bn_fresh_def Int_Un_distrib2)
  have "bn_loaded l p tiles m0 k (dmem s')"
    using s'(3) inp(1) bn_indices(2) [OF ok _ _ ts [OF k]] w0 t unfolding bn_loaded_def by simp
  moreover have "bn_inv exec sched_w sched_in sched_out W T d H l p tiles m0 s'"
    by (rule bn_inv_keep [OF inv s'(2) _ s'(5)]) (use bn_inside [OF ok] in \<open>auto simp: bn_fresh_def split: if_splits\<close>)
  moreover have "bn_loaded l p tiles m0 i (dmem s')" if "Suc i = k" "bn_loaded l p tiles m0 i (dmem s)" for i
  proof (rule keeps(2) [OF _ _ that(2)])
    show "bn_fresh l p k \<inter> span (bn_ibuf l p i) (8 * bn_half l) = {}" using beside_span [OF bs(7) [OF that(1)]] that(1) by (simp add: bn_fresh_def)
    show "i = 0 \<longrightarrow> bn_weights l p m0 (dmem s')" using that(2) w1 by (auto simp: bn_loaded_def)
  qed
  moreover have "bn_computed F d l p tiles m0 i h (dmem s')" if "bn_computed F d l p tiles m0 i h (dmem s)" for i h
    by (rule keeps(3) [OF disj that]) (use bs beside_sym in blast)+
  moreover have "bn_stored F l tiles m0 i (dmem s')" if "i < length tiles" "bn_stored F l tiles m0 i (dmem s)" for i
    by (rule keeps(4) [OF disj ts [OF that(1)] that(2)]) (use o bn_outside [OF ok] in blast)+
  ultimately show ?thesis using s'(1) t w1 by (auto simp: bn_ready_def)
qed

lemma bn_compute_law:
  fixes cs :: "u32 \<Rightarrow> ssr_core"
  assumes inv: "bn_inv exec sched_w sched_in sched_out W T d H l p tiles m0 s" and k: "k < length tiles" and h: "h \<in> H"
    and loaded: "bn_loaded l p tiles m0 k (dmem s)" and ready: "bn_ready W d l p m0 k (dmem s) (cs h)"
  shows "\<exists>s' c'. batchnorm_compute W T F d l p k (tiles ! k) h (s, cs) = Some (s', cs(h := c')) \<and>
    bn_inv exec sched_w sched_in sched_out W T d H l p tiles m0 s' \<and> bn_computed F d l p tiles m0 k h (dmem s') \<and>
    bn_ready W d l p m0 (Suc k) (dmem s') c' \<and> (\<forall>i. bn_loaded l p tiles m0 i (dmem s) \<longrightarrow> bn_loaded l p tiles m0 i (dmem s')) \<and>
    (\<forall>i c. bn_ready W d l p m0 i (dmem s) c \<longrightarrow> bn_ready W d l p m0 i (dmem s') c) \<and>
    (\<forall>h'\<in>H. h' \<noteq> h \<longrightarrow> bn_computed F d l p tiles m0 k h' (dmem s) \<longrightarrow> bn_computed F d l p tiles m0 k h' (dmem s')) \<and>
    (\<forall>i h'. Suc i = k \<longrightarrow> bn_computed F d l p tiles m0 i h' (dmem s) \<longrightarrow> bn_computed F d l p tiles m0 i h' (dmem s')) \<and>
    (\<forall>i<length tiles. bn_stored F l tiles m0 i (dmem s) \<longrightarrow> bn_stored F l tiles m0 i (dmem s'))"
proof -
  obtain oh ci where t: "tiles ! k = (oh, ci)" by (cases "tiles ! k")
  note v = inv [unfolded bn_inv_def]
  have ok: "batchnorm_ok W T d H l p" and ts: "\<And>i. i < length tiles \<Longrightarrow> bn_tile l (tiles ! i)" using v by auto
  note bs = bn_beside [OF ok] and o = ok [unfolded batchnorm_ok_def Let_def] and ix = bn_indices [OF ok]
  have tile: "bn_tile l (oh, ci)" using ts [OF k] t by simp
  have w: "bn_weights l p m0 (dmem s)" using loaded ready by (cases "k = 0") (auto simp: bn_loaded_def bn_ready_def)
  obtain s' c' where s': "batchnorm_compute W T F d l p k (oh, ci) h (s, cs) = Some (s', cs(h := c'))" "pending s' = pending s"
      "core_ready W (bn_IW l) (bn_TILE_CI l) (snrt_cluster_compute_core_num d) False c'"
    and e: "\<forall>x<unat (bn_IW l). \<forall>c<unat (bn_TILE_CI l). elt (dmem s') (bn_obuf l p k) (bn_loc l x c) =
      (if c mod unat (snrt_cluster_compute_core_num d) = unat (snrt_cluster_core_idx d h)
       then fmadd F (elt (dmem s) (bn_ibuf l p k) (bn_loc l x c)) (elt (dmem s) (bn_g l p) (ci + c)) (elt (dmem s) (bn_b l p) (ci + c))
       else elt (dmem s) (bn_obuf l p k) (bn_loc l x c))"
    and fr: "\<And>y. y \<notin> span (bn_obuf l p k) (8 * bn_half l) \<Longrightarrow> dmem s' y = dmem s y"
    using batchnorm_compute_result [OF ok h tile, of k cs F s] ready unfolding bn_ready_def by blast
  have fr': "\<forall>y. y \<notin> span (bn_obuf l p k) (8 * bn_half l) \<longrightarrow> dmem s' y = dmem s y" using fr by blast
  note keeps = bn_keeps [OF ok fr']
  have val: "fmadd F (elt (dmem s) (bn_ibuf l p k) (bn_loc l x c)) (elt (dmem s) (bn_g l p) (ci + c)) (elt (dmem s) (bn_b l p) (ci + c)) =
      batchnorm_spec F l m0 (oh * unat (bn_IW l) + x) (ci + c)" if "x < unat (bn_IW l)" "c < unat (bn_TILE_CI l)" for x c
    using loaded w k t that ix(3) [OF that tile] by (simp add: bn_loaded_def bn_weights_def batchnorm_spec_def bn_pos_def)
  have w': "bn_weights l p m0 (dmem s')" by (rule keeps(1) [OF _ w]) (use beside_span [OF bs(4)] beside_span [OF bs(5)] in \<open>simp add: Int_Un_distrib\<close>)
  have "bn_inv exec sched_w sched_in sched_out W T d H l p tiles m0 s'"
    by (rule bn_inv_keep [OF inv _ _ fr]) (use s'(2) v bn_inside(4) [OF ok] in auto)
  moreover have "bn_computed F d l p tiles m0 k h (dmem s')" using e val t by (simp add: bn_computed_def)
  moreover have "bn_computed F d l p tiles m0 k h' (dmem s')" if "h' \<in> H" "h' \<noteq> h" "bn_computed F d l p tiles m0 k h' (dmem s)" for h'
    using that(3) e val t by (simp add: bn_computed_def)
  moreover have "bn_computed F d l p tiles m0 i h' (dmem s')" if "Suc i = k" "bn_computed F d l p tiles m0 i h' (dmem s)" for i h'
    by (rule keeps(3) [OF beside_span [OF bs(8) [OF that(1)]] that(2)])
  moreover have "bn_loaded l p tiles m0 i (dmem s')" if "bn_loaded l p tiles m0 i (dmem s)" for i
    by (rule keeps(2) [OF beside_span [OF bs(1) [THEN beside_sym [THEN iffD1]]] _ that]) (use w' in simp)
  moreover have "bn_stored F l tiles m0 i (dmem s')" if "i < length tiles" "bn_stored F l tiles m0 i (dmem s)" for i
    by (rule keeps(4) [OF beside_span ts [OF that(1)] that(2)]) (use o bn_outside [OF ok] in blast)
  ultimately show ?thesis using s'(1,3) t w' by (auto simp: bn_ready_def)
qed

text \<open>Different tiles have different elements in the output.\<close>

lemma bn_tiles_apart:
  assumes ok: "batchnorm_ok W T d H l p" and t: "bn_tile l t" "bn_tile l t'" "t \<noteq> t'"
    and x: "x < unat (bn_IW l)" "c < unat (bn_TILE_CI l)" and x': "x' < unat (bn_IW l)" "c' < unat (bn_TILE_CI l)"
  shows "bn_pos l t x c \<noteq> bn_pos l t' x' c'"
proof
  obtain oh ci oh' ci' where tt: "t = (oh, ci)" "t' = (oh', ci')" by (cases t, cases t')
  let ?TC = "unat (bn_TILE_CI l)"
  assume "bn_pos l t x c = bn_pos l t' x' c'"
  moreover have "ci + c < unat (bn_CI l)" "ci' + c' < unat (bn_CI l)" using bn_indices(3) [OF ok x t(1)] bn_indices(3) [OF ok x' t(2)] tt by simp_all
  ultimately have e: "oh * unat (bn_IW l) + x = oh' * unat (bn_IW l) + x'" "ci + c = ci' + c'"
    using row_major_inject [of "ci + c" "unat (bn_CI l)" "ci' + c'" "unat (bn_CI l)"] by (auto simp: bn_pos_def tt)
  have "oh = oh'" using row_major_inject [OF x(1) x'(1) order_refl e(1)] by blast
  moreover have "ci div ?TC * ?TC = ci" "ci' div ?TC * ?TC = ci'" using t by (simp_all add: bn_tile_def tt)
  then have "ci = ci'" using row_major_inject [OF x(2) x'(2) order_refl, of "ci div ?TC" "ci' div ?TC"] e(2) by metis
  ultimately show False using t(3) tt by simp
qed

lemma bn_store_law:
  assumes inv: "bn_inv exec sched_w sched_in sched_out W T d H l p tiles m0 s" and k: "k < length tiles"
    and fin: "\<And>h. h \<in> H \<Longrightarrow> bn_computed F d l p tiles m0 k h (dmem s)"
  shows "\<exists>s'. batchnorm_store exec (sched_out k) l p k (tiles ! k) s = Some s' \<and> bn_inv exec sched_w sched_in sched_out W T d H l p tiles m0 s' \<and>
    bn_stored F l tiles m0 k (dmem s') \<and> (\<forall>i. bn_loaded l p tiles m0 i (dmem s) \<longrightarrow> bn_loaded l p tiles m0 i (dmem s')) \<and>
    (\<forall>i c. bn_ready W d l p m0 i (dmem s) c \<longrightarrow> bn_ready W d l p m0 i (dmem s') c) \<and>
    (\<forall>i h. bn_computed F d l p tiles m0 i h (dmem s) \<longrightarrow> bn_computed F d l p tiles m0 i h (dmem s')) \<and>
    (\<forall>i<length tiles. i \<noteq> k \<longrightarrow> bn_stored F l tiles m0 i (dmem s) \<longrightarrow> bn_stored F l tiles m0 i (dmem s'))"
proof -
  obtain oh ci where t: "tiles ! k = (oh, ci)" by (cases "tiles ! k")
  let ?IW = "unat (bn_IW l)" and ?TC = "unat (bn_TILE_CI l)" and ?P = "unat (snrt_cluster_compute_core_num d)" and ?out = "span (bn_ofmap l) (8 * bn_size l)"
  note v = inv [unfolded bn_inv_def]
  have ok: "batchnorm_ok W T d H l p" and ts: "\<And>i. i < length tiles \<Longrightarrow> bn_tile l (tiles ! i)" using v by auto
  note o = ok [unfolded batchnorm_ok_def Let_def]
  have tile: "bn_tile l (oh, ci)" using ts [OF k] t by simp
  obtain s' where s': "batchnorm_store exec (sched_out k) l p k (oh, ci) s = Some s'" "pending s' = []"
      "\<forall>x<?IW. \<forall>c<?TC. elt (dmem s') (bn_ofmap l) (bn_pos l (oh, ci) x c) = elt (dmem s) (bn_obuf l p k) (bn_loc l x c)"
      "\<And>y. (\<forall>x<?IW. \<forall>c<?TC. y \<notin> cell (bn_ofmap l) (bn_pos l (oh, ci) x c)) \<Longrightarrow> dmem s' y = dmem s y"
    using dma_backend.batchnorm_store_result [of exec W T d H l p oh ci s "sched_out k" k] v tile by auto
  have out: "holds (bn_ofmap l) (bn_size l)" using o by blast
  have fr: "\<forall>y. y \<notin> ?out \<longrightarrow> dmem s' y = dmem s y"
    using s'(4) cell_span [OF out bn_indices(2) [OF ok _ _ tile]] by blast
  note keeps = bn_keeps [OF ok fr]
  have far: "?out \<inter> span q (8 * n) = {}" if "beside q n (bn_ofmap l) (bn_size l)" for q n
    using beside_span [OF that] by blast
  have w: "bn_weights l p m0 (dmem s')" if "bn_weights l p m0 (dmem s)"
    by (rule keeps(1) [OF _ that]) (use far bn_outside [OF ok] o in \<open>simp add: Int_Un_distrib\<close>)
  have "elt (dmem s) (bn_obuf l p k) (bn_loc l x c) = batchnorm_spec F l m0 (oh * ?IW + x) (ci + c)" if "x < ?IW" "c < ?TC" for x c
  proof -
    have "c mod ?P \<in> (\<lambda>h. unat (snrt_cluster_core_idx d h)) ` H" using o by simp
    then obtain h where "h \<in> H" "unat (snrt_cluster_core_idx d h) = c mod ?P" by auto
    then show ?thesis using fin [of h] that k t by (simp add: bn_computed_def)
  qed
  then have "bn_stored F l tiles m0 k (dmem s')" using s'(3) t by (simp add: bn_stored_def)
  moreover have "bn_stored F l tiles m0 i (dmem s')" if i: "i < length tiles" "i \<noteq> k" "bn_stored F l tiles m0 i (dmem s)" for i
  proof (unfold bn_stored_def, intro allI impI)
    fix x c assume xc: "x < ?IW" "c < ?TC"
    have "tiles ! i \<noteq> (oh, ci)" using v i k t by (metis nth_eq_iff_index_eq)
    note ne = bn_tiles_apart [OF ok ts [OF i(1)] tile this xc]
    have "elt (dmem s') (bn_ofmap l) (bn_pos l (tiles ! i) x c) = elt (dmem s) (bn_ofmap l) (bn_pos l (tiles ! i) x c)"
    proof (rule elt_cell)
      fix y assume y: "y \<in> cell (bn_ofmap l) (bn_pos l (tiles ! i) x c)"
      have "y \<notin> cell (bn_ofmap l) (bn_pos l (oh, ci) x' c')" if "x' < ?IW" "c' < ?TC" for x' c'
        using cells_disjoint [OF out bn_indices(2) [OF ok xc ts [OF i(1)]] bn_indices(2) [OF ok that tile] ne [OF that]] y by blast
      then show "dmem s' y = dmem s y" using s'(4) by blast
    qed
    then show "elt (dmem s') (bn_ofmap l) (bn_pos l (tiles ! i) x c) = batchnorm_spec F l m0 (fst (tiles ! i) * ?IW + x) (snd (tiles ! i) + c)"
      using i(3) xc by (simp add: bn_stored_def)
  qed
  moreover have "bn_inv exec sched_w sched_in sched_out W T d H l p tiles m0 s'" by (rule bn_inv_keep [OF inv s'(2), of ?out]) (use fr in auto)
  moreover have "bn_loaded l p tiles m0 i (dmem s')" if "bn_loaded l p tiles m0 i (dmem s)" for i
    by (rule keeps(2) [OF far _ that]) (use o bn_outside [OF ok] w that in \<open>auto simp: bn_loaded_def\<close>)
  moreover have "bn_computed F d l p tiles m0 i h (dmem s')" if "bn_computed F d l p tiles m0 i h (dmem s)" for i h
    by (rule keeps(3) [OF far that]) (use o bn_outside [OF ok] in blast)
  ultimately show ?thesis using s'(1) t w by (auto simp: bn_ready_def)
qed

interpretation bn: double_buffer "length tiles" H
    "\<lambda>k (st, cs). map_option (\<lambda>st. (st, cs)) (batchnorm_load exec sched_w (sched_in k) l p k (tiles ! k) st)"
    "\<lambda>k. batchnorm_compute W T F d l p k (tiles ! k)"
    "\<lambda>k (st, cs). map_option (\<lambda>st. (st, cs)) (batchnorm_store exec (sched_out k) l p k (tiles ! k) st)"
    "\<lambda>s. bn_inv exec sched_w sched_in sched_out W T d H l p tiles m0 (fst s)" "\<lambda>k s. bn_loaded l p tiles m0 k (dmem (fst s))"
    "\<lambda>k h s. bn_ready W d l p m0 k (dmem (fst s)) (snd s h)" "\<lambda>k h s. bn_computed F d l p tiles m0 k h (dmem (fst s))"
    "\<lambda>k s. bn_stored F l tiles m0 k (dmem (fst s))"
  for exec sched_w sched_in sched_out W T F d H l p tiles m0
proof (unfold_locales, goal_cases)
  case (1 s k)
  obtain st cs where s: "s = (st, cs)" by (cases s)
  show ?case using bn_load_law [OF 1 [unfolded s fst_conv], of F] unfolding s by auto
next
  case (2 s k h)
  obtain st cs where s: "s = (st, cs)" by (cases s)
  obtain st' c' where r: "batchnorm_compute W T F d l p k (tiles ! k) h (st, cs) = Some (st', cs(h := c'))"
      "bn_inv exec sched_w sched_in sched_out W T d H l p tiles m0 st'" "bn_computed F d l p tiles m0 k h (dmem st')"
      "bn_ready W d l p m0 (Suc k) (dmem st') c'" "\<forall>i. bn_loaded l p tiles m0 i (dmem st) \<longrightarrow> bn_loaded l p tiles m0 i (dmem st')"
      "\<forall>i c. bn_ready W d l p m0 i (dmem st) c \<longrightarrow> bn_ready W d l p m0 i (dmem st') c"
      "\<forall>h'\<in>H. h' \<noteq> h \<longrightarrow> bn_computed F d l p tiles m0 k h' (dmem st) \<longrightarrow> bn_computed F d l p tiles m0 k h' (dmem st')"
      "\<forall>i h'. Suc i = k \<longrightarrow> bn_computed F d l p tiles m0 i h' (dmem st) \<longrightarrow> bn_computed F d l p tiles m0 i h' (dmem st')"
      "\<forall>i<length tiles. bn_stored F l tiles m0 i (dmem st) \<longrightarrow> bn_stored F l tiles m0 i (dmem st')"
    using bn_compute_law [where cs = cs and F = F, OF 2 [unfolded s fst_conv snd_conv]] by blast
  show ?case by (intro exI [of _ "(st', cs(h := c'))"]) (use r in \<open>simp add: s\<close>)
next
  case (3 s k)
  obtain st cs where s: "s = (st, cs)" by (cases s)
  show ?case using bn_store_law [OF 3 [unfolded s fst_conv]] unfolding s by auto
qed

section \<open>Properties\<close>

text \<open>
  C12. \<open>batchnorm_layer\<close> with its double buffering and stream registers: for every order in which the cores of the cluster work between two barriers and every
  pace of the transfers, each pixel in the rows of the cluster gets for every channel the fused multiply-add of its value with the weights of the channel, and
  nothing else changes but L1 and the output. The configuration that the streams get with the first tile serves all later ones.
\<close>

theorem batchnorm_layer_correct:
  assumes exec: "dma_backend exec" and ok: "batchnorm_ok W T d H l (snrt_l1_start_addr cfg)" and order: "orders_ok H order" and idle: "pending st = []"
    and cores: "\<And>h. h \<in> H \<Longrightarrow> movers_ready (cs h)"
    and sched: "2 \<le> sum_list sched_w" "\<And>k. 1 \<le> sum_list (sched_in k)" "\<And>k. 1 \<le> sum_list (sched_out k)"
    and some: "snrt_cluster_idx d dm < bn_IH l"
  shows "\<exists>st' cs'. batchnorm_layer W T exec sched_w sched_in sched_out F cfg d dm order l (st, cs) = Some (st', cs') \<and>
    (\<forall>oh\<in>set (loop_values (unat (snrt_cluster_idx d dm)) (unat (bn_IH l)) (unat (snrt_cluster_num d))). \<forall>x<unat (bn_IW l). \<forall>ch<unat (bn_CI l).
      elt (dmem st') (bn_ofmap l) ((oh * unat (bn_IW l) + x) * unat (bn_CI l) + ch) = batchnorm_spec F l (dmem st) (oh * unat (bn_IW l) + x) ch) \<and>
    (\<forall>y. y \<notin> span (snrt_l1_start_addr cfg) (8 * bn_total l) \<union> span (bn_ofmap l) (8 * bn_size l) \<longrightarrow> dmem st' y = dmem st y)"
proof -
  define p where "p = snrt_l1_start_addr cfg"
  define tiles where "tiles = batchnorm_tiles l (unat (snrt_cluster_idx d dm)) (unat (snrt_cluster_num d))"
  note ok = ok [folded p_def] and o = ok [unfolded batchnorm_ok_def Let_def, folded p_def]
  let ?TC = "unat (bn_TILE_CI l)" and ?CI = "unat (bn_CI l)" and ?rows = "loop_values (unat (snrt_cluster_idx d dm)) (unat (bn_IH l)) (unat (snrt_cluster_num d))"
  have ts: "set tiles = set ?rows \<times> set (loop_values 0 ?CI ?TC)" "distinct tiles"
    by (simp_all add: tiles_def batchnorm_tiles_def distinct_product distinct_loop_values)
  have "(unat (snrt_cluster_idx d dm), 0) \<in> set tiles" unfolding ts using some o by (simp add: set_loop_values word_less_nat_alt)
  then have ne: "tiles \<noteq> []" "0 < length tiles" by auto
  have "bn_tile l t" if "t \<in> set tiles" for t using that unfolding ts by (auto simp: bn_tile_def set_loop_values)
  then have inv: "bn_inv exec sched_w sched_in sched_out W T d H l p tiles (dmem st) (fst (st, cs))" using exec ok idle sched ts(2) by (simp add: bn_inv_def)
  have ready: "bn_ready W d l p (dmem st) 0 (dmem (fst (st, cs))) (snd (st, cs) h)" if "h \<in> H" for h
    using cores [OF that] by (auto simp: bn_ready_def core_ready_def movers_ready_def)
  obtain s' where s': "db_run (length tiles) (\<lambda>k (st, cs). map_option (\<lambda>st. (st, cs)) (batchnorm_load exec sched_w (sched_in k) l p k (tiles ! k) st))
      (\<lambda>k. batchnorm_compute W T F d l p k (tiles ! k)) (\<lambda>k (st, cs). map_option (\<lambda>st. (st, cs)) (batchnorm_store exec (sched_out k) l p k (tiles ! k) st)) order (st, cs) = Some s'"
      "bn_inv exec sched_w sched_in sched_out W T d H l p tiles (dmem st) (fst s')" "\<forall>k<length tiles. bn_stored F l tiles (dmem st) k (dmem (fst s'))"
    using bn.run_stores_all [OF inv ready ne(2) order, of F] by blast
  have "elt (dmem (fst s')) (bn_ofmap l) ((oh * unat (bn_IW l) + x) * ?CI + ch) = batchnorm_spec F l (dmem st) (oh * unat (bn_IW l) + x) ch"
    if oh: "oh \<in> set ?rows" and x: "x < unat (bn_IW l)" and ch: "ch < ?CI" for oh x ch
  proof -
    have "(oh, ch - ch mod ?TC) \<in> set tiles" unfolding ts using oh ch by (auto simp: set_loop_values dvd_minus_mod)
    then obtain k where k: "k < length tiles" "tiles ! k = (oh, ch - ch mod ?TC)" by (metis in_set_conv_nth)
    have c: "ch mod ?TC < ?TC" "ch - ch mod ?TC + ch mod ?TC = ch" using o by simp_all
    then show ?thesis using s'(3) k x unfolding bn_stored_def bn_pos_def by (metis (no_types, lifting) case_prod_conv fst_conv snd_conv)
  qed
  moreover have "batchnorm_layer W T exec sched_w sched_in sched_out F cfg d dm order l (st, cs) = Some s'"
    using s'(1) ne(1) unfolding batchnorm_layer_def Let_def tiles_def [symmetric] p_def [symmetric] by simp
  ultimately show ?thesis using s'(2) unfolding p_def [symmetric] by (intro exI [of _ "fst s'"] exI [of _ "snd s'"]) (auto simp: bn_inv_def)
qed

text \<open>The second one of two rows, on the second of two clusters, with four channels in tiles of two.\<close>

definition example_norm :: batchnorm_layer_t where
  "example_norm = \<lparr>bn_CI = 4, bn_IH = 2, bn_IW = 2, bn_TILE_CI = 2, bn_ifmap = 0x80000000, bn_ofmap = 0x80001000,
     bn_gamma = 0x80002000, bn_beta = 0x80003000, bn_dtype = FP64\<rparr>"

theorem batchnorm_layer_correct_witness:
  "\<exists>st' cs'. batchnorm_layer ssr_default_widths 0x10000000 copy_seq [2] (\<lambda>_. [1]) (\<lambda>_. [0, 1]) int_fpu example_cfg example_defs 5
      (\<lambda>_. [Compute_core 4, Dm_core, Compute_core 3]) example_norm (counting_dma, \<lambda>_. \<lparr>ssr = ssr_reset, reps = \<lambda>_. 0\<rparr>) = Some (st', cs') \<and>
    (\<forall>x<2. \<forall>ch<4. elt (dmem st') 0x80001000 ((2 + x) * 4 + ch) = batchnorm_spec int_fpu example_norm ucast (2 + x) ch)"
proof -
  have defs: "snrt_cluster_compute_core_num example_defs = 2" "snrt_cluster_num example_defs = 2" "snrt_cluster_idx example_defs 5 = 1"
    "snrt_cluster_core_idx example_defs 3 = 0" "snrt_cluster_core_idx example_defs 4 = 1" "snrt_l1_start_addr example_cfg = 0x10000000"
    by (simp_all add: example_defs_def team_defs example_cfg_def snrt_l1_start_addr_def)
  have fields: "bn_CI example_norm = 4" "bn_IH example_norm = 2" "bn_IW example_norm = 2" "bn_TILE_CI example_norm = 2" "bn_ifmap example_norm = 0x80000000"
    "bn_ofmap example_norm = 0x80001000" "bn_gamma example_norm = 0x80002000" "bn_beta example_norm = 0x80003000"
    by (simp_all add: example_norm_def)
  have sizes: "bn_total example_norm = 24" "bn_size example_norm = 16" by (simp_all add: bn_total_def bn_half_def bn_size_def fields)
  have tcdm: "in_tcdm ssr_default_widths 0x10000000 0x10000000 24" by (rule in_tcdm_array [of _ _ _ 0]) (simp_all add: ssr_default_widths_def)
  have "(8 :: u32) dvd 16" by (rule dvdI [of _ _ 2]) simp
  then have loops: "bn_loops_ok ssr_default_widths 2 2 2" by (simp add: bn_loops_ok_def loop_ok_def ssr_default_widths_def)
  have "{..<2 :: nat} = {1, 0}" by auto
  then have ok: "batchnorm_ok ssr_default_widths 0x10000000 example_defs {4, 3} example_norm (snrt_l1_start_addr example_cfg)"
    using tcdm loops by (simp add: batchnorm_ok_def Let_def defs fields sizes holds_def beside_def)
  have order: "orders_ok {4, 3} (\<lambda>_. [Compute_core 4, Dm_core, Compute_core 3])" by (auto simp: orders_ok_def)
  have idle: "pending counting_dma = []" and m: "dmem counting_dma = ucast" by (simp_all add: counting_dma_def dma_reset_def)
  have cores: "movers_ready \<lparr>ssr = ssr_reset, reps = \<lambda>_. 0\<rparr>" using ssr_reset_idle by (simp add: movers_ready_def) (simp add: ssr_reset_def Let_def)
  have row: "1 \<in> set (loop_values (unat (snrt_cluster_idx example_defs 5)) (unat (bn_IH example_norm)) (unat (snrt_cluster_num example_defs)))"
    by (simp add: set_loop_values defs fields)
  obtain st' cs' where run: "batchnorm_layer ssr_default_widths 0x10000000 copy_seq [2] (\<lambda>_. [1]) (\<lambda>_. [0, 1]) int_fpu example_cfg example_defs 5
      (\<lambda>_. [Compute_core 4, Dm_core, Compute_core 3]) example_norm (counting_dma, \<lambda>_. \<lparr>ssr = ssr_reset, reps = \<lambda>_. 0\<rparr>) = Some (st', cs')"
    and out: "\<forall>oh\<in>set (loop_values (unat (snrt_cluster_idx example_defs 5)) (unat (bn_IH example_norm)) (unat (snrt_cluster_num example_defs))).
      \<forall>x<unat (bn_IW example_norm). \<forall>ch<unat (bn_CI example_norm).
        elt (dmem st') (bn_ofmap example_norm) ((oh * unat (bn_IW example_norm) + x) * unat (bn_CI example_norm) + ch) =
          batchnorm_spec int_fpu example_norm (dmem counting_dma) (oh * unat (bn_IW example_norm) + x) ch"
    using batchnorm_layer_correct [OF seq_engine.dma_backend_axioms ok order idle, where cs = "\<lambda>_. \<lparr>ssr = ssr_reset, reps = \<lambda>_. 0\<rparr>" and sched_w = "[2]"
        and sched_in = "\<lambda>_. [1]" and sched_out = "\<lambda>_. [0, 1]" and F = int_fpu and dm = 5] cores defs fields by auto
  from bspec [OF out row] have "\<forall>x<2. \<forall>ch<4. elt (dmem st') 0x80001000 ((2 + x) * 4 + ch) = batchnorm_spec int_fpu example_norm ucast (2 + x) ch"
    by (simp add: fields m)
  with run show ?thesis by blast
qed

end
