(* ===== verification/Spec2Isabelle.thy ===== *)
theory Spec2Isabelle
  imports Kmp Tiled Prng FusedConcat GemmOpt Saris Atax Statistics Mnist Maxpool Gelu Batchnorm
begin

text \<open>
  A verification development for the software of the Snitch/SNAX cluster.

  \<^bold>\<open>The program.\<close> A cluster has a few 32-bit compute cores with an FPU, one data mover (DM) core with a
  DMA engine, a banked L1 memory (TCDM) and hardware accelerators behind control registers; a system has one
  or more clusters. The software is a runtime in C, \<open>sw/snRuntime\<close>, with the target-specific parts under
  \<open>target/snitch_cluster/sw/runtime\<close>, the accelerator libraries under \<open>target/snitch_cluster/sw/snax\<close>, and
  applications and kernels (\<open>sw/apps\<close>, \<open>sw/blas\<close>, \<open>sw/dnn\<close>, \<open>target/snitch_cluster/sw/apps\<close>).
  All cores of all clusters run the same program. They find out who they are from \<open>mhartid\<close>, share the L1 of
  their cluster and the L3, synchronise by hardware barriers, atomic memory operations and interrupts, and
  move data by DMA transfers, which the DM core issues.

  \<^bold>\<open>The theories.\<close> Each models one part, in the order of the source files, and proves its properties; the
  functions keep their C names.
    \<^item> \<open>Prelude\<close>: machine integers, byte-addressed memory, the counting loop \<open>for_upto\<close>, lemmas on words,
      reachability of step relations and the locale \<open>step_invariant\<close> (an invariant of a step relation holds
      in every reachable state).
    \<^item> \<open>Team\<close>: \<open>team.h\<close> and the memory map, as functions of the platform's parameters and the hart id. The
      global compute core index is a bijection.
    \<^item> \<open>Alloc\<close>: \<open>alloc.h\<close>, the bump allocators and \<open>snrt_memset\<close>. Chunks are aligned and disjoint.
    \<^item> \<open>Dma\<close>: \<open>dma.h\<close>, down to the instruction words that the C code assembles by hand, which the model
      decodes and executes on the registers of the DMA front end. Memset and the 1D and 2D tiles move the
      bytes they should and no others, and waiting returns with everything done.
    \<^item> \<open>Ssr\<close>: \<open>ssr.h\<close> and the address generator of the stream registers. A configured stream walks the affine
      loop nest it was configured for.
    \<^item> \<open>Irq\<close>: \<open>riscv.h\<close>, \<open>cluster_interrupts.h\<close> and both variants of \<open>global_interrupts.h\<close>.
    \<^item> \<open>Sync\<close>: \<open>sync.h\<close>. Mutexes, software and global barriers and the all-to-all reduction are step relations
      in which any core may take its next memory access at any time: mutual exclusion, no core leaves a barrier
      early, no deadlock, the sum of the reduction; and the phases of the DMA reduction tree.
    \<^item> \<open>Dm\<close>: \<open>dm.h\<close>, the service that executes transfers on behalf of compute cores. The task ring
      refines a bounded FIFO; the protocol with the clients is a step relation: tasks are done once and in order,
      and two reachable states from which a client never returns.
    \<^item> \<open>Eu\<close>: \<open>omp/eu.h\<close>, the event unit: a master and workers as a step relation. A joined region has run once
      on each of its cores; the master can always come back.
    \<^item> \<open>Kmp\<close>: \<open>omp/kmp.c\<close>, \<open>omp.c\<close> and their headers: forking with arguments, and the static schedules
      partition the iterations.
    \<^item> \<open>Boot\<close>: \<open>start.c\<close> of the targets (thread-local and cluster-local storage, exit code), \<open>perf_cnt.h\<close>,
      and the consoles.
    \<^item> \<open>SnaxLib\<close>: the accelerator libraries: register accesses, packing, result checks and golden models.
    \<^item> \<open>SnaxApps\<close>: the applications that drive the accelerators, cut into the segments between barriers.
    \<^item> \<open>Tiled\<close>: the double-buffered application \<open>tiled.c\<close> from end to end, with the DMA engine and the
      accelerator working concurrently.
    \<^item> \<open>Actions\<close>, \<open>Doubles\<close>: regions of memory and steps that are independent of each other; arrays of doubles,
      and the DMA tiles as they move elements.
    \<^item> \<open>Gemm\<close>: \<open>sw/blas/gemm/src\<close>: the driver \<open>gemm\<close> (tiles, double loop over output tiles, accumulation loop), the
      distribution \<open>sc_st_gemm\<close> of the rows over the cores and the baseline kernel \<open>gemm_fp64_naive\<close>. The tiled parallel
      product equals the plain triple loop bit for bit.
    \<^item> \<open>GemmOpt\<close>: the kernel \<open>gemm_fp64_opt\<close>, on the stream registers of \<open>Ssr\<close> and the hardware loop \<open>frep\<close>.
    \<^item> \<open>Concat\<close>: the DNN layer \<open>concat_layer\<close> on all clusters, with its error return. \<open>FusedConcat\<close>: \<open>concat_layer\<close> followed by \<open>gemm\<close> on all
      clusters, and the optimised form of this layer.
    \<^item> \<open>Layers\<close>, \<open>Maxpool\<close>, \<open>Batchnorm\<close>, \<open>Gelu\<close>: layers that move tiles through L1. \<open>Layers\<close> has the transfers of tiles and the scheme of double
      buffering, as the locale \<open>double_buffer\<close>: what loading, computing and storing a tile must leave alone for the results to be right
      in any order of the cores. \<open>Maxpool\<close> interprets it on the max-pooling layer, and
      \<open>Batchnorm\<close> on batch normalisation, whose cores keep the configuration of their streams from tile to tile; \<open>Gelu\<close> is the activation layer.
    \<^item> \<open>Saris\<close>: the C part of the runtime of the stencils, \<open>sw/saris/runtime\<close>, compared with \<open>Ssr\<close> and \<open>Dma\<close>.
    \<^item> \<open>Kernels\<close>, \<open>Atax\<close>, \<open>Statistics\<close>: the data-parallel applications \<open>sw/apps/atax\<close>, \<open>covariance\<close> and \<open>correlation\<close> from the first
      transfer to the self-check: static shares of rows or columns, passes over memory in any order of the cores.
    \<^item> \<open>Axpy\<close>: \<open>sw/blas/axpy\<close>, the scaled vector sum on stream registers that are read and written, with its application.
    \<^item> \<open>Mnist\<close>: \<open>sw/apps/mnist\<close>: the kernels of a network with softmax, and the training program as the sequences of calls of its
      cores, which a step relation interleaves between barriers: what a batch should compute, and that none is ever trained.
    \<^item> \<open>Fpu\<close>, \<open>Prng\<close>: the floating-point operations as a parameter; the leapfrog random number generator and
      the Monte Carlo program, whose parallel run counts what the sequential one counts.

  \<^bold>\<open>State and effects.\<close> Sequential code is a function on an explicit state record. Code that runs on several
  cores at once is an inductive step relation with one rule instance per memory access; its properties hold
  for every reachable state, by an invariant (\<open>step_invariant\<close> is interpreted on each system: \<open>dm\<close>, \<open>lost\<close>,
  \<open>stuck\<close>, \<open>event_unit\<close> and those of \<open>Sync\<close>). Integers have the width they have in C and wrap around;
  natural numbers are used only for counters that the invariant bounds.

  \<^bold>\<open>Hardware and generated code.\<close> What is not in the repository, or not C, is a parameter: the generated
  platform header is the record \<open>gen_cfg\<close>; the engine that moves the bytes of a transfer is the locale
  \<open>dma_backend\<close> (interpreted on byte-by-byte copying); the MAC engine is the locale \<open>mac_engine\<close>
  (interpreted on a function that stores the products); the FPU is the record \<open>fp_ops\<close>; linker symbols are
  \<open>crt_syms\<close>; single precision and the mathematical library are \<open>fp32_ops\<close>. A bounded queue is the locale \<open>bounded_fifo\<close>, interpreted on the task ring.

  \<^bold>\<open>Loops that wait.\<close> A loop that polls the DMA engine takes a schedule: how many transfers complete before
  each poll. It returns \<open>None\<close> when the schedule ends first, and the liveness theorems show that it returns
  \<open>Some\<close> as soon as the schedule covers the queued transfers. Loops that wait for other cores are states of a
  step relation. Between two barriers the compute cores of \<open>Gemm\<close>, \<open>Axpy\<close>, \<open>Atax\<close>, \<open>Gelu\<close> and \<open>Statistics\<close>, all cores of \<open>Maxpool\<close> and \<open>Batchnorm\<close>, and the clusters of \<open>Concat\<close> and \<open>FusedConcat\<close> run one
  after the other in an arbitrary order, as they write disjoint parts of memory and read nothing that another one writes. In \<open>Tiled\<close> the program does not wait for its transfers before a barrier; there the model
  assumes that the transfers of a phase complete before the barrier does.

  \<^bold>\<open>Not modelled.\<close> The assembly start-up file and the trace and debugger headers, which have no C
  semantics; \<open>printf\<close>, which is third-party code; the simulator back ends and the host-side test harness; the DNN
  kernels other than concatenation, its fusion with a linear layer, max-pooling, batch normalisation and GELU, the stencils above their runtime and the GEMM kernels for the smaller formats, most of
  which are inline assembly over FPU extensions that the repository does not define (\<open>gemm\<close> takes these kernels, and the
  reduction between clusters that it calls for \<open>parallelize_k\<close>, as parameters); the small test programs.
\<close>

end
